(* ===== verification/Prelude.thy ===== *)
theory Prelude
  imports Main "HOL-Library.Word" "HOL-Library.Monad_Syntax"
begin

unbundle bit_operations_syntax

text \<open>
  What the component theories share: the machine types of the code, its asserts as
  values of the option monad, and generic lemmas.

  A model function whose C++ code can stop with a failed \<open>assert\<close>, read or write outside
  an object, or loop forever returns an \<open>option\<close>: \<open>None\<close> is exactly one of these outcomes.
  A theorem that such a function returns \<open>Some\<close> therefore states that no assert fires,
  that no access is out of bounds and that every loop ends.
\<close>

type_synonym u8 = "8 word"
type_synonym u16 = "16 word"
type_synonym u32 = "32 word"
type_synonym u64 = "64 word"

named_theorems heap_simps "reads and writes of node heaps"

text \<open>The macro \<open>assert\<close> of include/dlh/assert.hpp in a build without \<open>NDEBUG\<close>.\<close>

definition assert_that :: "bool \<Rightarrow> unit option" where
  "assert_that b = (if b then Some () else None)"

lemma assert_that_simps [simp]:
  "assert_that True = Some ()"
  "assert_that False = None"
  by (simp_all add: assert_that_def)

lemma assert_that_eq_Some [simp]: "assert_that b = Some u \<longleftrightarrow> b"
  by (simp add: assert_that_def)

lemma assert_that_mono [partial_function_mono]:
  "mono_option (\<lambda>f. assert_that b)"
  by (rule option.const_mono)

text \<open>The largest value of \<open>uint32_t\<close>, and the size of its range.\<close>

definition UINT32_MAX :: nat where
  "UINT32_MAX = 4294967295"

text \<open>Sorted lists that stay sorted when cut, joined or extended.\<close>

lemma sorted_wrt_appendD:
  assumes "sorted_wrt R (xs @ ys)"
  shows "sorted_wrt R xs" and "sorted_wrt R ys"
    and "\<And>x y. x \<in> set xs \<Longrightarrow> y \<in> set ys \<Longrightarrow> R x y"
  using assms by (auto simp: sorted_wrt_append)

end
