(* ===== verification/Comparison.thy ===== *)
theory Comparison
  imports Prelude
begin

text \<open>
  include/dlh/comparison.hpp: the three-way comparison the ordered containers are
  instantiated with, and the contract they rely on.

  \<open>comparison\<close> is that contract (what \<open>C::compare\<close> promises to a \<open>TreeSet\<close>), \<open>lookup\<close> the
  contract of a comparison of an element with a search value of another type (a key of a
  \<open>KeyValue\<close>, say).  Both are interpreted on the code's own comparisons below.
\<close>

section \<open>The comparisons of the code\<close>

text \<open>\<open>Comparison::compare\<close> for integral types: \<open>(b < a) - (a < b)\<close>.\<close>

definition compare :: "'a::linorder \<Rightarrow> 'a \<Rightarrow> int" where
  "compare a b = of_bool (b < a) - of_bool (a < b)"

text \<open>\<open>KeyValue\<close> of include/dlh/container/internal/keyvalue.hpp; it is compared by its key.\<close>

record ('k, 'v) key_value =
  key :: 'k
  val :: 'v

definition compare_kv_kv ::
    "('k \<Rightarrow> 'k \<Rightarrow> int) \<Rightarrow> ('k, 'v) key_value \<Rightarrow> ('k, 'v) key_value \<Rightarrow> int" where
  "compare_kv_kv cmp a b = cmp (key a) (key b)"

definition compare_kv_key ::
    "('k \<Rightarrow> 'o \<Rightarrow> int) \<Rightarrow> ('k, 'v) key_value \<Rightarrow> 'o \<Rightarrow> int" where
  "compare_kv_key cmp a b = cmp (key a) b"

text \<open>\<open>Pair\<close> is compared lexicographically.\<close>

definition compare_pair ::
    "('a \<Rightarrow> 'a \<Rightarrow> int) \<Rightarrow> ('b \<Rightarrow> 'b \<Rightarrow> int) \<Rightarrow> 'a \<times> 'b \<Rightarrow> 'a \<times> 'b \<Rightarrow> int" where
  "compare_pair cf cs a b =
     (let f = cf (fst a) (fst b) in if f = 0 then cs (snd a) (snd b) else f)"

section \<open>The contract\<close>

locale comparison =
  fixes cmp :: "'a \<Rightarrow> 'a \<Rightarrow> int"
  assumes cmp_less_iff: "cmp a b < 0 \<longleftrightarrow> 0 < cmp b a"
    and cmp_trans: "cmp a b \<le> 0 \<Longrightarrow> cmp b c \<le> 0 \<Longrightarrow> cmp a c \<le> 0"
begin

lemma cmp_refl [simp]: "cmp a a = 0"
  using cmp_less_iff [of a a] by linarith

lemma cmp_zero_sym: "cmp a b = 0 \<longleftrightarrow> cmp b a = 0"
  using cmp_less_iff [of a b] cmp_less_iff [of b a] by linarith

lemma cmp_less_trans:
  assumes "cmp a b < 0" and "cmp b c \<le> 0"
  shows "cmp a c < 0"
proof (rule ccontr)
  assume "\<not> cmp a c < 0"
  then have "cmp c a \<le> 0" using cmp_less_iff [of a c] by linarith
  with assms(2) have "cmp b a \<le> 0" by (rule cmp_trans)
  with assms(1) show False using cmp_less_iff [of a b] by linarith
qed

lemma cmp_le_less_trans:
  assumes "cmp a b \<le> 0" and "cmp b c < 0"
  shows "cmp a c < 0"
proof (rule ccontr)
  assume "\<not> cmp a c < 0"
  then have "cmp c a \<le> 0" using cmp_less_iff [of a c] by linarith
  from this assms(1) have "cmp c b \<le> 0" by (rule cmp_trans)
  with assms(2) show False using cmp_less_iff [of b c] by linarith
qed

end

locale lookup = comparison cmp
  for cmp :: "'a \<Rightarrow> 'a \<Rightarrow> int" +
  fixes ocmp :: "'a \<Rightarrow> 'o \<Rightarrow> int"
  assumes ocmp_below: "cmp a b < 0 \<Longrightarrow> ocmp b v \<le> 0 \<Longrightarrow> ocmp a v < 0"
    and ocmp_above: "cmp a b < 0 \<Longrightarrow> 0 \<le> ocmp a v \<Longrightarrow> 0 < ocmp b v"

text \<open>Comparing with another element is a lookup.\<close>

sublocale comparison \<subseteq> self: lookup cmp cmp
proof
  show "cmp a b < 0 \<Longrightarrow> cmp b v \<le> 0 \<Longrightarrow> cmp a v < 0" for a b v
    by (rule cmp_less_trans)
next
  fix a b v
  assume ab: "cmp a b < 0" and av: "0 \<le> cmp a v"
  from av have "cmp v a \<le> 0" using cmp_less_iff [of a v] cmp_less_iff [of v a] by linarith
  from this ab have "cmp v b < 0" by (rule cmp_le_less_trans)
  then show "0 < cmp b v" using cmp_less_iff [of v b] by simp
qed

context comparison begin

lemma self_lookup: "lookup cmp cmp"
  by unfold_locales

end

section \<open>The contract holds of the code's comparisons\<close>

lemma compare_less [simp]: "compare a b < 0 \<longleftrightarrow> a < b"
  and compare_zero [simp]: "compare a b = 0 \<longleftrightarrow> a = b"
  and compare_greater [simp]: "0 < compare a b \<longleftrightarrow> b < a"
  by (auto simp: compare_def of_bool_def)

lemma compare_le [simp]: "compare a b \<le> 0 \<longleftrightarrow> a \<le> b"
  by (auto simp: compare_def of_bool_def)

interpretation integral: comparison "compare :: 'a::linorder \<Rightarrow> 'a \<Rightarrow> int"
  by unfold_locales auto

text \<open>A map compares its entries by key, so the contract carries over from keys to entries.\<close>

lemma comparison_kv: "comparison cmp \<Longrightarrow> comparison (compare_kv_kv cmp)"
  unfolding comparison_def compare_kv_kv_def by blast

lemma lookup_kv:
  assumes "lookup cmp ocmp"
  shows "lookup (compare_kv_kv cmp) (compare_kv_key ocmp)"
  using assms
  unfolding lookup_def lookup_axioms_def comparison_def compare_kv_kv_def compare_kv_key_def
  by blast

interpretation integral_kv:
  lookup "compare_kv_kv (compare :: 'k::linorder \<Rightarrow> 'k \<Rightarrow> int)" "compare_kv_key compare"
  by (rule lookup_kv) (rule integral.self.lookup_axioms)

lemma comparison_pair:
  assumes "comparison cf" and "comparison cs"
  shows "comparison (compare_pair cf cs)"
proof -
  note f = comparison.cmp_less_iff [OF assms(1)] comparison.cmp_trans [OF assms(1)]
    comparison.cmp_less_trans [OF assms(1)] comparison.cmp_le_less_trans [OF assms(1)]
    comparison.cmp_zero_sym [OF assms(1)]
  note s = comparison.cmp_less_iff [OF assms(2)] comparison.cmp_trans [OF assms(2)]
  show ?thesis
  proof
    fix a b
    show "compare_pair cf cs a b < 0 \<longleftrightarrow> 0 < compare_pair cf cs b a"
      using f(1) [of "fst a" "fst b"] f(5) [of "fst a" "fst b"] s(1) [of "snd a" "snd b"]
      by (auto simp: compare_pair_def Let_def)
  next
    fix a b c
    assume ab: "compare_pair cf cs a b \<le> 0" and bc: "compare_pair cf cs b c \<le> 0"
    have fab: "cf (fst a) (fst b) \<le> 0" and fbc: "cf (fst b) (fst c) \<le> 0"
      using ab bc by (auto simp: compare_pair_def Let_def split: if_splits)
    have fac: "cf (fst a) (fst c) \<le> 0"
      by (rule f(2) [OF fab fbc])
    show "compare_pair cf cs a c \<le> 0"
    proof (cases "cf (fst a) (fst c) = 0")
      case False
      with fac show ?thesis by (simp add: compare_pair_def)
    next
      case True
      have "cf (fst a) (fst b) = 0" and "cf (fst b) (fst c) = 0"
        using f(3) [of "fst a" "fst b" "fst c"] f(4) [of "fst a" "fst b" "fst c"] fab fbc True
        by linarith+
      with ab bc True show ?thesis
        using s(2) [of "snd a" "snd b" "snd c"] by (simp add: compare_pair_def)
    qed
  qed
qed

interpretation integral_pair:
  comparison "compare_pair (compare :: 'a::linorder \<Rightarrow> 'a \<Rightarrow> int) (compare :: 'b::linorder \<Rightarrow> 'b \<Rightarrow> int)"
  by (rule comparison_pair) (rule integral.comparison_axioms)+

end
