(* ===== verification/Elements.thy ===== *)
theory Elements
  imports Prelude
begin

text \<open>
  include/dlh/container/internal/elements.hpp: the slot array that the tree and the hash
  containers inherit from.

  A slot holds an \<open>active\<close> flag, the value, and (in the records that extend \<open>node\<close>) the
  links of the container that uses it.  The array is the function \<open>e_node\<close>; its entries at
  indices from \<open>e_capacity\<close> on are not part of the array, and entries of fresh memory are
  unconstrained, as \<open>Memory::realloc\<close> leaves them.  Slot 0 is the null element, slots
  \<open>1 .. e_next - 1\<close> have been handed out, \<open>e_count\<close> of them are in use.
\<close>

record 'a node =
  n_active :: bool
  n_data :: 'a

record 'n elements =
  e_capacity :: nat
  e_next :: nat
  e_count :: nat
  e_node :: "nat \<Rightarrow> 'n"

text \<open>Writing to one slot.\<close>

definition upd_node :: "nat \<Rightarrow> ('n \<Rightarrow> 'n) \<Rightarrow> ('n, 'z) elements_scheme \<Rightarrow> ('n, 'z) elements_scheme" where
  "upd_node i f s = s\<lparr>e_node := (e_node s)(i := f (e_node s i))\<rparr>"

lemma upd_node_simps [simp, heap_simps]:
  "e_capacity (upd_node i f s) = e_capacity s"
  "e_next (upd_node i f s) = e_next s"
  "e_count (upd_node i f s) = e_count s"
  "e_node (upd_node i f s) = (e_node s)(i := f (e_node s i))"
  "elements.more (upd_node i f s) = elements.more s"
  by (simp_all add: upd_node_def)

text \<open>
  \<open>Elements::resize\<close>.  \<open>alloc\<close> says for which number of slots \<open>Memory::realloc\<close> returns memory;
  the contents of the slots that exist in both arrays are kept.
\<close>

definition elements_resize ::
    "(nat \<Rightarrow> bool) \<Rightarrow> nat \<Rightarrow> ('n, 'z) elements_scheme \<Rightarrow> ('n, 'z) elements_scheme \<times> bool" where
  "elements_resize alloc capacity s =
     (if \<not> alloc capacity then (s, False) else (s\<lparr>e_capacity := capacity\<rparr>, True))"

text \<open>
  \<open>Elements::clear\<close>: every slot from 0 to \<open>_next\<close> that is active is destroyed and marked
  unused.
\<close>

fun clear_loop :: "(nat \<Rightarrow> ('a, 'm) node_scheme) \<Rightarrow> nat \<Rightarrow> (nat \<Rightarrow> ('a, 'm) node_scheme)" where
  "clear_loop h 0 = h"
| "clear_loop h (Suc i) =
     (let h' = clear_loop h i in if n_active (h' i) then h'(i := (h' i)\<lparr>n_active := False\<rparr>) else h')"

definition elements_clear ::
    "(('a, 'm) node_scheme, 'z) elements_scheme \<Rightarrow> (('a, 'm) node_scheme, 'z) elements_scheme" where
  "elements_clear s =
     (if e_count s > 0
      then s\<lparr>e_node := clear_loop (e_node s) (e_next s), e_next := 1, e_count := 0\<rparr>
      else s)"

text \<open>
  \<open>Elements::is_node\<close>: the pointer arithmetic recovers the index of a slot from its address.
  \<open>addr\<close> is the address of the node asked for, \<open>base\<close> that of the array and \<open>sz\<close> the size
  of a node.
\<close>

definition is_node :: "nat \<Rightarrow> nat \<Rightarrow> nat \<Rightarrow> ('n, 'z) elements_scheme \<Rightarrow> nat option" where
  "is_node base sz addr s =
     (if base \<le> addr
      then (let index = (addr - base) div sz in if index < e_next s then Some index else None)
      else None)"

text \<open>
  The search for the last used slot, from \<open>j\<close> downwards, in the \<open>reorder\<close> of the containers; it
  asserts that it stays above \<open>i\<close>.
\<close>

fun skip_unused :: "(nat \<Rightarrow> ('a, 'm) node_scheme) \<Rightarrow> nat \<Rightarrow> nat \<Rightarrow> nat option" where
  "skip_unused h i 0 = (if n_active (h 0) then Some 0 else None)"
| "skip_unused h i (Suc j) =
     (if n_active (h (Suc j)) then Some (Suc j)
      else do { assert_that (Suc j > i); skip_unused h i j })"

section \<open>Lemmas\<close>

lemma clear_loop_eq:
  "clear_loop h n i = (if i < n then (h i)\<lparr>n_active := False\<rparr> else h i)"
  by (induction n arbitrary: i) (auto simp: Let_def less_Suc_eq)

lemma is_node_slot:
  assumes "0 < sz" and "i < e_next s"
  shows "is_node base sz (base + i * sz) s = Some i"
  using assms by (simp add: is_node_def)

lemma skip_unused_finds:
  "i < x \<Longrightarrow> x \<le> j \<Longrightarrow> n_active (h x) \<Longrightarrow>
    \<exists>j'. skip_unused h i j = Some j' \<and> i < j' \<and> j' \<le> j \<and> n_active (h j')
      \<and> (\<forall>y. j' < y \<longrightarrow> y \<le> j \<longrightarrow> \<not> n_active (h y))"
proof (induction j)
  case (Suc j)
  show ?case
  proof (cases "n_active (h (Suc j))")
    case False
    then have "x \<le> j" using Suc.prems by (cases "x = Suc j") auto
    then obtain j' where "skip_unused h i j = Some j' \<and> i < j' \<and> j' \<le> j \<and> n_active (h j')
      \<and> (\<forall>y. j' < y \<longrightarrow> y \<le> j \<longrightarrow> \<not> n_active (h y))"
      using Suc by blast
    then show ?thesis using False \<open>x \<le> j\<close> Suc.prems(1) by (auto simp: le_Suc_eq)
  qed (use Suc.prems in auto)
qed simp

text \<open>The values in the active slots \<open>1 .. n - 1\<close>, and a well-formed element array.\<close>

definition slot_values :: "(nat \<Rightarrow> ('a, 'm) node_scheme) \<Rightarrow> nat \<Rightarrow> nat \<Rightarrow> 'a list" where
  "slot_values h i n = map (\<lambda>i. n_data (h i)) (filter (\<lambda>i. n_active (h i)) [i..<n])"

definition elements_ok :: "(('a, 'm) node_scheme, 'z) elements_scheme \<Rightarrow> bool" where
  "elements_ok e \<longleftrightarrow> 1 \<le> e_next e \<and> e_count e = length (slot_values (e_node e) 1 (e_next e))
     \<and> (e_capacity e = 0 \<and> e_next e = 1
        \<or> 16 \<le> e_capacity e \<and> e_next e \<le> e_capacity e \<and> \<not> n_active (e_node e 0))
     \<and> e_capacity e \<le> UINT32_MAX"

lemma slot_values_step:
  assumes "i < n"
  shows "slot_values h i n = (if n_active (h i) then n_data (h i) # slot_values h (i + 1) n
    else slot_values h (i + 1) n)"
proof -
  have "[i..<n] = i # [i + 1..<n]" using assms by (simp add: upt_conv_Cons)
  then show ?thesis by (simp add: slot_values_def)
qed

lemma slot_values_cong:
  "(\<And>x. i \<le> x \<Longrightarrow> n_active (h' x) = n_active (h x) \<and> n_data (h' x) = n_data (h x)) \<Longrightarrow>
    slot_values h' i n = slot_values h i n"
  unfolding slot_values_def by (auto intro!: map_cong filter_cong)

end
