(* ===== verification/TreeSet.thy ===== *)
theory TreeSet
  imports Comparison Elements
begin

text \<open>
  include/dlh/container/tree.hpp: the state of \<open>TreeSet\<close> and its operations, in the order of
  the file's private helpers first.  A set is an AVL tree whose nodes are slots of an
  \<open>Elements\<close> array linked by index; 0 is the null link.  All loops of the code are kept as
  loops (\<open>partial_function (option)\<close>: \<open>None\<close> is a loop that does not end), all asserts are
  kept as \<open>assert_that\<close>, and a write to a slot outside the array is \<open>None\<close> as well.
\<close>

record 'a tree_node = "'a node" +
  t_balance :: int
  t_parent :: nat
  t_left :: nat
  t_right :: nat

record 'a treeset = "'a tree_node elements" +
  t_root :: nat

abbreviation set_balance :: "nat \<Rightarrow> int \<Rightarrow> 'a treeset \<Rightarrow> 'a treeset" where
  "set_balance i b \<equiv> upd_node i (t_balance_update (\<lambda>_. b))"

abbreviation set_parent :: "nat \<Rightarrow> nat \<Rightarrow> 'a treeset \<Rightarrow> 'a treeset" where
  "set_parent i p \<equiv> upd_node i (t_parent_update (\<lambda>_. p))"

abbreviation set_left :: "nat \<Rightarrow> nat \<Rightarrow> 'a treeset \<Rightarrow> 'a treeset" where
  "set_left i l \<equiv> upd_node i (t_left_update (\<lambda>_. l))"

abbreviation set_right :: "nat \<Rightarrow> nat \<Rightarrow> 'a treeset \<Rightarrow> 'a treeset" where
  "set_right i r \<equiv> upd_node i (t_right_update (\<lambda>_. r))"

abbreviation set_active :: "nat \<Rightarrow> bool \<Rightarrow> 'a treeset \<Rightarrow> 'a treeset" where
  "set_active i b \<equiv> upd_node i (n_active_update (\<lambda>_. b))"

abbreviation set_data :: "nat \<Rightarrow> 'a \<Rightarrow> 'a treeset \<Rightarrow> 'a treeset" where
  "set_data i v \<equiv> upd_node i (n_data_update (\<lambda>_. v))"

section \<open>Searching\<close>

partial_function (option) min_loop :: "(nat \<Rightarrow> 'a tree_node) \<Rightarrow> nat \<Rightarrow> nat option" where
  "min_loop h i = (if t_left (h i) \<noteq> 0 then min_loop h (t_left (h i)) else Some i)"

definition min_node :: "'a treeset \<Rightarrow> nat \<Rightarrow> nat option" where
  "min_node s i = (if i \<noteq> 0 then min_loop (e_node s) i else Some i)"

partial_function (option) max_loop :: "(nat \<Rightarrow> 'a tree_node) \<Rightarrow> nat \<Rightarrow> nat option" where
  "max_loop h i = (if t_right (h i) \<noteq> 0 then max_loop h (t_right (h i)) else Some i)"

definition max_node :: "'a treeset \<Rightarrow> nat \<Rightarrow> nat option" where
  "max_node s i = (if i \<noteq> 0 then max_loop (e_node s) i else Some i)"

partial_function (option) lower_loop ::
    "('a \<Rightarrow> 'o \<Rightarrow> int) \<Rightarrow> 'a treeset \<Rightarrow> 'o \<Rightarrow> nat \<Rightarrow> nat \<Rightarrow> nat option" where
  "lower_loop cmp s v i r =
     (if i = 0 then Some r
      else let e = e_node s i; c = cmp (n_data e) v in
        if c = 0 then (if t_left e \<noteq> 0 then max_node s (t_left e) else Some r)
        else if c < 0 then lower_loop cmp s v (t_right e) i
        else lower_loop cmp s v (t_left e) r)"

definition lower_node :: "('a \<Rightarrow> 'o \<Rightarrow> int) \<Rightarrow> 'a treeset \<Rightarrow> 'o \<Rightarrow> nat option" where
  "lower_node cmp s v = lower_loop cmp s v (t_root s) 0"

partial_function (option) floor_loop ::
    "('a \<Rightarrow> 'o \<Rightarrow> int) \<Rightarrow> 'a treeset \<Rightarrow> 'o \<Rightarrow> nat \<Rightarrow> nat \<Rightarrow> nat option" where
  "floor_loop cmp s v i r =
     (if i = 0 then Some r
      else let e = e_node s i; c = cmp (n_data e) v in
        if c = 0 then Some i
        else if c < 0 then floor_loop cmp s v (t_right e) i
        else floor_loop cmp s v (t_left e) r)"

definition floor_node :: "('a \<Rightarrow> 'o \<Rightarrow> int) \<Rightarrow> 'a treeset \<Rightarrow> 'o \<Rightarrow> nat option" where
  "floor_node cmp s v = floor_loop cmp s v (t_root s) 0"

partial_function (option) ceil_loop ::
    "('a \<Rightarrow> 'o \<Rightarrow> int) \<Rightarrow> 'a treeset \<Rightarrow> 'o \<Rightarrow> nat \<Rightarrow> nat \<Rightarrow> nat option" where
  "ceil_loop cmp s v i r =
     (if i = 0 then Some r
      else let e = e_node s i; c = cmp (n_data e) v in
        if c = 0 then Some i
        else if c < 0 then ceil_loop cmp s v (t_right e) r
        else ceil_loop cmp s v (t_left e) i)"

definition ceil_node :: "('a \<Rightarrow> 'o \<Rightarrow> int) \<Rightarrow> 'a treeset \<Rightarrow> 'o \<Rightarrow> nat option" where
  "ceil_node cmp s v = ceil_loop cmp s v (t_root s) 0"

partial_function (option) higher_loop ::
    "('a \<Rightarrow> 'o \<Rightarrow> int) \<Rightarrow> 'a treeset \<Rightarrow> 'o \<Rightarrow> nat \<Rightarrow> nat \<Rightarrow> nat option" where
  "higher_loop cmp s v i r =
     (if i = 0 then Some r
      else let e = e_node s i; c = cmp (n_data e) v in
        if c = 0 then (if t_right e \<noteq> 0 then min_node s (t_right e) else Some r)
        else if c < 0 then higher_loop cmp s v (t_right e) r
        else higher_loop cmp s v (t_left e) i)"

definition higher_node :: "('a \<Rightarrow> 'o \<Rightarrow> int) \<Rightarrow> 'a treeset \<Rightarrow> 'o \<Rightarrow> nat option" where
  "higher_node cmp s v = higher_loop cmp s v (t_root s) 0"

text \<open>
  \<open>contains_node(value, i, c)\<close>: the result flag with the final values of the reference
  parameters \<open>i\<close> (the node reached) and \<open>c\<close> (the last comparison).
\<close>

partial_function (option) contains_loop ::
    "('a \<Rightarrow> 'o \<Rightarrow> int) \<Rightarrow> (nat \<Rightarrow> 'a tree_node) \<Rightarrow> 'o \<Rightarrow> nat \<Rightarrow> (bool \<times> nat \<times> int) option" where
  "contains_loop cmp h v i =
     (let c = cmp (n_data (h i)) v in
      if c = 0 then Some (True, i, c)
      else if c < 0
        then (if t_right (h i) = 0 then Some (False, i, c) else contains_loop cmp h v (t_right (h i)))
        else (if t_left (h i) = 0 then Some (False, i, c) else contains_loop cmp h v (t_left (h i))))"

definition contains_node ::
    "('a \<Rightarrow> 'o \<Rightarrow> int) \<Rightarrow> 'a treeset \<Rightarrow> 'o \<Rightarrow> nat \<Rightarrow> int \<Rightarrow> (bool \<times> nat \<times> int) option" where
  "contains_node cmp s v i c =
     (if i \<noteq> 0 then contains_loop cmp (e_node s) v i else Some (False, i, c))"

section \<open>Relinking\<close>

text \<open>\<open>replace_node(parent, target, replacement, include_children)\<close>\<close>

definition replace_link :: "nat \<Rightarrow> nat \<Rightarrow> nat \<Rightarrow> 'a treeset \<Rightarrow> 'a treeset option" where
  "replace_link parent target replacement s =
     (if parent = 0 then do {
        assert_that (t_root s = target);
        Some (s\<lparr>t_root := replacement\<rparr>)
      } else do {
        assert_that (n_active (e_node s parent));
        if target = t_left (e_node s parent) then Some (set_left parent replacement s)
        else if target = t_right (e_node s parent) then Some (set_right parent replacement s)
        else None
      })"

definition replace_children :: "nat \<Rightarrow> nat \<Rightarrow> 'a treeset \<Rightarrow> 'a treeset option" where
  "replace_children target replacement s = do {
     assert_that (target \<noteq> 0);
     let s = set_balance replacement (t_balance (e_node s target)) s;
     let s = set_left replacement (t_left (e_node s target)) s;
     let l = t_left (e_node s replacement);
     s \<leftarrow> (if l \<noteq> 0
           then do { assert_that (t_parent (e_node s l) = target); Some (set_parent l replacement s) }
           else Some s);
     let s = set_right replacement (t_right (e_node s target)) s;
     let r = t_right (e_node s replacement);
     (if r \<noteq> 0
      then do { assert_that (t_parent (e_node s r) = target); Some (set_parent r replacement s) }
      else Some s)
   }"

definition replace_node ::
    "nat \<Rightarrow> nat \<Rightarrow> nat \<Rightarrow> bool \<Rightarrow> 'a treeset \<Rightarrow> 'a treeset option" where
  "replace_node parent target replacement include_children s = do {
     s \<leftarrow> replace_link parent target replacement s;
     if replacement \<noteq> 0 then do {
       let s = set_parent replacement parent s;
       if include_children then replace_children target replacement s else Some s
     } else Some s
   }"

text \<open>\<open>replace_node(target, replacement, include_children)\<close>\<close>

definition replace_node' :: "nat \<Rightarrow> nat \<Rightarrow> bool \<Rightarrow> 'a treeset \<Rightarrow> 'a treeset option" where
  "replace_node' target replacement include_children s =
     replace_node (t_parent (e_node s target)) target replacement include_children s"

text \<open>
  \<open>rotate(node, parent, left)\<close>: the new state, the new value of the reference \<open>parent\<close> (the root
  of the rotated subtree) and the result (no height change).
\<close>

definition rotate_simple :: "nat \<Rightarrow> nat \<Rightarrow> bool \<Rightarrow> 'a treeset \<Rightarrow> 'a treeset option" where
  "rotate_simple node parent left s = do {
     s \<leftarrow> (if left then do {
             let s = set_right parent (t_left (e_node s node)) s;
             let c = t_right (e_node s parent);
             s \<leftarrow> (if c \<noteq> 0
                   then do { assert_that (t_parent (e_node s c) = node); Some (set_parent c parent s) }
                   else Some s);
             Some (set_left node parent s)
           } else do {
             let s = set_left parent (t_right (e_node s node)) s;
             let c = t_left (e_node s parent);
             s \<leftarrow> (if c \<noteq> 0
                   then do { assert_that (t_parent (e_node s c) = node); Some (set_parent c parent s) }
                   else Some s);
             Some (set_right node parent s)
           });
     let s = set_parent parent node s;
     let s = set_balance parent (if t_balance (e_node s node) = 0 then if left then 1 else -1 else 0) s;
     Some (set_balance node (if t_balance (e_node s node) = 0 then if left then -1 else 1 else 0) s)
   }"

definition rotate_double :: "nat \<Rightarrow> nat \<Rightarrow> nat \<Rightarrow> bool \<Rightarrow> 'a treeset \<Rightarrow> 'a treeset" where
  "rotate_double node parent subroot left s =
     (let s = (if left then
                (let s = set_left node (t_right (e_node s subroot)) s;
                     c = t_left (e_node s node);
                     s = (if c \<noteq> 0 then set_parent c node s else s);
                     s = set_right subroot node s;
                     s = set_right parent (t_left (e_node s subroot)) s;
                     c = t_right (e_node s parent);
                     s = (if c \<noteq> 0 then set_parent c parent s else s)
                 in set_left subroot parent s)
              else
                (let s = set_right node (t_left (e_node s subroot)) s;
                     c = t_right (e_node s node);
                     s = (if c \<noteq> 0 then set_parent c node s else s);
                     s = set_left subroot node s;
                     s = set_left parent (t_right (e_node s subroot)) s;
                     c = t_left (e_node s parent);
                     s = (if c \<noteq> 0 then set_parent c parent s else s)
                 in set_right subroot parent s));
          s = set_parent node subroot s;
          s = set_parent parent subroot s;
          s = set_balance (if left then parent else node)
                (if t_balance (e_node s subroot) > 0 then -1 else 0) s;
          s = set_balance (if left then node else parent)
                (if t_balance (e_node s subroot) < 0 then 1 else 0) s
      in set_balance subroot 0 s)"

definition rotate ::
    "nat \<Rightarrow> nat \<Rightarrow> bool \<Rightarrow> 'a treeset \<Rightarrow> ('a treeset \<times> nat \<times> bool) option" where
  "rotate node parent left s = do {
     assert_that (node \<noteq> 0);
     assert_that (n_active (e_node s node));
     assert_that (parent \<noteq> 0);
     assert_that (n_active (e_node s parent));
     let grandparent = t_parent (e_node s parent);
     let b = t_balance (e_node s node);
     (s, subroot) \<leftarrow>
       (if (if left then b \<ge> 0 else b \<le> 0) then do {
          s \<leftarrow> rotate_simple node parent left s;
          Some (s, node)
        } else do {
          let subroot = (if left then t_left (e_node s node) else t_right (e_node s node));
          assert_that (subroot \<noteq> 0);
          assert_that (n_active (e_node s subroot));
          Some (rotate_double node parent subroot left s, subroot)
        });
     s \<leftarrow> replace_node grandparent parent subroot False s;
     Some (s, subroot, b = 0)
   }"

section \<open>Inserting and removing nodes\<close>

text \<open>The loop of \<open>insert(parent, element, c)\<close> that restores the balance.\<close>

partial_function (option) insert_loop ::
    "nat \<Rightarrow> nat \<Rightarrow> 'a treeset \<Rightarrow> 'a treeset option" where
  "insert_loop node parent s =
     (if parent = 0 then Some s
      else do {
        assert_that (t_parent (e_node s node) = parent);
        if node = t_right (e_node s parent) then
          (if t_balance (e_node s parent) < 0 then Some (set_balance parent 0 s)
           else if t_balance (e_node s parent) > 0
             then do { (s, subroot, same) \<leftarrow> rotate node parent True s; Some s }
           else do {
             let s = set_balance parent 1 s;
             insert_loop parent (t_parent (e_node s parent)) s
           })
        else do {
          assert_that (node = t_left (e_node s parent));
          (if t_balance (e_node s parent) > 0 then Some (set_balance parent 0 s)
           else if t_balance (e_node s parent) < 0
             then do { (s, subroot, same) \<leftarrow> rotate node parent False s; Some s }
           else do {
             let s = set_balance parent (-1) s;
             insert_loop parent (t_parent (e_node s parent)) s
           })
        }
      })"

text \<open>\<open>insert(parent, element, c)\<close>: the new state and the returned pair of index and flag.\<close>

definition insert_link ::
    "nat \<Rightarrow> nat \<Rightarrow> 'a treeset \<Rightarrow> ('a treeset \<times> nat \<times> bool) option" where
  "insert_link parent element s = do {
     let s = set_active element True s;
     let s = set_balance element 0 s;
     let s = set_left element 0 s;
     let s = set_right element 0 s;
     let s = set_parent element parent s;
     s \<leftarrow> insert_loop element parent s;
     Some (s\<lparr>e_count := e_count s + 1\<rparr>, element, True)
   }"

definition insert_node ::
    "('a \<Rightarrow> 'a \<Rightarrow> int) \<Rightarrow> nat \<Rightarrow> nat \<Rightarrow> int \<Rightarrow> 'a treeset \<Rightarrow> ('a treeset \<times> nat \<times> bool) option" where
  "insert_node cmp parent element c s = do {
     assert_that (element \<noteq> 0);
     if t_root s = 0 then do {
       assert_that (parent = 0);
       assert_that (e_count s = 0);
       insert_link parent element (s\<lparr>t_root := element\<rparr>)
     } else do {
       (found, parent, c) \<leftarrow>
         (if parent = 0 then contains_node cmp s (n_data (e_node s element)) (t_root s) c
          else Some (False, parent, c));
       if found \<or> c = 0 then do {
         assert_that (n_active (e_node s parent));
         Some (s, parent, False)
       } else if c < 0 then do {
         assert_that (t_right (e_node s parent) = 0);
         insert_link parent element (set_right parent element s)
       } else do {
         assert_that (t_left (e_node s parent) = 0);
         insert_link parent element (set_left parent element s)
       }
     }
   }"

text \<open>The loop of \<open>erase(element)\<close> that restores the balance before the node is unlinked.\<close>

partial_function (option) erase_loop ::
    "nat \<Rightarrow> nat \<Rightarrow> 'a treeset \<Rightarrow> 'a treeset option" where
  "erase_loop node parent s =
     (if parent = 0 then Some s
      else do {
        let grandparent = t_parent (e_node s parent);
        if t_left (e_node s parent) = node then
          (if t_balance (e_node s parent) < 0
             then erase_loop parent grandparent (set_balance parent 0 s)
           else if t_balance (e_node s parent) = 0 then Some (set_balance parent 1 s)
           else do {
             (s, subroot, same) \<leftarrow> rotate (t_right (e_node s parent)) parent True s;
             if same then Some s else erase_loop subroot grandparent s
           })
        else do {
          assert_that (t_right (e_node s parent) = node);
          (if t_balance (e_node s parent) > 0
             then erase_loop parent grandparent (set_balance parent 0 s)
           else if t_balance (e_node s parent) = 0 then Some (set_balance parent (-1) s)
           else do {
             (s, subroot, same) \<leftarrow> rotate (t_left (e_node s parent)) parent False s;
             if same then Some s else erase_loop subroot grandparent s
           })
        }
      })"

definition erase_node :: "nat \<Rightarrow> 'a treeset \<Rightarrow> 'a treeset option" where
  "erase_node element s = do {
     assert_that (element \<noteq> 0);
     assert_that (t_left (e_node s element) = 0 \<or> t_right (e_node s element) = 0);
     s \<leftarrow> erase_loop element (t_parent (e_node s element)) s;
     assert_that (t_left (e_node s element) = 0 \<or> t_right (e_node s element) = 0);
     replace_node' element
       (if t_left (e_node s element) \<noteq> 0 then t_left (e_node s element)
        else t_right (e_node s element)) False s
   }"

section \<open>Slots\<close>

text \<open>
  \<open>reorder()\<close>: the loop over \<open>i\<close> (from 1 up to and including \<open>_count\<close>) moves the last used
  slot \<open>j\<close> into every gap.
\<close>

text \<open>
  \<open>todo\<close> is the number of iterations left, \<open>_count + 1 - i\<close>.
\<close>

fun reorder_loop :: "nat \<Rightarrow> nat \<Rightarrow> nat \<Rightarrow> 'a treeset \<Rightarrow> ('a treeset \<times> nat) option" where
  "reorder_loop 0 i j s = Some (s, j)"
| "reorder_loop (Suc todo) i j s =
     (if n_active (e_node s i) then reorder_loop todo (i + 1) j s
      else do {
        j \<leftarrow> skip_unused (e_node s) i j;
        let s = set_data i (n_data (e_node s j)) s;
        s \<leftarrow> replace_node' j i True s;
        let s = set_active i True s;
        let s = set_active j False s;
        reorder_loop todo (i + 1) j s
      })"

definition reorder :: "'a treeset \<Rightarrow> ('a treeset \<times> bool) option" where
  "reorder s =
     (if e_count s + 1 < e_next s then do {
        (s, j) \<leftarrow> reorder_loop (e_count s) 1 (e_next s - 1) s;
        let s = s\<lparr>e_next := e_count s + 1\<rparr>;
        assert_that (j \<ge> e_next s);
        Some (s, True)
      } else Some (s, False))"

text \<open>\<open>resize(capacity)\<close>; \<open>alloc\<close> as in \<open>elements_resize\<close>.\<close>

definition resize :: "(nat \<Rightarrow> bool) \<Rightarrow> nat \<Rightarrow> 'a treeset \<Rightarrow> ('a treeset \<times> bool) option" where
  "resize alloc capacity s =
     (if capacity \<le> e_count s \<or> capacity > UINT32_MAX then Some (s, False)
      else do {
        let capacity = (if capacity < 16 then 16 else capacity);
        (s, moved) \<leftarrow> reorder s;
        if capacity \<noteq> e_capacity s then do {
          let (s, ok) = elements_resize alloc capacity s;
          if ok then Some (set_active 0 False s, True) else Some (s, False)
        } else Some (s, True)
      })"

definition reorganize :: "'a treeset \<Rightarrow> 'a treeset option" where
  "reorganize s = (if e_count s \<noteq> 0 then map_option fst (reorder s) else Some s)"

text \<open>
  \<open>increase()\<close>: \<open>_count * 2\<close> and \<open>_capacity * 2\<close> are computed in \<open>uint32_t\<close>.
\<close>

definition increase :: "(nat \<Rightarrow> bool) \<Rightarrow> 'a treeset \<Rightarrow> ('a treeset \<times> bool) option" where
  "increase alloc s =
     (if e_capacity s = 0 then resize alloc 16 s
      else if e_next s \<ge> e_capacity s then
        (if e_count s * 2 mod (UINT32_MAX + 1) \<le> e_capacity s then map_option (\<lambda>(s, _). (s, True)) (reorder s)
         else resize alloc (e_capacity s * 2 mod (UINT32_MAX + 1)) s)
      else Some (s, True))"

section \<open>Operations\<close>

text \<open>
  \<open>TreeSet()\<close> and \<open>TreeSet(capacity)\<close>.  Slots of the array are unconstrained, so the state
  before the first allocation takes any node function.
\<close>

definition tree_empty :: "(nat \<Rightarrow> 'a tree_node) \<Rightarrow> 'a treeset" where
  "tree_empty h = \<lparr>e_capacity = 0, e_next = 1, e_count = 0, e_node = h, t_root = 0\<rparr>"

definition tree_new :: "(nat \<Rightarrow> bool) \<Rightarrow> nat \<Rightarrow> (nat \<Rightarrow> 'a tree_node) \<Rightarrow> 'a treeset option" where
  "tree_new alloc capacity h =
     (if capacity > 0 then map_option fst (resize alloc (capacity + 1) (tree_empty h))
      else Some (tree_empty h))"

text \<open>
  \<open>TreeSet(const Elements<T>&)\<close> and \<open>TreeSet(Elements<T>&&)\<close>: the active slots of another
  container's array are linked one by one, duplicates are marked unused.  \<open>old\<close> is the array
  given: after a copy it still has its contents, after a move it is the empty array, and the
  final asserts compare with it.
\<close>

fun link_loop :: "('a \<Rightarrow> 'a \<Rightarrow> int) \<Rightarrow> nat \<Rightarrow> nat \<Rightarrow> 'a treeset \<Rightarrow> 'a treeset option" where
  "link_loop cmp 0 i s = Some s"
| "link_loop cmp (Suc todo) i s =
     (if n_active (e_node s i) then do {
        (s, _, inserted) \<leftarrow> insert_node cmp 0 i 0 s;
        link_loop cmp todo (i + 1) (if inserted then s else set_active i False s)
      } else link_loop cmp todo (i + 1) s)"

definition tree_from_elements ::
    "('a \<Rightarrow> 'a \<Rightarrow> int) \<Rightarrow> bool \<Rightarrow> 'a tree_node elements \<Rightarrow> 'a treeset option" where
  "tree_from_elements cmp moved old = do {
     let s = \<lparr>e_capacity = e_capacity old, e_next = e_next old, e_count = 0, e_node = e_node old,
               t_root = 0\<rparr>;
     let old = (if moved then old\<lparr>e_capacity := 0, e_next := 1, e_count := 0\<rparr> else old);
     s \<leftarrow> link_loop cmp (e_next s - 1) 1 s;
     assert_that (e_count s = 0 \<or> \<not> n_active (e_node s 0));
     assert_that (e_count s \<le> e_count old);
     assert_that (e_next s = e_next old);
     Some s
   }"

text \<open>\<open>emplace(args)\<close>: the value is built in slot \<open>_next\<close> before the search.\<close>

definition tree_emplace ::
    "('a \<Rightarrow> 'a \<Rightarrow> int) \<Rightarrow> (nat \<Rightarrow> bool) \<Rightarrow> 'a \<Rightarrow> 'a treeset \<Rightarrow> ('a treeset \<times> nat \<times> bool) option" where
  "tree_emplace cmp alloc v s = do {
     (s, _) \<leftarrow> increase alloc s;
     assert_that (e_next s < e_capacity s);
     let s = set_data (e_next s) v s;
     (found, i, c) \<leftarrow> contains_node cmp s (n_data (e_node s (e_next s))) (t_root s) 0;
     if found then Some (s, i, False)
     else insert_node cmp i (e_next s) c (s\<lparr>e_next := e_next s + 1\<rparr>)
   }"

text \<open>\<open>insert(value)\<close>: the value is copied to slot \<open>_next\<close> only when it is new.\<close>

definition tree_insert ::
    "('a \<Rightarrow> 'a \<Rightarrow> int) \<Rightarrow> (nat \<Rightarrow> bool) \<Rightarrow> 'a \<Rightarrow> 'a treeset \<Rightarrow> ('a treeset \<times> nat \<times> bool) option" where
  "tree_insert cmp alloc v s = do {
     (s, _) \<leftarrow> increase alloc s;
     (found, i, c) \<leftarrow> contains_node cmp s v (t_root s) 0;
     if found then Some (s, i, False)
     else do {
       assert_that (e_next s < e_capacity s);
       let s = set_data (e_next s) v s;
       insert_node cmp i (e_next s) c (s\<lparr>e_next := e_next s + 1\<rparr>)
     }
   }"

text \<open>
  \<open>insert(Node &&)\<close> of a node of this array, slot \<open>n\<close> (\<open>is_node\<close> has found it; \<open>n = 0\<close> and a node
  of another container with value \<open>v\<close> are moved to a new slot).
\<close>

definition tree_reinsert ::
    "('a \<Rightarrow> 'a \<Rightarrow> int) \<Rightarrow> nat option \<Rightarrow> 'a \<Rightarrow> 'a treeset \<Rightarrow> ('a treeset \<times> nat \<times> bool) option" where
  "tree_reinsert cmp slot v s = do {
     (found, i, c) \<leftarrow> contains_node cmp s v (t_root s) 0;
     if found then Some (s, i, False)
     else case slot of
       Some (Suc n) \<Rightarrow> insert_node cmp i (Suc n) c s
     | _ \<Rightarrow> do {
         assert_that (e_next s < e_capacity s);
         let s = set_data (e_next s) v s;
         insert_node cmp i (e_next s) c (s\<lparr>e_next := e_next s + 1\<rparr>)
       }
   }"

text \<open>\<open>extract(position)\<close>: the slot keeps its value for the caller.\<close>

definition tree_extract :: "nat \<Rightarrow> 'a treeset \<Rightarrow> ('a treeset \<times> 'a) option" where
  "tree_extract i s = do {
     assert_that (i \<ge> 1 \<and> i < e_next s \<and> n_active (e_node s i));
     s \<leftarrow> (if t_left (e_node s i) \<noteq> 0 \<and> t_right (e_node s i) \<noteq> 0 then do {
             n \<leftarrow> min_node s (t_right (e_node s i));
             s \<leftarrow> erase_node n s;
             s \<leftarrow> replace_node' i n True s;
             Some (set_active i False s)
           } else erase_node i s);
     let s = set_active i False s;
     let s = s\<lparr>e_count := e_count s - 1\<rparr>;
     Some (s, n_data (e_node s i))
   }"

text \<open>\<open>erase(position)\<close>, \<open>find(value)\<close>, \<open>contains(value)\<close> and \<open>erase(value)\<close>\<close>

definition tree_erase_at :: "nat \<Rightarrow> 'a treeset \<Rightarrow> ('a treeset \<times> 'a option) option" where
  "tree_erase_at i s =
     (if i \<ge> 1 \<and> i < e_next s \<and> n_active (e_node s i)
      then map_option (\<lambda>(s, v). (s, Some v)) (tree_extract i s)
      else Some (s, None))"

definition tree_find :: "('a \<Rightarrow> 'o \<Rightarrow> int) \<Rightarrow> 'o \<Rightarrow> 'a treeset \<Rightarrow> nat option" where
  "tree_find cmp v s = do {
     (found, r, _) \<leftarrow> contains_node cmp s v (t_root s) 0;
     Some (if \<not> found then 0 else r)
   }"

definition tree_contains :: "('a \<Rightarrow> 'o \<Rightarrow> int) \<Rightarrow> 'o \<Rightarrow> 'a treeset \<Rightarrow> bool option" where
  "tree_contains cmp v s = do {
     (found, _, _) \<leftarrow> contains_node cmp s v (t_root s) 0;
     Some found
   }"

definition tree_erase :: "('a \<Rightarrow> 'o \<Rightarrow> int) \<Rightarrow> 'o \<Rightarrow> 'a treeset \<Rightarrow> ('a treeset \<times> 'a option) option" where
  "tree_erase cmp v s = do {
     i \<leftarrow> tree_find cmp v s;
     if i \<ge> 1 \<and> i < e_next s \<and> n_active (e_node s i)
     then map_option (\<lambda>(s, v). (s, Some v)) (tree_extract i s)
     else Some (s, None)
   }"

definition tree_size :: "'a treeset \<Rightarrow> nat" where
  "tree_size s = e_count s"

definition tree_is_empty :: "'a treeset \<Rightarrow> bool" where
  "tree_is_empty s = (e_count s = 0)"

definition tree_clear :: "'a treeset \<Rightarrow> 'a treeset" where
  "tree_clear s = (elements_clear s)\<lparr>t_root := 0\<rparr>"

section \<open>Iterators\<close>

text \<open>
  An iterator is the index it holds; 0 is \<open>end()\<close> and \<open>rend()\<close>.  \<open>up_left\<close> and \<open>up_right\<close> are the
  loops of \<open>next()\<close> and \<open>prev()\<close> that climb until the node left was a left (right) child.
\<close>

partial_function (option) up_left :: "(nat \<Rightarrow> 'a tree_node) \<Rightarrow> nat \<Rightarrow> nat option" where
  "up_left h i =
     (if i = 0 then Some 0
      else let p = t_parent (h i) in if t_left (h p) = i then Some p else up_left h p)"

partial_function (option) up_right :: "(nat \<Rightarrow> 'a tree_node) \<Rightarrow> nat \<Rightarrow> nat option" where
  "up_right h i =
     (if i = 0 then Some 0
      else let p = t_parent (h i) in if t_right (h p) = i then Some p else up_right h p)"

definition iter_next :: "'a treeset \<Rightarrow> nat \<Rightarrow> nat option" where
  "iter_next s i =
     (if t_right (e_node s i) \<noteq> 0 then min_node s (t_right (e_node s i)) else up_left (e_node s) i)"

definition iter_prev :: "'a treeset \<Rightarrow> nat \<Rightarrow> nat option" where
  "iter_prev s i =
     (if t_left (e_node s i) \<noteq> 0 then max_node s (t_left (e_node s i)) else up_right (e_node s) i)"

text \<open>\<open>operator*\<close> asserts that the slot is in use.\<close>

definition iter_value :: "'a treeset \<Rightarrow> nat \<Rightarrow> 'a option" where
  "iter_value s i = (if n_active (e_node s i) then Some (n_data (e_node s i)) else None)"

definition tree_begin :: "'a treeset \<Rightarrow> nat option" where
  "tree_begin s = min_node s (t_root s)"

definition tree_rbegin :: "'a treeset \<Rightarrow> nat option" where
  "tree_rbegin s = max_node s (t_root s)"

text \<open>
  A range-based \<open>for\<close> over the set (as in \<open>operator<<\<close>): the values met from an iterator on.
\<close>

partial_function (option) iterate :: "'a treeset \<Rightarrow> nat \<Rightarrow> 'a list option" where
  "iterate s i =
     (if i = 0 then Some []
      else do {
        v \<leftarrow> iter_value s i;
        i' \<leftarrow> iter_next s i;
        vs \<leftarrow> iterate s i';
        Some (v # vs)
      })"

section \<open>The code's own consistency check\<close>

text \<open>\<open>check_node(node, parent)\<close>: the height, if no assert fires.\<close>

partial_function (option) check_node :: "(nat \<Rightarrow> 'a tree_node) \<Rightarrow> nat \<Rightarrow> nat \<Rightarrow> int option" where
  "check_node h node parent =
     (if node = 0 then Some 0
      else do {
        assert_that (t_parent (h node) = parent);
        l \<leftarrow> check_node h (t_left (h node)) node;
        r \<leftarrow> check_node h (t_right (h node)) node;
        assert_that (r - l = t_balance (h node));
        Some (1 + (if l > r then l else r))
      })"

fun count_active :: "(nat \<Rightarrow> ('a, 'm) node_scheme) \<Rightarrow> nat \<Rightarrow> nat" where
  "count_active h 0 = 0"
| "count_active h (Suc i) = count_active h i + (if i \<ge> 1 \<and> n_active (h i) then 1 else 0)"

text \<open>The order loop of \<open>check()\<close>, from the node after \<open>prev\<close>; the result is the nodes counted.\<close>

partial_function (option) check_order ::
    "('a \<Rightarrow> 'a \<Rightarrow> int) \<Rightarrow> 'a treeset \<Rightarrow> 'a \<Rightarrow> nat \<Rightarrow> nat \<Rightarrow> nat option" where
  "check_order cmp s prev i c =
     (if i = 0 then Some c
      else do {
        v \<leftarrow> iter_value s i;
        assert_that (cmp prev v < 0);
        i' \<leftarrow> iter_next s i;
        check_order cmp s v i' (c + 1)
      })"

text \<open>
  \<open>check()\<close>.  It reads slot 0 first, which does not exist before the first allocation.
\<close>

definition tree_check :: "('a \<Rightarrow> 'a \<Rightarrow> int) \<Rightarrow> 'a treeset \<Rightarrow> unit option" where
  "tree_check cmp s = do {
     assert_that (0 < e_capacity s);
     assert_that (\<not> n_active (e_node s 0));
     assert_that (count_active (e_node s) (e_next s) = e_count s);
     i \<leftarrow> tree_begin s;
     (if i \<noteq> 0 then do {
        v \<leftarrow> iter_value s i;
        i' \<leftarrow> iter_next s i;
        c \<leftarrow> check_order cmp s v i' 1;
        assert_that (c = e_count s)
      } else Some ());
     if t_root s = 0 then assert_that (e_count s = 0)
     else do {
       assert_that (t_parent (e_node s (t_root s)) = 0);
       h \<leftarrow> check_node (e_node s) (t_root s) 0;
       Some ()
     }
   }"

text \<open>The loops are executable by their defining equations.\<close>

declare
  min_loop.simps [code]
  max_loop.simps [code]
  lower_loop.simps [code]
  floor_loop.simps [code]
  ceil_loop.simps [code]
  higher_loop.simps [code]
  contains_loop.simps [code]
  insert_loop.simps [code]
  erase_loop.simps [code]
  up_left.simps [code]
  up_right.simps [code]
  iterate.simps [code]
  check_node.simps [code]
  check_order.simps [code]

end
