(* ===== verification/TreeShape.thy ===== *)
theory TreeShape
  imports TreeSet "HOL-Library.Tree"
begin

text \<open>
  The linked nodes of a \<open>TreeSet\<close> as a tree of slot indices.  \<open>rep h p i t\<close>: in the node array
  \<open>h\<close>, link \<open>i\<close> is the root of the index tree \<open>t\<close> and its parent link is \<open>p\<close>.  A position inside
  the tree is a context (\<open>step list\<close>, innermost step first) with its own representation
  predicate \<open>repc\<close>; \<open>bal\<close> and \<open>balc\<close> say that the balance factors are right.  Heights are taken
  with one node \<open>e\<close> not counted, which describes the tree while \<open>e\<close> is about to be unlinked;
  \<open>e = 0\<close> counts every node.
\<close>

section \<open>Index trees and contexts\<close>

fun rep :: "(nat \<Rightarrow> 'a tree_node) \<Rightarrow> nat \<Rightarrow> nat \<Rightarrow> nat tree \<Rightarrow> bool" where
  "rep h p i Leaf \<longleftrightarrow> i = 0"
| "rep h p i (Node l x r) \<longleftrightarrow>
     i = x \<and> x \<noteq> 0 \<and> n_active (h x) \<and> t_parent (h x) = p
     \<and> rep h x (t_left (h x)) l \<and> rep h x (t_right (h x)) r"

datatype step = InL nat "nat tree" | InR "nat tree" nat

fun plug :: "step list \<Rightarrow> nat tree \<Rightarrow> nat tree" where
  "plug [] t = t"
| "plug (InL x r # c) t = plug c (Node t x r)"
| "plug (InR l x # c) t = plug c (Node l x t)"

fun before :: "step list \<Rightarrow> nat list" where
  "before [] = []"
| "before (InL x r # c) = before c"
| "before (InR l x # c) = before c @ inorder l @ [x]"

fun behind :: "step list \<Rightarrow> nat list" where
  "behind [] = []"
| "behind (InL x r # c) = x # inorder r @ behind c"
| "behind (InR l x # c) = behind c"

definition ctx_nodes :: "step list \<Rightarrow> nat set" where
  "ctx_nodes c = set (before c) \<union> set (behind c)"

fun repc :: "(nat \<Rightarrow> 'a tree_node) \<Rightarrow> nat \<Rightarrow> step list \<Rightarrow> nat \<Rightarrow> nat \<Rightarrow> bool" where
  "repc h rt [] p i \<longleftrightarrow> p = 0 \<and> rt = i"
| "repc h rt (InL x r # c) p i \<longleftrightarrow>
     p = x \<and> x \<noteq> 0 \<and> n_active (h x) \<and> t_left (h x) = i
     \<and> rep h x (t_right (h x)) r \<and> repc h rt c (t_parent (h x)) x"
| "repc h rt (InR l x # c) p i \<longleftrightarrow>
     p = x \<and> x \<noteq> 0 \<and> n_active (h x) \<and> t_right (h x) = i
     \<and> rep h x (t_left (h x)) l \<and> repc h rt c (t_parent (h x)) x"

lemma ctx_nodes_simps [simp]:
  "ctx_nodes [] = {}"
  "ctx_nodes (InL x r # c) = insert x (set_tree r \<union> ctx_nodes c)"
  "ctx_nodes (InR l x # c) = insert x (set_tree l \<union> ctx_nodes c)"
  by (auto simp: ctx_nodes_def)

lemma inorder_plug [simp]: "inorder (plug c t) = before c @ inorder t @ behind c"
  by (induction c t rule: plug.induct) auto

lemma set_tree_plug [simp]: "set_tree (plug c t) = ctx_nodes c \<union> set_tree t"
  by (induction c t rule: plug.induct) auto

lemma rep_plug: "rep h 0 rt (plug c t) \<longleftrightarrow> (\<exists>p i. repc h rt c p i \<and> rep h p i t)"
  by (induction c t rule: plug.induct) auto

lemma rep_plugI: "repc h rt c p i \<Longrightarrow> rep h p i t \<Longrightarrow> rep h 0 rt (plug c t)"
  by (auto simp: rep_plug)

lemma plug_append [simp]: "plug (c @ d) t = plug d (plug c t)"
  by (induction c t rule: plug.induct) auto

text \<open>Every node of a tree is the root of a subtree in some context.\<close>

lemma split_at_node: "x \<in> set_tree t \<Longrightarrow> \<exists>c l r. t = plug c (Node l x r)"
proof (induction t)
  case (Node a y b)
  consider "x = y" | "x \<in> set_tree a" | "x \<in> set_tree b" using Node.prems by auto
  then show ?case
  proof cases
    case 1
    then have "Node a y b = plug [] (Node a x b)" by simp
    then show ?thesis by blast
  next
    case 2
    then obtain c l r where "a = plug c (Node l x r)" using Node.IH(1) by blast
    then have "Node a y b = plug (c @ [InL y b]) (Node l x r)"
      by (simp add: plug_append)
    then show ?thesis by blast
  next
    case 3
    then obtain c l r where "b = plug c (Node l x r)" using Node.IH(2) by blast
    then have "Node a y b = plug (c @ [InR a y]) (Node l x r)"
      by (simp add: plug_append)
    then show ?thesis by blast
  qed
qed simp

section \<open>Frame lemmas\<close>

lemma rep_nonzero: "rep h p i t \<Longrightarrow> 0 \<notin> set_tree t"
  by (induction t arbitrary: p i) auto

lemma repc_nonzero: "repc h rt c p i \<Longrightarrow> 0 \<notin> ctx_nodes c"
  by (induction c arbitrary: p i rule: before.induct) (auto dest: rep_nonzero)

lemma rep_root: "rep h p i t \<Longrightarrow> i \<noteq> 0 \<Longrightarrow> i \<in> set_tree t"
  by (cases t) auto

lemma rep_zero: "rep h p 0 t \<longleftrightarrow> t = Leaf"
  by (cases t) auto

lemma rep_root_cases: "rep h p i t \<Longrightarrow> i = 0 \<and> t = Leaf \<or> i \<noteq> 0 \<and> i \<in> set_tree t"
  by (cases t) auto

lemma rep_active: "rep h p i t \<Longrightarrow> x \<in> set_tree t \<Longrightarrow> n_active (h x)"
  by (induction t arbitrary: p i) auto

lemma rep_cong:
  assumes "\<And>x. x \<in> set_tree t \<Longrightarrow>
      n_active (h' x) = n_active (h x) \<and> t_parent (h' x) = t_parent (h x)
      \<and> t_left (h' x) = t_left (h x) \<and> t_right (h' x) = t_right (h x)"
  shows "rep h' p i t = rep h p i t"
  using assms by (induction t arbitrary: p i) auto

lemma repc_cong:
  assumes "\<And>x. x \<in> ctx_nodes c \<Longrightarrow>
      n_active (h' x) = n_active (h x) \<and> t_parent (h' x) = t_parent (h x)
      \<and> t_left (h' x) = t_left (h x) \<and> t_right (h' x) = t_right (h x)"
  shows "repc h' rt c p i = repc h rt c p i"
  using assms
proof (induction c arbitrary: p i rule: before.induct)
  case (2 x r c)
  then show ?case using rep_cong [of r h' h] by auto
next
  case (3 l x c)
  then show ?case using rep_cong [of l h' h] by auto
qed simp

lemma rep_upd_other [simp]: "y \<notin> set_tree t \<Longrightarrow> rep (h(y := v)) p i t = rep h p i t"
  by (rule rep_cong) auto

lemma repc_upd_other [simp]: "y \<notin> ctx_nodes c \<Longrightarrow> repc (h(y := v)) rt c p i = repc h rt c p i"
  by (rule repc_cong) auto

lemma rep_upd_balance [simp]: "rep (h(y := (h y)\<lparr>t_balance := b\<rparr>)) p i t = rep h p i t"
  by (rule rep_cong) auto

lemma repc_upd_balance [simp]: "repc (h(y := (h y)\<lparr>t_balance := b\<rparr>)) rt c p i = repc h rt c p i"
  by (rule repc_cong) auto

lemma rep_upd_data [simp]: "rep (h(y := (h y)\<lparr>n_data := v\<rparr>)) p i t = rep h p i t"
  by (rule rep_cong) auto

text \<open>Writing the parent link of the root of a subtree.\<close>

definition reparent :: "nat \<Rightarrow> nat \<Rightarrow> 'a treeset \<Rightarrow> 'a treeset" where
  "reparent i p s = (if i \<noteq> 0 then set_parent i p s else s)"

lemma t_root_upd_node [simp, heap_simps]: "t_root (upd_node i f s) = t_root (s :: 'a treeset)"
  by (cases s) (simp add: upd_node_def)

lemma reparent_simps [simp, heap_simps]:
  "e_capacity (reparent i p s) = e_capacity s"
  "e_next (reparent i p s) = e_next s"
  "e_count (reparent i p s) = e_count s"
  "t_root (reparent i p s) = t_root s"
  "n_active (e_node (reparent i p s) x) = n_active (e_node s x)"
  "n_data (e_node (reparent i p s) x) = n_data (e_node s x)"
  "t_balance (e_node (reparent i p s) x) = t_balance (e_node s x)"
  "t_left (e_node (reparent i p s) x) = t_left (e_node s x)"
  "t_right (e_node (reparent i p s) x) = t_right (e_node s x)"
  "x \<noteq> i \<Longrightarrow> e_node (reparent i p s) x = e_node s x"
  "i \<noteq> 0 \<Longrightarrow> t_parent (e_node (reparent i p s) i) = p"
  by (auto simp: reparent_def)

lemma rep_reparent:
  assumes "rep (e_node s) q i t" and "distinct (inorder t)"
  shows "rep (e_node (reparent i p s)) p i t"
proof (cases t)
  case (Node l x r)
  have "rep (e_node (reparent i p s)) y j u = rep (e_node s) y j u" if "i \<notin> set_tree u" for y j u
    using that by (intro rep_cong) (metis reparent_simps(10))
  with assms Node show ?thesis by auto
qed (use assms in auto)

lemma rep_reparent_other:
  "i \<notin> set_tree t \<Longrightarrow> rep (e_node (reparent i p s)) q j t = rep (e_node s) q j t"
  by (rule rep_cong) (metis reparent_simps(10))

lemma repc_reparent_other:
  "i \<notin> ctx_nodes c \<Longrightarrow> repc (e_node (reparent i p s)) rt c q j = repc (e_node s) rt c q j"
  by (rule repc_cong) (metis reparent_simps(10))

text \<open>Reading one slot after a write, without unfolding the whole array.\<close>

lemma upd_node_reads:
  "e_node (upd_node i f s) i = f (e_node s i)"
  "x \<noteq> i \<Longrightarrow> e_node (upd_node i f s) x = e_node s x"
  by simp_all

lemma rep_upd_node: "y \<notin> set_tree t \<Longrightarrow> rep (e_node (upd_node y f s)) p i t = rep (e_node s) p i t"
  by simp

lemma repc_upd_node:
  "y \<notin> ctx_nodes c \<Longrightarrow> repc (e_node (upd_node y f s)) rt c p i = repc (e_node s) rt c p i"
  by simp

lemma field_reads:
  "n_active (e_node (set_active i a s) x) = (if x = i then a else n_active (e_node s x))"
  "n_active (e_node (set_data i d s) x) = n_active (e_node s x)"
  "n_active (e_node (set_balance i b s) x) = n_active (e_node s x)"
  "n_active (e_node (set_parent i p s) x) = n_active (e_node s x)"
  "n_active (e_node (set_left i l s) x) = n_active (e_node s x)"
  "n_active (e_node (set_right i r s) x) = n_active (e_node s x)"
  "n_data (e_node (set_active i a s) x) = n_data (e_node s x)"
  "n_data (e_node (set_data i d s) x) = (if x = i then d else n_data (e_node s x))"
  "n_data (e_node (set_balance i b s) x) = n_data (e_node s x)"
  "n_data (e_node (set_parent i p s) x) = n_data (e_node s x)"
  "n_data (e_node (set_left i l s) x) = n_data (e_node s x)"
  "n_data (e_node (set_right i r s) x) = n_data (e_node s x)"
  "t_balance (e_node (set_active i a s) x) = t_balance (e_node s x)"
  "t_balance (e_node (set_data i d s) x) = t_balance (e_node s x)"
  "t_balance (e_node (set_balance i b s) x) = (if x = i then b else t_balance (e_node s x))"
  "t_balance (e_node (set_parent i p s) x) = t_balance (e_node s x)"
  "t_balance (e_node (set_left i l s) x) = t_balance (e_node s x)"
  "t_balance (e_node (set_right i r s) x) = t_balance (e_node s x)"
  "t_parent (e_node (set_active i a s) x) = t_parent (e_node s x)"
  "t_parent (e_node (set_data i d s) x) = t_parent (e_node s x)"
  "t_parent (e_node (set_balance i b s) x) = t_parent (e_node s x)"
  "t_parent (e_node (set_parent i p s) x) = (if x = i then p else t_parent (e_node s x))"
  "t_parent (e_node (set_left i l s) x) = t_parent (e_node s x)"
  "t_parent (e_node (set_right i r s) x) = t_parent (e_node s x)"
  "t_left (e_node (set_active i a s) x) = t_left (e_node s x)"
  "t_left (e_node (set_data i d s) x) = t_left (e_node s x)"
  "t_left (e_node (set_balance i b s) x) = t_left (e_node s x)"
  "t_left (e_node (set_parent i p s) x) = t_left (e_node s x)"
  "t_left (e_node (set_left i l s) x) = (if x = i then l else t_left (e_node s x))"
  "t_left (e_node (set_right i r s) x) = t_left (e_node s x)"
  "t_right (e_node (set_active i a s) x) = t_right (e_node s x)"
  "t_right (e_node (set_data i d s) x) = t_right (e_node s x)"
  "t_right (e_node (set_balance i b s) x) = t_right (e_node s x)"
  "t_right (e_node (set_parent i p s) x) = t_right (e_node s x)"
  "t_right (e_node (set_left i l s) x) = t_right (e_node s x)"
  "t_right (e_node (set_right i r s) x) = (if x = i then r else t_right (e_node s x))"
  "t_parent (e_node (reparent i v s) x) = (if i \<noteq> 0 \<and> x = i then v else t_parent (e_node s x))"
  by (simp_all add: reparent_def)

lemmas heap_frame =
  field_reads rep_upd_node repc_upd_node rep_reparent_other repc_reparent_other

text \<open>Writing the link that leads into a context's hole.\<close>

fun ctx_set :: "step list \<Rightarrow> nat \<Rightarrow> 'a treeset \<Rightarrow> 'a treeset" where
  "ctx_set [] j s = s\<lparr>t_root := j\<rparr>"
| "ctx_set (InL x r # c) j s = set_left x j s"
| "ctx_set (InR l x # c) j s = set_right x j s"

lemma ctx_set_simps [simp, heap_simps]:
  "e_capacity (ctx_set c j s) = e_capacity s"
  "e_next (ctx_set c j s) = e_next s"
  "e_count (ctx_set c j s) = e_count s"
  "n_active (e_node (ctx_set c j s) x) = n_active (e_node s x)"
  "n_data (e_node (ctx_set c j s) x) = n_data (e_node s x)"
  "t_balance (e_node (ctx_set c j s) x) = t_balance (e_node s x)"
  "t_parent (e_node (ctx_set c j s) x) = t_parent (e_node s x)"
  "x \<notin> ctx_nodes c \<Longrightarrow> e_node (ctx_set c j s) x = e_node s x"
  by (induction c j s rule: ctx_set.induct) auto

lemma repc_ctx_set:
  assumes "repc (e_node s) (t_root s) c p i" and "distinct (before c @ behind c)"
  shows "repc (e_node (ctx_set c j s)) (t_root (ctx_set c j s)) c p j"
proof (cases c rule: before.cases)
  case (2 x r c')
  with assms show ?thesis by (auto simp: ctx_nodes_def)
next
  case (3 l x c')
  with assms show ?thesis by (auto simp: ctx_nodes_def)
qed (use assms in auto)

lemma rep_ctx_set_other:
  "ctx_nodes c \<inter> set_tree t = {} \<Longrightarrow> rep (e_node (ctx_set c j s)) q i t = rep (e_node s) q i t"
  by (rule rep_cong) (metis ctx_set_simps(8) disjoint_iff)

lemma replace_link_ctx:
  assumes "repc (e_node s) (t_root s) c p i" and "i \<noteq> 0" and "i \<notin> ctx_nodes c"
  shows "replace_link p i j s = Some (ctx_set c j s)"
proof (cases c rule: before.cases)
  case (3 l x c')
  have "t_left (e_node s x) \<noteq> i"
    using assms 3 rep_root [of "e_node s" x "t_left (e_node s x)" l] by auto
  with assms 3 show ?thesis by (simp add: replace_link_def)
qed (use assms in \<open>auto simp: replace_link_def\<close>)


lemma replace_node_ctx:
  assumes "repc (e_node s) (t_root s) c p i" and "i \<noteq> 0" and "i \<notin> ctx_nodes c"
  shows "replace_node p i j False s = Some (reparent j p (ctx_set c j s))"
  using replace_link_ctx [OF assms] by (simp add: replace_node_def reparent_def Let_def)

lemma repc_set_balance: "repc (e_node (set_balance y b s)) rt c p i = repc (e_node s) rt c p i"
  and rep_set_balance: "rep (e_node (set_balance y b s)) p i t = rep (e_node s) p i t"
  by simp_all

section \<open>Balance\<close>

text \<open>\<open>vh e t\<close>: the height of \<open>t\<close> without counting node \<open>e\<close>.\<close>

fun vh :: "nat \<Rightarrow> nat tree \<Rightarrow> nat" where
  "vh e Leaf = 0"
| "vh e (Node l x r) = (if x = e then max (vh e l) (vh e r) else Suc (max (vh e l) (vh e r)))"

fun bal :: "(nat \<Rightarrow> 'a tree_node) \<Rightarrow> nat \<Rightarrow> nat tree \<Rightarrow> bool" where
  "bal h e Leaf \<longleftrightarrow> True"
| "bal h e (Node l x r) \<longleftrightarrow>
     (x \<noteq> e \<longrightarrow> t_balance (h x) = int (vh e r) - int (vh e l) \<and> \<bar>t_balance (h x)\<bar> \<le> 1)
     \<and> bal h e l \<and> bal h e r"

fun balc :: "(nat \<Rightarrow> 'a tree_node) \<Rightarrow> nat \<Rightarrow> step list \<Rightarrow> nat \<Rightarrow> bool" where
  "balc h e [] k \<longleftrightarrow> True"
| "balc h e (InL x r # c) k \<longleftrightarrow>
     x \<noteq> e \<and> t_balance (h x) = int (vh e r) - int k \<and> \<bar>t_balance (h x)\<bar> \<le> 1
     \<and> bal h e r \<and> balc h e c (Suc (max k (vh e r)))"
| "balc h e (InR l x # c) k \<longleftrightarrow>
     x \<noteq> e \<and> t_balance (h x) = int k - int (vh e l) \<and> \<bar>t_balance (h x)\<bar> \<le> 1
     \<and> bal h e l \<and> balc h e c (Suc (max (vh e l) k))"

lemma bal_plugI: "bal h e t \<Longrightarrow> balc h e c (vh e t) \<Longrightarrow> bal h e (plug c t)"
  by (induction c t rule: plug.induct) auto

lemma bal_plug_iff:
  "e \<notin> ctx_nodes c \<Longrightarrow> bal h e (plug c t) \<longleftrightarrow> bal h e t \<and> balc h e c (vh e t)"
  by (induction c t rule: plug.induct) auto

lemma bal_cong:
  "(\<And>x. x \<in> set_tree t \<Longrightarrow> t_balance (h' x) = t_balance (h x)) \<Longrightarrow> bal h' e t = bal h e t"
  by (induction t) auto

lemma balc_cong:
  "(\<And>x. x \<in> ctx_nodes c \<Longrightarrow> t_balance (h' x) = t_balance (h x)) \<Longrightarrow> balc h' e c k = balc h e c k"
proof (induction c arbitrary: k rule: before.induct)
  case (2 x r c)
  then show ?case using bal_cong [of r h' h] by auto
next
  case (3 l x c)
  then show ?case using bal_cong [of l h' h] by auto
qed simp

lemma bal_upd_other [simp]: "y \<notin> set_tree t \<Longrightarrow> bal (h(y := v)) e t = bal h e t"
  by (rule bal_cong) auto

lemma balc_upd_other [simp]: "y \<notin> ctx_nodes c \<Longrightarrow> balc (h(y := v)) e c k = balc h e c k"
  by (rule balc_cong) auto

lemma bal_upd_node: "y \<notin> set_tree t \<Longrightarrow> bal (e_node (upd_node y f s)) e t = bal (e_node s) e t"
  and balc_upd_node: "y \<notin> ctx_nodes c \<Longrightarrow> balc (e_node (upd_node y f s)) e c k = balc (e_node s) e c k"
  by simp_all

lemmas set_balance_frame =
  field_reads repc_set_balance rep_set_balance bal_upd_node balc_upd_node

lemma vh_height: "e \<notin> set_tree t \<Longrightarrow> vh e t = height t"
  by (induction t) auto

lemma vh_other: "e \<notin> set_tree t \<Longrightarrow> d \<notin> set_tree t \<Longrightarrow> vh e t = vh d t"
  by (simp add: vh_height)

lemma bal_other: "e \<notin> set_tree t \<Longrightarrow> d \<notin> set_tree t \<Longrightarrow> bal h e t = bal h d t"
  by (induction t) (auto simp: vh_other [of e _ d])

text \<open>What an operation on the links leaves alone.\<close>

definition frame :: "'a treeset \<Rightarrow> 'a treeset \<Rightarrow> bool" where
  "frame s s' \<longleftrightarrow>
     e_capacity s' = e_capacity s \<and> e_next s' = e_next s \<and> e_count s' = e_count s
     \<and> (\<forall>x. n_active (e_node s' x) = n_active (e_node s x) \<and> n_data (e_node s' x) = n_data (e_node s x))"

lemma frame_refl [simp, intro]: "frame s s"
  by (simp add: frame_def)

lemma frame_trans: "frame s s' \<Longrightarrow> frame s' s'' \<Longrightarrow> frame s s''"
  by (simp add: frame_def)

lemma frame_simps [simp]:
  "frame s (set_balance i b s)" "frame s (set_parent i p s)" "frame s (set_left i l s)"
  "frame s (set_right i r s)" "frame s (reparent i p s)" "frame s (ctx_set c j s)"
  by (auto simp: frame_def)

end
