(* ===== verification/TreeRotate.thy ===== *)
theory TreeRotate
  imports TreeShape
begin

text \<open>
  \<open>rotate\<close> on index trees: what each of its four cases makes of the subtree it is called on, of
  the balance factors and of the context above.
\<close>

text \<open>
  The outcome of a rotation: the subtree \<open>u\<close> now hangs in the context, the balance factors are
  \<open>f\<close>, and the nodes of \<open>keep\<close> have the children they had.
\<close>

definition rotated ::
    "'a treeset \<Rightarrow> step list \<Rightarrow> nat \<Rightarrow> nat tree \<Rightarrow> (nat \<Rightarrow> int) \<Rightarrow> nat set \<Rightarrow> 'a treeset \<Rightarrow> nat \<Rightarrow> bool" where
  "rotated s c gp u f keep s' n \<longleftrightarrow>
     repc (e_node s') (t_root s') c gp n \<and> rep (e_node s') gp n u \<and> frame s s'
     \<and> (\<forall>x. t_balance (e_node s' x) = f x)
     \<and> (\<forall>x\<in>keep. t_left (e_node s' x) = t_left (e_node s x) \<and> t_right (e_node s' x) = t_right (e_node s x))"

lemma rotate_left_simple:
  fixes s :: "'a treeset"
  assumes c: "repc (e_node s) (t_root s) c gp p"
    and t: "rep (e_node s) gp p (Node a p (Node b n d))"
    and dist: "distinct (before c @ inorder (Node a p (Node b n d)) @ behind c)"
    and b0: "0 \<le> t_balance (e_node s n)"
  shows "\<exists>s'. rotate n p True s = Some (s', n, t_balance (e_node s n) = 0)
    \<and> rotated s c gp (Node (Node a p b) n d)
        ((\<lambda>x. t_balance (e_node s x))
           (p := (if t_balance (e_node s n) = 0 then 1 else 0),
            n := (if t_balance (e_node s n) = 0 then -1 else 0))) (set_tree a) s' n"
proof -
  let ?i = "t_left (e_node s n)"
  let ?s1 = "set_left n p (reparent ?i p (set_right p ?i s))"
  let ?s2 = "set_parent p n ?s1"
  let ?s3 = "set_balance p (if t_balance (e_node s n) = 0 then 1 else 0) ?s2"
  let ?s4 = "set_balance n (if t_balance (e_node s n) = 0 then -1 else 0) ?s3"
  let ?s5 = "reparent n gp (ctx_set c n ?s4)"
  have nz: "n \<noteq> 0" "p \<noteq> 0" "0 \<notin> ctx_nodes c"
    using t repc_nonzero [OF c] by auto
  have ib: "?i = 0 \<and> b = Leaf \<or> ?i \<noteq> 0 \<and> ?i \<in> set_tree b"
    by (rule rep_root_cases) (use t in auto)
  have disj: "n \<noteq> p" "p \<notin> set_tree a" "n \<notin> set_tree a" "p \<notin> set_tree b" "n \<notin> set_tree b"
    "p \<notin> set_tree d" "n \<notin> set_tree d" "p \<notin> ctx_nodes c" "n \<notin> ctx_nodes c"
    "set_tree a \<inter> set_tree b = {}" "set_tree b \<inter> set_tree d = {}"
    "ctx_nodes c \<inter> set_tree a = {}" "ctx_nodes c \<inter> set_tree b = {}" "ctx_nodes c \<inter> set_tree d = {}"
    "distinct (inorder b)" "distinct (before c @ behind c)"
    using dist by (auto simp: ctx_nodes_def)
  have ine: "?i \<noteq> n" "?i \<noteq> p" "?i \<notin> set_tree a" "?i \<notin> set_tree d" "?i \<notin> ctx_nodes c"
    using ib disj nz rep_nonzero [OF t] by auto
  have par: "?i \<noteq> 0 \<Longrightarrow> t_parent (e_node s ?i) = n"
    using t ib by (cases b) auto
  have simple: "rotate_simple n p True s = Some ?s4"
    using disj ine par nz by (auto simp: rotate_simple_def reparent_def Let_def)
  have rc4: "repc (e_node ?s4) (t_root ?s4) c gp p"
    using c disj ine by (simp add: repc_reparent_other)
  have gp: "t_parent (e_node s p) = gp" and act: "n_active (e_node s n)" "n_active (e_node s p)"
    using t by auto
  have rot: "rotate n p True s = Some (?s5, n, t_balance (e_node s n) = 0)"
    using simple replace_node_ctx [OF rc4 nz(2) disj(8), of n] b0 nz gp act
    by (simp add: rotate_def)
  have "repc (e_node (ctx_set c n ?s4)) (t_root (ctx_set c n ?s4)) c gp n"
    by (rule repc_ctx_set [OF rc4]) (use disj in simp)
  then have rc5: "repc (e_node ?s5) (t_root ?s5) c gp n"
    using disj by (simp add: repc_reparent_other)
  have outside: "rep (e_node ?s5) y j u = rep (e_node s) y j u"
    if "n \<notin> set_tree u" "p \<notin> set_tree u" "?i \<notin> set_tree u" "ctx_nodes c \<inter> set_tree u = {}" for y j u
    using that by (simp add: rep_reparent_other rep_ctx_set_other)
  have "rep (e_node (set_right p ?i s)) n ?i b" using t disj by simp
  then have "rep (e_node (reparent ?i p (set_right p ?i s))) p ?i b"
    using disj(15) by (rule rep_reparent)
  then have b5: "rep (e_node ?s5) p ?i b"
    using disj by (simp add: rep_reparent_other rep_ctx_set_other)
  have t5: "rep (e_node ?s5) gp n (Node (Node a p b) n d)"
    using t b5 nz disj ine by (simp add: outside)
  have keep: "t_left (e_node ?s5 x) = t_left (e_node s x) \<and> t_right (e_node ?s5 x) = t_right (e_node s x)"
    if "x \<in> set_tree a" for x
  proof -
    have "x \<noteq> n" "x \<noteq> p" "x \<notin> ctx_nodes c" using that disj by auto
    then show ?thesis by simp
  qed
  have "frame s ?s5"
    by (auto simp: frame_def)
  with rc5 t5 keep have "rotated s c gp (Node (Node a p b) n d)
      ((\<lambda>x. t_balance (e_node s x))
         (p := (if t_balance (e_node s n) = 0 then 1 else 0),
          n := (if t_balance (e_node s n) = 0 then -1 else 0))) (set_tree a) ?s5 n"
    using disj(1) by (simp add: rotated_def)
  with rot show ?thesis by blast
qed

lemma rotate_right_simple:
  fixes s :: "'a treeset"
  assumes c: "repc (e_node s) (t_root s) c gp p"
    and t: "rep (e_node s) gp p (Node (Node d n b) p a)"
    and dist: "distinct (before c @ inorder (Node (Node d n b) p a) @ behind c)"
    and b0: "t_balance (e_node s n) \<le> 0"
  shows "\<exists>s'. rotate n p False s = Some (s', n, t_balance (e_node s n) = 0)
    \<and> rotated s c gp (Node d n (Node b p a))
        ((\<lambda>x. t_balance (e_node s x))
           (p := (if t_balance (e_node s n) = 0 then -1 else 0),
            n := (if t_balance (e_node s n) = 0 then 1 else 0))) (set_tree a) s' n"
proof -
  let ?i = "t_right (e_node s n)"
  let ?s1 = "set_right n p (reparent ?i p (set_left p ?i s))"
  let ?s2 = "set_parent p n ?s1"
  let ?s3 = "set_balance p (if t_balance (e_node s n) = 0 then -1 else 0) ?s2"
  let ?s4 = "set_balance n (if t_balance (e_node s n) = 0 then 1 else 0) ?s3"
  let ?s5 = "reparent n gp (ctx_set c n ?s4)"
  have nz: "n \<noteq> 0" "p \<noteq> 0" "0 \<notin> ctx_nodes c"
    using t repc_nonzero [OF c] by auto
  have ib: "?i = 0 \<and> b = Leaf \<or> ?i \<noteq> 0 \<and> ?i \<in> set_tree b"
    by (rule rep_root_cases) (use t in auto)
  have disj: "n \<noteq> p" "p \<notin> set_tree a" "n \<notin> set_tree a" "p \<notin> set_tree b" "n \<notin> set_tree b"
    "p \<notin> set_tree d" "n \<notin> set_tree d" "p \<notin> ctx_nodes c" "n \<notin> ctx_nodes c"
    "set_tree a \<inter> set_tree b = {}" "set_tree b \<inter> set_tree d = {}"
    "ctx_nodes c \<inter> set_tree a = {}" "ctx_nodes c \<inter> set_tree b = {}" "ctx_nodes c \<inter> set_tree d = {}"
    "distinct (inorder b)" "distinct (before c @ behind c)"
    using dist by (auto simp: ctx_nodes_def)
  have ine: "?i \<noteq> n" "?i \<noteq> p" "?i \<notin> set_tree a" "?i \<notin> set_tree d" "?i \<notin> ctx_nodes c"
    using ib disj nz rep_nonzero [OF t] by auto
  have par: "?i \<noteq> 0 \<Longrightarrow> t_parent (e_node s ?i) = n"
    using t ib by (cases b) auto
  have simple: "rotate_simple n p False s = Some ?s4"
    using disj ine par nz by (auto simp: rotate_simple_def reparent_def Let_def)
  have rc4: "repc (e_node ?s4) (t_root ?s4) c gp p"
    using c disj ine by (simp add: repc_reparent_other)
  have gp: "t_parent (e_node s p) = gp" and act: "n_active (e_node s n)" "n_active (e_node s p)"
    using t by auto
  have rot: "rotate n p False s = Some (?s5, n, t_balance (e_node s n) = 0)"
    using simple replace_node_ctx [OF rc4 nz(2) disj(8), of n] b0 nz gp act
    by (simp add: rotate_def)
  have "repc (e_node (ctx_set c n ?s4)) (t_root (ctx_set c n ?s4)) c gp n"
    by (rule repc_ctx_set [OF rc4]) (use disj in simp)
  then have rc5: "repc (e_node ?s5) (t_root ?s5) c gp n"
    using disj by (simp add: repc_reparent_other)
  have outside: "rep (e_node ?s5) y j u = rep (e_node s) y j u"
    if "n \<notin> set_tree u" "p \<notin> set_tree u" "?i \<notin> set_tree u" "ctx_nodes c \<inter> set_tree u = {}" for y j u
    using that by (simp add: rep_reparent_other rep_ctx_set_other)
  have "rep (e_node (set_left p ?i s)) n ?i b" using t disj by simp
  then have "rep (e_node (reparent ?i p (set_left p ?i s))) p ?i b"
    using disj(15) by (rule rep_reparent)
  then have b5: "rep (e_node ?s5) p ?i b"
    using disj by (simp add: rep_reparent_other rep_ctx_set_other)
  have t5: "rep (e_node ?s5) gp n (Node d n (Node b p a))"
    using t b5 nz disj ine by (simp add: outside)
  have keep: "t_left (e_node ?s5 x) = t_left (e_node s x) \<and> t_right (e_node ?s5 x) = t_right (e_node s x)"
    if "x \<in> set_tree a" for x
  proof -
    have "x \<noteq> n" "x \<noteq> p" "x \<notin> ctx_nodes c" using that disj by auto
    then show ?thesis by simp
  qed
  have "frame s ?s5"
    by (auto simp: frame_def)
  with rc5 t5 keep have "rotated s c gp (Node d n (Node b p a))
      ((\<lambda>x. t_balance (e_node s x))
         (p := (if t_balance (e_node s n) = 0 then -1 else 0),
          n := (if t_balance (e_node s n) = 0 then 1 else 0))) (set_tree a) ?s5 n"
    using disj(1) by (simp add: rotated_def)
  with rot show ?thesis by blast
qed

lemma in_zero:
  fixes x y :: nat
  assumes "x \<in> insert 0 A"
  shows "y \<noteq> 0 \<Longrightarrow> y \<notin> A \<Longrightarrow> x \<noteq> y"
    and "0 \<notin> B \<Longrightarrow> A \<inter> B = {} \<Longrightarrow> x \<notin> B"
  using assms by auto

lemma rotate_left_double:
  fixes s :: "'a treeset"
  assumes c: "repc (e_node s) (t_root s) c gp p"
    and t: "rep (e_node s) gp p (Node a p (Node (Node b m d) n e))"
    and dist: "distinct (before c @ inorder (Node a p (Node (Node b m d) n e)) @ behind c)"
    and b0: "t_balance (e_node s n) < 0"
  shows "\<exists>s'. rotate n p True s = Some (s', m, t_balance (e_node s n) = 0)
    \<and> rotated s c gp (Node (Node a p b) m (Node d n e))
        ((\<lambda>x. t_balance (e_node s x))
           (p := (if 0 < t_balance (e_node s m) then -1 else 0),
            n := (if t_balance (e_node s m) < 0 then 1 else 0), m := 0)) (set_tree a) s' m"
proof -
  let ?i = "t_left (e_node s m)"
  let ?j = "t_right (e_node s m)"
  let ?s1 = "set_right m n (reparent ?j n (set_left n ?j s))"
  let ?s2 = "set_left m p (reparent ?i p (set_right p ?i ?s1))"
  let ?s3 = "set_parent p m (set_parent n m ?s2)"
  let ?s4 = "set_balance m 0 (set_balance n (if t_balance (e_node s m) < 0 then 1 else 0)
      (set_balance p (if 0 < t_balance (e_node s m) then -1 else 0) ?s3))"
  let ?s5 = "reparent m gp (ctx_set c m ?s4)"
  have nz: "n \<noteq> 0" "p \<noteq> 0" "m \<noteq> 0" "0 \<notin> ctx_nodes c"
    using t repc_nonzero [OF c] by auto
  have ib: "?i = 0 \<and> b = Leaf \<or> ?i \<noteq> 0 \<and> ?i \<in> set_tree b"
    by (rule rep_root_cases) (use t in auto)
  have jb: "?j = 0 \<and> d = Leaf \<or> ?j \<noteq> 0 \<and> ?j \<in> set_tree d"
    by (rule rep_root_cases) (use t in auto)
  have disj: "n \<noteq> p" "n \<noteq> m" "p \<noteq> m" "p \<notin> set_tree a" "n \<notin> set_tree a" "m \<notin> set_tree a"
    "p \<notin> set_tree b" "n \<notin> set_tree b" "m \<notin> set_tree b"
    "p \<notin> set_tree d" "n \<notin> set_tree d" "m \<notin> set_tree d"
    "p \<notin> set_tree e" "n \<notin> set_tree e" "m \<notin> set_tree e"
    "p \<notin> ctx_nodes c" "n \<notin> ctx_nodes c" "m \<notin> ctx_nodes c"
    "set_tree a \<inter> set_tree b = {}" "set_tree a \<inter> set_tree d = {}"
    "set_tree b \<inter> set_tree d = {}" "set_tree b \<inter> set_tree e = {}" "set_tree d \<inter> set_tree e = {}"
    "ctx_nodes c \<inter> set_tree a = {}" "ctx_nodes c \<inter> set_tree b = {}"
    "ctx_nodes c \<inter> set_tree d = {}" "ctx_nodes c \<inter> set_tree e = {}"
    "distinct (inorder b)" "distinct (inorder d)" "distinct (before c @ behind c)"
    using dist by (simp_all add: ctx_nodes_def Int_Un_distrib Int_Un_distrib2 Int_commute)
  have zero: "0 \<notin> set_tree a" "0 \<notin> set_tree b" "0 \<notin> set_tree d" "0 \<notin> set_tree e"
    using rep_nonzero [OF t] by simp_all
  have ib0: "?i \<in> insert 0 (set_tree b)" and jb0: "?j \<in> insert 0 (set_tree d)"
    using ib jb by auto
  note disj = disj(1-30) nz zero
  have ine: "?i \<noteq> n" "?i \<noteq> p" "?i \<noteq> m" "?i \<notin> set_tree a" "?i \<notin> set_tree d" "?i \<notin> set_tree e"
      "?i \<notin> ctx_nodes c"
    and jne: "?j \<noteq> n" "?j \<noteq> p" "?j \<noteq> m" "?j \<notin> set_tree a" "?j \<notin> set_tree b" "?j \<notin> set_tree e"
      "?j \<notin> ctx_nodes c"
    using disj by (simp_all add: in_zero [OF ib0] in_zero [OF jb0] Int_commute)
  have m: "t_left (e_node s n) = m" and gp: "t_parent (e_node s p) = gp"
    and act: "n_active (e_node s n)" "n_active (e_node s p)" "n_active (e_node s m)"
    using t by auto
  have double: "rotate_double n p m True s = ?s4"
    unfolding rotate_double_def reparent_def [symmetric]
    using disj(1-3) ine(1-3) jne(1-3) nz by (simp add: field_reads Let_def del: upd_node_simps(4))
  have rc4: "repc (e_node ?s4) (t_root ?s4) c gp p"
    using c disj ine jne by (simp add: heap_frame del: upd_node_simps(4))
  have rot: "rotate n p True s = Some (?s5, m, t_balance (e_node s n) = 0)"
    using double replace_node_ctx [OF rc4 nz(2) disj(16), of m] b0 nz gp act m
    by (simp add: rotate_def)
  have "repc (e_node (ctx_set c m ?s4)) (t_root (ctx_set c m ?s4)) c gp m"
    by (rule repc_ctx_set [OF rc4]) (use disj in simp)
  then have rc5: "repc (e_node ?s5) (t_root ?s5) c gp m"
    using disj by (simp add: heap_frame del: upd_node_simps(4))
  have outside: "rep (e_node ?s5) y k u = rep (e_node s) y k u"
    if "n \<notin> set_tree u" "p \<notin> set_tree u" "m \<notin> set_tree u" "?i \<notin> set_tree u" "?j \<notin> set_tree u"
      "ctx_nodes c \<inter> set_tree u = {}" for y k u
    using that by (simp add: heap_frame rep_ctx_set_other del: upd_node_simps(4))
  have "rep (e_node (set_right p ?i ?s1)) m ?i b"
    using t disj jne by (simp add: heap_frame del: upd_node_simps(4))
  then have "rep (e_node (reparent ?i p (set_right p ?i ?s1))) p ?i b"
    using disj(28) by (rule rep_reparent)
  then have b5: "rep (e_node ?s5) p ?i b"
    using disj by (simp add: heap_frame rep_ctx_set_other del: upd_node_simps(4))
  have "rep (e_node (set_left n ?j s)) m ?j d" using t disj by simp
  then have "rep (e_node (reparent ?j n (set_left n ?j s))) n ?j d"
    using disj(29) by (rule rep_reparent)
  then have d5: "rep (e_node ?s5) n ?j d"
    using disj ine by (simp add: heap_frame rep_ctx_set_other del: upd_node_simps(4))
  have links: "t_left (e_node ?s5 m) = p" "t_right (e_node ?s5 m) = n" "t_parent (e_node ?s5 m) = gp"
    "t_parent (e_node ?s5 p) = m" "t_parent (e_node ?s5 n) = m"
    "t_left (e_node ?s5 p) = t_left (e_node s p)" "t_right (e_node ?s5 p) = ?i"
    "t_left (e_node ?s5 n) = ?j" "t_right (e_node ?s5 n) = t_right (e_node s n)"
    using nz disj(1-3,16-18) ine(1-3,7) jne(1-3,7) by (simp_all add: heap_frame del: upd_node_simps(4))
  have acts: "n_active (e_node ?s5 x) = n_active (e_node s x)" for x
    by simp
  have a5: "rep (e_node ?s5) p (t_left (e_node s p)) a" and e5: "rep (e_node ?s5) n (t_right (e_node s n)) e"
    using t disj ine jne by (simp_all only: outside rep.simps simp_thms)
  have t5: "rep (e_node ?s5) gp m (Node (Node a p b) m (Node d n e))"
    using a5 e5 b5 d5 nz act by (simp only: rep.simps links acts simp_thms)
  have keep: "t_left (e_node ?s5 x) = t_left (e_node s x) \<and> t_right (e_node ?s5 x) = t_right (e_node s x)"
    if "x \<in> set_tree a" for x
  proof -
    have "x \<noteq> n" "x \<noteq> p" "x \<noteq> m" "x \<notin> ctx_nodes c" using that disj by auto
    then show ?thesis by (simp add: heap_frame del: upd_node_simps(4))
  qed
  have "frame s ?s5"
    by (auto simp: frame_def)
  with rc5 t5 keep have "rotated s c gp (Node (Node a p b) m (Node d n e))
      ((\<lambda>x. t_balance (e_node s x))
         (p := (if 0 < t_balance (e_node s m) then -1 else 0),
          n := (if t_balance (e_node s m) < 0 then 1 else 0), m := 0)) (set_tree a) ?s5 m"
    using disj by (simp add: rotated_def heap_frame del: upd_node_simps(4))
  with rot show ?thesis by blast
qed

lemma rotate_right_double:
  fixes s :: "'a treeset"
  assumes c: "repc (e_node s) (t_root s) c gp p"
    and t: "rep (e_node s) gp p (Node (Node e n (Node d m b)) p a)"
    and dist: "distinct (before c @ inorder (Node (Node e n (Node d m b)) p a) @ behind c)"
    and b0: "0 < t_balance (e_node s n)"
  shows "\<exists>s'. rotate n p False s = Some (s', m, t_balance (e_node s n) = 0)
    \<and> rotated s c gp (Node (Node e n d) m (Node b p a))
        ((\<lambda>x. t_balance (e_node s x))
           (n := (if 0 < t_balance (e_node s m) then -1 else 0),
            p := (if t_balance (e_node s m) < 0 then 1 else 0), m := 0)) (set_tree a) s' m"
proof -
  let ?i = "t_right (e_node s m)"
  let ?j = "t_left (e_node s m)"
  let ?s1 = "set_left m n (reparent ?j n (set_right n ?j s))"
  let ?s2 = "set_right m p (reparent ?i p (set_left p ?i ?s1))"
  let ?s3 = "set_parent p m (set_parent n m ?s2)"
  let ?s4 = "set_balance m 0 (set_balance p (if t_balance (e_node s m) < 0 then 1 else 0)
      (set_balance n (if 0 < t_balance (e_node s m) then -1 else 0) ?s3))"
  let ?s5 = "reparent m gp (ctx_set c m ?s4)"
  have nz: "n \<noteq> 0" "p \<noteq> 0" "m \<noteq> 0" "0 \<notin> ctx_nodes c"
    using t repc_nonzero [OF c] by auto
  have ib: "?i = 0 \<and> b = Leaf \<or> ?i \<noteq> 0 \<and> ?i \<in> set_tree b"
    by (rule rep_root_cases) (use t in auto)
  have jb: "?j = 0 \<and> d = Leaf \<or> ?j \<noteq> 0 \<and> ?j \<in> set_tree d"
    by (rule rep_root_cases) (use t in auto)
  have disj: "n \<noteq> p" "n \<noteq> m" "p \<noteq> m" "p \<notin> set_tree a" "n \<notin> set_tree a" "m \<notin> set_tree a"
    "p \<notin> set_tree b" "n \<notin> set_tree b" "m \<notin> set_tree b"
    "p \<notin> set_tree d" "n \<notin> set_tree d" "m \<notin> set_tree d"
    "p \<notin> set_tree e" "n \<notin> set_tree e" "m \<notin> set_tree e"
    "p \<notin> ctx_nodes c" "n \<notin> ctx_nodes c" "m \<notin> ctx_nodes c"
    "set_tree a \<inter> set_tree b = {}" "set_tree a \<inter> set_tree d = {}"
    "set_tree b \<inter> set_tree d = {}" "set_tree b \<inter> set_tree e = {}" "set_tree d \<inter> set_tree e = {}"
    "ctx_nodes c \<inter> set_tree a = {}" "ctx_nodes c \<inter> set_tree b = {}"
    "ctx_nodes c \<inter> set_tree d = {}" "ctx_nodes c \<inter> set_tree e = {}"
    "distinct (inorder b)" "distinct (inorder d)" "distinct (before c @ behind c)"
    using dist by (simp_all add: ctx_nodes_def Int_Un_distrib Int_Un_distrib2 Int_commute)
  have zero: "0 \<notin> set_tree a" "0 \<notin> set_tree b" "0 \<notin> set_tree d" "0 \<notin> set_tree e"
    using rep_nonzero [OF t] by simp_all
  have ib0: "?i \<in> insert 0 (set_tree b)" and jb0: "?j \<in> insert 0 (set_tree d)"
    using ib jb by auto
  note disj = disj(1-30) nz zero
  have ine: "?i \<noteq> n" "?i \<noteq> p" "?i \<noteq> m" "?i \<notin> set_tree a" "?i \<notin> set_tree d" "?i \<notin> set_tree e"
      "?i \<notin> ctx_nodes c"
    and jne: "?j \<noteq> n" "?j \<noteq> p" "?j \<noteq> m" "?j \<notin> set_tree a" "?j \<notin> set_tree b" "?j \<notin> set_tree e"
      "?j \<notin> ctx_nodes c"
    using disj by (simp_all add: in_zero [OF ib0] in_zero [OF jb0] Int_commute)
  have m: "t_right (e_node s n) = m" and gp: "t_parent (e_node s p) = gp"
    and act: "n_active (e_node s n)" "n_active (e_node s p)" "n_active (e_node s m)"
    using t by auto
  have double: "rotate_double n p m False s = ?s4"
    unfolding rotate_double_def reparent_def [symmetric]
    using disj(1-3) ine(1-3) jne(1-3) nz by (simp add: field_reads Let_def del: upd_node_simps(4))
  have rc4: "repc (e_node ?s4) (t_root ?s4) c gp p"
    using c disj ine jne by (simp add: heap_frame del: upd_node_simps(4))
  have rot: "rotate n p False s = Some (?s5, m, t_balance (e_node s n) = 0)"
    using double replace_node_ctx [OF rc4 nz(2) disj(16), of m] b0 nz gp act m
    by (simp add: rotate_def)
  have "repc (e_node (ctx_set c m ?s4)) (t_root (ctx_set c m ?s4)) c gp m"
    by (rule repc_ctx_set [OF rc4]) (use disj in simp)
  then have rc5: "repc (e_node ?s5) (t_root ?s5) c gp m"
    using disj by (simp add: heap_frame del: upd_node_simps(4))
  have outside: "rep (e_node ?s5) y k u = rep (e_node s) y k u"
    if "n \<notin> set_tree u" "p \<notin> set_tree u" "m \<notin> set_tree u" "?i \<notin> set_tree u" "?j \<notin> set_tree u"
      "ctx_nodes c \<inter> set_tree u = {}" for y k u
    using that by (simp add: heap_frame rep_ctx_set_other del: upd_node_simps(4))
  have "rep (e_node (set_left p ?i ?s1)) m ?i b"
    using t disj jne by (simp add: heap_frame del: upd_node_simps(4))
  then have "rep (e_node (reparent ?i p (set_left p ?i ?s1))) p ?i b"
    using disj(28) by (rule rep_reparent)
  then have b5: "rep (e_node ?s5) p ?i b"
    using disj by (simp add: heap_frame rep_ctx_set_other del: upd_node_simps(4))
  have "rep (e_node (set_right n ?j s)) m ?j d" using t disj by simp
  then have "rep (e_node (reparent ?j n (set_right n ?j s))) n ?j d"
    using disj(29) by (rule rep_reparent)
  then have d5: "rep (e_node ?s5) n ?j d"
    using disj ine by (simp add: heap_frame rep_ctx_set_other del: upd_node_simps(4))
  have links: "t_right (e_node ?s5 m) = p" "t_left (e_node ?s5 m) = n" "t_parent (e_node ?s5 m) = gp"
    "t_parent (e_node ?s5 p) = m" "t_parent (e_node ?s5 n) = m"
    "t_right (e_node ?s5 p) = t_right (e_node s p)" "t_left (e_node ?s5 p) = ?i"
    "t_right (e_node ?s5 n) = ?j" "t_left (e_node ?s5 n) = t_left (e_node s n)"
    using nz disj(1-3,16-18) ine(1-3,7) jne(1-3,7) by (simp_all add: heap_frame del: upd_node_simps(4))
  have acts: "n_active (e_node ?s5 x) = n_active (e_node s x)" for x
    by simp
  have a5: "rep (e_node ?s5) p (t_right (e_node s p)) a" and e5: "rep (e_node ?s5) n (t_left (e_node s n)) e"
    using t disj ine jne by (simp_all only: outside rep.simps simp_thms)
  have t5: "rep (e_node ?s5) gp m (Node (Node e n d) m (Node b p a))"
    using a5 e5 b5 d5 nz act by (simp only: rep.simps links acts simp_thms)
  have keep: "t_left (e_node ?s5 x) = t_left (e_node s x) \<and> t_right (e_node ?s5 x) = t_right (e_node s x)"
    if "x \<in> set_tree a" for x
  proof -
    have "x \<noteq> n" "x \<noteq> p" "x \<noteq> m" "x \<notin> ctx_nodes c" using that disj by auto
    then show ?thesis by (simp add: heap_frame del: upd_node_simps(4))
  qed
  have "frame s ?s5"
    by (auto simp: frame_def)
  with rc5 t5 keep have "rotated s c gp (Node (Node e n d) m (Node b p a))
      ((\<lambda>x. t_balance (e_node s x))
         (n := (if 0 < t_balance (e_node s m) then -1 else 0),
          p := (if t_balance (e_node s m) < 0 then 1 else 0), m := 0)) (set_tree a) ?s5 m"
    using disj by (simp add: rotated_def heap_frame del: upd_node_simps(4))
  with rot show ?thesis by blast
qed

section \<open>What the callers of \<open>rotate\<close> need\<close>

text \<open>
  A subtree that is two levels higher on one side is replaced by a balanced tree \<open>u\<close> with the
  same nodes in the same order and height \<open>k\<close>.
\<close>

definition rebalanced ::
    "'a treeset \<Rightarrow> step list \<Rightarrow> nat \<Rightarrow> nat \<Rightarrow> nat tree \<Rightarrow> nat set \<Rightarrow> nat \<Rightarrow> 'a treeset \<Rightarrow> nat \<Rightarrow> nat tree \<Rightarrow> bool" where
  "rebalanced s c gp e t keep k s' n u \<longleftrightarrow>
     repc (e_node s') (t_root s') c gp n \<and> rep (e_node s') gp n u \<and> frame s s'
     \<and> inorder u = inorder t \<and> bal (e_node s') e u \<and> vh e u = k
     \<and> (\<forall>x\<in>ctx_nodes c. t_balance (e_node s' x) = t_balance (e_node s x))
     \<and> (\<forall>x\<in>keep. t_left (e_node s' x) = t_left (e_node s x) \<and> t_right (e_node s' x) = t_right (e_node s x))"

lemma rotated_rebalanced:
  assumes "rotated s c gp u f keep s' n" and "inorder u = inorder t" and "vh e u = k"
    and "(\<And>x. t_balance (e_node s' x) = f x) \<Longrightarrow> bal (e_node s') e u"
    and "\<And>x. x \<in> ctx_nodes c \<Longrightarrow> f x = t_balance (e_node s x)"
  shows "rebalanced s c gp e t keep k s' n u"
  using assms by (simp add: rotated_def rebalanced_def)

lemma bal_transfer:
  "(\<And>x. x \<in> set_tree u \<Longrightarrow> f x = t_balance (h x)) \<Longrightarrow> (\<And>x. t_balance (h' x) = f x) \<Longrightarrow>
    bal h e u \<Longrightarrow> bal h' e u"
  using bal_cong [of u h' h e] by simp

lemma rotate_left:
  fixes s :: "'a treeset"
  assumes c: "repc (e_node s) (t_root s) c gp p"
    and t: "rep (e_node s) gp p (Node a p v)"
    and dist: "distinct (before c @ inorder (Node a p v) @ behind c)"
    and e: "e \<noteq> p" "e \<notin> set_tree v"
    and b: "bal (e_node s) e a" "bal (e_node s) e v"
    and h: "vh e v = vh e a + 2"
  shows "\<exists>s' n u same. rotate (t_right (e_node s p)) p True s = Some (s', n, same)
    \<and> same = (t_balance (e_node s (t_right (e_node s p))) = 0)
    \<and> rebalanced s c gp e (Node a p v) (set_tree a) (vh e a + (if same then 3 else 2)) s' n u"
proof -
  obtain x n d where v: "v = Node x n d" using h by (cases v) auto
  have n: "t_right (e_node s p) = n" using t v by simp
  have bn: "t_balance (e_node s n) = int (vh e d) - int (vh e x)" "\<bar>t_balance (e_node s n)\<bar> \<le> 1"
    using b e v by auto
  have pn: "p \<notin> ctx_nodes c" "n \<notin> ctx_nodes c" using dist v by (auto simp: ctx_nodes_def)
  have disj: "n \<noteq> p" "p \<notin> set_tree a" "n \<notin> set_tree a" "p \<notin> set_tree x" "n \<notin> set_tree x"
    "p \<notin> set_tree d" "n \<notin> set_tree d" and ne: "n \<noteq> e"
    using dist v e by auto
  show ?thesis
  proof (cases "0 \<le> t_balance (e_node s n)")
    case True
    let ?f = "(\<lambda>x. t_balance (e_node s x))
           (p := (if t_balance (e_node s n) = 0 then 1 else 0),
            n := (if t_balance (e_node s n) = 0 then -1 else 0))"
    let ?u = "Node (Node a p x) n d"
    obtain s' where r: "rotate n p True s = Some (s', n, t_balance (e_node s n) = 0)"
      and rot: "rotated s c gp ?u ?f (set_tree a) s' n"
      using rotate_left_simple [OF c] t dist True unfolding v by blast
    have bal: "bal (e_node s') e ?u" if f: "\<And>x. t_balance (e_node s' x) = ?f x"
    proof -
      have sub: "bal (e_node s') e w" if "p \<notin> set_tree w" "n \<notin> set_tree w" "bal (e_node s) e w" for w
        by (rule bal_transfer [OF _ f that(3)]) (use that(1,2) in \<open>simp, blast\<close>)
      have "bal (e_node s') e a" "bal (e_node s') e x" "bal (e_node s') e d"
        using b v disj by (simp_all add: sub)
      with f show ?thesis using ne e(1) disj(1) bn h v True by auto
    qed
    have "rebalanced s c gp e (Node a p v) (set_tree a)
        (vh e a + (if t_balance (e_node s n) = 0 then 3 else 2)) s' n ?u"
    proof (rule rotated_rebalanced [OF rot _ _ bal])
      show "vh e ?u = vh e a + (if t_balance (e_node s n) = 0 then 3 else 2)"
        using v e(1) ne h bn True by auto
    qed (use v pn in auto)
    with r n show ?thesis by auto
  next
    case False
    then obtain y m z where x: "x = Node y m z" using bn h v e by (cases x) auto
    have m: "m \<notin> ctx_nodes c" using dist v x by (auto simp: ctx_nodes_def)
    have bm: "t_balance (e_node s m) = int (vh e z) - int (vh e y)" "\<bar>t_balance (e_node s m)\<bar> \<le> 1"
      using b e v x by auto
    have disj': "m \<noteq> n" "m \<noteq> p" "m \<notin> set_tree a" "m \<notin> set_tree y" "m \<notin> set_tree z"
      "m \<notin> set_tree d" and me: "m \<noteq> e"
      using dist v x e by auto
    let ?f = "(\<lambda>x. t_balance (e_node s x))
           (p := (if 0 < t_balance (e_node s m) then -1 else 0),
            n := (if t_balance (e_node s m) < 0 then 1 else 0), m := 0)"
    let ?u = "Node (Node a p y) m (Node z n d)"
    obtain s' where r: "rotate n p True s = Some (s', m, t_balance (e_node s n) = 0)"
      and rot: "rotated s c gp ?u ?f (set_tree a) s' m"
      using rotate_left_double [OF c] t dist False unfolding v x by (meson linorder_not_le)
    have hd: "vh e d = vh e a" and hyz: "max (vh e y) (vh e z) = vh e a"
      using bn h v x False e by auto
    have yz: "t_balance (e_node s m) = 0 \<and> vh e y = vh e a \<and> vh e z = vh e a
      \<or> t_balance (e_node s m) = 1 \<and> vh e a = Suc (vh e y) \<and> vh e z = vh e a
      \<or> t_balance (e_node s m) = -1 \<and> vh e a = Suc (vh e z) \<and> vh e y = vh e a"
      using hyz bm by (auto simp: max_def split: if_splits)
    have bal: "bal (e_node s') e ?u" if f: "\<And>x. t_balance (e_node s' x) = ?f x"
    proof -
      have sub: "bal (e_node s') e w"
        if "p \<notin> set_tree w" "n \<notin> set_tree w" "m \<notin> set_tree w" "bal (e_node s) e w" for w
        by (rule bal_transfer [OF _ f that(4)]) (use that(1,2,3) in \<open>simp, blast\<close>)
      have "bal (e_node s') e a" "bal (e_node s') e y" "bal (e_node s') e z" "bal (e_node s') e d"
        using b v x disj disj' by (simp_all add: sub)
      with yz f show ?thesis using ne me e(1) disj(1) disj'(1,2) hd by (elim disjE) simp_all
    qed
    have "rebalanced s c gp e (Node a p v) (set_tree a)
        (vh e a + (if t_balance (e_node s n) = 0 then 3 else 2)) s' m ?u"
    proof (rule rotated_rebalanced [OF rot _ _ bal])
      show "vh e ?u = vh e a + (if t_balance (e_node s n) = 0 then 3 else 2)"
        using hd hyz bn(1) e(1) ne me False x by auto
    qed (use v x pn m in auto)
    with r n show ?thesis by auto
  qed
qed

lemma rotate_right:
  fixes s :: "'a treeset"
  assumes c: "repc (e_node s) (t_root s) c gp p"
    and t: "rep (e_node s) gp p (Node v p a)"
    and dist: "distinct (before c @ inorder (Node v p a) @ behind c)"
    and e: "e \<noteq> p" "e \<notin> set_tree v"
    and b: "bal (e_node s) e a" "bal (e_node s) e v"
    and h: "vh e v = vh e a + 2"
  shows "\<exists>s' n u same. rotate (t_left (e_node s p)) p False s = Some (s', n, same)
    \<and> same = (t_balance (e_node s (t_left (e_node s p))) = 0)
    \<and> rebalanced s c gp e (Node v p a) (set_tree a) (vh e a + (if same then 3 else 2)) s' n u"
proof -
  obtain x n d where v: "v = Node d n x" using h by (cases v) auto
  have n: "t_left (e_node s p) = n" using t v by simp
  have bn: "t_balance (e_node s n) = int (vh e x) - int (vh e d)" "\<bar>t_balance (e_node s n)\<bar> \<le> 1"
    using b e v by auto
  have pn: "p \<notin> ctx_nodes c" "n \<notin> ctx_nodes c" using dist v by (auto simp: ctx_nodes_def)
  have disj: "n \<noteq> p" "p \<notin> set_tree a" "n \<notin> set_tree a" "p \<notin> set_tree x" "n \<notin> set_tree x"
    "p \<notin> set_tree d" "n \<notin> set_tree d" and ne: "n \<noteq> e"
    using dist v e by auto
  show ?thesis
  proof (cases "t_balance (e_node s n) \<le> 0")
    case True
    let ?f = "(\<lambda>x. t_balance (e_node s x))
           (p := (if t_balance (e_node s n) = 0 then -1 else 0),
            n := (if t_balance (e_node s n) = 0 then 1 else 0))"
    let ?u = "Node d n (Node x p a)"
    obtain s' where r: "rotate n p False s = Some (s', n, t_balance (e_node s n) = 0)"
      and rot: "rotated s c gp ?u ?f (set_tree a) s' n"
      using rotate_right_simple [OF c] t dist True unfolding v by blast
    have bal: "bal (e_node s') e ?u" if f: "\<And>x. t_balance (e_node s' x) = ?f x"
    proof -
      have sub: "bal (e_node s') e w" if "p \<notin> set_tree w" "n \<notin> set_tree w" "bal (e_node s) e w" for w
        by (rule bal_transfer [OF _ f that(3)]) (use that(1,2) in \<open>simp, blast\<close>)
      have "bal (e_node s') e a" "bal (e_node s') e x" "bal (e_node s') e d"
        using b v disj by (simp_all add: sub)
      with f show ?thesis using ne e(1) disj(1) bn h v True by auto
    qed
    have "rebalanced s c gp e (Node v p a) (set_tree a)
        (vh e a + (if t_balance (e_node s n) = 0 then 3 else 2)) s' n ?u"
    proof (rule rotated_rebalanced [OF rot _ _ bal])
      show "vh e ?u = vh e a + (if t_balance (e_node s n) = 0 then 3 else 2)"
        using v e(1) ne h bn True by auto
    qed (use v pn in auto)
    with r n show ?thesis by auto
  next
    case False
    then obtain y m z where x: "x = Node z m y" using bn h v e by (cases x) auto
    have m: "m \<notin> ctx_nodes c" using dist v x by (auto simp: ctx_nodes_def)
    have bm: "t_balance (e_node s m) = int (vh e y) - int (vh e z)" "\<bar>t_balance (e_node s m)\<bar> \<le> 1"
      using b e v x by auto
    have disj': "m \<noteq> n" "m \<noteq> p" "m \<notin> set_tree a" "m \<notin> set_tree y" "m \<notin> set_tree z"
      "m \<notin> set_tree d" and me: "m \<noteq> e"
      using dist v x e by auto
    let ?f = "(\<lambda>x. t_balance (e_node s x))
           (n := (if 0 < t_balance (e_node s m) then -1 else 0),
            p := (if t_balance (e_node s m) < 0 then 1 else 0), m := 0)"
    let ?u = "Node (Node d n z) m (Node y p a)"
    obtain s' where r: "rotate n p False s = Some (s', m, t_balance (e_node s n) = 0)"
      and rot: "rotated s c gp ?u ?f (set_tree a) s' m"
      using rotate_right_double [OF c] t dist False unfolding v x by (meson linorder_not_le)
    have hd: "vh e d = vh e a" and hyz: "max (vh e y) (vh e z) = vh e a"
      using bn h v x False e by auto
    have yz: "t_balance (e_node s m) = 0 \<and> vh e y = vh e a \<and> vh e z = vh e a
      \<or> t_balance (e_node s m) = 1 \<and> vh e a = Suc (vh e z) \<and> vh e y = vh e a
      \<or> t_balance (e_node s m) = -1 \<and> vh e a = Suc (vh e y) \<and> vh e z = vh e a"
      using hyz bm by (auto simp: max_def split: if_splits)
    have bal: "bal (e_node s') e ?u" if f: "\<And>x. t_balance (e_node s' x) = ?f x"
    proof -
      have sub: "bal (e_node s') e w"
        if "p \<notin> set_tree w" "n \<notin> set_tree w" "m \<notin> set_tree w" "bal (e_node s) e w" for w
        by (rule bal_transfer [OF _ f that(4)]) (use that(1,2,3) in \<open>simp, blast\<close>)
      have "bal (e_node s') e a" "bal (e_node s') e y" "bal (e_node s') e z" "bal (e_node s') e d"
        using b v x disj disj' by (simp_all add: sub)
      with yz f show ?thesis using ne me e(1) disj(1) disj'(1,2) hd by (elim disjE) simp_all
    qed
    have "rebalanced s c gp e (Node v p a) (set_tree a)
        (vh e a + (if t_balance (e_node s n) = 0 then 3 else 2)) s' m ?u"
    proof (rule rotated_rebalanced [OF rot _ _ bal])
      show "vh e ?u = vh e a + (if t_balance (e_node s n) = 0 then 3 else 2)"
        using hd hyz bn(1) e(1) ne me False x by auto
    qed (use v x pn m in auto)
    with r n show ?thesis by auto
  qed
qed

end
