(* ===== verification/TreeInsert.thy ===== *)
theory TreeInsert
  imports TreeRotate
begin

text \<open>
  \<open>insert(parent, element, c)\<close> keeps the tree an AVL tree: the loop that restores the balance
  from a new leaf upwards ends, fires no assert, and only relinks.
\<close>

text \<open>
  What a sequence of link operations leaves: a balanced tree with the node sequence \<open>xs\<close>.
\<close>

definition avl :: "'a treeset \<Rightarrow> nat tree \<Rightarrow> bool" where
  "avl s t \<longleftrightarrow> rep (e_node s) 0 (t_root s) t \<and> bal (e_node s) 0 t"

lemma avl_plugI:
  assumes "repc (e_node s) (t_root s) c p i" and "rep (e_node s) p i t"
    and "bal (e_node s) 0 t" and "balc (e_node s) 0 c (vh 0 t)"
  shows "avl s (plug c t)"
  using assms by (auto simp: avl_def intro: rep_plugI bal_plugI)

lemma rebalanced_avl:
  assumes "rebalanced s c gp 0 t keep k s' n u" and "balc (e_node s) 0 c k"
  shows "avl s' (plug c u) \<and> inorder (plug c u) = inorder (plug c t) \<and> frame s s'"
proof -
  have "balc (e_node s') 0 c k"
    using assms balc_cong [of c "e_node s'" "e_node s" 0 k] by (simp add: rebalanced_def)
  with assms(1) show ?thesis
    by (auto simp: rebalanced_def intro!: avl_plugI)
qed

lemma insert_loop_avl:
  fixes s :: "'a treeset"
  assumes "repc (e_node s) (t_root s) c p i" and "rep (e_node s) p i t"
    and "distinct (before c @ inorder t @ behind c)"
    and "bal (e_node s) 0 t" and "balc (e_node s) 0 c k" and "vh 0 t = Suc k"
    and "t_balance (e_node s i) \<noteq> 0 \<or> k = 0"
  shows "\<exists>s' t'. insert_loop i p s = Some s' \<and> avl s' t'
    \<and> inorder t' = inorder (plug c t) \<and> frame s s'"
  using assms
proof (induction c arbitrary: s p i t k rule: before.induct)
  case 1
  then show ?case by (auto simp: insert_loop.simps avl_def)
next
  case (2 x r c)
  have i: "i \<in> set_tree t" "t_left (e_node s x) = i" "p = x" "x \<noteq> 0" "t_parent (e_node s i) = x"
    using 2(2,3,7) by (cases t; simp)+
  have ir: "i \<noteq> t_right (e_node s x)"
    using rep_root_cases [of "e_node s" x "t_right (e_node s x)" r] 2(2,4) i(1) rep_nonzero [OF 2(3)] by auto
  have x: "x \<notin> set_tree r" "x \<notin> set_tree t" "x \<notin> ctx_nodes c"
    using 2(4) by (auto simp: ctx_nodes_def)
  have b: "t_balance (e_node s x) = int (vh 0 r) - int k" "\<bar>t_balance (e_node s x)\<bar> \<le> 1" "bal (e_node s) 0 r"
    "balc (e_node s) 0 c (Suc (max k (vh 0 r)))"
    using 2(6) by auto
  consider (pos) "t_balance (e_node s x) > 0" | (neg) "t_balance (e_node s x) < 0" | (zero) "t_balance (e_node s x) = 0"
    by linarith
  then show ?case
  proof cases
    case pos
    then have "vh 0 r = Suc k" using b by linarith
    then have "avl (set_balance x 0 s) (plug c (Node t x r))"
      using 2 b i x by (intro avl_plugI [of _ c "t_parent (e_node s x)" x]) simp_all
    with pos ir i show ?thesis
      by (subst insert_loop.simps) (auto intro!: exI [of _ "plug c (Node t x r)"])
  next
    case neg
    then have "k = Suc (vh 0 r)" using b by linarith
    then obtain s' n u where "rotate i x False s = Some (s', n, False)"
      and "rebalanced s c (t_parent (e_node s x)) 0 (Node t x r) (set_tree r) (vh 0 r + 2) s' n u"
      using rotate_right [of s c "t_parent (e_node s x)" x t r 0] 2 b i x rep_nonzero [OF 2(3)]
      by (auto split: if_splits)
    with rebalanced_avl [OF this(2)] b \<open>k = Suc (vh 0 r)\<close> neg ir i show ?thesis
      by (subst insert_loop.simps) (auto intro!: exI [of _ "plug c u"])
  next
    case zero
    then have "vh 0 r = k" using b by linarith
    then have "\<exists>s' t'. insert_loop x (t_parent (e_node s x)) (set_balance x (-1) s) = Some s' \<and> avl s' t'
        \<and> inorder t' = inorder (plug c (Node t x r)) \<and> frame (set_balance x (-1) s) s'"
      using 2(2-) b i x
      by (intro 2(1) [of "set_balance x (-1) s" "t_parent (e_node s x)" x "Node t x r" "Suc k"])
        (simp_all add: set_balance_frame del: upd_node_simps(4))
    with zero ir i show ?thesis
      by (subst insert_loop.simps) (auto intro: frame_trans [OF frame_simps(1)])
  qed
next
  case (3 l x c)
  have i: "i \<in> set_tree t" "t_right (e_node s x) = i" "p = x" "x \<noteq> 0" "t_parent (e_node s i) = x"
    using 3(2,3,7) by (cases t; simp)+
  have x: "x \<notin> set_tree l" "x \<notin> set_tree t" "x \<notin> ctx_nodes c"
    using 3(4) by (auto simp: ctx_nodes_def)
  have b: "t_balance (e_node s x) = int k - int (vh 0 l)" "\<bar>t_balance (e_node s x)\<bar> \<le> 1" "bal (e_node s) 0 l"
    "balc (e_node s) 0 c (Suc (max (vh 0 l) k))"
    using 3(6) by auto
  consider (neg) "t_balance (e_node s x) < 0" | (pos) "t_balance (e_node s x) > 0" | (zero) "t_balance (e_node s x) = 0"
    by linarith
  then show ?case
  proof cases
    case neg
    then have "vh 0 l = Suc k" using b by linarith
    then have "avl (set_balance x 0 s) (plug c (Node l x t))"
      using 3 b i x by (intro avl_plugI [of _ c "t_parent (e_node s x)" x]) simp_all
    with neg i show ?thesis
      by (subst insert_loop.simps) (auto intro!: exI [of _ "plug c (Node l x t)"])
  next
    case pos
    then have "k = Suc (vh 0 l)" using b by linarith
    then obtain s' n u where "rotate i x True s = Some (s', n, False)"
      and "rebalanced s c (t_parent (e_node s x)) 0 (Node l x t) (set_tree l) (vh 0 l + 2) s' n u"
      using rotate_left [of s c "t_parent (e_node s x)" x l t 0] 3 b i x rep_nonzero [OF 3(3)]
      by (auto split: if_splits)
    with rebalanced_avl [OF this(2)] b \<open>k = Suc (vh 0 l)\<close> pos i show ?thesis
      by (subst insert_loop.simps) (auto intro!: exI [of _ "plug c u"])
  next
    case zero
    then have "vh 0 l = k" using b by linarith
    then have "\<exists>s' t'. insert_loop x (t_parent (e_node s x)) (set_balance x 1 s) = Some s' \<and> avl s' t'
        \<and> inorder t' = inorder (plug c (Node l x t)) \<and> frame (set_balance x 1 s) s'"
      using 3(2-) b i x
      by (intro 3(1) [of "set_balance x 1 s" "t_parent (e_node s x)" x "Node l x t" "Suc k"])
        (simp_all add: set_balance_frame del: upd_node_simps(4))
    with zero i show ?thesis
      by (subst insert_loop.simps) (auto intro: frame_trans [OF frame_simps(1)])
  qed
qed

end
