(* ===== verification/TreeErase.thy ===== *)
theory TreeErase
  imports TreeInsert
begin

text \<open>
  \<open>erase(element)\<close> and \<open>replace_node\<close> with children: the loop that restores the balance before a
  node is unlinked, unlinking it, and putting one slot in the place of another.
\<close>

lemma rebalancedD:
  assumes "rebalanced s c gp e t keep k s' n u"
  shows "repc (e_node s') (t_root s') c gp n" "rep (e_node s') gp n u" "frame s s'"
    "inorder u = inorder t" "bal (e_node s') e u" "vh e u = k" "set_tree u = set_tree t"
    "balc (e_node s') e c m = balc (e_node s) e c m"
    "x \<in> keep \<Longrightarrow> t_left (e_node s' x) = t_left (e_node s x)"
    "x \<in> keep \<Longrightarrow> t_right (e_node s' x) = t_right (e_node s x)"
  using assms balc_cong [of c "e_node s'" "e_node s"]
  by (auto simp: rebalanced_def simp flip: set_inorder)

definition erase_loop_post ::
    "'a treeset \<Rightarrow> nat \<Rightarrow> nat tree \<Rightarrow> nat set \<Rightarrow> 'a treeset option \<Rightarrow> bool" where
  "erase_loop_post s e t keep res \<longleftrightarrow>
     (\<exists>s' t'. res = Some s' \<and> rep (e_node s') 0 (t_root s') t' \<and> bal (e_node s') e t'
       \<and> inorder t' = inorder t \<and> frame s s'
       \<and> (\<forall>x\<in>keep. t_left (e_node s' x) = t_left (e_node s x)
            \<and> t_right (e_node s' x) = t_right (e_node s x)))"

lemma erase_loop_postI:
  assumes "repc (e_node s') (t_root s') c p i" and "rep (e_node s') p i t'"
    and "bal (e_node s') e t'" and "balc (e_node s') e c (vh e t')"
    and "inorder t' = inorder t" and "frame s s'"
    and "\<And>x. x \<in> keep \<Longrightarrow> t_left (e_node s' x) = t_left (e_node s x)
            \<and> t_right (e_node s' x) = t_right (e_node s x)"
  shows "erase_loop_post s e (plug c t) keep (Some s')"
  unfolding erase_loop_post_def
  using assms by (intro exI [of _ s'] exI [of _ "plug c t'"]) (auto intro: rep_plugI bal_plugI)

lemma erase_loop_post_trans:
  assumes "erase_loop_post s e t keep' res" and "keep \<subseteq> keep'" and "inorder t = inorder u"
    and "frame s0 s"
    and "\<And>x. x \<in> keep \<Longrightarrow> t_left (e_node s x) = t_left (e_node s0 x)
            \<and> t_right (e_node s x) = t_right (e_node s0 x)"
  shows "erase_loop_post s0 e u keep res"
  using assms frame_trans [OF assms(4)] unfolding erase_loop_post_def by (auto 4 4)

lemma erase_loop_bal:
  fixes s :: "'a treeset"
  assumes "repc (e_node s) (t_root s) c p i" and "rep (e_node s) p i t"
    and "distinct (before c @ inorder t @ behind c)" and "e \<in> set_tree t"
    and "bal (e_node s) e t" and "balc (e_node s) e c (Suc k)" and "vh e t = k"
  shows "erase_loop_post s e (plug c t) (set_tree t) (erase_loop i p s)"
  using assms
proof (induction c arbitrary: s p i t k rule: before.induct)
  case 1
  then show ?case
    using erase_loop_postI [of s "[]" 0 i t e t s] by (auto simp: erase_loop.simps)
next
  case (2 x r c)
  have i: "t_left (e_node s x) = i" "p = x" "x \<noteq> 0" "x \<noteq> e" "e \<notin> set_tree r"
    using 2(2,3,5,7) 2(4) by auto
  have x: "x \<notin> set_tree r" "x \<notin> set_tree t" "x \<notin> ctx_nodes c"
    using 2(4) by (auto simp: ctx_nodes_def)
  have b: "t_balance (e_node s x) = int (vh e r) - int (Suc k)" "\<bar>t_balance (e_node s x)\<bar> \<le> 1" "bal (e_node s) e r"
    "balc (e_node s) e c (Suc (max (Suc k) (vh e r)))"
    using 2(7) by auto
  let ?gp = "t_parent (e_node s x)"
  have c: "repc (e_node s) (t_root s) c ?gp x" and tx: "rep (e_node s) ?gp x (Node t x r)"
    and dist: "distinct (before c @ inorder (Node t x r) @ behind c)"
    using 2(2,3,4) i by auto
  consider (neg) "t_balance (e_node s x) < 0" | (zero) "t_balance (e_node s x) = 0" | (pos) "t_balance (e_node s x) > 0"
    by linarith
  then show ?case
  proof cases
    case neg
    then have "vh e r = k" using b by linarith
    then have "erase_loop_post (set_balance x 0 s) e (plug c (Node t x r)) (set_tree (Node t x r))
        (erase_loop x ?gp (set_balance x 0 s))"
      using 2(2-) b i x dist
      by (intro 2(1) [of "set_balance x 0 s" ?gp x "Node t x r" "Suc k"])
        (simp_all add: set_balance_frame del: upd_node_simps(4))
    then have "erase_loop_post s e (plug c (Node t x r)) (set_tree t) (erase_loop x ?gp (set_balance x 0 s))"
      by (rule erase_loop_post_trans) (simp_all add: field_reads del: upd_node_simps(4), auto)
    with neg i show ?thesis by (subst erase_loop.simps) simp
  next
    case zero
    then have "vh e r = Suc k" using b by linarith
    with b 2 i x have "erase_loop_post s e (plug c (Node t x r)) (set_tree t) (Some (set_balance x 1 s))"
      by (intro erase_loop_postI [of _ c ?gp x "Node t x r"])
        (simp_all add: set_balance_frame del: upd_node_simps(4))
    with zero i show ?thesis by (subst erase_loop.simps) simp
  next
    case pos
    then have r: "vh e r = k + 2" using b by linarith
    obtain s' n u same where rot: "rotate (t_right (e_node s x)) x True s = Some (s', n, same)"
      and reb: "rebalanced s c ?gp e (Node t x r) (set_tree t) (k + (if same then 3 else 2)) s' n u"
      using rotate_left [OF c tx dist i(4)[symmetric] i(5) 2(6) b(3)] r 2(8) by auto
    note reb = rebalancedD [OF reb]
    show ?thesis
    proof (cases same)
      case True
      then have "erase_loop_post s e (plug c (Node t x r)) (set_tree t) (Some s')"
        using reb b(4) r by (intro erase_loop_postI [OF reb(1,2)]) (auto simp: eval_nat_numeral)
      with pos i rot True show ?thesis by (subst erase_loop.simps) simp
    next
      case False
      have "erase_loop_post s' e (plug c u) (set_tree u) (erase_loop n ?gp s')"
        using reb b(4) r dist 2(5) False
        by (intro 2(1) [OF reb(1,2), of "k + 2"]) (auto simp: ctx_nodes_def)
      then have "erase_loop_post s e (plug c (Node t x r)) (set_tree t) (erase_loop n ?gp s')"
        by (rule erase_loop_post_trans) (use reb in auto)
      with pos i rot False show ?thesis by (subst erase_loop.simps) simp
    qed
  qed
next
  case (3 l x c)
  have i: "t_right (e_node s x) = i" "p = x" "x \<noteq> 0" "x \<noteq> e" "e \<notin> set_tree l"
    using 3(2,3,5,7) 3(4) by auto
  have x: "x \<notin> set_tree l" "x \<notin> set_tree t" "x \<notin> ctx_nodes c"
    using 3(4) by (auto simp: ctx_nodes_def)
  have it: "i \<in> set_tree t" using 3(3,5) by (cases t) auto
  have il: "t_left (e_node s x) \<noteq> i"
    using rep_root_cases [of "e_node s" x "t_left (e_node s x)" l] 3(2,4) it rep_nonzero [OF 3(3)] by auto
  have b: "t_balance (e_node s x) = int (Suc k) - int (vh e l)" "\<bar>t_balance (e_node s x)\<bar> \<le> 1" "bal (e_node s) e l"
    "balc (e_node s) e c (Suc (max (vh e l) (Suc k)))"
    using 3(7) by auto
  let ?gp = "t_parent (e_node s x)"
  have c: "repc (e_node s) (t_root s) c ?gp x" and tx: "rep (e_node s) ?gp x (Node l x t)"
    and dist: "distinct (before c @ inorder (Node l x t) @ behind c)"
    using 3(2,3,4) i by auto
  consider (pos) "t_balance (e_node s x) > 0" | (zero) "t_balance (e_node s x) = 0" | (neg) "t_balance (e_node s x) < 0"
    by linarith
  then show ?case
  proof cases
    case pos
    then have "vh e l = k" using b by linarith
    then have "erase_loop_post (set_balance x 0 s) e (plug c (Node l x t)) (set_tree (Node l x t))
        (erase_loop x ?gp (set_balance x 0 s))"
      using 3(2-) b i x dist
      by (intro 3(1) [of "set_balance x 0 s" ?gp x "Node l x t" "Suc k"])
        (simp_all add: set_balance_frame del: upd_node_simps(4))
    then have "erase_loop_post s e (plug c (Node l x t)) (set_tree t) (erase_loop x ?gp (set_balance x 0 s))"
      by (rule erase_loop_post_trans) (simp_all add: field_reads del: upd_node_simps(4), auto)
    with pos i il show ?thesis by (subst erase_loop.simps) simp
  next
    case zero
    then have "vh e l = Suc k" using b by linarith
    with b 3 i x have "erase_loop_post s e (plug c (Node l x t)) (set_tree t) (Some (set_balance x (-1) s))"
      by (intro erase_loop_postI [of _ c ?gp x "Node l x t"])
        (simp_all add: set_balance_frame del: upd_node_simps(4))
    with zero i il show ?thesis by (subst erase_loop.simps) simp
  next
    case neg
    then have l: "vh e l = k + 2" using b by linarith
    obtain s' n u same where rot: "rotate (t_left (e_node s x)) x False s = Some (s', n, same)"
      and reb: "rebalanced s c ?gp e (Node l x t) (set_tree t) (k + (if same then 3 else 2)) s' n u"
      using rotate_right [OF c tx dist i(4)[symmetric] i(5) 3(6) b(3)] l 3(8) by auto
    note reb = rebalancedD [OF reb]
    show ?thesis
    proof (cases same)
      case True
      then have "erase_loop_post s e (plug c (Node l x t)) (set_tree t) (Some s')"
        using reb b(4) l by (intro erase_loop_postI [OF reb(1,2)]) (auto simp: eval_nat_numeral)
      with neg i il rot True show ?thesis by (subst erase_loop.simps) simp
    next
      case False
      have "erase_loop_post s' e (plug c u) (set_tree u) (erase_loop n ?gp s')"
        using reb b(4) l dist 3(5) False
        by (intro 3(1) [OF reb(1,2), of "k + 2"]) (auto simp: ctx_nodes_def)
      then have "erase_loop_post s e (plug c (Node l x t)) (set_tree t) (erase_loop n ?gp s')"
        by (rule erase_loop_post_trans) (use reb in auto)
      with neg i il rot False show ?thesis by (subst erase_loop.simps) simp
    qed
  qed
qed

section \<open>Unlinking a node\<close>

lemma balc_other: "e \<notin> ctx_nodes c \<Longrightarrow> d \<notin> ctx_nodes c \<Longrightarrow> balc h e c k = balc h d c k"
  by (induction c arbitrary: k rule: before.induct) (auto simp: vh_other [of e _ d] bal_other [of e _ d])

text \<open>The tree without node \<open>e\<close>.\<close>

definition unlinked :: "'a treeset \<Rightarrow> nat \<Rightarrow> nat tree \<Rightarrow> 'a treeset \<Rightarrow> nat tree \<Rightarrow> bool" where
  "unlinked s e t s' t' \<longleftrightarrow> avl s' t' \<and> inorder t' = remove1 e (inorder t) \<and> frame s s'"

lemma erase_node_unlinked:
  fixes s :: "'a treeset"
  assumes avl: "avl s t" and e: "e \<in> set_tree t" and dist: "distinct (inorder t)"
    and one: "t_left (e_node s e) = 0 \<or> t_right (e_node s e) = 0"
  shows "\<exists>s' t'. erase_node e s = Some s' \<and> unlinked s e t s' t'"
proof -
  obtain c l r where t: "t = plug c (Node l e r)" using split_at_node [OF e] by blast
  obtain p where c: "repc (e_node s) (t_root s) c p e" and n: "rep (e_node s) p e (Node l e r)"
    using avl t by (auto simp: avl_def rep_plug)
  have e0: "e \<noteq> 0" and nin: "e \<notin> ctx_nodes c" "0 \<notin> ctx_nodes c" "e \<notin> set_tree l" "e \<notin> set_tree r"
      "0 \<notin> set_tree l" "0 \<notin> set_tree r"
    using n repc_nonzero [OF c] rep_nonzero [OF n] dist t by (auto simp: ctx_nodes_def)
  have b: "bal (e_node s) e (Node l e r)" "balc (e_node s) e c (Suc (vh e (Node l e r)))"
    using avl t nin e0 bal_plug_iff [of 0 c "e_node s"] bal_other [of e l 0 "e_node s"] bal_other [of e r 0 "e_node s"]
      balc_other [of e c 0 "e_node s"] vh_other [of e l 0] vh_other [of e r 0]
    by (auto simp: avl_def)
  have "erase_loop_post s e (plug c (Node l e r)) (set_tree (Node l e r)) (erase_loop e p s)"
    by (rule erase_loop_bal [OF c n]) (use dist t b in auto)
  then obtain s1 t1 where loop: "erase_loop e p s = Some s1"
    and r1: "rep (e_node s1) 0 (t_root s1) t1" and b1: "bal (e_node s1) e t1"
    and io1: "inorder t1 = inorder t" and f1: "frame s s1"
    and links: "t_left (e_node s1 e) = t_left (e_node s e)" "t_right (e_node s1 e) = t_right (e_node s e)"
    using t by (auto simp: erase_loop_post_def)
  have "e \<in> set_tree t1" using e io1 by (simp flip: set_inorder)
  then obtain c1 l1 r1 where t1: "t1 = plug c1 (Node l1 e r1)" using split_at_node by blast
  obtain q where c1: "repc (e_node s1) (t_root s1) c1 q e" and n1: "rep (e_node s1) q e (Node l1 e r1)"
    using r1 t1 by (auto simp: rep_plug)
  have d1: "distinct (before c1 @ inorder (Node l1 e r1) @ behind c1)"
    using dist io1 t1 by (metis inorder_plug)
  have nin1: "e \<notin> ctx_nodes c1" "e \<notin> set_tree l1" "e \<notin> set_tree r1"
      "ctx_nodes c1 \<inter> set_tree l1 = {}" "ctx_nodes c1 \<inter> set_tree r1 = {}" "0 \<notin> ctx_nodes c1"
    using d1 repc_nonzero [OF c1] by (auto simp: ctx_nodes_def)
  have dc1: "distinct (before c1 @ behind c1)"
    using d1 by auto
  define j where "j = (if t_left (e_node s1 e) \<noteq> 0 then t_left (e_node s1 e) else t_right (e_node s1 e))"
  define w where "w = (if t_left (e_node s1 e) \<noteq> 0 then l1 else r1)"
  let ?s2 = "reparent j q (ctx_set c1 j s1)"
  have w: "rep (e_node s1) e j w" "distinct (inorder w)" "ctx_nodes c1 \<inter> set_tree w = {}" "e \<notin> set_tree w"
    "inorder w = inorder l1 @ inorder r1" "vh e w = vh e (Node l1 e r1)" "bal (e_node s1) e w"
    using n1 d1 nin1 one links b1 t1 bal_plug_iff [OF nin1(1), of "e_node s1"] by (auto simp: j_def w_def rep_zero)
  have "replace_node' e j False s1 = Some ?s2"
    using replace_node_ctx [OF c1 e0 nin1(1), of j] n1 by (simp add: replace_node'_def)
  then have run: "erase_node e s = Some ?s2"
    using n loop one e0 links by (simp add: erase_node_def j_def)
  have jc: "j \<notin> ctx_nodes c1"
    using rep_root_cases [OF w(1)] nin1 w(3) by auto
  have rc2: "repc (e_node ?s2) (t_root ?s2) c1 q j"
    using repc_ctx_set [OF c1 dc1, of j] jc by (simp add: repc_reparent_other)
  have rw2: "rep (e_node ?s2) q j w"
    by (rule rep_reparent [of _ e]) (use w in \<open>simp_all add: rep_ctx_set_other\<close>)
  have b2: "bal (e_node ?s2) e w" "balc (e_node ?s2) e c1 (vh e w)"
    using w b1 t1 bal_plug_iff [OF nin1(1), of "e_node s1"] bal_cong [of w "e_node ?s2" "e_node s1"]
      balc_cong [of c1 "e_node ?s2" "e_node s1"] by simp_all
  have nw: "0 \<notin> set_tree w" using rep_nonzero [OF w(1)] .
  have "avl ?s2 (plug c1 w)"
    by (rule avl_plugI [OF rc2 rw2])
      (use b2 nw w(4) nin1 in \<open>simp_all add: bal_other [of 0 w e] balc_other [of 0 c1 e] vh_other [of 0 w e]
        del: upd_node_simps(4)\<close>)
  moreover have "inorder (plug c1 w) = remove1 e (inorder t)"
    using w(5) nin1 io1 t1 by (auto simp: ctx_nodes_def remove1_append simp flip: io1)
  moreover have "frame s ?s2"
    using f1 by (simp add: frame_def)
  ultimately show ?thesis using run by (auto simp: unlinked_def)
qed

section \<open>One slot in the place of another\<close>

lemma replace_node_moved:
  fixes s :: "'a treeset"
  assumes avl: "avl s (plug c (Node l i r))" and dist: "distinct (inorder (plug c (Node l i r)))"
    and n: "n \<noteq> 0" "n \<notin> set_tree (plug c (Node l i r))"
  shows "\<exists>s'. replace_node' i n True s = Some s' \<and> avl (set_active n True s') (plug c (Node l n r))
    \<and> frame s s'"
proof -
  obtain p where c: "repc (e_node s) (t_root s) c p i" and t: "rep (e_node s) p i (Node l i r)"
    using avl by (auto simp: avl_def rep_plug)
  let ?l = "t_left (e_node s i)" and ?r = "t_right (e_node s i)"
  have nin: "n \<notin> ctx_nodes c" "n \<notin> set_tree l" "n \<notin> set_tree r" "n \<noteq> i" "i \<notin> ctx_nodes c"
      "i \<notin> set_tree l" "i \<notin> set_tree r" "i \<noteq> 0" "0 \<notin> ctx_nodes c" "0 \<notin> set_tree l" "0 \<notin> set_tree r"
      "ctx_nodes c \<inter> set_tree l = {}" "ctx_nodes c \<inter> set_tree r = {}" "set_tree l \<inter> set_tree r = {}"
      "distinct (inorder l)" "distinct (inorder r)" "distinct (before c @ behind c)"
    using n dist t repc_nonzero [OF c] rep_nonzero [OF t] by (auto simp: ctx_nodes_def)
  have lr: "?l \<in> insert 0 (set_tree l)" "?r \<in> insert 0 (set_tree r)"
    using rep_root_cases [of "e_node s" i ?l l] rep_root_cases [of "e_node s" i ?r r] t by auto
  have neq: "?l \<noteq> n" "?l \<noteq> i" "?r \<noteq> n" "?r \<noteq> i" "?l \<notin> ctx_nodes c" "?r \<notin> ctx_nodes c"
      "?l \<notin> set_tree r" "?r \<notin> set_tree l"
    using nin n(1) by (simp_all add: in_zero [OF lr(1)] in_zero [OF lr(2)] Int_commute)
  have lrne: "?r = ?l \<Longrightarrow> ?l = 0"
    using lr neq by auto
  have par: "?l \<noteq> 0 \<Longrightarrow> t_parent (e_node s ?l) = i" "?r \<noteq> 0 \<Longrightarrow> t_parent (e_node s ?r) = i"
    using t by (cases l; cases r; auto)+
  let ?s1 = "set_parent n p (ctx_set c n s)"
  let ?s2 = "set_left n ?l (set_balance n (t_balance (e_node s i)) ?s1)"
  let ?s3 = "set_right n ?r (reparent ?l n ?s2)"
  let ?s4 = "reparent ?r n ?s3"
  have ci: "e_node (ctx_set c n s) i = e_node s i"
    using nin by simp
  have children: "replace_children i n ?s1 = Some ?s4"
    using nin par neq ci lrne unfolding replace_children_def reparent_def
    by (simp add: Let_def)
  have run: "replace_node' i n True s = Some ?s4"
    using replace_link_ctx [OF c nin(8,5), of n] children t n(1)
    by (simp add: replace_node'_def replace_node_def Let_def)
  let ?s5 = "set_active n True ?s4"
  have "repc (e_node (ctx_set c n s)) (t_root (ctx_set c n s)) c p n"
    by (rule repc_ctx_set [OF c]) (rule nin)
  then have rc: "repc (e_node ?s5) (t_root ?s5) c p n"
    using nin neq by (simp add: heap_frame del: upd_node_simps(4))
  have "rep (e_node ?s2) i ?l l"
    using t nin by (simp add: heap_frame rep_ctx_set_other del: upd_node_simps(4))
  then have "rep (e_node (reparent ?l n ?s2)) n ?l l"
    by (rule rep_reparent) (rule nin)
  then have l5: "rep (e_node ?s5) n ?l l"
    using nin neq by (simp add: heap_frame del: upd_node_simps(4))
  have "rep (e_node ?s3) i ?r r"
    using t nin neq by (simp add: heap_frame rep_ctx_set_other del: upd_node_simps(4))
  then have "rep (e_node ?s4) n ?r r"
    by (rule rep_reparent) (rule nin)
  then have r5: "rep (e_node ?s5) n ?r r"
    using nin by (simp add: heap_frame del: upd_node_simps(4))
  have t5: "rep (e_node ?s5) p n (Node l n r)"
    using l5 r5 n(1) neq by (simp add: field_reads del: upd_node_simps(4))
  have bs: "t_balance (e_node ?s5 x) = (if x = n then t_balance (e_node s i) else t_balance (e_node s x))" for x
    by (simp add: field_reads del: upd_node_simps(4))
  have same: "t_balance (e_node ?s5 x) = t_balance (e_node s x)" if "x \<noteq> n" for x
    using that by (simp only: bs if_False)
  have b: "bal (e_node s) 0 (Node l i r)" "balc (e_node s) 0 c (vh 0 (Node l i r))"
    using avl bal_plug_iff [OF nin(9), of "e_node s"] by (auto simp: avl_def)
  have b1: "\<bar>int (vh 0 r) - int (vh 0 l)\<bar> \<le> 1"
    using b(1) nin(8) by auto
  have bl: "bal (e_node ?s5) 0 l" "bal (e_node ?s5) 0 r"
    by (rule bal_cong [THEN iffD2, OF same]; use b nin in auto)+
  have bc: "balc (e_node ?s5) 0 c (vh 0 (Node l n r))"
    by (rule balc_cong [THEN iffD2, OF same]; use b nin(1,8) n(1) in auto)
  have "avl ?s5 (plug c (Node l n r))"
    by (rule avl_plugI [OF rc t5])
      (use b b1 bl bc nin(8) n(1) bs [of n] in \<open>simp_all del: upd_node_simps(4)\<close>)
  moreover have "frame s ?s4"
    by (auto simp: frame_def)
  ultimately show ?thesis using run by blast
qed

end
