(* ===== verification/TreeSearch.thy ===== *)
theory TreeSearch
  imports TreeErase
begin

text \<open>
  The searches and the iterators of \<open>TreeSet\<close> on index trees: each loop ends and returns the
  node that the in-order sequence of the tree determines.
\<close>

definition first0 :: "nat \<Rightarrow> nat list \<Rightarrow> nat" where
  "first0 d xs = (if xs = [] then d else hd xs)"

definition last0 :: "nat \<Rightarrow> nat list \<Rightarrow> nat" where
  "last0 d xs = (if xs = [] then d else last xs)"

lemma first0_simps [simp]:
  "first0 d [] = d" "first0 d (x # xs) = x" "first0 d (xs @ ys) = first0 (first0 d ys) xs"
  by (simp_all add: first0_def)

lemma last0_simps [simp]:
  "last0 d [] = d" "last0 d (xs @ [x]) = x" "last0 d (xs @ ys) = last0 (last0 d xs) ys"
  "last0 d (x # xs) = last0 x xs"
  by (simp_all add: last0_def)

lemma first0_inorder: "t \<noteq> Leaf \<Longrightarrow> first0 d (inorder t) = hd (inorder t)"
  and last0_inorder: "t \<noteq> Leaf \<Longrightarrow> last0 d (inorder t) = last (inorder t)"
  by (simp_all add: first0_def last0_def)

section \<open>Smallest and largest node\<close>

lemma min_loop_inorder: "rep h p i t \<Longrightarrow> t \<noteq> Leaf \<Longrightarrow> min_loop h i = Some (hd (inorder t))"
proof (induction t arbitrary: p i)
  case (Node l x r)
  then show ?case by (subst min_loop.simps) (cases "l = Leaf", auto simp: rep_zero)
qed simp

lemma max_loop_inorder: "rep h p i t \<Longrightarrow> t \<noteq> Leaf \<Longrightarrow> max_loop h i = Some (last (inorder t))"
proof (induction t arbitrary: p i)
  case (Node l x r)
  then show ?case by (subst max_loop.simps) (cases "r = Leaf", auto simp: rep_zero)
qed simp

lemma min_node_inorder: "rep (e_node s) p i t \<Longrightarrow> min_node s i = Some (first0 0 (inorder t))"
  using min_loop_inorder [of "e_node s" p i t]
  by (cases "t = Leaf") (auto simp: min_node_def first0_inorder rep_zero)

lemma max_node_inorder: "rep (e_node s) p i t \<Longrightarrow> max_node s i = Some (last0 0 (inorder t))"
  using max_loop_inorder [of "e_node s" p i t]
  by (cases "t = Leaf") (auto simp: max_node_def last0_inorder rep_zero)

section \<open>Successor and predecessor\<close>

lemma up_left_behind:
  "repc h rt c p i \<Longrightarrow> i \<noteq> 0 \<Longrightarrow> t_parent (h i) = p \<Longrightarrow> i \<notin> ctx_nodes c \<Longrightarrow>
    distinct (before c @ behind c) \<Longrightarrow> up_left h i = Some (first0 0 (behind c))"
proof (induction c arbitrary: p i rule: before.induct)
  case 1
  then show ?case by (subst up_left.simps, subst up_left.simps) simp
next
  case (2 x r c)
  then show ?case by (subst up_left.simps) simp
next
  case (3 l x c)
  have "t_left (h x) \<noteq> i"
    using 3(2,3,5) rep_root [of h x "t_left (h x)" l] by auto
  moreover have "up_left h x = Some (first0 0 (behind c))"
    by (rule 3(1)) (use 3(2,6) in \<open>auto simp: ctx_nodes_def\<close>)
  ultimately show ?case using 3(2-4) by (subst up_left.simps) simp
qed

lemma up_right_before:
  "repc h rt c p i \<Longrightarrow> i \<noteq> 0 \<Longrightarrow> t_parent (h i) = p \<Longrightarrow> i \<notin> ctx_nodes c \<Longrightarrow>
    distinct (before c @ behind c) \<Longrightarrow> up_right h i = Some (last0 0 (before c))"
proof (induction c arbitrary: p i rule: before.induct)
  case 1
  then show ?case by (subst up_right.simps, subst up_right.simps) simp
next
  case (2 x r c)
  have "t_right (h x) \<noteq> i"
    using 2(2,3,5) rep_root [of h x "t_right (h x)" r] by auto
  moreover have "up_right h x = Some (last0 0 (before c))"
    by (rule 2(1)) (use 2(2,6) in \<open>auto simp: ctx_nodes_def\<close>)
  ultimately show ?case using 2(2-4) by (subst up_right.simps) simp
next
  case (3 l x c)
  then show ?case by (subst up_right.simps) simp
qed

lemma split_unique:
  assumes "distinct (xs @ x # ys)" and "xs @ x # ys = us @ x # vs"
  shows "xs = us \<and> ys = vs"
proof -
  have "x \<notin> set xs" "x \<notin> set ys"
    using assms(1) by auto
  moreover have "x \<notin> set us" "x \<notin> set vs"
    using assms(1) unfolding assms(2) by auto
  ultimately show ?thesis
    using assms(2) append_Cons_eq_iff by metis
qed

lemma iter_next_inorder:
  fixes s :: "'a treeset"
  assumes rep: "rep (e_node s) 0 (t_root s) t" and dist: "distinct (inorder t)"
    and io: "inorder t = xs @ i # ys"
  shows "iter_next s i = Some (first0 0 ys)" and "iter_prev s i = Some (last0 0 xs)"
proof -
  have "i \<in> set_tree t" using io by (simp flip: set_inorder)
  then obtain c l r where t: "t = plug c (Node l i r)" using split_at_node by blast
  obtain p where c: "repc (e_node s) (t_root s) c p i" and n: "rep (e_node s) p i (Node l i r)"
    using rep t by (auto simp: rep_plug)
  have nin: "i \<notin> ctx_nodes c" "distinct (before c @ behind c)"
    using dist t by (auto simp: ctx_nodes_def)
  have "xs @ i # ys = (before c @ inorder l) @ i # inorder r @ behind c"
    using io t by simp
  then have split: "xs = before c @ inorder l" "ys = inorder r @ behind c"
    using split_unique [of xs i ys] dist io by metis+
  show "iter_next s i = Some (first0 0 ys)"
    using up_left_behind [OF c _ _ nin] min_node_inorder [of s i "t_right (e_node s i)" r] n
    by (cases "r = Leaf") (auto simp: iter_next_def split rep_zero first0_inorder)
  show "iter_prev s i = Some (last0 0 xs)"
    using up_right_before [OF c _ _ nin] max_node_inorder [of s i "t_left (e_node s i)" l] n
    by (cases "l = Leaf") (auto simp: iter_prev_def split rep_zero last0_inorder)
qed

text \<open>A traversal from a node on meets the rest of the in-order sequence.\<close>

lemma iterate_inorder:
  fixes s :: "'a treeset"
  assumes rep: "rep (e_node s) 0 (t_root s) t" and dist: "distinct (inorder t)"
    and io: "inorder t = xs @ ys"
  shows "iterate s (first0 0 ys) = Some (map (\<lambda>i. n_data (e_node s i)) ys)"
  using io
proof (induction ys arbitrary: xs)
  case Nil
  then show ?case by (simp add: iterate.simps)
next
  case (Cons i ys)
  have "i \<in> set_tree t" using Cons.prems by (simp flip: set_inorder)
  then have "i \<noteq> 0" "n_active (e_node s i)"
    using rep_nonzero [OF rep] rep_active [OF rep] by (auto intro: gr0I)
  moreover have "iterate s (first0 0 ys) = Some (map (\<lambda>i. n_data (e_node s i)) ys)"
    using Cons.IH [of "xs @ [i]"] Cons.prems by simp
  ultimately show ?case
    using iter_next_inorder(1) [OF rep dist Cons.prems]
    by (subst iterate.simps) (simp add: iter_value_def)
qed

section \<open>Searches by value\<close>

text \<open>
  Where an unsuccessful search stops: in the empty link below node \<open>j\<close>, on the side the sign of
  the last comparison tells.
\<close>

fun stops_at :: "step list \<Rightarrow> nat \<Rightarrow> int \<Rightarrow> bool" where
  "stops_at [] j d \<longleftrightarrow> False"
| "stops_at (InL x r # c) j d \<longleftrightarrow> x = j \<and> 0 < d"
| "stops_at (InR l x # c) j d \<longleftrightarrow> x = j \<and> d < 0"

context lookup
begin

abbreviation sorted_nodes :: "(nat \<Rightarrow> 'a tree_node) \<Rightarrow> nat list \<Rightarrow> bool" where
  "sorted_nodes h \<equiv> sorted_wrt (\<lambda>x y. cmp (n_data (h x)) (n_data (h y)) < 0)"

lemma left_of:
  "sorted_nodes h (xs @ x # ys) \<Longrightarrow> ocmp (n_data (h x)) v \<le> 0 \<Longrightarrow> y \<in> set xs \<Longrightarrow> ocmp (n_data (h y)) v < 0"
  by (auto simp: sorted_wrt_append intro: ocmp_below)

lemma right_of:
  "sorted_nodes h (xs @ x # ys) \<Longrightarrow> 0 \<le> ocmp (n_data (h x)) v \<Longrightarrow> y \<in> set ys \<Longrightarrow> 0 < ocmp (n_data (h y)) v"
  by (auto simp: sorted_wrt_append intro: ocmp_above)

lemma contains_loop_cases:
  assumes "rep h p i t" and "t \<noteq> Leaf" and "sorted_nodes h (inorder (plug c t))"
    and "\<And>x. x \<in> set (before c) \<Longrightarrow> ocmp (n_data (h x)) v < 0"
    and "\<And>x. x \<in> set (behind c) \<Longrightarrow> 0 < ocmp (n_data (h x)) v"
  shows "(\<exists>j. contains_loop ocmp h v i = Some (True, j, 0) \<and> j \<in> set_tree t \<and> ocmp (n_data (h j)) v = 0)
    \<or> (\<exists>j d c'. contains_loop ocmp h v i = Some (False, j, d) \<and> plug c' Leaf = plug c t \<and> stops_at c' j d
        \<and> (\<forall>x\<in>set (before c'). ocmp (n_data (h x)) v < 0) \<and> (\<forall>x\<in>set (behind c'). 0 < ocmp (n_data (h x)) v))"
  using assms
proof (induction t arbitrary: p i c)
  case (Node l x r)
  have sorted: "sorted_nodes h ((before c @ inorder l) @ x # (inorder r @ behind c))"
    using Node.prems(3) by simp
  consider (eq) "ocmp (n_data (h x)) v = 0" | (less) "ocmp (n_data (h x)) v < 0" | (greater) "0 < ocmp (n_data (h x)) v"
    by linarith
  then show ?case
  proof cases
    case eq
    with Node.prems show ?thesis by (auto simp: contains_loop.simps Let_def)
  next
    case less
    have bef: "ocmp (n_data (h y)) v < 0" if "y \<in> set (before (InR l x # c))" for y
      using left_of [OF sorted, of v y] less that by auto
    show ?thesis
    proof (cases "r = Leaf")
      case True
      with Node.prems less have "contains_loop ocmp h v i = Some (False, x, ocmp (n_data (h x)) v)"
        by (subst contains_loop.simps) (simp add: rep_zero Let_def)
      moreover have "plug (InR l x # c) Leaf = plug c (Node l x r)" using True by simp
      moreover have "stops_at (InR l x # c) x (ocmp (n_data (h x)) v)" using less by simp
      moreover have "0 < ocmp (n_data (h y)) v" if "y \<in> set (behind (InR l x # c))" for y
        using Node.prems(5) that by simp
      ultimately show ?thesis using bef by blast
    next
      case False
      have "contains_loop ocmp h v x = contains_loop ocmp h v (t_right (h x))"
        using Node.prems less False by (subst contains_loop.simps) (auto simp: rep_zero Let_def)
      then show ?thesis
        using Node.IH(2) [of x "t_right (h x)" "InR l x # c"] Node.prems False bef by auto
    qed
  next
    case greater
    have beh: "0 < ocmp (n_data (h y)) v" if "y \<in> set (behind (InL x r # c))" for y
      using right_of [OF sorted, of v y] greater that by auto
    show ?thesis
    proof (cases "l = Leaf")
      case True
      with Node.prems greater have "contains_loop ocmp h v i = Some (False, x, ocmp (n_data (h x)) v)"
        by (subst contains_loop.simps) (simp add: rep_zero Let_def)
      moreover have "plug (InL x r # c) Leaf = plug c (Node l x r)" using True by simp
      moreover have "stops_at (InL x r # c) x (ocmp (n_data (h x)) v)" using greater by simp
      moreover have "ocmp (n_data (h y)) v < 0" if "y \<in> set (before (InL x r # c))" for y
        using Node.prems(4) that by simp
      ultimately show ?thesis using beh by blast
    next
      case False
      have "contains_loop ocmp h v x = contains_loop ocmp h v (t_left (h x))"
        using Node.prems greater False by (subst contains_loop.simps) (auto simp: rep_zero Let_def)
      then show ?thesis
        using Node.IH(1) [of x "t_left (h x)" "InL x r # c"] Node.prems False beh by auto
    qed
  qed
qed simp

text \<open>
  One step of the four loops: what the search of the subtrees returns decides the result.
\<close>

lemma filter_sides:
  assumes "sorted_nodes h (xs @ x # ys)"
  shows "ocmp (n_data (h x)) v \<le> 0 \<Longrightarrow> filter (\<lambda>y. ocmp (n_data (h y)) v < 0) xs = xs"
    and "ocmp (n_data (h x)) v \<le> 0 \<Longrightarrow> filter (\<lambda>y. ocmp (n_data (h y)) v \<le> 0) xs = xs"
    and "ocmp (n_data (h x)) v \<le> 0 \<Longrightarrow> filter (\<lambda>y. 0 \<le> ocmp (n_data (h y)) v) xs = []"
    and "ocmp (n_data (h x)) v \<le> 0 \<Longrightarrow> filter (\<lambda>y. 0 < ocmp (n_data (h y)) v) xs = []"
    and "0 \<le> ocmp (n_data (h x)) v \<Longrightarrow> filter (\<lambda>y. ocmp (n_data (h y)) v < 0) ys = []"
    and "0 \<le> ocmp (n_data (h x)) v \<Longrightarrow> filter (\<lambda>y. ocmp (n_data (h y)) v \<le> 0) ys = []"
    and "0 \<le> ocmp (n_data (h x)) v \<Longrightarrow> filter (\<lambda>y. 0 \<le> ocmp (n_data (h y)) v) ys = ys"
    and "0 \<le> ocmp (n_data (h x)) v \<Longrightarrow> filter (\<lambda>y. 0 < ocmp (n_data (h y)) v) ys = ys"
  using left_of [OF assms, of v] right_of [OF assms, of v]
  by (auto simp: filter_id_conv filter_empty_conv not_less not_le less_imp_le)

lemma lower_loop_inorder:
  assumes "rep (e_node s) p i t" and "sorted_nodes (e_node s) (inorder t)"
  shows "lower_loop ocmp s v i r =
    Some (last0 r (filter (\<lambda>x. ocmp (n_data (e_node s x)) v < 0) (inorder t)))"
  using assms
proof (induction t arbitrary: p i r)
  case Leaf
  then show ?case by (simp add: lower_loop.simps)
next
  case (Node a x b)
  have sorted: "sorted_nodes (e_node s) (inorder a @ x # inorder b)" using Node.prems by simp
  note sides = filter_sides [OF sorted, of v]
  have x: "i = x" "x \<noteq> 0" and ra: "rep (e_node s) x (t_left (e_node s x)) a"
    and rb: "rep (e_node s) x (t_right (e_node s x)) b"
    using Node.prems by simp_all
  have nea: "t_left (e_node s x) \<noteq> 0 \<Longrightarrow> inorder a \<noteq> []" and neb: "t_right (e_node s x) \<noteq> 0 \<Longrightarrow> inorder b \<noteq> []"
    using ra rb by auto
  have IHa: "lower_loop ocmp s v (t_left (e_node s x)) r' =
      Some (last0 r' (filter (\<lambda>x. ocmp (n_data (e_node s x)) v < 0) (inorder a)))" for r'
    using Node.IH(1) [OF ra] Node.prems by (simp add: sorted_wrt_append)
  have IHb: "lower_loop ocmp s v (t_right (e_node s x)) r' =
      Some (last0 r' (filter (\<lambda>x. ocmp (n_data (e_node s x)) v < 0) (inorder b)))" for r'
    using Node.IH(2) [OF rb] Node.prems by (simp add: sorted_wrt_append)
  consider (eq) "ocmp (n_data (e_node s x)) v = 0" | (less) "ocmp (n_data (e_node s x)) v < 0"
    | (greater) "0 < ocmp (n_data (e_node s x)) v"
    by linarith
  then show ?case
  proof cases
    case eq
    then show ?thesis
      using x sides max_node_inorder [OF ra] ra nea
      by (subst lower_loop.simps) (cases "t_left (e_node s x) = 0"; auto simp: rep_zero last0_def Let_def simp del: last0_simps)
  next
    case less
    then show ?thesis
      using x sides IHb by (subst lower_loop.simps) (simp add: Let_def)
  next
    case greater
    then show ?thesis
      using x sides IHa by (subst lower_loop.simps) (simp add: Let_def)
  qed
qed

lemma floor_loop_inorder:
  assumes "rep (e_node s) p i t" and "sorted_nodes (e_node s) (inorder t)"
  shows "floor_loop ocmp s v i r =
    Some (last0 r (filter (\<lambda>x. ocmp (n_data (e_node s x)) v \<le> 0) (inorder t)))"
  using assms
proof (induction t arbitrary: p i r)
  case Leaf
  then show ?case by (simp add: floor_loop.simps)
next
  case (Node a x b)
  have sorted: "sorted_nodes (e_node s) (inorder a @ x # inorder b)" using Node.prems by simp
  note sides = filter_sides [OF sorted, of v]
  have x: "i = x" "x \<noteq> 0" and ra: "rep (e_node s) x (t_left (e_node s x)) a"
    and rb: "rep (e_node s) x (t_right (e_node s x)) b"
    using Node.prems by simp_all
  have nea: "t_left (e_node s x) \<noteq> 0 \<Longrightarrow> inorder a \<noteq> []" and neb: "t_right (e_node s x) \<noteq> 0 \<Longrightarrow> inorder b \<noteq> []"
    using ra rb by auto
  have IHa: "floor_loop ocmp s v (t_left (e_node s x)) r' =
      Some (last0 r' (filter (\<lambda>x. ocmp (n_data (e_node s x)) v \<le> 0) (inorder a)))" for r'
    using Node.IH(1) [OF ra] Node.prems by (simp add: sorted_wrt_append)
  have IHb: "floor_loop ocmp s v (t_right (e_node s x)) r' =
      Some (last0 r' (filter (\<lambda>x. ocmp (n_data (e_node s x)) v \<le> 0) (inorder b)))" for r'
    using Node.IH(2) [OF rb] Node.prems by (simp add: sorted_wrt_append)
  consider (eq) "ocmp (n_data (e_node s x)) v = 0" | (less) "ocmp (n_data (e_node s x)) v < 0"
    | (greater) "0 < ocmp (n_data (e_node s x)) v"
    by linarith
  then show ?case
  proof cases
    case eq
    then show ?thesis
      using x sides by (subst floor_loop.simps) (simp add: Let_def)
  next
    case less
    then show ?thesis
      using x sides IHb by (subst floor_loop.simps) (simp add: Let_def)
  next
    case greater
    then show ?thesis
      using x sides IHa by (subst floor_loop.simps) (simp add: Let_def)
  qed
qed

lemma ceil_loop_inorder:
  assumes "rep (e_node s) p i t" and "sorted_nodes (e_node s) (inorder t)"
  shows "ceil_loop ocmp s v i r =
    Some (first0 r (filter (\<lambda>x. 0 \<le> ocmp (n_data (e_node s x)) v) (inorder t)))"
  using assms
proof (induction t arbitrary: p i r)
  case Leaf
  then show ?case by (simp add: ceil_loop.simps)
next
  case (Node a x b)
  have sorted: "sorted_nodes (e_node s) (inorder a @ x # inorder b)" using Node.prems by simp
  note sides = filter_sides [OF sorted, of v]
  have x: "i = x" "x \<noteq> 0" and ra: "rep (e_node s) x (t_left (e_node s x)) a"
    and rb: "rep (e_node s) x (t_right (e_node s x)) b"
    using Node.prems by simp_all
  have nea: "t_left (e_node s x) \<noteq> 0 \<Longrightarrow> inorder a \<noteq> []" and neb: "t_right (e_node s x) \<noteq> 0 \<Longrightarrow> inorder b \<noteq> []"
    using ra rb by auto
  have IHa: "ceil_loop ocmp s v (t_left (e_node s x)) r' =
      Some (first0 r' (filter (\<lambda>x. 0 \<le> ocmp (n_data (e_node s x)) v) (inorder a)))" for r'
    using Node.IH(1) [OF ra] Node.prems by (simp add: sorted_wrt_append)
  have IHb: "ceil_loop ocmp s v (t_right (e_node s x)) r' =
      Some (first0 r' (filter (\<lambda>x. 0 \<le> ocmp (n_data (e_node s x)) v) (inorder b)))" for r'
    using Node.IH(2) [OF rb] Node.prems by (simp add: sorted_wrt_append)
  consider (eq) "ocmp (n_data (e_node s x)) v = 0" | (less) "ocmp (n_data (e_node s x)) v < 0"
    | (greater) "0 < ocmp (n_data (e_node s x)) v"
    by linarith
  then show ?case
  proof cases
    case eq
    then show ?thesis
      using x sides by (subst ceil_loop.simps) (simp add: Let_def)
  next
    case less
    then show ?thesis
      using x sides IHb by (subst ceil_loop.simps) (simp add: Let_def)
  next
    case greater
    then show ?thesis
      using x sides IHa by (subst ceil_loop.simps) (simp add: Let_def)
  qed
qed

lemma higher_loop_inorder:
  assumes "rep (e_node s) p i t" and "sorted_nodes (e_node s) (inorder t)"
  shows "higher_loop ocmp s v i r =
    Some (first0 r (filter (\<lambda>x. 0 < ocmp (n_data (e_node s x)) v) (inorder t)))"
  using assms
proof (induction t arbitrary: p i r)
  case Leaf
  then show ?case by (simp add: higher_loop.simps)
next
  case (Node a x b)
  have sorted: "sorted_nodes (e_node s) (inorder a @ x # inorder b)" using Node.prems by simp
  note sides = filter_sides [OF sorted, of v]
  have x: "i = x" "x \<noteq> 0" and ra: "rep (e_node s) x (t_left (e_node s x)) a"
    and rb: "rep (e_node s) x (t_right (e_node s x)) b"
    using Node.prems by simp_all
  have nea: "t_left (e_node s x) \<noteq> 0 \<Longrightarrow> inorder a \<noteq> []" and neb: "t_right (e_node s x) \<noteq> 0 \<Longrightarrow> inorder b \<noteq> []"
    using ra rb by auto
  have IHa: "higher_loop ocmp s v (t_left (e_node s x)) r' =
      Some (first0 r' (filter (\<lambda>x. 0 < ocmp (n_data (e_node s x)) v) (inorder a)))" for r'
    using Node.IH(1) [OF ra] Node.prems by (simp add: sorted_wrt_append)
  have IHb: "higher_loop ocmp s v (t_right (e_node s x)) r' =
      Some (first0 r' (filter (\<lambda>x. 0 < ocmp (n_data (e_node s x)) v) (inorder b)))" for r'
    using Node.IH(2) [OF rb] Node.prems by (simp add: sorted_wrt_append)
  consider (eq) "ocmp (n_data (e_node s x)) v = 0" | (less) "ocmp (n_data (e_node s x)) v < 0"
    | (greater) "0 < ocmp (n_data (e_node s x)) v"
    by linarith
  then show ?case
  proof cases
    case eq
    then show ?thesis
      using x sides min_node_inorder [OF rb] rb neb
      by (subst higher_loop.simps) (cases "t_right (e_node s x) = 0"; auto simp: rep_zero first0_def Let_def simp del: first0_simps)
  next
    case less
    then show ?thesis
      using x sides IHb by (subst higher_loop.simps) (simp add: Let_def)
  next
    case greater
    then show ?thesis
      using x sides IHa by (subst higher_loop.simps) (simp add: Let_def)
  qed
qed

end

end
