(* ===== verification/TreeOps.thy ===== *)
theory TreeOps
  imports TreeSearch
begin

text \<open>
  The operations of \<open>TreeSet\<close> that change it: inserting, extracting, erasing, and moving nodes
  to other slots, on index trees.
\<close>

text \<open>
  \<open>tree_core s t\<close>: the links form the AVL tree \<open>t\<close> and \<open>_count\<close> is its number of nodes.
  \<open>tree_ok s t\<close>: moreover the active slots of the array are exactly the nodes of \<open>t\<close>, and the
  counters are in range.
\<close>

definition tree_core :: "'a treeset \<Rightarrow> nat tree \<Rightarrow> bool" where
  "tree_core s t \<longleftrightarrow> avl s t \<and> distinct (inorder t) \<and> e_count s = length (inorder t)"

definition tree_ok :: "'a treeset \<Rightarrow> nat tree \<Rightarrow> bool" where
  "tree_ok s t \<longleftrightarrow> tree_core s t
     \<and> set_tree t = {i. 1 \<le> i \<and> i < e_next s \<and> n_active (e_node s i)} \<and> 1 \<le> e_next s
     \<and> (e_capacity s = 0 \<and> e_next s = 1
        \<or> 16 \<le> e_capacity s \<and> e_next s \<le> e_capacity s \<and> \<not> n_active (e_node s 0))
     \<and> e_capacity s \<le> UINT32_MAX"

definition node_keys :: "'a treeset \<Rightarrow> nat tree \<Rightarrow> 'a list" where
  "node_keys s t = map (\<lambda>i. n_data (e_node s i)) (inorder t)"

section \<open>Linking a node\<close>

text \<open>What inserting slot \<open>e\<close> leaves alone.\<close>

definition grown :: "nat \<Rightarrow> 'a treeset \<Rightarrow> 'a treeset \<Rightarrow> bool" where
  "grown e s s' \<longleftrightarrow>
     e_capacity s' = e_capacity s \<and> e_next s' = e_next s \<and> e_count s' = e_count s + 1
     \<and> (\<forall>x. n_active (e_node s' x) = (x = e \<or> n_active (e_node s x))
          \<and> n_data (e_node s' x) = n_data (e_node s x))"

lemma avl_upd_count [simp]: "avl (s\<lparr>e_count := n\<rparr>) t = avl s t"
  by (simp add: avl_def)

lemma insert_link_avl:
  fixes s :: "'a treeset"
  assumes avl: "avl s (plug c Leaf)" and dist: "distinct (before c @ behind c)"
    and p: "repc (e_node s) (t_root s) c p 0" and e: "e \<noteq> 0" "e \<notin> ctx_nodes c"
  shows "\<exists>s' t'. insert_link p e (ctx_set c e s) = Some (s', e, True) \<and> avl s' t'
    \<and> inorder t' = before c @ e # behind c \<and> grown e s s'"
proof -
  let ?s1 = "set_left e 0 (set_balance e 0 (set_active e True (ctx_set c e s)))"
  let ?s2 = "set_parent e p (set_right e 0 ?s1)"
  have nin: "0 \<notin> ctx_nodes c" using repc_nonzero [OF p] .
  have b: "balc (e_node s) 0 c 0"
    using avl bal_plug_iff [OF nin, of "e_node s" Leaf] by (simp add: avl_def)
  have "repc (e_node ?s2) (t_root ?s2) c p e"
    using repc_ctx_set [OF p dist, of e] e by (simp add: heap_frame del: upd_node_simps(4))
  moreover have "rep (e_node ?s2) p e (Node Leaf e Leaf)"
    using e by simp
  moreover have "balc (e_node ?s2) 0 c 0"
    by (rule balc_cong [THEN iffD2, OF _ b]) (use e in auto)
  ultimately obtain s' t' where loop: "insert_loop e p ?s2 = Some s'" and avl': "avl s' t'"
    and io: "inorder t' = before c @ e # behind c" and f: "frame ?s2 s'"
    using insert_loop_avl [of ?s2 c p e "Node Leaf e Leaf" 0] dist e
    by (auto simp: ctx_nodes_def)
  have "insert_link p e (ctx_set c e s) = Some (s'\<lparr>e_count := e_count s' + 1\<rparr>, e, True)"
    using loop by (simp add: insert_link_def Let_def del: upd_node_simps)
  moreover have "grown e s (s'\<lparr>e_count := e_count s' + 1\<rparr>)"
    using f by (auto simp: grown_def frame_def)
  ultimately show ?thesis using avl' io by auto
qed

lemma insert_node_at:
  fixes s :: "'a treeset"
  assumes avl: "avl s (plug c Leaf)" and dist: "distinct (before c @ behind c)"
    and e: "e \<noteq> 0" "e \<notin> ctx_nodes c" and stop: "stops_at c j d"
  shows "\<exists>s' t'. insert_node cmp j e d s = Some (s', e, True) \<and> avl s' t'
    \<and> inorder t' = before c @ e # behind c \<and> grown e s s'"
proof -
  obtain p where p: "repc (e_node s) (t_root s) c p 0"
    using avl by (auto simp: avl_def rep_plug)
  have root: "t_root s \<noteq> 0"
  proof
    assume "t_root s = 0"
    then have "set_tree (plug c Leaf) = {}" using avl by (simp add: avl_def rep_zero)
    with stop show False by (cases c rule: before.cases) simp_all
  qed
  show ?thesis
  proof (cases c rule: before.cases)
    case (2 x r c')
    with p stop root e have "insert_node cmp j e d s = insert_link p e (ctx_set c e s)"
      by (auto simp: insert_node_def)
    then show ?thesis using insert_link_avl [OF avl dist p e] by simp
  next
    case (3 l x c')
    with p stop root e have "insert_node cmp j e d s = insert_link p e (ctx_set c e s)"
      by (auto simp: insert_node_def)
    then show ?thesis using insert_link_avl [OF avl dist p e] by simp
  qed (use stop in simp)
qed

lemma insert_node_empty:
  fixes s :: "'a treeset"
  assumes "tree_core s Leaf" and "e \<noteq> 0"
  shows "\<exists>s' t'. insert_node cmp 0 e d s = Some (s', e, True) \<and> avl s' t'
    \<and> inorder t' = [e] \<and> grown e s s'"
  using insert_link_avl [of s "[]" 0 e] assms
  by (auto simp: insert_node_def tree_core_def avl_def)

section \<open>Reading and writing slots beside the links\<close>

lemma avl_cong:
  assumes "t_root s' = t_root s"
    and "\<And>x. x \<in> set_tree t \<Longrightarrow>
      n_active (e_node s' x) = n_active (e_node s x) \<and> t_balance (e_node s' x) = t_balance (e_node s x)
      \<and> t_parent (e_node s' x) = t_parent (e_node s x) \<and> t_left (e_node s' x) = t_left (e_node s x)
      \<and> t_right (e_node s' x) = t_right (e_node s x)"
  shows "avl s' t = avl s t"
  using assms rep_cong [of t "e_node s'" "e_node s"] bal_cong [of t "e_node s'" "e_node s"]
  by (simp add: avl_def)

lemma avl_set_data: "avl (set_data i v s) t = avl s t"
  by (rule avl_cong) (simp_all add: field_reads del: upd_node_simps(4))

lemma avl_set_active: "i \<notin> set_tree t \<Longrightarrow> avl (set_active i b s) t = avl s t"
  by (rule avl_cong) (auto simp: field_reads simp del: upd_node_simps(4))

lemma avl_next [simp]: "avl (s\<lparr>e_next := n\<rparr>) t = avl s t"
  and avl_capacity [simp]: "avl (s\<lparr>e_capacity := n\<rparr>) t = avl s t"
  by (simp_all add: avl_def)

lemma set_active_id: "n_active (e_node s i) = b \<Longrightarrow> set_active i b s = s"
  by (cases s) (auto simp: upd_node_def fun_eq_iff)

lemma tree_coreD:
  assumes "tree_core s t"
  shows "avl s t" "distinct (inorder t)" "e_count s = length (inorder t)" "card (set_tree t) = e_count s"
    "0 \<notin> set_tree t" "rep (e_node s) 0 (t_root s) t" "bal (e_node s) 0 t"
  using assms rep_nonzero [of "e_node s" 0 "t_root s" t] distinct_card [of "inorder t"]
  by (auto simp: tree_core_def avl_def)

lemma tree_okD:
  assumes "tree_ok s t"
  shows "tree_core s t" "x \<in> set_tree t \<longleftrightarrow> 1 \<le> x \<and> x < e_next s \<and> n_active (e_node s x)" "1 \<le> e_next s"
    "e_count s < e_next s" "e_capacity s \<le> UINT32_MAX"
proof -
  have slots: "set_tree t = {i. 1 \<le> i \<and> i < e_next s \<and> n_active (e_node s i)}"
    using assms by (simp add: tree_ok_def)
  have "set_tree t \<subseteq> {1..<e_next s}" unfolding slots by auto
  then have "card (set_tree t) \<le> e_next s - 1"
    using card_mono [of "{1..<e_next s}" "set_tree t"] by simp
  moreover have "card (set_tree t) = e_count s" and "1 \<le> e_next s"
    using assms tree_coreD(4) [of s t] by (simp_all add: tree_ok_def)
  ultimately show "e_count s < e_next s" by linarith
qed (use assms in \<open>simp_all add: tree_ok_def\<close>)

section \<open>Extracting a node\<close>

lemma min_no_left: "rep h p i t \<Longrightarrow> t \<noteq> Leaf \<Longrightarrow> t_left (h (hd (inorder t))) = 0"
proof (induction t arbitrary: p i)
  case (Node l x r)
  then show ?case by (cases "l = Leaf") auto
qed simp

text \<open>What removing slot \<open>i\<close> leaves alone.\<close>

definition shrunk :: "nat \<Rightarrow> 'a treeset \<Rightarrow> 'a treeset \<Rightarrow> bool" where
  "shrunk i s s' \<longleftrightarrow>
     e_capacity s' = e_capacity s \<and> e_next s' = e_next s \<and> e_count s' = e_count s - 1
     \<and> (\<forall>x. n_active (e_node s' x) = (x \<noteq> i \<and> n_active (e_node s x))
          \<and> n_data (e_node s' x) = n_data (e_node s x))"

lemma extract_one_child:
  fixes s :: "'a treeset"
  assumes core: "tree_core s t" and i: "i \<in> set_tree t"
    and one: "\<not> (t_left (e_node s i) \<noteq> 0 \<and> t_right (e_node s i) \<noteq> 0)"
    and slot: "i \<ge> 1 \<and> i < e_next s \<and> n_active (e_node s i)"
  shows "\<exists>s' t'. tree_extract i s = Some (s', n_data (e_node s i)) \<and> avl s' t'
    \<and> inorder t' = remove1 i (inorder t) \<and> shrunk i s s'"
proof -
  note c = tree_coreD [OF core]
  obtain s1 t1 where er: "erase_node i s = Some s1" and avl: "avl s1 t1"
    and io: "inorder t1 = remove1 i (inorder t)" and f: "frame s s1"
    using erase_node_unlinked [OF c(1) i c(2)] one by (auto simp: unlinked_def)
  have "i \<notin> set_tree t1"
    using io c(2) by (simp flip: set_inorder)
  then have "avl (set_active i False s1) t1"
    using avl by (simp add: avl_set_active del: upd_node_simps(4))
  moreover have "tree_extract i s =
      Some ((set_active i False s1)\<lparr>e_count := e_count s1 - 1\<rparr>, n_data (e_node s i))"
    using er slot one f by (auto simp: tree_extract_def frame_def Let_def)
  moreover have "shrunk i s ((set_active i False s1)\<lparr>e_count := e_count s1 - 1\<rparr>)"
    using f by (auto simp: shrunk_def frame_def)
  ultimately show ?thesis using io by auto
qed

lemma extract_two_children:
  fixes s :: "'a treeset"
  assumes core: "tree_core s t" and i: "i \<in> set_tree t"
    and two: "t_left (e_node s i) \<noteq> 0" "t_right (e_node s i) \<noteq> 0"
    and slot: "i \<ge> 1 \<and> i < e_next s \<and> n_active (e_node s i)"
  shows "\<exists>s' t'. tree_extract i s = Some (s', n_data (e_node s i)) \<and> avl s' t'
    \<and> inorder t' = remove1 i (inorder t) \<and> shrunk i s s'"
proof -
  note c = tree_coreD [OF core]
  obtain c0 l0 r0 where t: "t = plug c0 (Node l0 i r0)" using split_at_node [OF i] by blast
  obtain p where n0: "rep (e_node s) p i (Node l0 i r0)"
    using c(6) t by (auto simp: rep_plug)
  then have r0: "rep (e_node s) i (t_right (e_node s i)) r0" "r0 \<noteq> Leaf" using two by auto
  define n where "n = hd (inorder r0)"
  obtain B0 where B0: "inorder r0 = n # B0"
    using r0(2) unfolding n_def by (cases "inorder r0") auto
  define A where "A = before c0 @ inorder l0"
  define B where "B = B0 @ behind c0"
  have io: "inorder t = A @ i # n # B" using t B0 by (simp add: A_def B_def)
  have dist: "distinct (A @ i # n # B)" using c(2) io by simp
  have nin: "n \<in> set_tree t" "n \<noteq> 0" "n \<noteq> i"
    using io dist c(5) by (auto simp flip: set_inorder)
  have min: "min_node s (t_right (e_node s i)) = Some n"
    using min_node_inorder [OF r0(1)] B0 by simp
  have "t_left (e_node s n) = 0"
    using min_no_left [OF r0] by (simp add: n_def)
  then obtain s1 t1 where er: "erase_node n s = Some s1" and avl1: "avl s1 t1"
    and io1: "inorder t1 = remove1 n (inorder t)" and f1: "frame s s1"
    using erase_node_unlinked [OF c(1) nin(1) c(2)] by (auto simp: unlinked_def)
  have io1': "inorder t1 = A @ i # B"
    using io1 io dist by (auto simp: remove1_append)
  have "i \<in> set_tree t1" using io1' by (simp flip: set_inorder)
  then obtain c1 l1 r1 where t1: "t1 = plug c1 (Node l1 i r1)" using split_at_node by blast
  have "(before c1 @ inorder l1) @ i # inorder r1 @ behind c1 = A @ i # B"
    using io1' t1 by simp
  then have AB: "before c1 @ inorder l1 = A" "inorder r1 @ behind c1 = B"
    using split_unique [of "before c1 @ inorder l1" i "inorder r1 @ behind c1" A B] dist by auto
  have d1: "distinct (inorder (plug c1 (Node l1 i r1)))"
    using io1' t1 dist by auto
  have n1: "n \<notin> set_tree (plug c1 (Node l1 i r1))"
    using io1' t1 dist by (auto simp flip: set_inorder)
  obtain s2 where rep2: "replace_node' i n True s1 = Some s2"
    and avl2: "avl (set_active n True s2) (plug c1 (Node l1 n r1))" and f2: "frame s1 s2"
    using replace_node_moved [OF _ d1 nin(2) n1] avl1 t1 by blast
  have act: "n_active (e_node s2 n)"
    using f1 f2 rep_active [OF c(6) nin(1)] by (simp add: frame_def)
  have io2: "inorder (plug c1 (Node l1 n r1)) = A @ n # B"
    using AB by simp
  have "set_tree (plug c1 (Node l1 n r1)) = set (A @ n # B)"
    using io2 by (metis set_inorder)
  then have "i \<notin> set_tree (plug c1 (Node l1 n r1))"
    using dist by (simp del: set_tree_plug)
  then have "avl (set_active i False (set_active i False s2)) (plug c1 (Node l1 n r1))"
    using avl2 set_active_id [of s2 n True] act by (simp add: avl_set_active del: upd_node_simps(4))
  moreover have "tree_extract i s =
      Some ((set_active i False (set_active i False s2))\<lparr>e_count := e_count s2 - 1\<rparr>, n_data (e_node s i))"
    using er slot two min rep2 f1 f2 by (auto simp: tree_extract_def frame_def Let_def)
  moreover have "shrunk i s ((set_active i False (set_active i False s2))\<lparr>e_count := e_count s2 - 1\<rparr>)"
    using f1 f2 by (auto simp: shrunk_def frame_def)
  moreover have "inorder (plug c1 (Node l1 n r1)) = remove1 i (inorder t)"
    using io io2 dist by (auto simp: remove1_append)
  ultimately show ?thesis by (metis avl_upd_count)
qed

lemma extract_ok:
  fixes s :: "'a treeset"
  assumes ok: "tree_ok s t" and i: "i \<in> set_tree t"
  shows "\<exists>s' t'. tree_extract i s = Some (s', n_data (e_node s i)) \<and> tree_ok s' t'
    \<and> inorder t' = remove1 i (inorder t) \<and> shrunk i s s'"
proof -
  note core = tree_okD(1) [OF ok]
  have slot: "i \<ge> 1 \<and> i < e_next s \<and> n_active (e_node s i)"
    using tree_okD(2) [OF ok] i by simp
  obtain s' t' where r: "tree_extract i s = Some (s', n_data (e_node s i))" and avl: "avl s' t'"
    and io: "inorder t' = remove1 i (inorder t)" and sh: "shrunk i s s'"
    using extract_one_child [OF core i _ slot] extract_two_children [OF core i _ _ slot] by blast
  have "tree_core s' t'"
    using avl io sh tree_coreD(2,3) [OF core] i by (auto simp: tree_core_def shrunk_def length_remove1)
  moreover have "set_tree t' = set_tree t - {i}"
    using io tree_coreD(2) [OF core] by (simp flip: set_inorder)
  ultimately have "tree_ok s' t'"
    using ok sh by (auto simp: tree_ok_def shrunk_def)
  with r io sh show ?thesis by blast
qed

section \<open>Moving nodes to other slots\<close>

definition reordering :: "'a treeset \<Rightarrow> nat tree \<Rightarrow> nat \<Rightarrow> nat \<Rightarrow> bool" where
  "reordering s t i j \<longleftrightarrow>
     tree_core s t \<and> set_tree t = {x. 1 \<le> x \<and> x \<le> j \<and> n_active (e_node s x)}
     \<and> (\<forall>x. 1 \<le> x \<longrightarrow> x < i \<longrightarrow> n_active (e_node s x)) \<and> 1 \<le> i \<and> e_count s < j"

definition same_size :: "'a treeset \<Rightarrow> 'a treeset \<Rightarrow> bool" where
  "same_size s s' \<longleftrightarrow> e_capacity s' = e_capacity s \<and> e_next s' = e_next s \<and> e_count s' = e_count s
     \<and> n_active (e_node s' 0) = n_active (e_node s 0)"

lemma reordering_step:
  fixes s :: "'a treeset"
  assumes inv: "reordering s t i j" and i: "i \<le> e_count s" and gap: "\<not> n_active (e_node s i)"
  shows "\<exists>j' s' t'. skip_unused (e_node s) i j = Some j'
    \<and> replace_node' j' i True (set_data i (n_data (e_node s j')) s) = Some s'
    \<and> reordering (set_active j' False (set_active i True s')) t' (i + 1) j'
    \<and> node_keys (set_active j' False (set_active i True s')) t' = node_keys s t
    \<and> same_size s (set_active j' False (set_active i True s'))"
proof -
  have core: "tree_core s t" and slots: "set_tree t = {x. 1 \<le> x \<and> x \<le> j \<and> n_active (e_node s x)}"
    and low: "\<And>x. 1 \<le> x \<Longrightarrow> x < i \<Longrightarrow> n_active (e_node s x)" and i1: "1 \<le> i"
    using inv by (auto simp: reordering_def)
  note c = tree_coreD [OF core]
  have "\<exists>x\<in>set_tree t. i < x"
  proof (rule ccontr)
    assume "\<not> ?thesis"
    then have "set_tree t \<subseteq> {1..<i}" using slots gap by (force simp: not_less le_less)
    then have "card (set_tree t) \<le> i - 1" using card_mono [of "{1..<i}"] by simp
    then show False using c(4) i i1 by simp
  qed
  then obtain j' where sk: "skip_unused (e_node s) i j = Some j'" and j': "i < j'" "j' \<le> j" "n_active (e_node s j')"
    and top: "\<And>y. j' < y \<Longrightarrow> y \<le> j \<Longrightarrow> \<not> n_active (e_node s y)"
    using skip_unused_finds [of i _ j "e_node s"] slots by blast
  have jt: "j' \<in> set_tree t" and it: "i \<notin> set_tree t" using slots j' gap i1 by auto
  have slots': "set_tree t = {x. 1 \<le> x \<and> x \<le> j' \<and> n_active (e_node s x)}"
    unfolding slots using j'(2) top by (auto, meson not_le_imp_less)
  have "set_tree t \<subseteq> {1..j'} - {i}" unfolding slots' using gap by auto
  then have "card (set_tree t) \<le> card ({1..j'} - {i})" by (intro card_mono) auto
  then have cj: "e_count s < j'" using c(4) i1 j' by simp
  obtain a l r where t: "t = plug a (Node l j' r)" using split_at_node [OF jt] by blast
  let ?s1 = "set_data i (n_data (e_node s j')) s"
  obtain s2 where rep2: "replace_node' j' i True ?s1 = Some s2"
    and avl2: "avl (set_active i True s2) (plug a (Node l i r))" and f2: "frame ?s1 s2"
    using replace_node_moved [of ?s1 a l j' r i] c(1,2) t it i1
    by (auto simp: avl_set_data simp del: upd_node_simps(4))
  let ?s4 = "set_active j' False (set_active i True s2)" and ?t = "plug a (Node l i r)"
  have dist: "distinct (before a @ inorder l @ j' # inorder r @ behind a)"
    "i \<notin> set (before a @ inorder l @ j' # inorder r @ behind a)"
    using c(2) it t by (auto simp: ctx_nodes_def)
  have jn: "j' \<notin> set_tree ?t" and st: "set_tree ?t = insert i (set_tree t - {j'})"
    using dist j'(1) t by (auto simp: ctx_nodes_def)
  have act: "n_active (e_node ?s4 x) \<longleftrightarrow> x \<noteq> j' \<and> (x = i \<or> n_active (e_node s x))" for x
    using f2 j'(1) by (auto simp: frame_def field_reads simp del: upd_node_simps(4))
  have dat: "n_data (e_node ?s4 x) = (if x = i then n_data (e_node s j') else n_data (e_node s x))" for x
    using f2 by (simp add: frame_def field_reads del: upd_node_simps(4))
  have cnt: "e_count ?s4 = e_count s" using f2 by (simp add: frame_def)
  have "avl ?s4 ?t" using avl2 jn by (simp add: avl_set_active del: upd_node_simps(4))
  then have "tree_core ?s4 ?t"
    using dist cnt c(3) t by (auto simp: tree_core_def)
  then have inv': "reordering ?s4 ?t (i + 1) j'"
    unfolding reordering_def st
    using slots' act low cj cnt i1 j'(1) by (auto simp: less_Suc_eq)
  have "node_keys ?s4 ?t = node_keys s t"
    using dist t by (auto simp: node_keys_def dat simp del: upd_node_simps(4))
  moreover have "same_size s ?s4"
    using f2 i1 j'(1) act [of 0] by (auto simp: same_size_def frame_def)
  ultimately show ?thesis using sk rep2 inv' by blast
qed

lemma reorder_loop_inv:
  fixes s :: "'a treeset"
  assumes "reordering s t i j" and "i + todo = e_count s + 1"
  shows "\<exists>s' t' j'. reorder_loop todo i j s = Some (s', j') \<and> reordering s' t' (e_count s + 1) j'
    \<and> node_keys s' t' = node_keys s t \<and> same_size s s'"
  using assms
proof (induction todo i j s arbitrary: t rule: reorder_loop.induct)
  case (1 i j s)
  then show ?case by (auto simp: same_size_def)
next
  case (2 todo i j s)
  show ?case
  proof (cases "n_active (e_node s i)")
    case True
    then have "reordering s t (i + 1) j"
      using 2(3) by (auto simp: reordering_def less_Suc_eq)
    with 2(1) [OF True this] 2(4) True show ?thesis by simp
  next
    case False
    obtain j' s' t' where sk: "skip_unused (e_node s) i j = Some j'"
      and rep: "replace_node' j' i True (set_data i (n_data (e_node s j')) s) = Some s'"
      and inv: "reordering (set_active j' False (set_active i True s')) t' (i + 1) j'"
      and keys: "node_keys (set_active j' False (set_active i True s')) t' = node_keys s t"
      and size: "same_size s (set_active j' False (set_active i True s'))"
      using reordering_step [OF 2(3) _ False] 2(4) by auto
    have "\<exists>s'' t'' j''. reorder_loop todo (i + 1) j' (set_active j' False (set_active i True s')) = Some (s'', j'')
        \<and> reordering s'' t'' (e_count s + 1) j''
        \<and> node_keys s'' t'' = node_keys s t \<and> same_size s s''"
      using 2(2) [OF False sk refl rep refl refl inv] 2(4) size keys by (auto simp: same_size_def)
    then show ?thesis using False sk rep by (simp add: Let_def del: upd_node_simps)
  qed
qed

end
