(* ===== verification/TreeSpec.thy ===== *)
theory TreeSpec
  imports TreeOps
begin

text \<open>
  What a \<open>TreeSet\<close> promises: \<open>tree_repr cmp s xs\<close> says that the array \<open>s\<close> is a well-formed AVL
  tree holding the strictly increasing sequence \<open>xs\<close>.  Every operation is described by what it
  makes of \<open>xs\<close>; that it returns \<open>Some\<close> means that no assert fires, no slot outside the array is
  written and every loop ends.
\<close>

definition tree_repr :: "('a \<Rightarrow> 'a \<Rightarrow> int) \<Rightarrow> 'a treeset \<Rightarrow> 'a list \<Rightarrow> bool" where
  "tree_repr cmp s xs \<longleftrightarrow> (\<exists>t. tree_ok s t \<and> node_keys s t = xs \<and> sorted_wrt (\<lambda>a b. cmp a b < 0) xs)"

text \<open>The abstract operations on the sequence.\<close>

definition ins :: "('a \<Rightarrow> 'a \<Rightarrow> int) \<Rightarrow> 'a \<Rightarrow> 'a list \<Rightarrow> 'a list" where
  "ins cmp v xs =
     (if list_ex (\<lambda>x. cmp x v = 0) xs then xs
      else filter (\<lambda>x. cmp x v < 0) xs @ v # filter (\<lambda>x. 0 < cmp x v) xs)"

definition del :: "('a \<Rightarrow> 'o \<Rightarrow> int) \<Rightarrow> 'o \<Rightarrow> 'a list \<Rightarrow> 'a list" where
  "del ocmp v xs = filter (\<lambda>x. ocmp x v \<noteq> 0) xs"

text \<open>
  The memory the next insertion may need is available: the array can still be doubled within
  \<open>uint32_t\<close>, and the allocator serves the request.
\<close>

definition can_grow :: "(nat \<Rightarrow> bool) \<Rightarrow> 'a treeset \<Rightarrow> bool" where
  "can_grow alloc s \<longleftrightarrow> alloc (if e_capacity s = 0 then 16 else e_capacity s * 2)
     \<and> e_capacity s * 2 \<le> UINT32_MAX"

section \<open>Slots\<close>

lemma reorder_ok:
  fixes s :: "'a treeset"
  assumes ok: "tree_ok s t"
  shows "\<exists>s' t' b. reorder s = Some (s', b) \<and> tree_ok s' t' \<and> node_keys s' t' = node_keys s t
    \<and> e_capacity s' = e_capacity s \<and> e_count s' = e_count s \<and> e_next s' = e_count s + 1"
proof (cases "e_count s + 1 < e_next s")
  case False
  then have "e_next s = e_count s + 1" using tree_okD(4) [OF ok] by simp
  with ok False show ?thesis
    by (intro exI [of _ s] exI [of _ t] exI [of _ False]) (simp add: reorder_def)
next
  case True
  note core = tree_okD(1) [OF ok]
  have slots: "set_tree t = {i. 1 \<le> i \<and> i < e_next s \<and> n_active (e_node s i)}"
    using ok by (simp add: tree_ok_def)
  have "reordering s t 1 (e_next s - 1)"
    unfolding reordering_def slots using core True by auto
  then obtain s1 t1 j where loop: "reorder_loop (e_count s) 1 (e_next s - 1) s = Some (s1, j)"
    and inv: "reordering s1 t1 (e_count s + 1) j" and keys: "node_keys s1 t1 = node_keys s t"
    and size: "same_size s s1"
    using reorder_loop_inv [of s t 1 "e_next s - 1" "e_count s"] by auto
  have core1: "tree_core s1 t1" and j: "e_count s < j"
    and slots1: "set_tree t1 = {x. 1 \<le> x \<and> x \<le> j \<and> n_active (e_node s1 x)}"
    and low: "\<And>x. 1 \<le> x \<Longrightarrow> x < e_count s + 1 \<Longrightarrow> n_active (e_node s1 x)"
    using inv size by (auto simp: reordering_def same_size_def)
  have "{1..e_count s} \<subseteq> set_tree t1"
    unfolding slots1 using low j by auto
  moreover have "card (set_tree t1) = card {1..e_count s}"
    using tree_coreD(4) [OF core1] size by (simp add: same_size_def)
  ultimately have full: "set_tree t1 = {1..e_count s}"
    using card_subset_eq [of "set_tree t1" "{1..e_count s}"] by auto
  let ?s2 = "s1\<lparr>e_next := e_count s1 + 1\<rparr>"
  have full': "set_tree t1 = {i. 1 \<le> i \<and> i < e_count s + 1 \<and> n_active (e_node s1 i)}"
    unfolding full using low by auto
  have core2: "tree_core ?s2 t1"
    using core1 by (simp add: tree_core_def)
  have "tree_ok ?s2 t1"
    unfolding tree_ok_def using core2 full' ok True size
    by (auto simp: tree_ok_def same_size_def)
  moreover have "node_keys ?s2 t1 = node_keys s t"
    using keys by (simp add: node_keys_def)
  moreover have "reorder s = Some (?s2, True)"
    using loop True j size by (simp add: reorder_def same_size_def)
  ultimately show ?thesis using size by (auto simp: same_size_def)
qed

lemma tree_ok_resized:
  fixes s :: "'a treeset"
  assumes ok: "tree_ok s t" and nxt: "e_next s = e_count s + 1"
    and cap: "e_count s < n" "16 \<le> n" "n \<le> UINT32_MAX"
  shows "tree_ok (set_active 0 False (s\<lparr>e_capacity := n\<rparr>)) t"
    and "node_keys (set_active 0 False (s\<lparr>e_capacity := n\<rparr>)) t = node_keys s t"
proof -
  note core = tree_okD(1) [OF ok]
  let ?s = "set_active 0 False (s\<lparr>e_capacity := n\<rparr>)"
  have "avl ?s t"
    using tree_coreD(1,5) [OF core] by (simp add: avl_set_active del: upd_node_simps(4))
  then have "tree_core ?s t"
    using tree_coreD(2,3) [OF core] by (simp add: tree_core_def)
  moreover have "n_active (e_node ?s i) = n_active (e_node s i)" if "1 \<le> i" for i
    using that by simp
  then have "set_tree t = {i. 1 \<le> i \<and> i < e_next ?s \<and> n_active (e_node ?s i)}"
    using ok unfolding tree_ok_def by (auto simp del: upd_node_simps(4))
  ultimately show "tree_ok ?s t"
    unfolding tree_ok_def using cap nxt by simp
  show "node_keys ?s t = node_keys s t"
    by (simp add: node_keys_def)
qed

lemma resize_ok:
  fixes s :: "'a treeset"
  assumes ok: "tree_ok s t"
  shows "\<exists>s' t' b. resize alloc n s = Some (s', b) \<and> tree_ok s' t' \<and> node_keys s' t' = node_keys s t
    \<and> e_count s' = e_count s
    \<and> (alloc (max 16 n) \<longrightarrow> e_count s < n \<longrightarrow> n \<le> UINT32_MAX
        \<longrightarrow> b \<and> e_capacity s' = max 16 n \<and> e_next s' = e_count s + 1)
    \<and> (b \<longleftrightarrow> e_count s < n \<and> n \<le> UINT32_MAX \<and> (max 16 n = e_capacity s \<or> alloc (max 16 n)))
    \<and> e_capacity s' = (if b then max 16 n else e_capacity s)"
proof (cases "n \<le> e_count s \<or> n > UINT32_MAX")
  case True
  then show ?thesis
    by (intro exI [of _ s] exI [of _ t] exI [of _ False]) (use ok in \<open>auto simp: resize_def\<close>)
next
  case False
  obtain s1 t1 b where r: "reorder s = Some (s1, b)" and ok1: "tree_ok s1 t1"
    and keys: "node_keys s1 t1 = node_keys s t" and cap: "e_capacity s1 = e_capacity s"
    and cnt: "e_count s1 = e_count s" and nxt: "e_next s1 = e_count s + 1"
    using reorder_ok [OF ok] by blast
  have m: "(if n < 16 then 16 else n) = max 16 n" "16 \<le> max 16 n" "e_count s1 < max 16 n" "max 16 n \<le> UINT32_MAX"
    using False cnt by (auto simp: UINT32_MAX_def)
  have ok2: "tree_ok (set_active 0 False (s1\<lparr>e_capacity := max 16 n\<rparr>)) t1"
    and keys2: "node_keys (set_active 0 False (s1\<lparr>e_capacity := max 16 n\<rparr>)) t1 = node_keys s1 t1"
    using tree_ok_resized [OF ok1 _ m(3,2,4)] nxt cnt by simp_all
  show ?thesis
  proof (cases "max 16 n = e_capacity s1 \<or> \<not> alloc (max 16 n)")
    case True
    then show ?thesis
      using False r ok1 keys cnt cap nxt m by (auto simp: resize_def elements_resize_def Let_def)
  next
    case alloc: False
    then have "resize alloc n s = Some (set_active 0 False (s1\<lparr>e_capacity := max 16 n\<rparr>), True)"
      using False r m(1) by (simp add: resize_def elements_resize_def)
    with ok2 keys2 keys cnt cap nxt alloc False show ?thesis by auto
  qed
qed

lemma increase_ok:
  fixes s :: "'a treeset"
  assumes ok: "tree_ok s t"
  shows "\<exists>s' t' b. increase alloc s = Some (s', b) \<and> tree_ok s' t' \<and> node_keys s' t' = node_keys s t
    \<and> (can_grow alloc s \<longrightarrow> e_next s' < e_capacity s')"
proof -
  consider (fresh) "e_capacity s = 0" | (room) "e_capacity s \<noteq> 0" "e_next s < e_capacity s"
    | (gaps) "e_capacity s \<noteq> 0" "e_capacity s \<le> e_next s" "e_count s * 2 mod (UINT32_MAX + 1) \<le> e_capacity s"
    | (full) "e_capacity s \<noteq> 0" "e_capacity s \<le> e_next s" "e_capacity s < e_count s * 2 mod (UINT32_MAX + 1)"
    by linarith
  then show ?thesis
  proof cases
    case fresh
    then have "e_count s = 0"
      using ok tree_okD(4) [OF ok] by (auto simp: tree_ok_def)
    with resize_ok [OF ok, of alloc 16] fresh show ?thesis
      by (auto simp: increase_def can_grow_def UINT32_MAX_def)
  next
    case room
    then show ?thesis
      by (intro exI [of _ s] exI [of _ t] exI [of _ True]) (use ok in \<open>simp add: increase_def\<close>)
  next
    case gaps
    have "16 \<le> e_capacity s" using ok gaps by (auto simp: tree_ok_def)
    moreover have "e_count s * 2 \<le> e_capacity s" if "can_grow alloc s"
      using gaps that ok tree_okD(4) [OF ok] by (auto simp: can_grow_def tree_ok_def)
    moreover obtain s' t' b where "reorder s = Some (s', b)" "tree_ok s' t'" "node_keys s' t' = node_keys s t"
      "e_capacity s' = e_capacity s" "e_next s' = e_count s + 1"
      using reorder_ok [OF ok] by blast
    ultimately show ?thesis using gaps by (auto simp: increase_def)
  next
    case full
    obtain s' t' b where r: "resize alloc (e_capacity s * 2 mod (UINT32_MAX + 1)) s = Some (s', b)"
      and ok': "tree_ok s' t'" and keys: "node_keys s' t' = node_keys s t"
      and grown: "alloc (max 16 (e_capacity s * 2 mod (UINT32_MAX + 1))) \<longrightarrow>
        e_count s < e_capacity s * 2 mod (UINT32_MAX + 1) \<longrightarrow> e_capacity s * 2 mod (UINT32_MAX + 1) \<le> UINT32_MAX
        \<longrightarrow> b \<and> e_capacity s' = max 16 (e_capacity s * 2 mod (UINT32_MAX + 1)) \<and> e_next s' = e_count s + 1"
      using resize_ok [OF ok] by blast
    have "16 \<le> e_capacity s" "e_next s \<le> e_capacity s" using ok full by (auto simp: tree_ok_def)
    moreover have "e_capacity s < e_count s * 2" using full(3) mod_less_eq_dividend order.strict_trans2 by blast
    ultimately have "can_grow alloc s \<Longrightarrow> e_next s' < e_capacity s'"
      using grown full tree_okD(4) [OF ok] by (auto simp: can_grow_def)
    moreover have "increase alloc s = Some (s', b)"
      using full r by (simp add: increase_def)
    ultimately show ?thesis using ok' keys by blast
  qed
qed

lemma node_keys_nth: "i \<in> set_tree t \<Longrightarrow> n_data (e_node s i) \<in> set (node_keys s t)"
  by (auto simp: node_keys_def simp flip: set_inorder)

section \<open>The sequence operations\<close>

lemma find_append:
  "find P (xs @ ys) = (case find P xs of None \<Rightarrow> find P ys | Some x \<Rightarrow> Some x)"
  by (induction xs) auto

lemma ins_split:
  assumes "\<And>x. x \<in> set bs \<Longrightarrow> cmp x v < 0" and "\<And>x. x \<in> set cs \<Longrightarrow> 0 < cmp x v"
  shows "ins cmp v (bs @ cs) = bs @ v # cs"
proof -
  have "filter (\<lambda>x. cmp x v < 0) bs = bs" "filter (\<lambda>x. cmp x v < 0) cs = []"
    "filter (\<lambda>x. 0 < cmp x v) bs = []" "filter (\<lambda>x. 0 < cmp x v) cs = cs"
    using assms by (auto simp: filter_id_conv filter_empty_conv not_less less_imp_le)
  moreover have "\<not> list_ex (\<lambda>x. cmp x v = 0) (bs @ cs)"
    using assms by (fastforce simp: list_ex_iff)
  ultimately show ?thesis by (simp add: ins_def)
qed

lemma ins_present: "x \<in> set xs \<Longrightarrow> cmp x v = 0 \<Longrightarrow> ins cmp v xs = xs"
  by (auto simp: ins_def list_ex_iff)

lemma set_ins:
  "set (ins cmp v xs) = (if \<exists>x\<in>set xs. cmp x v = 0 then set xs else insert v (set xs))"
  by (auto simp: ins_def list_ex_iff)

context lookup
begin

lemma sorted_keys_nodes:
  "sorted_wrt (\<lambda>a b. cmp a b < 0) (node_keys s t) \<longleftrightarrow> sorted_nodes (e_node s) (inorder t)"
  by (simp add: node_keys_def sorted_wrt_map)

lemma contains_node_cases [consumes 2, case_names empty found missing]:
  assumes core: "tree_core s t" and sorted: "sorted_nodes (e_node s) (inorder t)"
  obtains
      (empty) "t = Leaf" "contains_node ocmp s v (t_root s) d0 = Some (False, 0, d0)"
    | (found) j where "contains_node ocmp s v (t_root s) d0 = Some (True, j, 0)" "j \<in> set_tree t"
        "ocmp (n_data (e_node s j)) v = 0"
    | (missing) j d c where "contains_node ocmp s v (t_root s) d0 = Some (False, j, d)" "t = plug c Leaf"
        "stops_at c j d" "\<And>x. x \<in> set (before c) \<Longrightarrow> ocmp (n_data (e_node s x)) v < 0"
        "\<And>x. x \<in> set (behind c) \<Longrightarrow> 0 < ocmp (n_data (e_node s x)) v"
proof -
  note rep = tree_coreD(6) [OF core]
  show ?thesis
  proof (cases "t = Leaf")
    case True
    with rep show ?thesis by (intro empty) (simp_all add: contains_node_def)
  next
    case False
    then have root: "t_root s \<noteq> 0" using rep rep_zero by metis
    consider "\<exists>j. contains_loop ocmp (e_node s) v (t_root s) = Some (True, j, 0)
        \<and> j \<in> set_tree t \<and> ocmp (n_data (e_node s j)) v = 0"
      | "\<exists>j d c'. contains_loop ocmp (e_node s) v (t_root s) = Some (False, j, d) \<and> plug c' Leaf = plug [] t
        \<and> stops_at c' j d \<and> (\<forall>x\<in>set (before c'). ocmp (n_data (e_node s x)) v < 0)
        \<and> (\<forall>x\<in>set (behind c'). 0 < ocmp (n_data (e_node s x)) v)"
      using contains_loop_cases [OF rep False, of "[]" v] sorted by auto
    then show ?thesis
    proof cases
      case 1
      with root show ?thesis by (auto simp: contains_node_def intro: found)
    next
      case 2
      with root show ?thesis by (auto simp: contains_node_def intro: missing)
    qed
  qed
qed

text \<open>Finding and erasing by a search value.\<close>

lemma find_node:
  assumes core: "tree_core s t" and sorted: "sorted_nodes (e_node s) (inorder t)"
  shows "(\<exists>j\<in>set_tree t. tree_find ocmp v s = Some j \<and> ocmp (n_data (e_node s j)) v = 0)
    \<or> tree_find ocmp v s = Some 0 \<and> (\<forall>x\<in>set (node_keys s t). ocmp x v \<noteq> 0)"
  using core sorted
proof (cases rule: contains_node_cases [of s t v 0])
  case empty
  then show ?thesis by (simp add: tree_find_def node_keys_def)
next
  case (found j)
  then show ?thesis by (auto simp: tree_find_def)
next
  case (missing j d c)
  then have "\<forall>x\<in>set (node_keys s t). ocmp x v \<noteq> 0"
    by (fastforce simp: node_keys_def)
  with missing(1) show ?thesis by (simp add: tree_find_def)
qed

lemma del_node:
  assumes sorted: "sorted_nodes h (inorder t)" and i: "i \<in> set_tree t" "ocmp (n_data (h i)) v = 0"
    and dist: "distinct (inorder t)"
  shows "map (\<lambda>i. n_data (h i)) (remove1 i (inorder t)) = del ocmp v (map (\<lambda>i. n_data (h i)) (inorder t))"
proof -
  obtain xs ys where io: "inorder t = xs @ i # ys"
    using i(1) split_list [of i "inorder t"] by auto
  have "ocmp (n_data (h x)) v \<noteq> 0" if "x \<in> set xs \<union> set ys" for x
    using left_of [of h xs i ys v x] right_of [of h xs i ys v x] sorted io i(2) that by auto
  then have "filter (\<lambda>x. ocmp (n_data (h x)) v \<noteq> 0) xs = xs" "filter (\<lambda>x. ocmp (n_data (h x)) v \<noteq> 0) ys = ys"
    by (auto simp: filter_id_conv)
  then show ?thesis
    using io i(2) dist by (simp add: del_def filter_map comp_def remove1_append)
qed

lemma repr_erase:
  assumes "tree_repr cmp s xs"
  shows "\<exists>s'. tree_erase ocmp v s = Some (s', find (\<lambda>x. ocmp x v = 0) xs) \<and> tree_repr cmp s' (del ocmp v xs)"
proof -
  obtain t where ok: "tree_ok s t" and keys: "node_keys s t = xs" and sorted: "sorted_nodes (e_node s) (inorder t)"
    using assms by (auto simp: tree_repr_def sorted_keys_nodes)
  note core = tree_okD(1) [OF ok]
  consider (found) j where "j \<in> set_tree t" "tree_find ocmp v s = Some j" "ocmp (n_data (e_node s j)) v = 0"
    | (missing) "tree_find ocmp v s = Some 0" "\<forall>x\<in>set xs. ocmp x v \<noteq> 0"
    using find_node [OF core sorted, of v] keys by blast
  then show ?thesis
  proof cases
    case found
    obtain s' t' where ex: "tree_extract j s = Some (s', n_data (e_node s j))" and ok': "tree_ok s' t'"
      and io: "inorder t' = remove1 j (inorder t)" and sh: "shrunk j s s'"
      using extract_ok [OF ok found(1)] by blast
    have data: "n_data (e_node s' x) = n_data (e_node s x)" for x
      using sh by (simp add: shrunk_def)
    have keys': "node_keys s' t' = del ocmp v xs"
      using del_node [OF sorted found(1,3) tree_coreD(2) [OF core]] keys
      by (simp add: node_keys_def data io)
    have "find (\<lambda>x. ocmp x v = 0) xs = Some (n_data (e_node s j))"
    proof -
      obtain as bs where io: "inorder t = as @ j # bs"
        using found(1) split_list [of j "inorder t"] by auto
      have "\<forall>x\<in>set as. ocmp (n_data (e_node s x)) v \<noteq> 0"
        using left_of [of "e_node s" as j bs v] sorted io found(3) by force
      then have "find (\<lambda>x. ocmp x v = 0) (map (\<lambda>i. n_data (e_node s i)) as) = None"
        by (auto simp: find_None_iff)
      then show ?thesis
        using io found(3) keys by (auto simp: node_keys_def find_append)
    qed
    moreover have "tree_erase ocmp v s = Some (s', Some (n_data (e_node s j)))"
      using found ex tree_okD(2) [OF ok, of j] by (simp add: tree_erase_def)
    moreover have "tree_repr cmp s' (del ocmp v xs)"
      using ok' keys' assms keys unfolding tree_repr_def
      by (intro exI [of _ t']) (auto simp: del_def sorted_wrt_filter)
    ultimately show ?thesis by simp
  next
    case missing
    then have "find (\<lambda>x. ocmp x v = 0) xs = None" "del ocmp v xs = xs"
      by (auto simp: find_None_iff del_def filter_id_conv)
    with missing(1) assms show ?thesis by (simp add: tree_erase_def)
  qed
qed

end

section \<open>Inserting\<close>

lemma grown_tree:
  assumes core: "tree_core s (plug c Leaf)" and avl: "avl s' t'"
    and io: "inorder t' = before c @ e # behind c" and gr: "grown e s s'" and e: "e \<notin> ctx_nodes c"
  shows "tree_core s' t'" "set_tree t' = insert e (ctx_nodes c)"
    "node_keys s' t' = map (\<lambda>i. n_data (e_node s i)) (before c) @ n_data (e_node s e)
        # map (\<lambda>i. n_data (e_node s i)) (behind c)"
  using core avl gr e unfolding tree_core_def node_keys_def
  by (auto simp: io grown_def ctx_nodes_def simp flip: set_inorder)

context comparison
begin

text \<open>Linking slot \<open>e\<close>, whose value is new, where the search for its value stopped.\<close>

lemma link_missing:
  assumes core: "tree_core s (plug c Leaf)" and e: "e \<noteq> 0" "e \<notin> ctx_nodes c"
    and stop: "stops_at c j d"
    and side: "\<And>x. x \<in> set (before c) \<Longrightarrow> cmp (n_data (e_node s x)) (n_data (e_node s e)) < 0"
      "\<And>x. x \<in> set (behind c) \<Longrightarrow> 0 < cmp (n_data (e_node s x)) (n_data (e_node s e))"
  shows "\<exists>s' t'. insert_node cmp j e d s = Some (s', e, True) \<and> tree_core s' t'
    \<and> set_tree t' = insert e (ctx_nodes c) \<and> grown e s s'
    \<and> node_keys s' t' = ins cmp (n_data (e_node s e)) (node_keys s (plug c Leaf))"
proof -
  note c = tree_coreD [OF core]
  obtain s' t' where i: "insert_node cmp j e d s = Some (s', e, True)" and avl: "avl s' t'"
    and io: "inorder t' = before c @ e # behind c" and gr: "grown e s s'"
    using insert_node_at [OF c(1) _ e stop, of cmp] c(2) by auto
  note g = grown_tree [OF core avl io gr e(2)]
  have "node_keys s' t' = ins cmp (n_data (e_node s e)) (node_keys s (plug c Leaf))"
    unfolding g(3) unfolding node_keys_def inorder_plug inorder.simps append_Nil map_append
    by (rule ins_split [symmetric]) (use side in auto)
  with i g(1,2) gr show ?thesis by blast
qed

lemma link_first:
  assumes core: "tree_core s Leaf" and e: "e \<noteq> 0"
  shows "\<exists>s' t'. insert_node cmp 0 e d s = Some (s', e, True) \<and> tree_core s' t'
    \<and> set_tree t' = {e} \<and> grown e s s' \<and> node_keys s' t' = ins cmp (n_data (e_node s e)) []"
proof -
  obtain s' t' where i: "insert_node cmp 0 e d s = Some (s', e, True)" and avl: "avl s' t'"
    and io: "inorder t' = [e]" and gr: "grown e s s'"
    using insert_node_empty [OF core e] by blast
  note g = grown_tree [of s "[]" s' t' e, simplified, OF core avl io gr]
  with i gr show ?thesis by (auto simp: ins_def)
qed

lemma ins_sorted:
  assumes "sorted_wrt (\<lambda>a b. cmp a b < 0) xs"
  shows "sorted_wrt (\<lambda>a b. cmp a b < 0) (ins cmp v xs)"
proof -
  have "cmp a b < 0" if "cmp a v < 0" "0 < cmp b v" for a b
    using cmp_less_trans [of a v b] cmp_less_iff [of v b] that by simp
  moreover have "cmp v b < 0" if "0 < cmp b v" for b
    using cmp_less_iff [of v b] that by simp
  ultimately show ?thesis
    using assms by (auto simp: ins_def sorted_wrt_append sorted_wrt_filter)
qed

text \<open>The common part of \<open>insert\<close> and \<open>emplace\<close>: slot \<open>_next\<close> is filled and linked.\<close>

lemma new_slot:
  assumes ok: "tree_ok s t" and sorted: "sorted_wrt (\<lambda>a b. cmp a b < 0) (node_keys s t)"
    and room: "e_next s < e_capacity s"
    and missing: "contains_node cmp s v (t_root s) 0 = Some (False, i, d)"
  shows "\<exists>s'. insert_node cmp i (e_next s) d ((set_data (e_next s) v s)\<lparr>e_next := e_next s + 1\<rparr>)
      = Some (s', e_next s, True) \<and> iter_value s' (e_next s) = Some v \<and> e_next s' = e_next s + 1
    \<and> (\<forall>x\<in>set (node_keys s t). cmp x v \<noteq> 0) \<and> tree_repr cmp s' (ins cmp v (node_keys s t))"
proof -
  note core = tree_okD(1) [OF ok]
  let ?e = "e_next s"
  let ?s = "(set_data ?e v s)\<lparr>e_next := ?e + 1\<rparr>"
  have et: "?e \<notin> set_tree t" and e0: "?e \<noteq> 0" using tree_okD(2,3) [OF ok] by auto
  have data: "n_data (e_node ?s x) = (if x = ?e then v else n_data (e_node s x))" for x by simp
  have keys: "node_keys ?s t = node_keys s t"
    unfolding node_keys_def using et by (auto simp: data)
  have core': "tree_core ?s t"
    using core by (simp add: tree_core_def avl_set_data del: upd_node_simps(4))
  have sorted': "self.sorted_nodes (e_node s) (inorder t)"
    using sorted by (simp add: self.sorted_keys_nodes)
  have "\<exists>s' t'. insert_node cmp i ?e d ?s = Some (s', ?e, True) \<and> tree_core s' t'
      \<and> set_tree t' = insert ?e (set_tree t) \<and> grown ?e ?s s' \<and> node_keys s' t' = ins cmp v (node_keys s t)
      \<and> (\<forall>x\<in>set (node_keys s t). cmp x v \<noteq> 0)"
    using core sorted'
  proof (cases rule: self.contains_node_cases [of s t v 0])
    case empty
    then show ?thesis
      using link_first [of ?s ?e d] core' e0 missing keys by (auto simp: node_keys_def)
  next
    case (found j)
    then show ?thesis using missing by simp
  next
    case (missing j d' c)
    have ec: "?e \<notin> ctx_nodes c" using et missing(2) by simp
    have "\<forall>x\<in>set (node_keys s t). cmp x v \<noteq> 0"
      unfolding missing(2) node_keys_def using missing(4,5) by fastforce
    moreover have "\<exists>s' t'. insert_node cmp j ?e d' ?s = Some (s', ?e, True) \<and> tree_core s' t'
      \<and> set_tree t' = insert ?e (ctx_nodes c) \<and> grown ?e ?s s'
      \<and> node_keys s' t' = ins cmp (n_data (e_node ?s ?e)) (node_keys ?s (plug c Leaf))"
      by (rule link_missing)
        (use core' missing ec e0 in \<open>auto simp: field_reads ctx_nodes_def simp del: upd_node_simps(4)\<close>)
    ultimately show ?thesis
      using missing(1,2) assms(4) keys by (auto simp: field_reads simp del: upd_node_simps(4))
  qed
  then obtain s' t' where i: "insert_node cmp i ?e d ?s = Some (s', ?e, True)" and core1: "tree_core s' t'"
    and st: "set_tree t' = insert ?e (set_tree t)" and gr: "grown ?e ?s s'"
    and keys1: "node_keys s' t' = ins cmp v (node_keys s t)" and new: "\<forall>x\<in>set (node_keys s t). cmp x v \<noteq> 0"
    by blast
  have act: "n_active (e_node s' x) = (x = ?e \<or> n_active (e_node s x))" for x
    using gr by (auto simp: grown_def)
  have slots: "set_tree t' = {x. 1 \<le> x \<and> x < ?e + 1 \<and> n_active (e_node s' x)}"
  proof -
    have "set_tree t = {x. 1 \<le> x \<and> x < ?e \<and> n_active (e_node s x)}"
      using ok by (simp add: tree_ok_def)
    note slots = this
    have "x \<in> insert ?e (set_tree t) \<longleftrightarrow> 1 \<le> x \<and> x < ?e + 1 \<and> (x = ?e \<or> n_active (e_node s x))" for x
      unfolding slots using e0 by (cases "x = ?e") (simp_all add: less_Suc_eq)
    then show ?thesis unfolding st act by blast
  qed
  have "tree_ok s' t'"
    unfolding tree_ok_def using core1 slots gr room ok act [of 0] e0
    by (auto simp: grown_def tree_ok_def)
  then have "tree_repr cmp s' (ins cmp v (node_keys s t))"
    unfolding tree_repr_def using keys1 ins_sorted [OF sorted] by blast
  moreover have "iter_value s' ?e = Some v"
    using gr act [of ?e] by (simp add: iter_value_def grown_def)
  moreover have "e_next s' = ?e + 1" using gr by (simp add: grown_def)
  ultimately show ?thesis using i new by blast
qed

end

end
