(* ===== verification/TreeProps.thy ===== *)
theory TreeProps
  imports TreeSpec
begin

text \<open>
  The contracts of the public operations of \<open>TreeSet\<close> over \<open>tree_repr\<close>, proved once for every
  lawful comparison (\<open>comparison\<close>, \<open>lookup\<close>).
\<close>

section \<open>Reading\<close>

text \<open>What a position stands for: \<open>end()\<close> is \<open>None\<close>.\<close>

definition node_value :: "'a treeset \<Rightarrow> nat \<Rightarrow> 'a option" where
  "node_value s i = (if i = 0 then None else Some (n_data (e_node s i)))"

context lookup
begin

lemma repr_nodes:
  assumes "tree_repr cmp s xs"
  obtains t where "tree_ok s t" "node_keys s t = xs" "sorted_nodes (e_node s) (inorder t)"
  using assms by (auto simp: tree_repr_def sorted_keys_nodes)

lemma iter_value_node:
  assumes "tree_ok s t" and "j \<in> set_tree t"
  shows "iter_value s j = Some (n_data (e_node s j))"
  using tree_okD(2) [OF assms(1), of j] assms(2) by (simp add: iter_value_def)

text \<open>The unique element a search value is equal to.\<close>

lemma find_unique:
  assumes sorted: "sorted_wrt (\<lambda>a b. cmp a b < 0) xs" and x: "x \<in> set xs" "ocmp x v = 0"
  shows "find (\<lambda>x. ocmp x v = 0) xs = Some x"
proof -
  obtain as bs where xs: "xs = as @ x # bs" using x(1) split_list by metis
  have "\<forall>y\<in>set as. ocmp y v \<noteq> 0"
  proof
    fix y assume "y \<in> set as"
    then have "cmp y x < 0" using sorted xs by (simp add: sorted_wrt_append)
    then show "ocmp y v \<noteq> 0" using ocmp_below [of y x v] x(2) by simp
  qed
  then have "find (\<lambda>x. ocmp x v = 0) as = None" by (auto simp: find_None_iff)
  then show ?thesis using x(2) xs by (simp add: find_append)
qed

lemma repr_find:
  assumes repr: "tree_repr cmp s xs"
  shows "\<exists>i. tree_find ocmp v s = Some i
    \<and> (if i = 0 then find (\<lambda>x. ocmp x v = 0) xs = None
       else iter_value s i = find (\<lambda>x. ocmp x v = 0) xs \<and> find (\<lambda>x. ocmp x v = 0) xs \<noteq> None)"
proof -
  obtain t where ok: "tree_ok s t" and keys: "node_keys s t = xs" and sorted: "sorted_nodes (e_node s) (inorder t)"
    using repr by (rule repr_nodes)
  note core = tree_okD(1) [OF ok]
  have sorted': "sorted_wrt (\<lambda>a b. cmp a b < 0) xs" using repr by (auto simp: tree_repr_def)
  consider (found) j where "j \<in> set_tree t" "tree_find ocmp v s = Some j" "ocmp (n_data (e_node s j)) v = 0"
    | (missing) "tree_find ocmp v s = Some 0" "\<forall>x\<in>set xs. ocmp x v \<noteq> 0"
    using find_node [OF core sorted, of v] keys by blast
  then show ?thesis
  proof cases
    case found
    have "j \<noteq> 0" using tree_coreD(5) [OF core] found(1) by metis
    moreover have "find (\<lambda>x. ocmp x v = 0) xs = Some (n_data (e_node s j))"
      using find_unique [OF sorted'] node_keys_nth [OF found(1), of s] found(3) keys by simp
    ultimately show ?thesis
      using found(2) iter_value_node [OF ok found(1)] by auto
  next
    case missing
    then show ?thesis by (auto simp: find_None_iff)
  qed
qed

lemma repr_contains:
  assumes "tree_repr cmp s xs"
  shows "tree_contains ocmp v s = Some (\<exists>x\<in>set xs. ocmp x v = 0)"
proof -
  obtain t where ok: "tree_ok s t" and keys: "node_keys s t = xs" and sorted: "sorted_nodes (e_node s) (inorder t)"
    using assms by (rule repr_nodes)
  show ?thesis
    using tree_okD(1) [OF ok] sorted
  proof (cases rule: contains_node_cases [of s t v 0])
    case empty
    then show ?thesis using keys by (auto simp: tree_contains_def node_keys_def)
  next
    case (found j)
    then show ?thesis
      using node_keys_nth [OF found(2), of s] keys by (auto simp: tree_contains_def)
  next
    case (missing j d c)
    then have "\<forall>x\<in>set xs. ocmp x v \<noteq> 0"
      using keys by (fastforce simp: node_keys_def)
    with missing(1) show ?thesis by (auto simp: tree_contains_def)
  qed
qed

lemma map_first0: "0 \<notin> set ys \<Longrightarrow>
    node_value s (first0 0 ys) = (case map (\<lambda>i. n_data (e_node s i)) ys of [] \<Rightarrow> None | x # _ \<Rightarrow> Some x)"
  by (cases ys) (auto simp: node_value_def)

lemma map_last0: "0 \<notin> set ys \<Longrightarrow>
    node_value s (last0 0 ys) =
      (if ys = [] then None else Some (last (map (\<lambda>i. n_data (e_node s i)) ys)))"
  by (cases ys rule: rev_cases) (auto simp: node_value_def)

lemma repr_neighbours:
  assumes "tree_repr cmp s xs"
  shows "map_option (node_value s) (lower_node ocmp s v) =
      Some (if filter (\<lambda>x. ocmp x v < 0) xs = [] then None else Some (last (filter (\<lambda>x. ocmp x v < 0) xs)))"
    and "map_option (node_value s) (floor_node ocmp s v) =
      Some (if filter (\<lambda>x. ocmp x v \<le> 0) xs = [] then None else Some (last (filter (\<lambda>x. ocmp x v \<le> 0) xs)))"
    and "map_option (node_value s) (ceil_node ocmp s v) = Some (find (\<lambda>x. 0 \<le> ocmp x v) xs)"
    and "map_option (node_value s) (higher_node ocmp s v) = Some (find (\<lambda>x. 0 < ocmp x v) xs)"
proof -
  obtain t where ok: "tree_ok s t" and keys: "node_keys s t = xs" and sorted: "sorted_nodes (e_node s) (inorder t)"
    using assms by (rule repr_nodes)
  note core = tree_okD(1) [OF ok]
  note rep = tree_coreD(6) [OF core]
  have z: "0 \<notin> set (filter P (inorder t))" for P
    using tree_coreD(5) [OF core] by simp
  have f: "map (\<lambda>i. n_data (e_node s i)) (filter (\<lambda>i. P (n_data (e_node s i))) (inorder t)) = filter P xs"
    for P unfolding keys [symmetric] by (simp add: node_keys_def filter_map comp_def)
  have g: "(case filter P ys of [] \<Rightarrow> None | x # _ \<Rightarrow> Some x) = find P ys" for P and ys :: "'a list"
    by (induction ys) auto
  show "map_option (node_value s) (lower_node ocmp s v) =
      Some (if filter (\<lambda>x. ocmp x v < 0) xs = [] then None else Some (last (filter (\<lambda>x. ocmp x v < 0) xs)))"
    using f [of "\<lambda>x. ocmp x v < 0"]
    by (simp add: lower_node_def lower_loop_inorder [OF rep sorted] map_last0 [OF z]) auto
  show "map_option (node_value s) (floor_node ocmp s v) =
      Some (if filter (\<lambda>x. ocmp x v \<le> 0) xs = [] then None else Some (last (filter (\<lambda>x. ocmp x v \<le> 0) xs)))"
    using f [of "\<lambda>x. ocmp x v \<le> 0"]
    by (simp add: floor_node_def floor_loop_inorder [OF rep sorted] map_last0 [OF z]) auto
  show "map_option (node_value s) (ceil_node ocmp s v) = Some (find (\<lambda>x. 0 \<le> ocmp x v) xs)"
    by (simp add: ceil_node_def ceil_loop_inorder [OF rep sorted] map_first0 [OF z] f [of "\<lambda>x. 0 \<le> ocmp x v"] g)
  show "map_option (node_value s) (higher_node ocmp s v) = Some (find (\<lambda>x. 0 < ocmp x v) xs)"
    by (simp add: higher_node_def higher_loop_inorder [OF rep sorted] map_first0 [OF z] f [of "\<lambda>x. 0 < ocmp x v"] g)
qed

end

section \<open>Traversal, size and the consistency check\<close>

lemma repr_traversal:
  assumes "tree_repr cmp s xs"
  shows "tree_begin s \<bind> iterate s = Some xs"
proof -
  obtain t where ok: "tree_ok s t" and keys: "node_keys s t = xs"
    using assms by (auto simp: tree_repr_def)
  note c = tree_coreD [OF tree_okD(1) [OF ok]]
  have "tree_begin s = Some (first0 0 (inorder t))"
    using min_node_inorder [OF c(6)] by (simp add: tree_begin_def)
  moreover have "iterate s (first0 0 (inorder t)) = Some xs"
    using iterate_inorder [OF c(6,2), of "[]"] keys by (simp add: node_keys_def)
  ultimately show ?thesis by simp
qed

lemma repr_size:
  assumes "tree_repr cmp s xs"
  shows "tree_size s = length xs" "tree_is_empty s = (xs = [])"
proof -
  obtain t where ok: "tree_ok s t" and keys: "node_keys s t = xs"
    using assms by (auto simp: tree_repr_def)
  note c = tree_coreD [OF tree_okD(1) [OF ok]]
  show "tree_size s = length xs" "tree_is_empty s = (xs = [])"
    using c(3) keys by (auto simp: tree_size_def tree_is_empty_def node_keys_def)
qed

lemma check_node_height:
  "rep h p i t \<Longrightarrow> bal h 0 t \<Longrightarrow> check_node h i p = Some (int (height t))"
proof (induction t arbitrary: p i)
  case Leaf
  then show ?case by (simp add: check_node.simps)
next
  case (Node l x r)
  have l: "check_node h (t_left (h x)) x = Some (int (height l))"
    and r: "check_node h (t_right (h x)) x = Some (int (height r))"
    using Node by auto
  have "0 \<notin> set_tree l" "0 \<notin> set_tree r" using rep_nonzero [OF Node.prems(1)] by auto
  then have "t_balance (h x) = int (height r) - int (height l)"
    using Node.prems by (simp add: vh_height)
  with Node.prems l r show ?case
    by (subst check_node.simps) (simp add: max_def)
qed

lemma count_active_card: "count_active h n = card {i. 1 \<le> i \<and> i < n \<and> n_active (h i)}"
proof (induction n)
  case (Suc n)
  have fin: "finite {i. 1 \<le> i \<and> i < n \<and> n_active (h i)}" by simp
  have "{i. 1 \<le> i \<and> i < Suc n \<and> n_active (h i)} =
      (if 1 \<le> n \<and> n_active (h n) then insert n {i. 1 \<le> i \<and> i < n \<and> n_active (h i)}
       else {i. 1 \<le> i \<and> i < n \<and> n_active (h i)})"
    by (auto simp: less_Suc_eq)
  then show ?case using Suc fin by (simp add: card_insert_if)
qed simp

lemma check_order_inorder:
  fixes s :: "'a treeset"
  assumes rep: "rep (e_node s) 0 (t_root s) t" and dist: "distinct (inorder t)"
    and sorted: "sorted_wrt (\<lambda>x y. cmp (n_data (e_node s x)) (n_data (e_node s y)) < 0) (inorder t)"
    and io: "inorder t = xs @ i # ys"
  shows "check_order cmp s (n_data (e_node s i)) (first0 0 ys) n = Some (n + length ys)"
  using io
proof (induction ys arbitrary: xs i n)
  case Nil
  then show ?case by (simp add: check_order.simps)
next
  case (Cons j ys)
  have "j \<in> set_tree t" using Cons.prems by (simp flip: set_inorder)
  then have "j \<noteq> 0" "n_active (e_node s j)"
    using rep_nonzero [OF rep] rep_active [OF rep] by (auto intro: gr0I)
  moreover have "cmp (n_data (e_node s i)) (n_data (e_node s j)) < 0"
    using sorted Cons.prems by (simp add: sorted_wrt_append)
  moreover have io: "inorder t = (xs @ [i]) @ j # ys" using Cons.prems by simp
  moreover have "check_order cmp s (n_data (e_node s j)) (first0 0 ys) (n + 1) = Some (n + 1 + length ys)"
    using Cons.IH [OF io] .
  ultimately show ?case
    using iter_next_inorder(1) [OF rep dist io]
    by (subst check_order.simps) (simp add: iter_value_def)
qed

lemma repr_check:
  assumes "tree_repr cmp s xs" and cap: "0 < e_capacity s"
  shows "tree_check cmp s = Some ()"
proof -
  obtain t where ok: "tree_ok s t" and keys: "node_keys s t = xs"
    and sorted: "sorted_wrt (\<lambda>x y. cmp (n_data (e_node s x)) (n_data (e_node s y)) < 0) (inorder t)"
    using assms by (auto simp: tree_repr_def node_keys_def sorted_wrt_map)
  note c = tree_coreD [OF tree_okD(1) [OF ok]]
  have slot0: "\<not> n_active (e_node s 0)" using ok cap by (simp add: tree_ok_def)
  have "count_active (e_node s) (e_next s) = e_count s"
    using c(4) ok by (simp add: count_active_card tree_ok_def)
  moreover have "tree_begin s = Some (first0 0 (inorder t))"
    using min_node_inorder [OF c(6)] by (simp add: tree_begin_def)
  moreover have "first0 0 (inorder t) = 0 \<and> t = Leaf \<or> (\<exists>i ys. inorder t = i # ys \<and> i \<noteq> 0
      \<and> iter_value s i = Some (n_data (e_node s i)) \<and> iter_next s i = Some (first0 0 ys)
      \<and> check_order cmp s (n_data (e_node s i)) (first0 0 ys) 1 = Some (e_count s))"
  proof (cases "inorder t")
    case Nil
    then show ?thesis by simp
  next
    case (Cons i ys)
    then have "i \<in> set_tree t" by (simp flip: set_inorder)
    then have "i \<noteq> 0" "n_active (e_node s i)"
      using c(5) rep_active [OF c(6)] by (auto intro: gr0I)
    then show ?thesis
      using Cons check_order_inorder [OF c(6,2) sorted, of "[]" i ys 1] c(3)
        iter_next_inorder(1) [OF c(6,2), of "[]" i ys]
      by (auto simp: iter_value_def)
  qed
  moreover have "check_node (e_node s) (t_root s) 0 = Some (int (height t))"
    by (rule check_node_height [OF c(6,7)])
  moreover have "t_root s = 0 \<longleftrightarrow> t = Leaf" and "t \<noteq> Leaf \<Longrightarrow> t_parent (e_node s (t_root s)) = 0"
    using c(6) by (cases t; auto)+
  moreover have "t = Leaf \<Longrightarrow> e_count s = 0" using c(3) by simp
  ultimately show ?thesis
    using slot0 cap by (auto simp: tree_check_def)
qed

text \<open>The height of the tree, which bounds the iterations of every search.\<close>

lemma avl_size:
  "bal h 0 t \<Longrightarrow> 0 \<notin> set_tree t \<Longrightarrow> 2 ^ height t \<le> (size1 t)\<^sup>2"
proof (induction t)
  case (Node l x r)
  have n: "0 \<notin> set_tree l" "0 \<notin> set_tree r" "x \<noteq> 0" using Node.prems by auto
  have IH: "2 ^ height l \<le> (size1 l)\<^sup>2" "2 ^ height r \<le> (size1 r)\<^sup>2"
    using Node n by auto
  have d: "height l \<le> height r + 1" "height r \<le> height l + 1"
    using Node.prems n by (auto simp: vh_height)
  define m where "m = min (height l) (height r)"
  have m: "m \<le> height l" "m \<le> height r" "height l + height r \<ge> Suc (max (height l) (height r)) - 1 + m"
    by (auto simp: m_def)
  have "(2 ^ m)\<^sup>2 \<le> (size1 l)\<^sup>2 * (size1 r)\<^sup>2"
    using mult_mono [OF order_trans [OF power_increasing [OF m(1), of 2] IH(1)]
        order_trans [OF power_increasing [OF m(2), of 2] IH(2)]]
    by (simp add: power2_eq_square)
  then have "(2 ^ m)\<^sup>2 \<le> (size1 l * size1 r)\<^sup>2" by (simp add: power_mult_distrib)
  then have lr: "2 ^ m \<le> size1 l * size1 r" by (simp add: power2_nat_le_eq_le)
  have "(2::nat) ^ Suc (max (height l) (height r)) \<le> 2 ^ height l + 2 ^ height r + 2 * 2 ^ m"
  proof -
    consider "height l = height r" | "height l = Suc (height r)" | "height r = Suc (height l)"
      using d by linarith
    then show ?thesis by cases (simp_all add: m_def)
  qed
  also have "\<dots> \<le> (size1 l)\<^sup>2 + (size1 r)\<^sup>2 + 2 * (size1 l * size1 r)"
    using IH lr by linarith
  also have "\<dots> = (size1 l + size1 r)\<^sup>2" by (simp add: power2_eq_square algebra_simps)
  finally show ?case by simp
qed simp

lemma repr_height:
  assumes "tree_repr cmp s xs"
  shows "\<exists>t. rep (e_node s) 0 (t_root s) t \<and> 2 ^ height t \<le> (length xs + 1)\<^sup>2"
proof -
  obtain t where ok: "tree_ok s t" and keys: "node_keys s t = xs"
    using assms by (auto simp: tree_repr_def)
  note c = tree_coreD [OF tree_okD(1) [OF ok]]
  have "length xs = size t" using keys by (auto simp: node_keys_def)
  then have "length xs + 1 = size1 t" by (simp add: size1_size)
  then show ?thesis using c(6) avl_size [OF c(7,5)] by auto
qed

section \<open>Creating and clearing\<close>

lemma repr_empty: "tree_repr cmp (tree_empty h) []"
  unfolding tree_repr_def
  by (intro exI [of _ Leaf])
    (auto simp: tree_ok_def tree_core_def avl_def tree_empty_def node_keys_def)

lemma repr_new: "\<exists>s. tree_new alloc n h = Some s \<and> tree_repr cmp s []"
proof (cases "n > 0")
  case True
  have "tree_ok (tree_empty h) Leaf"
    by (auto simp: tree_ok_def tree_core_def avl_def tree_empty_def)
  from resize_ok [OF this, of alloc "n + 1"] obtain s' t' b where
    r: "resize alloc (n + 1) (tree_empty h) = Some (s', b)" and ok: "tree_ok s' t'"
    and keys: "node_keys s' t' = node_keys (tree_empty h) Leaf" by blast
  have "tree_repr cmp s' []"
    unfolding tree_repr_def using ok keys by (intro exI [of _ t']) (simp add: node_keys_def)
  with True r show ?thesis by (simp add: tree_new_def)
qed (auto simp: tree_new_def intro: repr_empty)

lemma repr_clear:
  assumes "tree_repr cmp s xs"
  shows "tree_repr cmp (tree_clear s) []"
proof -
  obtain t where ok: "tree_ok s t" using assms by (auto simp: tree_repr_def)
  note c = tree_coreD [OF tree_okD(1) [OF ok]]
  have "tree_ok (tree_clear s) Leaf"
  proof (cases "e_count s = 0")
    case True
    then have "t = Leaf" using c(3) by simp
    with ok True show ?thesis
      by (auto simp: tree_ok_def tree_core_def avl_def tree_clear_def elements_clear_def)
  next
    case False
    have "e_capacity s = 0 \<and> e_next s = 1 \<or>
        16 \<le> e_capacity s \<and> e_next s \<le> e_capacity s \<and> \<not> n_active (e_node s 0)"
      and "1 \<le> e_next s" and "e_capacity s \<le> UINT32_MAX"
      using ok by (simp_all add: tree_ok_def)
    then show ?thesis
      using False by (auto simp: tree_ok_def tree_core_def avl_def tree_clear_def elements_clear_def clear_loop_eq)
  qed
  then show ?thesis
    unfolding tree_repr_def by (intro exI [of _ Leaf]) (simp add: node_keys_def)
qed

lemma repr_resize:
  assumes "tree_repr cmp s xs"
  shows "\<exists>s' b. resize alloc n s = Some (s', b) \<and> tree_repr cmp s' xs
    \<and> (b \<longleftrightarrow> length xs < n \<and> n \<le> UINT32_MAX \<and> (max 16 n = e_capacity s \<or> alloc (max 16 n)))
    \<and> e_capacity s' = (if b then max 16 n else e_capacity s)"
proof -
  obtain t where ok: "tree_ok s t" and keys: "node_keys s t = xs"
    and sorted: "sorted_wrt (\<lambda>a b. cmp a b < 0) xs"
    using assms by (auto simp: tree_repr_def)
  have "e_count s = length xs" using tree_coreD(3) [OF tree_okD(1) [OF ok]] keys by (auto simp: node_keys_def)
  moreover obtain s' t' b where "resize alloc n s = Some (s', b)" "tree_ok s' t'" "node_keys s' t' = node_keys s t"
    "b \<longleftrightarrow> e_count s < n \<and> n \<le> UINT32_MAX \<and> (max 16 n = e_capacity s \<or> alloc (max 16 n))"
    "e_capacity s' = (if b then max 16 n else e_capacity s)"
    using resize_ok [OF ok, of alloc n] by blast
  ultimately show ?thesis
    using keys sorted unfolding tree_repr_def by (intro exI [of _ s'] exI [of _ b]) auto
qed

lemma repr_reorganize:
  assumes "tree_repr cmp s xs"
  shows "\<exists>s'. reorganize s = Some s' \<and> tree_repr cmp s' xs
    \<and> (xs \<noteq> [] \<longrightarrow> {i. 1 \<le> i \<and> i < e_next s' \<and> n_active (e_node s' i)} = {1..length xs})"
proof -
  obtain t where ok: "tree_ok s t" and keys: "node_keys s t = xs"
    and sorted: "sorted_wrt (\<lambda>a b. cmp a b < 0) xs"
    using assms by (auto simp: tree_repr_def)
  note c = tree_coreD [OF tree_okD(1) [OF ok]]
  have len: "e_count s = length xs" using c(3) keys by (auto simp: node_keys_def)
  obtain s' t' b where r: "reorder s = Some (s', b)" and ok': "tree_ok s' t'"
    and keys': "node_keys s' t' = node_keys s t" and cnt: "e_count s' = e_count s"
    and nxt: "e_next s' = e_count s + 1"
    using reorder_ok [OF ok] by blast
  have slots: "set_tree t' = {i. 1 \<le> i \<and> i < e_next s' \<and> n_active (e_node s' i)}"
    using ok' by (simp add: tree_ok_def)
  have "set_tree t' \<subseteq> {1..length xs}" unfolding slots using nxt len by auto
  moreover have "card (set_tree t') = card {1..length xs}"
    using tree_coreD(4) [OF tree_okD(1) [OF ok']] cnt len by simp
  ultimately have "set_tree t' = {1..length xs}" by (intro card_subset_eq) auto
  moreover have "tree_repr cmp s' xs"
    unfolding tree_repr_def using ok' keys' keys sorted by blast
  ultimately show ?thesis
    using r assms len slots by (auto simp: reorganize_def)
qed

section \<open>Inserting\<close>

lemma repr_set_data:
  assumes "tree_repr cmp s xs" and "e_next s \<le> i"
  shows "tree_repr cmp (set_data i v s) xs"
proof -
  obtain t where ok: "tree_ok s t" and keys: "node_keys s t = xs"
    and sorted: "sorted_wrt (\<lambda>a b. cmp a b < 0) xs"
    using assms by (auto simp: tree_repr_def)
  have it: "i \<notin> set_tree t" using tree_okD(2) [OF ok] assms(2) by auto
  have "set_tree t = {i. 1 \<le> i \<and> i < e_next s \<and> n_active (e_node s i)}"
    using ok by (simp add: tree_ok_def)
  then have "tree_ok (set_data i v s) t"
    using ok unfolding tree_ok_def tree_core_def
    by (simp add: avl_set_data field_reads del: upd_node_simps(4))
  moreover have "node_keys (set_data i v s) t = xs"
    unfolding keys [symmetric] node_keys_def using it
    by (auto simp: field_reads simp del: upd_node_simps(4))
  ultimately show ?thesis unfolding tree_repr_def using sorted by blast
qed

context comparison
begin

text \<open>What \<open>insert\<close> and \<open>emplace\<close> return: the position of the element equal to \<open>v\<close>, and whether it is new.\<close>

definition inserted :: "'a \<Rightarrow> 'a list \<Rightarrow> 'a treeset \<Rightarrow> nat \<Rightarrow> bool \<Rightarrow> bool" where
  "inserted v xs s' i b \<longleftrightarrow> tree_repr cmp s' (ins cmp v xs)
     \<and> b = (\<forall>x\<in>set xs. cmp x v \<noteq> 0)
     \<and> iter_value s' i = (if b then Some v else find (\<lambda>x. cmp x v = 0) xs)
     \<and> 1 \<le> i \<and> i < e_next s'"

lemma repr_insert:
  assumes repr: "tree_repr cmp s xs" and grow: "can_grow alloc s"
  shows "\<exists>s' i b. tree_insert cmp alloc v s = Some (s', i, b) \<and> inserted v xs s' i b"
proof -
  obtain t where ok0: "tree_ok s t" and keys0: "node_keys s t = xs"
    and sorted: "sorted_wrt (\<lambda>a b. cmp a b < 0) xs"
    using repr by (auto simp: tree_repr_def)
  obtain s1 t1 b where inc: "increase alloc s = Some (s1, b)" and ok: "tree_ok s1 t1"
    and keys: "node_keys s1 t1 = xs" and room: "e_next s1 < e_capacity s1"
    using increase_ok [OF ok0, of alloc] keys0 grow by blast
  have sorted1: "self.sorted_nodes (e_node s1) (inorder t1)"
    using sorted keys by (simp add: self.sorted_keys_nodes [symmetric])
  have repr1: "tree_repr cmp s1 xs" unfolding tree_repr_def using ok keys sorted by blast
  obtain f i d where con: "contains_node cmp s1 v (t_root s1) 0 = Some (f, i, d)"
    and pos: "f \<Longrightarrow> i \<in> set_tree t1 \<and> cmp (n_data (e_node s1 i)) v = 0"
    using tree_okD(1) [OF ok] sorted1 by (cases rule: self.contains_node_cases [of s1 t1 v 0]) auto
  show ?thesis
  proof (cases f)
    case True
    then have i: "i \<in> set_tree t1" "cmp (n_data (e_node s1 i)) v = 0" using pos by auto
    then have x: "n_data (e_node s1 i) \<in> set xs" using node_keys_nth [of i t1 s1] keys by simp
    have "inserted v xs s1 i False"
      unfolding inserted_def
      using repr1 x i ins_present [of _ xs cmp v, OF x i(2)] self.find_unique [OF sorted x i(2)]
        self.iter_value_node [OF ok i(1)] tree_okD(2) [OF ok, of i]
      by auto
    then show ?thesis using inc con True by (auto simp: tree_insert_def)
  next
    case False
    obtain s' where "insert_node cmp i (e_next s1) d ((set_data (e_next s1) v s1)\<lparr>e_next := e_next s1 + 1\<rparr>)
        = Some (s', e_next s1, True)" and "iter_value s' (e_next s1) = Some v" and "e_next s' = e_next s1 + 1"
      and "\<forall>x\<in>set xs. cmp x v \<noteq> 0" and "tree_repr cmp s' (ins cmp v xs)"
      using new_slot [OF ok _ room, of v i d] con False keys sorted by auto
    then show ?thesis
      using inc con False room tree_okD(3) [OF ok] by (auto simp: tree_insert_def inserted_def Let_def)
  qed
qed

lemma repr_emplace:
  assumes repr: "tree_repr cmp s xs" and grow: "can_grow alloc s"
  shows "\<exists>s' i b. tree_emplace cmp alloc v s = Some (s', i, b) \<and> inserted v xs s' i b"
proof -
  obtain t where ok0: "tree_ok s t" and keys0: "node_keys s t = xs"
    and sorted: "sorted_wrt (\<lambda>a b. cmp a b < 0) xs"
    using repr by (auto simp: tree_repr_def)
  obtain s1 t1 b where inc: "increase alloc s = Some (s1, b)" and ok1: "tree_ok s1 t1"
    and keys1: "node_keys s1 t1 = xs" and room: "e_next s1 < e_capacity s1"
    using increase_ok [OF ok0, of alloc] keys0 grow by blast
  let ?s = "set_data (e_next s1) v s1"
  have "tree_repr cmp ?s xs"
    by (rule repr_set_data) (use ok1 keys1 sorted in \<open>auto simp: tree_repr_def\<close>)
  then obtain t2 where ok: "tree_ok ?s t2" and keys: "node_keys ?s t2 = xs"
    by (auto simp: tree_repr_def simp del: upd_node_simps(4))
  have repr1: "tree_repr cmp ?s xs" by fact
  have sorted1: "self.sorted_nodes (e_node ?s) (inorder t2)"
    using sorted keys by (simp add: self.sorted_keys_nodes [symmetric] del: upd_node_simps(4))
  have val: "n_data (e_node ?s (e_next s1)) = v" by simp
  obtain f i d where con: "contains_node cmp ?s v (t_root ?s) 0 = Some (f, i, d)"
    and pos: "f \<Longrightarrow> i \<in> set_tree t2 \<and> cmp (n_data (e_node ?s i)) v = 0"
    using tree_okD(1) [OF ok] sorted1
    by (cases rule: self.contains_node_cases [of ?s t2 v 0]) (auto simp del: upd_node_simps(4))
  show ?thesis
  proof (cases f)
    case True
    then have i: "i \<in> set_tree t2" "cmp (n_data (e_node ?s i)) v = 0" using pos by auto
    then have x: "n_data (e_node ?s i) \<in> set xs" using node_keys_nth [of i t2 ?s] keys by simp
    have "inserted v xs ?s i False"
      unfolding inserted_def
      using repr1 x i ins_present [of _ xs cmp v, OF x i(2)] self.find_unique [OF sorted x i(2)]
        self.iter_value_node [OF ok i(1)] tree_okD(2) [OF ok, of i]
      by auto
    then show ?thesis using inc con True room val by (auto simp: tree_emplace_def Let_def simp del: upd_node_simps(4))
  next
    case False
    have "(set_data (e_next s1) v ?s)\<lparr>e_next := e_next s1 + 1\<rparr> = ?s\<lparr>e_next := e_next s1 + 1\<rparr>"
      by (cases s1) (simp add: upd_node_def)
    then obtain s' where "insert_node cmp i (e_next s1) d (?s\<lparr>e_next := e_next s1 + 1\<rparr>)
        = Some (s', e_next s1, True)" and "iter_value s' (e_next s1) = Some v" and "e_next s' = e_next s1 + 1"
      and "\<forall>x\<in>set xs. cmp x v \<noteq> 0" and "tree_repr cmp s' (ins cmp v xs)"
      using new_slot [OF ok, of v i d] con False keys sorted room by (auto simp del: upd_node_simps(4))
    then show ?thesis
      using inc con False room val tree_okD(3) [OF ok1]
      by (auto simp: tree_emplace_def inserted_def Let_def simp del: upd_node_simps(4))
  qed
qed

end

section \<open>Linking the slots of another container\<close>

context comparison
begin

lemma link_slot:
  assumes core: "tree_core s t" and sorted: "sorted_wrt (\<lambda>a b. cmp a b < 0) (node_keys s t)"
    and e: "e \<noteq> 0" "e \<notin> set_tree t"
  shows "(\<exists>s' t' j. insert_node cmp 0 e 0 s = Some (s', j, True) \<and> tree_core s' t'
      \<and> set_tree t' = insert e (set_tree t) \<and> grown e s s'
      \<and> node_keys s' t' = ins cmp (n_data (e_node s e)) (node_keys s t))
    \<or> (\<exists>j. insert_node cmp 0 e 0 s = Some (s, j, False)
      \<and> ins cmp (n_data (e_node s e)) (node_keys s t) = node_keys s t)"
proof -
  have sorted': "self.sorted_nodes (e_node s) (inorder t)"
    using sorted by (simp add: self.sorted_keys_nodes)
  let ?v = "n_data (e_node s e)"
  note rep = tree_coreD(6) [OF core]
  show ?thesis
    using core sorted'
  proof (cases rule: self.contains_node_cases [of s t ?v 0])
    case empty
    then show ?thesis
      using link_first [of s e 0] core e(1) by (auto simp: node_keys_def)
  next
    case (found j)
    then have root: "t_root s \<noteq> 0" using rep by (cases t) auto
    have "n_active (e_node s j)" using rep_active [OF rep found(2)] .
    then have "insert_node cmp 0 e 0 s = Some (s, j, False)"
      using found(1) root e(1) by (simp add: insert_node_def)
    moreover have "ins cmp ?v (node_keys s t) = node_keys s t"
      using ins_present [of _ "node_keys s t" cmp ?v, OF node_keys_nth [OF found(2)] found(3)] .
    ultimately show ?thesis by blast
  next
    case (missing j d c)
    have root: "t_root s \<noteq> 0"
    proof
      assume "t_root s = 0"
      then have "set_tree (plug c Leaf) = {}" using rep missing(2) by (simp add: rep_zero)
      with missing(3) show False by (cases c rule: before.cases) simp_all
    qed
    have d: "d \<noteq> 0" using missing(3) by (cases c rule: before.cases) auto
    have j: "j \<noteq> 0"
      using missing(2,3) tree_coreD(5) [OF core] by (cases c rule: before.cases) auto
    obtain s' t' where i: "insert_node cmp j e d s = Some (s', e, True)" and t': "tree_core s' t'"
      "set_tree t' = insert e (ctx_nodes c)" "grown e s s'"
      "node_keys s' t' = ins cmp ?v (node_keys s (plug c Leaf))"
      using link_missing [of s c e j d] core missing e by auto
    have "insert_node cmp 0 e 0 s = insert_node cmp j e d s"
      using missing(1) root d j e(1) by (simp add: insert_node_def)
    with i t' missing(2) show ?thesis by auto
  qed
qed

definition linking :: "'a treeset \<Rightarrow> nat tree \<Rightarrow> nat \<Rightarrow> bool" where
  "linking s t i \<longleftrightarrow> tree_core s t \<and> set_tree t = {x. 1 \<le> x \<and> x < i \<and> n_active (e_node s x)}
     \<and> sorted_wrt (\<lambda>a b. cmp a b < 0) (node_keys s t)"

lemma link_loop_inv:
  assumes "linking s t i" and "1 \<le> i" and "i + todo = e_next s"
  shows "\<exists>s' t'. link_loop cmp todo i s = Some s' \<and> linking s' t' (e_next s)
    \<and> node_keys s' t' = fold (ins cmp) (slot_values (e_node s) i (e_next s)) (node_keys s t)
    \<and> e_next s' = e_next s \<and> e_capacity s' = e_capacity s \<and> n_active (e_node s' 0) = n_active (e_node s 0)"
  using assms
proof (induction todo arbitrary: s t i)
  case 0
  then show ?case by (auto simp: slot_values_def)
next
  case (Suc todo)
  have core: "tree_core s t" and st: "set_tree t = {x. 1 \<le> x \<and> x < i \<and> n_active (e_node s x)}"
    and sorted: "sorted_wrt (\<lambda>a b. cmp a b < 0) (node_keys s t)"
    using Suc.prems(1) by (auto simp: linking_def)
  have it: "i \<notin> set_tree t" "i \<noteq> 0" unfolding st using Suc.prems(2) by auto
  have step: "slot_values (e_node s) i (e_next s) = (if n_active (e_node s i)
      then n_data (e_node s i) # slot_values (e_node s) (i + 1) (e_next s)
      else slot_values (e_node s) (i + 1) (e_next s))"
    using Suc.prems(3) by (intro slot_values_step) simp
  show ?case
  proof (cases "n_active (e_node s i)")
    case False
    have "linking s t (i + 1)"
      unfolding linking_def st using core sorted False by (auto simp: less_Suc_eq)
    from Suc.IH [OF this] Suc.prems False step show ?thesis by simp
  next
    case True
    from link_slot [OF core sorted it(2,1)] show ?thesis
    proof (elim disjE exE conjE)
      fix s' t' j
      assume r: "insert_node cmp 0 i 0 s = Some (s', j, True)" and core': "tree_core s' t'"
        and st': "set_tree t' = insert i (set_tree t)" and gr: "grown i s s'"
        and keys: "node_keys s' t' = ins cmp (n_data (e_node s i)) (node_keys s t)"
      have same: "n_active (e_node s' x) = n_active (e_node s x)" "n_data (e_node s' x) = n_data (e_node s x)"
        "e_next s' = e_next s" "e_capacity s' = e_capacity s" for x
        using gr True by (auto simp: grown_def)
      have "linking s' t' (i + 1)"
        unfolding linking_def st' st same using core' keys ins_sorted [OF sorted] True Suc.prems(2)
        by (auto simp: less_Suc_eq)
      from Suc.IH [OF this] Suc.prems True step r keys same slot_values_cong [of "i + 1" "e_node s'" "e_node s"]
      show ?thesis by simp
    next
      fix j
      assume r: "insert_node cmp 0 i 0 s = Some (s, j, False)"
        and keys: "ins cmp (n_data (e_node s i)) (node_keys s t) = node_keys s t"
      let ?s = "set_active i False s"
      have core': "tree_core ?s t"
        using core it(1) by (simp add: tree_core_def avl_set_active del: upd_node_simps(4))
      have keys': "node_keys ?s t = node_keys s t"
        by (simp add: node_keys_def field_reads del: upd_node_simps(4))
      have "linking ?s t (i + 1)"
        unfolding linking_def keys' st using core' sorted
        by (auto simp: field_reads less_Suc_eq simp del: upd_node_simps(4))
      from Suc.IH [OF this] Suc.prems True step r keys keys' it(2)
        slot_values_cong [of "i + 1" "e_node ?s" "e_node s"]
      show ?thesis by (simp add: field_reads del: upd_node_simps(4))
    qed
  qed
qed

lemma length_ins: "length (ins cmp v xs) \<le> Suc (length xs)"
proof -
  have "length (filter (\<lambda>x. cmp x v < 0) xs) + length (filter (\<lambda>x. 0 < cmp x v) xs) \<le> length xs"
    by (induction xs) auto
  then show ?thesis by (simp add: ins_def)
qed

lemma length_fold_ins: "length (fold (ins cmp) vs xs) \<le> length vs + length xs"
proof (induction vs arbitrary: xs)
  case (Cons v vs)
  then show ?case using length_ins [of v xs] by (force intro: order_trans)
qed simp

lemma repr_from_elements:
  assumes ok: "elements_ok old"
  shows "\<exists>s'. tree_from_elements cmp False old = Some s'
    \<and> tree_repr cmp s' (fold (ins cmp) (slot_values (e_node old) 1 (e_next old)) [])"
    (is "\<exists>s'. _ \<and> tree_repr cmp s' ?xs")
proof -
  let ?s = "\<lparr>e_capacity = e_capacity old, e_next = e_next old, e_count = 0, e_node = e_node old, t_root = 0\<rparr>"
  have "linking ?s Leaf 1"
    by (auto simp: linking_def tree_core_def avl_def node_keys_def)
  then obtain s' t' where run: "link_loop cmp (e_next old - 1) 1 ?s = Some s'" and l: "linking s' t' (e_next old)"
    and keys: "node_keys s' t' = ?xs" and same: "e_next s' = e_next old" "e_capacity s' = e_capacity old"
      "n_active (e_node s' 0) = n_active (e_node old 0)"
    using link_loop_inv [of ?s Leaf 1 "e_next old - 1"] ok by (auto simp: elements_ok_def node_keys_def)
  have core: "tree_core s' t'" using l by (simp add: linking_def)
  have "e_count s' = length ?xs"
    using tree_coreD(3) [OF core] keys by (metis length_map node_keys_def)
  then have cnt: "e_count s' \<le> e_count old"
    using ok length_fold_ins [of "slot_values (e_node old) 1 (e_next old)" "[]"] by (simp add: elements_ok_def)
  have cap: "1 \<le> e_next old" "e_capacity old = 0 \<and> e_next old = 1
        \<or> 16 \<le> e_capacity old \<and> e_next old \<le> e_capacity old \<and> \<not> n_active (e_node old 0)"
     "e_capacity old \<le> UINT32_MAX"
    using ok by (simp_all add: elements_ok_def)
  have st: "set_tree t' = {x. 1 \<le> x \<and> x < e_next old \<and> n_active (e_node s' x)}"
    using l by (simp add: linking_def)
  have "e_count s' = 0 \<or> \<not> n_active (e_node s' 0)"
  proof (cases "e_capacity old = 0")
    case True
    with cap st have "set_tree t' = {}" by auto
    then show ?thesis using tree_coreD(4) [OF core] by simp
  qed (use cap same in auto)
  moreover have "tree_ok s' t'"
    unfolding tree_ok_def using core st same cap by simp
  then have "tree_repr cmp s' ?xs"
    unfolding tree_repr_def using keys l by (auto simp: linking_def)
  ultimately show ?thesis
    using run cnt same by (simp add: tree_from_elements_def)
qed

text \<open>The move constructor compares with the array it has just emptied.\<close>

lemma from_moved_elements:
  assumes ok: "elements_ok old"
  shows "tree_from_elements cmp True old =
    (if e_next old = 1 then tree_from_elements cmp False old else None)"
proof (cases "e_next old = 1")
  case True
  then have "e_count old = 0" using ok by (simp add: elements_ok_def slot_values_def)
  with True show ?thesis by (simp add: tree_from_elements_def)
next
  case False
  let ?s = "\<lparr>e_capacity = e_capacity old, e_next = e_next old, e_count = 0, e_node = e_node old, t_root = 0\<rparr>"
  have "linking ?s Leaf 1"
    by (auto simp: linking_def tree_core_def avl_def node_keys_def)
  then obtain s' where "link_loop cmp (e_next old - 1) 1 ?s = Some s'" and "e_next s' = e_next old"
    using link_loop_inv [of ?s Leaf 1 "e_next old - 1"] ok by (auto simp: elements_ok_def node_keys_def)
  with False show ?thesis
    by (auto simp: tree_from_elements_def assert_that_def Option.bind_eq_None_conv Let_def split: if_splits)
qed

text \<open>
  An extracted node is put back into its own slot, with whatever value it has by then.
\<close>

lemma repr_reinsert:
  assumes repr: "tree_repr cmp s xs" and n: "1 \<le> n" "n < e_next s" "\<not> n_active (e_node s n)"
    and v: "n_data (e_node s n) = v"
  shows "\<exists>s' i b. tree_reinsert cmp (Some n) v s = Some (s', i, b) \<and> inserted v xs s' i b"
proof -
  obtain t where ok: "tree_ok s t" and keys: "node_keys s t = xs"
    and sorted: "sorted_wrt (\<lambda>a b. cmp a b < 0) xs"
    using repr by (auto simp: tree_repr_def)
  note core = tree_okD(1) [OF ok]
  have sorted': "self.sorted_nodes (e_node s) (inorder t)"
    using sorted keys by (simp add: self.sorted_keys_nodes [symmetric])
  have nt: "n \<notin> set_tree t" using tree_okD(2) [OF ok] n by auto
  obtain m where m: "n = Suc m" using n(1) by (cases n) auto
  have linked: "inserted v xs s' n True"
    if c: "tree_core s' t'" "set_tree t' = insert n (set_tree t)" "grown n s s'"
      "node_keys s' t' = ins cmp v xs" "\<forall>x\<in>set xs. cmp x v \<noteq> 0" for s' t'
  proof -
    have act: "n_active (e_node s' x) = (x = n \<or> n_active (e_node s x))" for x
      using c(3) by (simp add: grown_def)
    have "x \<in> set_tree t' \<longleftrightarrow> 1 \<le> x \<and> x < e_next s \<and> n_active (e_node s' x)" for x
      unfolding c(2) act using tree_okD(2) [OF ok, of x] n by auto
    then have st: "set_tree t' = {x. 1 \<le> x \<and> x < e_next s' \<and> n_active (e_node s' x)}"
      using c(3) by (auto simp: grown_def)
    have "e_capacity s = 0 \<and> e_next s = 1 \<or> 16 \<le> e_capacity s \<and> e_next s \<le> e_capacity s \<and> \<not> n_active (e_node s 0)"
      and "e_capacity s \<le> UINT32_MAX"
      using ok by (simp_all add: tree_ok_def)
    then have "tree_ok s' t'"
      unfolding tree_ok_def using c(1,3) st n(1,2) act [of 0] by (auto simp: grown_def)
    then have "tree_repr cmp s' (ins cmp v xs)"
      unfolding tree_repr_def using c(4) ins_sorted [OF sorted] by blast
    then show ?thesis
      using c(3,5) act [of n] v n by (simp add: inserted_def iter_value_def grown_def)
  qed
  show ?thesis
    using core sorted'
  proof (cases rule: self.contains_node_cases [of s t v 0])
    case empty
    then obtain s' t' where "insert_node cmp 0 n 0 s = Some (s', n, True)" "tree_core s' t'"
      "set_tree t' = {n}" "grown n s s'" "node_keys s' t' = ins cmp v []"
      using link_first [of s n 0] core n(1) v by auto
    with empty linked [of s' t'] keys m show ?thesis
      by (auto simp: tree_reinsert_def node_keys_def)
  next
    case (found j)
    then have x: "n_data (e_node s j) \<in> set xs" using node_keys_nth [of j t s] keys by simp
    have "inserted v xs s j False"
      unfolding inserted_def
      using repr x found ins_present [of _ xs cmp v, OF x found(3)] self.find_unique [OF sorted x found(3)]
        self.iter_value_node [OF ok found(2)] tree_okD(2) [OF ok, of j]
      by auto
    then show ?thesis using found(1) by (auto simp: tree_reinsert_def)
  next
    case (missing j d c)
    have new: "\<forall>x\<in>set xs. cmp x v \<noteq> 0"
      using missing(2,4,5) keys by (fastforce simp: node_keys_def)
    obtain s' t' where "insert_node cmp j n d s = Some (s', n, True)" "tree_core s' t'"
      "set_tree t' = insert n (set_tree t)" "grown n s s'" "node_keys s' t' = ins cmp v xs"
      using link_missing [of s c n j d] core missing nt n(1) v keys by auto
    with missing(1) linked [of s' t'] new m show ?thesis by (auto simp: tree_reinsert_def)
  qed
qed

end

end
