(* ===== verification/TreeTheorems.thy ===== *)
theory TreeTheorems
  imports TreeProps
begin

text \<open>
  The properties of \<open>TreeSet\<close> (include/dlh/container/tree.hpp), for every comparison that keeps
  the contract \<open>comparison\<close> or \<open>lookup\<close>, each with an instance on a concrete tree.
\<close>

text \<open>A tree with the elements 10, 20 and 30 in the slots 2, 1 and 3.\<close>

definition example_node :: "nat \<Rightarrow> nat \<Rightarrow> nat \<Rightarrow> int \<Rightarrow> int tree_node" where
  "example_node p l r v = \<lparr>n_active = True, n_data = v, t_balance = 0, t_parent = p, t_left = l, t_right = r\<rparr>"

definition unused_node :: "int tree_node" where
  "unused_node = \<lparr>n_active = False, n_data = 0, t_balance = 0, t_parent = 0, t_left = 0, t_right = 0\<rparr>"

definition example_tree :: "int treeset" where
  "example_tree = \<lparr>e_capacity = 16, e_next = 4, e_count = 3,
     e_node = (\<lambda>i. if i = 1 then example_node 0 2 3 20 else if i = 2 then example_node 1 0 0 10
       else if i = 3 then example_node 1 0 0 30 else unused_node), t_root = 1\<rparr>"

lemma example_slots:
  "{i. Suc 0 \<le> i \<and> i < 4 \<and> n_active (e_node example_tree i)} = {1, 2, 3}"
  by (auto simp: example_tree_def example_node_def unused_node_def)

lemma example_repr: "tree_repr compare example_tree [10, 20, 30]"
proof -
  let ?t = "Node (Node Leaf 2 Leaf) 1 (Node Leaf 3 Leaf) :: nat tree"
  have "tree_core example_tree ?t"
    by (simp add: tree_core_def avl_def example_tree_def example_node_def unused_node_def)
  moreover have "set_tree ?t = {i. 1 \<le> i \<and> i < e_next example_tree \<and> n_active (e_node example_tree i)}"
    using example_slots by (auto simp: example_tree_def)
  ultimately have "tree_ok example_tree ?t"
    by (simp add: tree_ok_def example_tree_def unused_node_def UINT32_MAX_def)
  moreover have "node_keys example_tree ?t = [10, 20, 30]"
    by (simp add: node_keys_def example_tree_def example_node_def)
  ultimately show ?thesis
    unfolding tree_repr_def by (intro exI [of _ ?t]) simp
qed

lemma example_capacity: "e_capacity example_tree = 16" "e_next example_tree = 4"
  by (simp_all add: example_tree_def)

section \<open>Changing the set\<close>

text \<open>
  C1.  \<open>insert(value)\<close> returns (no assert fires, no slot outside the array is written), the set
  afterwards holds the elements it held and the value, in order and without a second element
  equal to it, the flag tells whether it is new, and the returned position holds the element.
\<close>

theorem tree_insert_correct:
  assumes "comparison cmp" and "tree_repr cmp s xs" and "can_grow alloc s"
  shows "\<exists>s' i b. tree_insert cmp alloc v s = Some (s', i, b) \<and> tree_repr cmp s' (ins cmp v xs)
    \<and> b = (\<forall>x\<in>set xs. cmp x v \<noteq> 0)
    \<and> iter_value s' i = (if b then Some v else find (\<lambda>x. cmp x v = 0) xs)"
  using comparison.repr_insert [OF assms] unfolding comparison.inserted_def [OF assms(1)] by blast

theorem tree_insert_correct_witness:
  "\<exists>s' i. tree_insert compare (\<lambda>n. n = 32) 15 example_tree = Some (s', i, True)
    \<and> tree_repr compare s' [10, 15, 20, 30] \<and> iter_value s' i = Some 15"
  using tree_insert_correct [OF integral.comparison_axioms example_repr, of "\<lambda>n. n = 32" 15]
  by (auto simp: can_grow_def example_capacity UINT32_MAX_def ins_def)

text \<open>
  \<open>emplace(args)\<close>, which builds the value in a slot before it searches, has the same result
  as \<open>insert\<close>, also when an equal element exists and the slot is given up.
\<close>

theorem tree_emplace_correct:
  assumes "comparison cmp" and "tree_repr cmp s xs" and "can_grow alloc s"
  shows "\<exists>s' i b. tree_emplace cmp alloc v s = Some (s', i, b) \<and> tree_repr cmp s' (ins cmp v xs)
    \<and> b = (\<forall>x\<in>set xs. cmp x v \<noteq> 0)
    \<and> iter_value s' i = (if b then Some v else find (\<lambda>x. cmp x v = 0) xs)"
  using comparison.repr_emplace [OF assms] unfolding comparison.inserted_def [OF assms(1)] by blast

theorem tree_emplace_correct_witness:
  "\<exists>s' i. tree_emplace compare (\<lambda>n. n = 32) 20 example_tree = Some (s', i, False)
    \<and> tree_repr compare s' [10, 20, 30] \<and> iter_value s' i = Some 20"
  using tree_emplace_correct [OF integral.comparison_axioms example_repr, of "\<lambda>n. n = 32" 20]
  by (auto simp: can_grow_def example_capacity UINT32_MAX_def ins_def)

text \<open>
  C3.  \<open>erase(value)\<close> returns the element equal to the value, if there is one, and leaves a
  set of the other elements; the search value may be of another type than the elements.
\<close>

theorem tree_erase_correct:
  assumes "lookup cmp ocmp" and "tree_repr cmp s xs"
  shows "\<exists>s'. tree_erase ocmp v s = Some (s', find (\<lambda>x. ocmp x v = 0) xs)
    \<and> tree_repr cmp s' (filter (\<lambda>x. ocmp x v \<noteq> 0) xs)"
  using lookup.repr_erase [OF assms] by (simp add: del_def)

theorem tree_erase_correct_witness:
  "\<exists>s'. tree_erase compare 20 example_tree = Some (s', Some 20) \<and> tree_repr compare s' [10, 30]"
  using tree_erase_correct [OF integral.self.lookup_axioms example_repr, of 20] by simp

text \<open>
  A node that was extracted is inserted back into its own slot with the value it has by
  then: the result is that of inserting the value.
\<close>

theorem tree_reinsert_correct:
  assumes "comparison cmp" and "tree_repr cmp s xs"
    and "1 \<le> n" "n < e_next s" "\<not> n_active (e_node s n)" "n_data (e_node s n) = v"
  shows "\<exists>s' i b. tree_reinsert cmp (Some n) v s = Some (s', i, b) \<and> tree_repr cmp s' (ins cmp v xs)
    \<and> b = (\<forall>x\<in>set xs. cmp x v \<noteq> 0)
    \<and> iter_value s' i = (if b then Some v else find (\<lambda>x. cmp x v = 0) xs)"
  using comparison.repr_reinsert [OF assms] unfolding comparison.inserted_def [OF assms(1)] by blast

lemma example_gap:
  "\<exists>s. tree_repr compare s [10, 30 :: int] \<and> e_next s = 4 \<and> \<not> n_active (e_node s 1) \<and> n_data (e_node s 1) = 20"
proof -
  obtain t where ok: "tree_ok example_tree t" and keys: "node_keys example_tree t = [10, 20, 30]"
    and sorted: "integral.self.sorted_nodes (e_node example_tree) (inorder t)"
    using integral.self.repr_nodes [OF example_repr] by blast
  have i: "1 \<in> set_tree t"
    using tree_okD(2) [OF ok, of 1] by (simp add: example_tree_def example_node_def)
  obtain s' t' where ok': "tree_ok s' t'" and io: "inorder t' = remove1 1 (inorder t)"
    and sh: "shrunk 1 example_tree s'"
    using extract_ok [OF ok i] by blast
  have data: "n_data (e_node s' x) = n_data (e_node example_tree x)" for x
    using sh by (simp add: shrunk_def)
  have "node_keys s' t' = del compare (20 :: int) [10, 20, 30]"
    using integral.self.del_node [OF sorted i, of 20] tree_coreD(2) [OF tree_okD(1) [OF ok]] keys
    by (simp add: node_keys_def data io) (simp add: example_tree_def example_node_def)
  then have "tree_repr compare s' [10, 30]"
    unfolding tree_repr_def using ok' by (intro exI [of _ t']) (simp add: del_def)
  then show ?thesis
    using sh by (intro exI [of _ s']) (auto simp: shrunk_def example_tree_def example_node_def)
qed

theorem tree_reinsert_correct_witness:
  "\<exists>s s' i. tree_repr compare s [10, 30 :: int] \<and> tree_reinsert compare (Some 1) 20 s = Some (s', i, True)
    \<and> tree_repr compare s' [10, 20, 30]"
proof -
  obtain s where s: "tree_repr compare s [10, 30 :: int]" "e_next s = 4" "\<not> n_active (e_node s 1)"
    "n_data (e_node s 1) = 20"
    using example_gap by blast
  from tree_reinsert_correct [OF integral.comparison_axioms s(1), of 1 20] s show ?thesis
    by (auto simp: ins_def)
qed

section \<open>Reading the set\<close>

text \<open>
  C5.  \<open>find(value)\<close> returns the position of the element equal to the value, or \<open>end()\<close> exactly
  if there is none, and \<open>contains(value)\<close> agrees with it.
\<close>

theorem tree_find_correct:
  assumes "lookup cmp ocmp" and "tree_repr cmp s xs"
  shows "(\<exists>i. tree_find ocmp v s = Some i
    \<and> (if i = 0 then find (\<lambda>x. ocmp x v = 0) xs = None
       else iter_value s i = find (\<lambda>x. ocmp x v = 0) xs \<and> find (\<lambda>x. ocmp x v = 0) xs \<noteq> None))
    \<and> tree_contains ocmp v s = Some (\<exists>x\<in>set xs. ocmp x v = 0)"
  using lookup.repr_find [OF assms] lookup.repr_contains [OF assms] by blast

theorem tree_find_correct_witness:
  "(\<exists>i. tree_find compare 30 example_tree = Some i \<and> iter_value example_tree i = Some 30)
    \<and> tree_contains compare 25 example_tree = Some False"
  using tree_find_correct [OF integral.self.lookup_axioms example_repr, of 30]
    tree_find_correct [OF integral.self.lookup_axioms example_repr, of 25]
  by (auto split: if_splits)

text \<open>
  C6.  \<open>lower\<close>, \<open>floor\<close>, \<open>ceil\<close> and \<open>higher\<close> return the greatest element below, the greatest not
  above, the smallest not below and the smallest above the search value, or \<open>end()\<close> if there
  is none.
\<close>

theorem tree_neighbours_correct:
  assumes "lookup cmp ocmp" and "tree_repr cmp s xs"
  shows "map_option (node_value s) (lower_node ocmp s v) =
      Some (if filter (\<lambda>x. ocmp x v < 0) xs = [] then None else Some (last (filter (\<lambda>x. ocmp x v < 0) xs)))
    \<and> map_option (node_value s) (floor_node ocmp s v) =
      Some (if filter (\<lambda>x. ocmp x v \<le> 0) xs = [] then None else Some (last (filter (\<lambda>x. ocmp x v \<le> 0) xs)))
    \<and> map_option (node_value s) (ceil_node ocmp s v) = Some (find (\<lambda>x. 0 \<le> ocmp x v) xs)
    \<and> map_option (node_value s) (higher_node ocmp s v) = Some (find (\<lambda>x. 0 < ocmp x v) xs)"
  using lookup.repr_neighbours [OF assms] by blast

theorem tree_neighbours_correct_witness:
  "map_option (node_value example_tree) (lower_node compare example_tree 20) = Some (Some 10)
    \<and> map_option (node_value example_tree) (higher_node compare example_tree 30) = Some None"
  using tree_neighbours_correct [OF integral.self.lookup_axioms example_repr, of 20]
    tree_neighbours_correct [OF integral.self.lookup_axioms example_repr, of 30]
  by simp

text \<open>
  C7.  A range-based loop over the set ends and meets the elements in order, once each, and
  \<open>size()\<close> is their number.
\<close>

theorem tree_iteration_correct:
  assumes "tree_repr cmp s xs"
  shows "(do { i \<leftarrow> tree_begin s; iterate s i }) = Some xs \<and> tree_size s = length xs
    \<and> tree_is_empty s = (xs = [])"
  using repr_traversal [OF assms] repr_size [OF assms] by simp

theorem tree_iteration_correct_witness:
  "(do { i \<leftarrow> tree_begin example_tree; iterate example_tree i }) = Some [10, 20, 30]"
  using tree_iteration_correct [OF example_repr] by simp

section \<open>Invariants\<close>

text \<open>
  The sets that a program can make: a new set, and what insertions, erasures, compaction, resizing and
  clearing lead to.  \<open>can_grow\<close> is the condition that the memory for a larger array is available.
\<close>

inductive tree_reach :: "('a \<Rightarrow> 'a \<Rightarrow> int) \<Rightarrow> 'a treeset \<Rightarrow> bool" for cmp where
  new: "tree_new alloc n h = Some s \<Longrightarrow> tree_reach cmp s"
| insert: "tree_reach cmp s \<Longrightarrow> can_grow alloc s \<Longrightarrow> tree_insert cmp alloc v s = Some (s', i, b) \<Longrightarrow> tree_reach cmp s'"
| emplace: "tree_reach cmp s \<Longrightarrow> can_grow alloc s \<Longrightarrow> tree_emplace cmp alloc v s = Some (s', i, b) \<Longrightarrow> tree_reach cmp s'"
| erase: "tree_reach cmp s \<Longrightarrow> tree_erase cmp v s = Some (s', r) \<Longrightarrow> tree_reach cmp s'"
| reorganize: "tree_reach cmp s \<Longrightarrow> reorganize s = Some s' \<Longrightarrow> tree_reach cmp s'"
| resize: "tree_reach cmp s \<Longrightarrow> resize alloc n s = Some (s', b) \<Longrightarrow> tree_reach cmp s'"
| clear: "tree_reach cmp s \<Longrightarrow> tree_reach cmp (tree_clear s)"

lemma tree_reach_repr:
  assumes "comparison cmp" and "tree_reach cmp s"
  shows "\<exists>xs. tree_repr cmp s xs"
  using assms(2)
proof (induction rule: tree_reach.induct)
  case (new alloc n h s)
  then show ?case using repr_new[of alloc n h cmp] by auto
next
  case (insert s alloc v s' i b)
  then obtain xs where "tree_repr cmp s xs" by blast
  from comparison.repr_insert [OF assms(1) this insert.hyps(2), of v] insert.hyps(3) show ?case
    unfolding comparison.inserted_def [OF assms(1)] by auto
next
  case (emplace s alloc v s' i b)
  then obtain xs where "tree_repr cmp s xs" by blast
  from comparison.repr_emplace [OF assms(1) this emplace.hyps(2), of v] emplace.hyps(3) show ?case
    unfolding comparison.inserted_def [OF assms(1)] by auto
next
  case (erase s v s' r)
  then obtain xs where "tree_repr cmp s xs" by blast
  from lookup.repr_erase [OF comparison.self_lookup [OF assms(1)] this, of v] erase.hyps(2) show ?case by auto
next
  case (reorganize s s')
  then obtain xs where "tree_repr cmp s xs" by blast
  from repr_reorganize [OF this] reorganize.hyps(2) show ?case by auto
next
  case (resize s alloc n s' b)
  then obtain xs where "tree_repr cmp s xs" by blast
  from repr_resize [OF this, of alloc n] resize.hyps(2) show ?case by auto
next
  case (clear s)
  then show ?case using repr_clear by blast
qed

text \<open>A way down from a node along the links to the children.\<close>

fun way_down :: "(nat \<Rightarrow> 'a tree_node) \<Rightarrow> nat list \<Rightarrow> bool" where
  "way_down h [] \<longleftrightarrow> True"
| "way_down h [i] \<longleftrightarrow> i \<noteq> 0"
| "way_down h (i # j # js) \<longleftrightarrow> i \<noteq> 0 \<and> (j = t_left (h i) \<or> j = t_right (h i)) \<and> way_down h (j # js)"

lemma way_down_height: "rep h p i t \<Longrightarrow> way_down h (i # js) \<Longrightarrow> length (i # js) \<le> height t"
proof (induction js arbitrary: p i t)
  case Nil
  then show ?case by (cases t) auto
next
  case (Cons j js)
  from Cons.prems obtain l r where t: "t = Node l i r" and lr: "rep h i (t_left (h i)) l" "rep h i (t_right (h i)) r"
    by (cases t) auto
  have "j = t_left (h i) \<or> j = t_right (h i)" "way_down h (j # js)" using Cons.prems(2) by auto
  then show ?case using t Cons.IH[OF lr(1)] Cons.IH[OF lr(2)] by auto
qed

lemma repr_capacity: "tree_repr cmp s xs \<Longrightarrow> xs \<noteq> [] \<Longrightarrow> 0 < e_capacity s"
proof -
  assume "tree_repr cmp s xs" and "xs \<noteq> []"
  then obtain t where ok: "tree_ok s t" and "e_count s \<noteq> 0"
    using tree_coreD(3) tree_okD(1) by (fastforce simp: tree_repr_def node_keys_def)
  then show "0 < e_capacity s" using tree_okD(4) [OF ok] by (auto simp: tree_ok_def)
qed

lemma example_reach: "\<exists>s. tree_reach compare s \<and> tree_repr compare s [10, 20 :: int]"
proof -
  let ?s = "tree_empty (\<lambda>_. unused_node)"
  have r0: "tree_reach compare ?s" by (rule tree_reach.new [of _ 0]) (simp add: tree_new_def)
  have "can_grow (\<lambda>_. True) ?s" by (simp add: can_grow_def tree_empty_def)
  from comparison.repr_insert [OF integral.comparison_axioms repr_empty this, of 20] obtain s1 i b where
    s1: "tree_insert compare (\<lambda>_. True) 20 ?s = Some (s1, i, b)" "tree_repr compare s1 [20]"
    by (auto simp: integral.inserted_def ins_def)
  have r1: "tree_reach compare s1"
    by (rule tree_reach.insert [OF r0 \<open>can_grow (\<lambda>_. True) ?s\<close> s1(1)])
  obtain s2 c where s2: "resize (\<lambda>n. n = 16) 16 s1 = Some (s2, c)" "tree_repr compare s2 [20]" "e_capacity s2 = 16"
    using repr_resize [OF s1(2), of "\<lambda>n. n = 16" 16] by (fastforce simp: UINT32_MAX_def)
  have r2: "tree_reach compare s2" by (rule tree_reach.resize [OF r1 s2(1)])
  have g: "can_grow (\<lambda>_. True) s2" using s2(3) by (simp add: can_grow_def UINT32_MAX_def)
  from comparison.repr_insert [OF integral.comparison_axioms s2(2) g, of 10] obtain s3 j d where
    s3: "tree_insert compare (\<lambda>_. True) 10 s2 = Some (s3, j, d)" "tree_repr compare s3 [10, 20]"
    by (auto simp: integral.inserted_def ins_def)
  then show ?thesis using tree_reach.insert [OF r2 g s3(1)] by blast
qed

text \<open>
  C8.  The consistency check the code has of its own (\<open>check()\<close>: counters, order, parent links
  and balance factors) passes in every state that a program can bring a set into, except before the
  first slots are allocated: there it reads slot 0 of an array that does not exist.
\<close>

theorem tree_check_passes:
  assumes "comparison cmp" and "tree_reach cmp s"
  shows "tree_check cmp s = (if e_capacity s = 0 then None else Some ())"
proof -
  obtain xs where r: "tree_repr cmp s xs" using tree_reach_repr[OF assms] by blast
  show ?thesis
  proof (cases "e_capacity s = 0")
    case False
    then show ?thesis using repr_check[OF r] by simp
  qed (simp add: tree_check_def)
qed

theorem tree_check_passes_witness:
  "tree_check compare (tree_empty (\<lambda>_. unused_node)) = None \<and>
   (\<exists>s. tree_repr compare s [10, 20 :: int] \<and> tree_check compare s = Some ())"
proof -
  have "tree_reach compare (tree_empty (\<lambda>_. unused_node))"
    by (rule tree_reach.new [of _ 0]) (simp add: tree_new_def)
  from tree_check_passes [OF integral.comparison_axioms this] have "tree_check compare (tree_empty (\<lambda>_. unused_node)) = None"
    by (simp add: tree_empty_def)
  moreover obtain s where s: "tree_reach compare s" "tree_repr compare s [10, 20 :: int]" using example_reach by blast
  ultimately show ?thesis
    using tree_check_passes [OF integral.comparison_axioms s(1)] repr_capacity [OF s(2)] s(2) by auto
qed

text \<open>
  C9.  In every state that a program can bring a set into, a way down from the root along the links
  visits at most \<open>2 log2 (n + 1)\<close> nodes of a set of \<open>n\<close> elements: the rotations of insertion and
  erasure keep the linked structure balanced, and no search is longer.
\<close>

theorem tree_height_bound:
  assumes "comparison cmp" and "tree_reach cmp s" and "way_down (e_node s) (t_root s # js)"
  shows "2 ^ length (t_root s # js) \<le> (tree_size s + 1)\<^sup>2"
proof -
  obtain xs where r: "tree_repr cmp s xs" using tree_reach_repr [OF assms(1,2)] by blast
  obtain t where t: "rep (e_node s) 0 (t_root s) t" "2 ^ height t \<le> (tree_size s + 1)\<^sup>2"
    using repr_height [OF r] repr_size(1) [OF r] by auto
  have "(2::nat) ^ length (t_root s # js) \<le> 2 ^ height t"
    using way_down_height [OF t(1) assms(3)] by (intro power_increasing) auto
  then show ?thesis using t(2) by linarith
qed

theorem tree_height_bound_witness:
  "\<exists>s. tree_repr compare s [10, 20 :: int] \<and>
    (\<forall>js. \<not> (way_down (e_node s) (t_root s # js) \<and> 3 < length js))"
proof -
  obtain s where s: "tree_reach compare s" "tree_repr compare s [10, 20 :: int]" using example_reach by blast
  have n: "tree_size s = 2" using repr_size(1) [OF s(2)] by simp
  have "length js \<le> 3" if "way_down (e_node s) (t_root s # js)" for js
  proof (rule ccontr)
    assume "\<not> length js \<le> 3"
    then have "(2::nat) ^ 4 \<le> 2 ^ length (t_root s # js)" by (intro power_increasing) auto
    then show False using tree_height_bound [OF integral.comparison_axioms s(1) that] n by simp
  qed
  then show ?thesis using s(2) by force
qed

text \<open>
  C10.  \<open>reorganize()\<close> and \<open>resize(capacity)\<close>, which move the elements to other slots and to a
  new array, keep the set; after \<open>reorganize\<close> the slots in use are exactly \<open>1 .. size\<close>, and \<open>resize\<close>
  succeeds exactly if the number of slots is above the size, fits into 32 bits and there is memory.
\<close>

theorem tree_reorganize_correct:
  assumes "tree_repr cmp s xs"
  shows "(\<exists>s'. reorganize s = Some s' \<and> tree_repr cmp s' xs
      \<and> (xs \<noteq> [] \<longrightarrow> {i. 1 \<le> i \<and> i < e_next s' \<and> n_active (e_node s' i)} = {1..length xs}))
    \<and> (\<exists>s' b. resize alloc n s = Some (s', b) \<and> tree_repr cmp s' xs
      \<and> (b \<longleftrightarrow> length xs < n \<and> n \<le> UINT32_MAX \<and> (max 16 n = e_capacity s \<or> alloc (max 16 n)))
      \<and> e_capacity s' = (if b then max 16 n else e_capacity s))"
  using repr_reorganize [OF assms] repr_resize [OF assms] by blast

theorem tree_reorganize_correct_witness:
  "\<exists>s s'. tree_repr compare s [10, 30 :: int] \<and> \<not> n_active (e_node s 1)
    \<and> reorganize s = Some s' \<and> n_active (e_node s' 1)"
proof -
  obtain s where s: "tree_repr compare s [10, 30 :: int]" "\<not> n_active (e_node s 1)"
    using example_gap by blast
  from tree_reorganize_correct [OF s(1), THEN conjunct1] obtain s' where r: "reorganize s = Some s'"
    and slots: "{i. 1 \<le> i \<and> i < e_next s' \<and> n_active (e_node s' i)} = {1..2}"
    by (auto simp: numeral_2_eq_2)
  have "1 \<in> {i. 1 \<le> i \<and> i < e_next s' \<and> n_active (e_node s' i)}" unfolding slots by simp
  with s r show ?thesis by auto
qed

section \<open>Sets made of the elements of another container\<close>

text \<open>
  The copy constructor from an element array links the active slots and drops duplicates:
  the set is that of inserting the values in slot order.
\<close>

theorem tree_from_elements_correct:
  assumes "comparison cmp" and "elements_ok old"
  shows "\<exists>s'. tree_from_elements cmp False old = Some s'
    \<and> tree_repr cmp s' (fold (ins cmp) (slot_values (e_node old) 1 (e_next old)) [])"
  using assms by (rule comparison.repr_from_elements)

definition example_elements :: "int tree_node elements" where
  "example_elements = \<lparr>e_capacity = 16, e_next = 4, e_count = 3,
     e_node = (\<lambda>i. if i = 1 then example_node 0 0 0 7 else if i = 2 then example_node 0 0 0 5
       else if i = 3 then example_node 0 0 0 7 else unused_node)\<rparr>"

lemma example_elements_values:
  "slot_values (e_node example_elements) 1 (e_next example_elements) = [7, 5, 7]"
  by (simp add: slot_values_def example_elements_def example_node_def unused_node_def upt_rec)

lemma example_elements_ok: "elements_ok example_elements"
  using example_elements_values
  by (simp add: elements_ok_def) (simp add: example_elements_def unused_node_def UINT32_MAX_def)

theorem tree_from_elements_correct_witness:
  "\<exists>s'. tree_from_elements compare False example_elements = Some s' \<and> tree_repr compare s' [5, 7]"
  using tree_from_elements_correct [OF integral.comparison_axioms example_elements_ok]
  unfolding example_elements_values by (simp add: ins_def)

text \<open>
  The move constructor from an element array stops with a failed assert unless the array
  is empty: it compares \<open>_next\<close> with that of the array it has moved from, which is 1 by then.
\<close>

theorem tree_from_moved_elements_fails:
  assumes "comparison cmp" and "elements_ok old" and "e_next old \<noteq> 1"
  shows "tree_from_elements cmp True old = None"
  using comparison.from_moved_elements [OF assms(1,2)] assms(3) by simp

theorem tree_from_moved_elements_fails_witness:
  "tree_from_elements compare True example_elements = None"
  by (rule tree_from_moved_elements_fails [OF integral.comparison_axioms example_elements_ok])
    (simp add: example_elements_def)

end
