(* ===== verification/HashSet.thy ===== *)
theory HashSet
  imports Comparison Elements
begin

text \<open>
  include/dlh/container/hash.hpp: the state of \<open>HashSet\<close> and its operations.  A set is an
  \<open>Elements\<close> array whose active slots are chained in doubly linked lists, one per hash bucket.
  The comparison class is a parameter: \<open>eq\<close> is \<open>C::equal\<close> and \<open>hash\<close> is \<open>C::hash\<close>; the
  template parameter \<open>L\<close> is the load factor in percent.  \<open>None\<close> is a failed assert or a
  division by an empty bucket array.
\<close>

record 'a hash_node = "'a node" +
  h_prev :: nat
  h_next :: nat
  h_temp :: u32

record 'a hashset = "'a hash_node elements" +
  b_capacity :: nat
  b_bucket :: "nat \<Rightarrow> nat"

abbreviation hset_active :: "nat \<Rightarrow> bool \<Rightarrow> 'a hashset \<Rightarrow> 'a hashset" where
  "hset_active i b \<equiv> upd_node i (n_active_update (\<lambda>_. b))"

abbreviation hset_data :: "nat \<Rightarrow> 'a \<Rightarrow> 'a hashset \<Rightarrow> 'a hashset" where
  "hset_data i v \<equiv> upd_node i (n_data_update (\<lambda>_. v))"

abbreviation hset_prev :: "nat \<Rightarrow> nat \<Rightarrow> 'a hashset \<Rightarrow> 'a hashset" where
  "hset_prev i p \<equiv> upd_node i (h_prev_update (\<lambda>_. p))"

abbreviation hset_next :: "nat \<Rightarrow> nat \<Rightarrow> 'a hashset \<Rightarrow> 'a hashset" where
  "hset_next i n \<equiv> upd_node i (h_next_update (\<lambda>_. n))"

abbreviation hset_temp :: "nat \<Rightarrow> u32 \<Rightarrow> 'a hashset \<Rightarrow> 'a hashset" where
  "hset_temp i h \<equiv> upd_node i (h_temp_update (\<lambda>_. h))"

definition set_bucket :: "nat \<Rightarrow> nat \<Rightarrow> 'a hashset \<Rightarrow> 'a hashset" where
  "set_bucket b i s = s\<lparr>b_bucket := (b_bucket s)(b := i)\<rparr>"

section \<open>Buckets\<close>

text \<open>\<open>buckets(capacity)\<close>, computed in 64 bits.\<close>

definition buckets :: "nat \<Rightarrow> nat \<Rightarrow> nat" where
  "buckets L capacity =
     (let b = (capacity * L mod 2 ^ 64) div 100 in if b \<ge> UINT32_MAX then UINT32_MAX - 1 else b)"

text \<open>\<open>bucket(h)\<close>: the index of the bucket.\<close>

definition bucket :: "u32 \<Rightarrow> 'a hashset \<Rightarrow> nat option" where
  "bucket h s = (if b_capacity s = 0 then None else Some (unat h mod b_capacity s))"

text \<open>\<open>find_in(bucket, value)\<close>, from link \<open>i\<close> on.\<close>

partial_function (option) find_in ::
    "('a \<Rightarrow> 'o \<Rightarrow> bool) \<Rightarrow> 'a hashset \<Rightarrow> 'o \<Rightarrow> nat \<Rightarrow> nat option" where
  "find_in eq s v i =
     (if i = 0 then Some (e_next s)
      else do {
        assert_that (e_count s < e_next s);
        assert_that (i < e_next s);
        assert_that (n_active (e_node s i));
        if eq (n_data (e_node s i)) v then Some i else find_in eq s v (h_next (e_node s i))
      })"

declare find_in.simps [code]

text \<open>
  Putting a node at the head of a bucket, the common part of \<open>insert(element, b)\<close> and
  \<open>bucketize\<close>.
\<close>

definition link_head :: "nat \<Rightarrow> nat \<Rightarrow> 'a hashset \<Rightarrow> 'a hashset option" where
  "link_head element b s = do {
     let s = hset_prev element 0 s;
     let n = b_bucket s b;
     let s = hset_next element n s;
     s \<leftarrow> (if n \<noteq> 0 then do {
             assert_that (n_active (e_node s n));
             assert_that (h_prev (e_node s n) = 0);
             Some (hset_prev n element s)
           } else Some s);
     Some (set_bucket b element s)
   }"

definition insert_chain :: "nat \<Rightarrow> nat \<Rightarrow> 'a hashset \<Rightarrow> ('a hashset \<times> nat \<times> bool) option" where
  "insert_chain element b s = do {
     let s = hset_active element True s;
     let s = s\<lparr>e_count := e_count s + 1\<rparr>;
     s \<leftarrow> link_head element b s;
     Some (s, element, True)
   }"

text \<open>
  \<open>bucketize(rehash)\<close>: \<open>todo\<close> is the number of slots up to \<open>_capacity\<close>, \<open>c\<close> the active slots
  met so far.
\<close>

fun bucketize_loop :: "('a \<Rightarrow> u32) \<Rightarrow> bool \<Rightarrow> nat \<Rightarrow> nat \<Rightarrow> nat \<Rightarrow> 'a hashset \<Rightarrow> 'a hashset option" where
  "bucketize_loop hash rehash 0 i c s = Some s"
| "bucketize_loop hash rehash (Suc todo) i c s =
     (if n_active (e_node s i) then do {
        let s = (if rehash then hset_temp i (hash (n_data (e_node s i))) s else s);
        b \<leftarrow> bucket (h_temp (e_node s i)) s;
        s \<leftarrow> link_head i b s;
        if c + 1 \<ge> e_count s then Some s
        else bucketize_loop hash rehash todo (i + 1) (c + 1) s
      } else bucketize_loop hash rehash todo (i + 1) c s)"

definition bucketize :: "('a \<Rightarrow> u32) \<Rightarrow> bool \<Rightarrow> 'a hashset \<Rightarrow> 'a hashset option" where
  "bucketize hash rehash s =
     (let s = s\<lparr>b_bucket := (\<lambda>b. if b < b_capacity s then 0 else b_bucket s b)\<rparr> in
      if e_count s > 0 then bucketize_loop hash rehash (e_capacity s - 1) 1 0 s else Some s)"

section \<open>Slots\<close>

text \<open>\<open>reorder()\<close>: \<open>todo\<close> is \<open>_count + 1 - i\<close>.\<close>

fun hash_reorder_loop :: "nat \<Rightarrow> nat \<Rightarrow> nat \<Rightarrow> 'a hashset \<Rightarrow> 'a hashset option" where
  "hash_reorder_loop 0 i j s = Some s"
| "hash_reorder_loop (Suc todo) i j s =
     (if n_active (e_node s i) then hash_reorder_loop todo (i + 1) j s
      else do {
        j \<leftarrow> skip_unused (e_node s) i j;
        let s = hset_data i (n_data (e_node s j)) s;
        let s = hset_temp i (h_temp (e_node s j)) s;
        let s = hset_active i True s;
        let s = hset_active j False s;
        hash_reorder_loop todo (i + 1) (j - 1) s
      })"

definition hash_reorder :: "'a hashset \<Rightarrow> ('a hashset \<times> bool) option" where
  "hash_reorder s =
     (if e_count s + 1 < e_next s then do {
        s \<leftarrow> hash_reorder_loop (e_count s) 1 (e_next s - 1) s;
        Some (s\<lparr>e_next := e_count s + 1\<rparr>, True)
      } else Some (s, False))"

text \<open>
  \<open>resize(capacity)\<close>: the slots of a larger array are zeroed (their values are not looked at
  while they are inactive), and the bucket array moves behind it.
\<close>

definition clear_new :: "nat \<Rightarrow> nat \<Rightarrow> 'a hashset \<Rightarrow> 'a hashset" where
  "clear_new old capacity s =
     s\<lparr>e_node := (\<lambda>i. if old \<le> i \<and> i < capacity
        then (e_node s i)\<lparr>n_active := False, h_prev := 0, h_next := 0, h_temp := 0\<rparr> else e_node s i)\<rparr>"

definition hash_resize ::
    "('a \<Rightarrow> u32) \<Rightarrow> nat \<Rightarrow> (nat \<Rightarrow> bool) \<Rightarrow> nat \<Rightarrow> 'a hashset \<Rightarrow> ('a hashset \<times> bool) option" where
  "hash_resize hash L alloc capacity s =
     (if capacity \<le> e_count s \<or> capacity > UINT32_MAX then Some (s, False)
      else do {
        let capacity = (if capacity < 16 then 16 else capacity);
        (s, need_bucketize) \<leftarrow> hash_reorder s;
        let old_capacity = e_capacity s;
        let same = (capacity = old_capacity);
        let (s, ok) = (if same then (s, False) else elements_resize alloc capacity s);
        let s = (if ok then
            (let s = clear_new old_capacity capacity s; s = hset_active 0 False s
             in s\<lparr>b_capacity := buckets L capacity\<rparr>) else s);
        s \<leftarrow> (if need_bucketize \<or> ok then bucketize hash False s else Some s);
        Some (s, same \<or> ok)
      })"

definition hash_reorganize :: "('a \<Rightarrow> u32) \<Rightarrow> 'a hashset \<Rightarrow> 'a hashset option" where
  "hash_reorganize hash s =
     (if e_count s \<noteq> 0 then do {
        (s, moved) \<leftarrow> hash_reorder s;
        if moved then bucketize hash False s else Some s
      } else Some s)"

definition hash_rehash :: "('a \<Rightarrow> u32) \<Rightarrow> 'a hashset \<Rightarrow> 'a hashset option" where
  "hash_rehash hash s = (if e_count s \<noteq> 0 then bucketize hash True s else Some s)"

definition hash_increase ::
    "('a \<Rightarrow> u32) \<Rightarrow> nat \<Rightarrow> (nat \<Rightarrow> bool) \<Rightarrow> 'a hashset \<Rightarrow> ('a hashset \<times> bool) option" where
  "hash_increase hash L alloc s =
     (if e_capacity s = 0 then hash_resize hash L alloc 16 s
      else if e_next s \<ge> e_capacity s then
        (if e_count s * 2 mod (UINT32_MAX + 1) \<le> e_capacity s then map_option (\<lambda>s. (s, True)) (hash_reorganize hash s)
         else hash_resize hash L alloc (e_capacity s * 2 mod (UINT32_MAX + 1)) s)
      else Some (s, True))"

section \<open>Operations\<close>

definition hash_empty :: "(nat \<Rightarrow> 'a hash_node) \<Rightarrow> (nat \<Rightarrow> nat) \<Rightarrow> 'a hashset" where
  "hash_empty h b =
     \<lparr>e_capacity = 0, e_next = 1, e_count = 0, e_node = h, b_capacity = 0, b_bucket = b\<rparr>"

definition hash_new ::
    "('a \<Rightarrow> u32) \<Rightarrow> nat \<Rightarrow> (nat \<Rightarrow> bool) \<Rightarrow> nat \<Rightarrow> (nat \<Rightarrow> 'a hash_node) \<Rightarrow> (nat \<Rightarrow> nat) \<Rightarrow> 'a hashset option" where
  "hash_new hash L alloc capacity h b = do {
     s \<leftarrow> (if capacity > 0 then map_option fst (hash_resize hash L alloc (capacity + 1) (hash_empty h b))
          else Some (hash_empty h b));
     assert_that (e_count s = 0 \<or> \<not> n_active (e_node s 0));
     Some s
   }"

text \<open>
  \<open>HashSet(const Elements<T>&)\<close>: the slots \<open>e\<close>, copied from another container by the constructor
  of the base class, are chained; an empty container gets no buckets, whatever its capacity.
\<close>

definition hash_from_elements ::
    "('a \<Rightarrow> u32) \<Rightarrow> nat \<Rightarrow> 'a hash_node elements \<Rightarrow> (nat \<Rightarrow> nat) \<Rightarrow> 'a hashset option" where
  "hash_from_elements hash L e b = do {
     let s = \<lparr>e_capacity = e_capacity e, e_next = e_next e, e_count = e_count e, e_node = e_node e,
               b_capacity = 0, b_bucket = b\<rparr>;
     if e_count s \<noteq> 0 then do {
       assert_that (\<not> n_active (e_node s 0));
       bucketize hash True (s\<lparr>b_capacity := buckets L (e_capacity s)\<rparr>)
     } else Some s
   }"

text \<open>\<open>emplace(args)\<close> builds the value in slot \<open>_next\<close>, \<open>insert(value)\<close> copies it there if it is new.\<close>

definition hash_emplace ::
    "('a \<Rightarrow> 'a \<Rightarrow> bool) \<Rightarrow> ('a \<Rightarrow> u32) \<Rightarrow> nat \<Rightarrow> (nat \<Rightarrow> bool) \<Rightarrow> 'a \<Rightarrow> 'a hashset
      \<Rightarrow> ('a hashset \<times> nat \<times> bool) option" where
  "hash_emplace eq hash L alloc v s = do {
     (s, _) \<leftarrow> hash_increase hash L alloc s;
     assert_that (e_next s < e_capacity s);
     let s = hset_data (e_next s) v s;
     let s = hset_temp (e_next s) (hash v) s;
     b \<leftarrow> bucket (hash v) s;
     i \<leftarrow> find_in eq s v (b_bucket s b);
     if i \<noteq> e_next s then Some (s, i, False)
     else insert_chain (e_next s) b (s\<lparr>e_next := e_next s + 1\<rparr>)
   }"

definition hash_insert ::
    "('a \<Rightarrow> 'a \<Rightarrow> bool) \<Rightarrow> ('a \<Rightarrow> u32) \<Rightarrow> nat \<Rightarrow> (nat \<Rightarrow> bool) \<Rightarrow> 'a \<Rightarrow> 'a hashset
      \<Rightarrow> ('a hashset \<times> nat \<times> bool) option" where
  "hash_insert eq hash L alloc v s = do {
     (s, _) \<leftarrow> hash_increase hash L alloc s;
     b \<leftarrow> bucket (hash v) s;
     i \<leftarrow> find_in eq s v (b_bucket s b);
     if i \<noteq> e_next s then Some (s, i, False)
     else do {
       assert_that (e_next s < e_capacity s);
       let s = hset_temp (e_next s) (hash v) s;
       let s = hset_data (e_next s) v s;
       insert_chain (e_next s) b (s\<lparr>e_next := e_next s + 1\<rparr>)
     }
   }"

text \<open>\<open>insert(Node &&)\<close>; \<open>slot\<close> as in \<open>tree_reinsert\<close>.\<close>

definition hash_reinsert ::
    "('a \<Rightarrow> 'a \<Rightarrow> bool) \<Rightarrow> ('a \<Rightarrow> u32) \<Rightarrow> nat option \<Rightarrow> 'a \<Rightarrow> 'a hashset \<Rightarrow> ('a hashset \<times> nat \<times> bool) option" where
  "hash_reinsert eq hash slot v s = do {
     b \<leftarrow> bucket (hash v) s;
     i \<leftarrow> find_in eq s v (b_bucket s b);
     if i \<noteq> e_next s then Some (s, i, False)
     else case slot of
       Some (Suc n) \<Rightarrow> insert_chain (Suc n) b (hset_temp (Suc n) (hash v) s)
     | _ \<Rightarrow> do {
         assert_that (e_next s < e_capacity s);
         let n = e_next s;
         let s = hset_data n v s;
         insert_chain n b (hset_temp n (hash v) (s\<lparr>e_next := n + 1\<rparr>))
       }
   }"

definition hash_find ::
    "('a \<Rightarrow> 'o \<Rightarrow> bool) \<Rightarrow> ('o \<Rightarrow> u32) \<Rightarrow> 'o \<Rightarrow> 'a hashset \<Rightarrow> nat option" where
  "hash_find eq ohash v s =
     (if e_count s = 0 then Some (e_next s)
      else do { b \<leftarrow> bucket (ohash v) s; find_in eq s v (b_bucket s b) })"

definition hash_contains ::
    "('a \<Rightarrow> 'o \<Rightarrow> bool) \<Rightarrow> ('o \<Rightarrow> u32) \<Rightarrow> 'o \<Rightarrow> 'a hashset \<Rightarrow> bool option" where
  "hash_contains eq ohash v s =
     (if e_count s = 0 then Some False
      else do { b \<leftarrow> bucket (ohash v) s; i \<leftarrow> find_in eq s v (b_bucket s b); Some (i \<noteq> e_next s) })"

definition hash_extract :: "nat \<Rightarrow> 'a hashset \<Rightarrow> ('a hashset \<times> 'a) option" where
  "hash_extract i s = do {
     assert_that (i \<ge> 1 \<and> i < e_next s \<and> n_active (e_node s i));
     let s = hset_active i False s;
     b \<leftarrow> bucket (h_temp (e_node s i)) s;
     assert_that (b_bucket s b \<noteq> 0);
     let next = h_next (e_node s i);
     let prev = h_prev (e_node s i);
     s \<leftarrow> (if next \<noteq> 0 then do {
             assert_that (n_active (e_node s next));
             assert_that (h_prev (e_node s next) = i);
             Some (hset_prev next prev s)
           } else Some s);
     s \<leftarrow> (if b_bucket s b = i then do {
             assert_that (prev = 0);
             Some (set_bucket b next s)
           } else if prev \<noteq> 0 then do {
             assert_that (n_active (e_node s prev));
             assert_that (h_next (e_node s prev) = i);
             Some (hset_next prev next s)
           } else Some s);
     Some (s\<lparr>e_count := e_count s - 1\<rparr>, n_data (e_node s i))
   }"

definition hash_erase_at :: "nat \<Rightarrow> 'a hashset \<Rightarrow> ('a hashset \<times> 'a option) option" where
  "hash_erase_at i s =
     (if i \<ge> 1 \<and> i < e_next s \<and> n_active (e_node s i)
      then map_option (\<lambda>(s, v). (s, Some v)) (hash_extract i s)
      else Some (s, None))"

definition hash_erase ::
    "('a \<Rightarrow> 'o \<Rightarrow> bool) \<Rightarrow> ('o \<Rightarrow> u32) \<Rightarrow> 'o \<Rightarrow> 'a hashset \<Rightarrow> ('a hashset \<times> 'a option) option" where
  "hash_erase eq ohash v s = do {
     i \<leftarrow> hash_find eq ohash v s;
     if i \<ge> 1 \<and> i < e_next s \<and> n_active (e_node s i)
     then map_option (\<lambda>(s, v). (s, Some v)) (hash_extract i s)
     else Some (s, None)
   }"

text \<open>
  \<open>HashSet(begin, end, initial_capacity)\<close> and \<open>HashSet(initializer_list)\<close>: room for all values is
  reserved, then they are emplaced one after the other.
\<close>

fun hash_emplace_all ::
    "('a \<Rightarrow> 'a \<Rightarrow> bool) \<Rightarrow> ('a \<Rightarrow> u32) \<Rightarrow> nat \<Rightarrow> (nat \<Rightarrow> bool) \<Rightarrow> 'a list \<Rightarrow> 'a hashset \<Rightarrow> 'a hashset option" where
  "hash_emplace_all eq hash L alloc [] s = Some s"
| "hash_emplace_all eq hash L alloc (v # vs) s = do {
     (s, _) \<leftarrow> hash_emplace eq hash L alloc v s;
     hash_emplace_all eq hash L alloc vs s
   }"

definition hash_from_range ::
    "('a \<Rightarrow> 'a \<Rightarrow> bool) \<Rightarrow> ('a \<Rightarrow> u32) \<Rightarrow> nat \<Rightarrow> (nat \<Rightarrow> bool) \<Rightarrow> nat \<Rightarrow> 'a list
      \<Rightarrow> (nat \<Rightarrow> 'a hash_node) \<Rightarrow> (nat \<Rightarrow> nat) \<Rightarrow> 'a hashset option" where
  "hash_from_range eq hash L alloc initial_capacity vs h b = do {
     let initial_capacity = (if initial_capacity = 0 then length vs else initial_capacity);
     (s, _) \<leftarrow> hash_resize hash L alloc (initial_capacity + 1) (hash_empty h b);
     s \<leftarrow> hash_emplace_all eq hash L alloc vs s;
     assert_that (e_count s = 0 \<or> \<not> n_active (e_node s 0));
     Some s
   }"

definition hash_from_list ::
    "('a \<Rightarrow> 'a \<Rightarrow> bool) \<Rightarrow> ('a \<Rightarrow> u32) \<Rightarrow> nat \<Rightarrow> (nat \<Rightarrow> bool) \<Rightarrow> 'a list
      \<Rightarrow> (nat \<Rightarrow> 'a hash_node) \<Rightarrow> (nat \<Rightarrow> nat) \<Rightarrow> 'a hashset option" where
  "hash_from_list eq hash L alloc vs h b = do {
     s \<leftarrow> (if length vs > 0 then do {
              (s, _) \<leftarrow> hash_resize hash L alloc (length vs + 1) (hash_empty h b);
              hash_emplace_all eq hash L alloc vs s
            } else Some (hash_empty h b));
     assert_that (e_count s = 0 \<or> \<not> n_active (e_node s 0));
     Some s
   }"

text \<open>
  \<open>HashSet(const HashSet &)\<close>: the slots up to \<open>_next\<close> (all of them for an integral type) and the
  buckets are copied to fresh memory, whose contents are \<open>h\<close> and \<open>b\<close>.
\<close>

definition hash_copy ::
    "bool \<Rightarrow> (nat \<Rightarrow> bool) \<Rightarrow> (nat \<Rightarrow> 'a hash_node) \<Rightarrow> (nat \<Rightarrow> nat) \<Rightarrow> 'a hashset \<Rightarrow> 'a hashset option" where
  "hash_copy integral alloc h b s = do {
     assert_that (e_capacity s > 0 \<longrightarrow> alloc (e_capacity s));
     let copied = (if e_capacity s = 0 then 0 else if integral then e_capacity s else e_next s);
     let node = (\<lambda>i. if i < copied then e_node s i else h i);
     let bucket = (\<lambda>i. if i < b_capacity s then b_bucket s i else b i);
     assert_that (b_capacity s > 0 \<longrightarrow> e_capacity s > 0);
     assert_that (b_capacity s > 0 \<longrightarrow> \<not> n_active (node 0));
     Some \<lparr>e_capacity = e_capacity s, e_next = e_next s, e_count = e_count s, e_node = node,
       b_capacity = b_capacity s, b_bucket = bucket\<rparr>
   }"

definition hash_size :: "'a hashset \<Rightarrow> nat" where
  "hash_size s = e_count s"

definition hash_is_empty :: "'a hashset \<Rightarrow> bool" where
  "hash_is_empty s = (e_count s = 0)"

fun bucket_count_loop :: "(nat \<Rightarrow> nat) \<Rightarrow> nat \<Rightarrow> nat" where
  "bucket_count_loop b 0 = 0"
| "bucket_count_loop b (Suc c) = bucket_count_loop b c + (if b c \<noteq> 0 then 1 else 0)"

definition bucket_count :: "'a hashset \<Rightarrow> nat" where
  "bucket_count s = bucket_count_loop (b_bucket s) (b_capacity s)"

definition hash_clear :: "'a hashset \<Rightarrow> 'a hashset" where
  "hash_clear s = (elements_clear s)\<lparr>b_bucket := (\<lambda>b. if b < b_capacity s then 0 else b_bucket s b)\<rparr>"

section \<open>Iterators\<close>

fun skip_forward :: "(nat \<Rightarrow> ('a, 'm) node_scheme) \<Rightarrow> nat \<Rightarrow> nat \<Rightarrow> nat" where
  "skip_forward h i 0 = i"
| "skip_forward h i (Suc todo) = (if n_active (h i) then i else skip_forward h (i + 1) todo)"

fun skip_backward :: "(nat \<Rightarrow> ('a, 'm) node_scheme) \<Rightarrow> nat \<Rightarrow> nat" where
  "skip_backward h 0 = 0"
| "skip_backward h (Suc i) = (if n_active (h (Suc i)) then Suc i else skip_backward h i)"

definition hash_begin :: "'a hashset \<Rightarrow> nat" where
  "hash_begin s = (if e_count s = 0 then e_next s else skip_forward (e_node s) 1 (e_next s - 1))"

definition hash_next :: "'a hashset \<Rightarrow> nat \<Rightarrow> nat" where
  "hash_next s i = skip_forward (e_node s) (i + 1) (e_next s - (i + 1))"

definition hash_rbegin :: "'a hashset \<Rightarrow> nat" where
  "hash_rbegin s = (if e_count s = 0 then 0 else skip_backward (e_node s) (e_next s - 1))"

text \<open>Going back is asked for at elements only; from \<open>rend()\<close>, index 0, the index of the code wraps around.\<close>

definition hash_prev :: "'a hashset \<Rightarrow> nat \<Rightarrow> nat" where
  "hash_prev s i = skip_backward (e_node s) (i - 1)"

definition hash_value :: "'a hashset \<Rightarrow> nat \<Rightarrow> 'a option" where
  "hash_value s i = (if n_active (e_node s i) then Some (n_data (e_node s i)) else None)"

partial_function (option) hash_iterate :: "'a hashset \<Rightarrow> nat \<Rightarrow> 'a list option" where
  "hash_iterate s i =
     (if i = e_next s then Some []
      else do {
        v \<leftarrow> hash_value s i;
        vs \<leftarrow> hash_iterate s (hash_next s i);
        Some (v # vs)
      })"

declare hash_iterate.simps [code]

end
