(* ===== verification/HashShape.thy ===== *)
theory HashShape
  imports HashSet
begin

text \<open>
  The bucket lists of a \<open>HashSet\<close> as lists of slot indices, and what linking, unlinking and
  searching do to them.
\<close>

section \<open>Equality and hash\<close>

text \<open>
  What the set expects of \<open>C::equal\<close> and \<open>C::hash\<close>: an equivalence that the hash respects;
  \<open>hash_lookup\<close> is the same for search values of another type.
\<close>

locale hashing =
  fixes eq :: "'a \<Rightarrow> 'a \<Rightarrow> bool" and hash :: "'a \<Rightarrow> u32"
  assumes eq_refl [simp]: "eq a a"
    and eq_sym: "eq a b \<Longrightarrow> eq b a"
    and eq_trans: "eq a b \<Longrightarrow> eq b c \<Longrightarrow> eq a c"
    and eq_hash: "eq a b \<Longrightarrow> hash a = hash b"

locale hash_lookup = hashing eq hash
  for eq :: "'a \<Rightarrow> 'a \<Rightarrow> bool" and hash :: "'a \<Rightarrow> u32" +
  fixes oeq :: "'a \<Rightarrow> 'o \<Rightarrow> bool" and ohash :: "'o \<Rightarrow> u32"
  assumes oeq_hash: "oeq a v \<Longrightarrow> hash a = ohash v"
    and oeq_eq: "oeq a v \<Longrightarrow> oeq b v \<Longrightarrow> eq a b"

sublocale hashing \<subseteq> hself: hash_lookup eq hash eq hash
  by unfold_locales (auto intro: eq_hash eq_trans eq_sym)

section \<open>Bucket lists\<close>

fun chain :: "(nat \<Rightarrow> 'a hash_node) \<Rightarrow> nat \<Rightarrow> nat \<Rightarrow> nat list \<Rightarrow> bool" where
  "chain h p i [] \<longleftrightarrow> i = 0"
| "chain h p i (x # xs) \<longleftrightarrow>
     i = x \<and> x \<noteq> 0 \<and> n_active (h x) \<and> h_prev (h x) = p \<and> chain h x (h_next (h x)) xs"

definition chained :: "'a hashset \<Rightarrow> (nat \<Rightarrow> nat list) \<Rightarrow> nat set \<Rightarrow> bool" where
  "chained s cs A \<longleftrightarrow> (\<forall>b < b_capacity s. chain (e_node s) 0 (b_bucket s b) (cs b) \<and> distinct (cs b)
     \<and> set (cs b) = {i \<in> A. unat (h_temp (e_node s i)) mod b_capacity s = b})"

definition hframe :: "'a hashset \<Rightarrow> 'a hashset \<Rightarrow> bool" where
  "hframe s s' \<longleftrightarrow> e_capacity s' = e_capacity s \<and> e_next s' = e_next s \<and> e_count s' = e_count s
     \<and> b_capacity s' = b_capacity s
     \<and> (\<forall>x. n_active (e_node s' x) = n_active (e_node s x) \<and> n_data (e_node s' x) = n_data (e_node s x)
          \<and> h_temp (e_node s' x) = h_temp (e_node s x))"

lemma hframe_refl [simp]: "hframe s s"
  and hframe_trans: "hframe s s' \<Longrightarrow> hframe s' s'' \<Longrightarrow> hframe s s''"
  by (simp_all add: hframe_def)

lemma b_upd_node [simp]:
  "b_capacity (upd_node i f s) = b_capacity (s :: 'a hashset)"
  "b_bucket (upd_node i f s) = b_bucket (s :: 'a hashset)"
  by (cases s; simp add: upd_node_def)+

lemma set_bucket_simps [simp]:
  "e_capacity (set_bucket b i s) = e_capacity s" "e_next (set_bucket b i s) = e_next s"
  "e_count (set_bucket b i s) = e_count s" "e_node (set_bucket b i s) = e_node s"
  "b_capacity (set_bucket b i s) = b_capacity s"
  "b_bucket (set_bucket b i s) = (b_bucket s)(b := i)"
  by (simp_all add: set_bucket_def)

lemma chain_cong:
  "(\<And>x. x \<in> set xs \<Longrightarrow> n_active (h' x) = n_active (h x) \<and> h_prev (h' x) = h_prev (h x)
      \<and> h_next (h' x) = h_next (h x)) \<Longrightarrow> chain h' p i xs = chain h p i xs"
  by (induction xs arbitrary: p i) auto

lemma chain_upd_other [simp]: "y \<notin> set xs \<Longrightarrow> chain (h(y := v)) p i xs = chain h p i xs"
  by (rule chain_cong) auto

lemma chain_active: "chain h p i xs \<Longrightarrow> x \<in> set xs \<Longrightarrow> n_active (h x) \<and> x \<noteq> 0"
  by (induction xs arbitrary: p i) auto

lemma chain_empty: "chain h p 0 xs \<longleftrightarrow> xs = []"
  by (cases xs) auto

text \<open>Linking a node at the head of its bucket.\<close>

lemma link_head_chained:
  fixes s :: "'a hashset"
  assumes ch: "chained s cs A" and e: "e \<notin> A" "e \<noteq> 0" "n_active (e_node s e)"
    and b: "b = unat (h_temp (e_node s e)) mod b_capacity s" "b < b_capacity s"
  shows "\<exists>s'. link_head e b s = Some s' \<and> chained s' (cs(b := e # cs b)) (insert e A) \<and> hframe s s'"
proof -
  have chb: "chain (e_node s) 0 (b_bucket s b) (cs b)" "distinct (cs b)"
    "set (cs b) = {i \<in> A. unat (h_temp (e_node s i)) mod b_capacity s = b}"
    using ch b(2) by (auto simp: chained_def)
  define n where "n = b_bucket s b"
  define h1 where "h1 = (e_node s)(e := (e_node s e)\<lparr>h_prev := 0, h_next := n\<rparr>)"
  define h where "h = (if n \<noteq> 0 then h1(n := (h1 n)\<lparr>h_prev := e\<rparr>) else h1)"
  define s' where "s' = (if n \<noteq> 0 then set_bucket b e (hset_prev n e (hset_next e n (hset_prev e 0 s)))
    else set_bucket b e (hset_next e n (hset_prev e 0 s)))"
  have n: "n = 0 \<and> cs b = [] \<or> n \<noteq> 0 \<and> n \<noteq> e \<and> n_active (e_node s n) \<and> h_prev (e_node s n) = 0
      \<and> (\<exists>xs. cs b = n # xs)"
    using chb e(1) by (cases "cs b") (auto simp: n_def)
  have run: "link_head e b s = Some s'"
    using n e by (auto simp: link_head_def s'_def n_def [symmetric] Let_def)
  have hs: "e_node s' = h" "b_bucket s' = (b_bucket s)(b := e)" "b_capacity s' = b_capacity s"
    by (auto simp: s'_def h_def h1_def)
  have temp: "h_temp (h x) = h_temp (e_node s x)" "n_active (h x) = n_active (e_node s x)"
    "n_data (h x) = n_data (e_node s x)" for x
    by (auto simp: h_def h1_def)
  have new: "chain h 0 e (e # cs b)"
  proof (cases "n = 0")
    case True
    with n e show ?thesis by (simp add: h_def h1_def)
  next
    case False
    then obtain xs where xs: "cs b = n # xs" using n by auto
    have "e \<notin> set xs" "n \<notin> set xs" using chb e(1) xs by auto
    then show ?thesis
      using False n e chb(1) xs by (auto simp: h_def h1_def)
  qed
  have "chain h 0 (b_bucket s c) (cs c)" if "c < b_capacity s" "c \<noteq> b" for c
  proof -
    have cc: "chain (e_node s) 0 (b_bucket s c) (cs c)"
      "set (cs c) = {i \<in> A. unat (h_temp (e_node s i)) mod b_capacity s = c}"
      using ch that by (auto simp: chained_def)
    have "n \<noteq> 0 \<Longrightarrow> n \<in> set (cs b)" using n by auto
    then have "e \<notin> set (cs c)" "n \<noteq> 0 \<Longrightarrow> n \<notin> set (cs c)"
      using chb(3) cc(2) e(1) that(2) by auto
    then show ?thesis using cc(1) by (auto simp: h_def h1_def)
  qed
  then have "chained s' (cs(b := e # cs b)) (insert e A)"
    unfolding chained_def hs using new chb e b ch
    by (auto simp: temp chained_def)
  moreover have "hframe s s'"
    unfolding hframe_def hs using temp by (auto simp: s'_def)
  ultimately show ?thesis using run by blast
qed

text \<open>Taking a node out of the middle of its list.\<close>

lemma chain_middle:
  assumes "chain h p k (xs @ i # ys)"
  shows "h_prev (h i) = (if xs = [] then p else last xs)" "chain h i (h_next (h i)) ys"
    "xs = [] \<Longrightarrow> k = i" "xs \<noteq> [] \<Longrightarrow> h_next (h (last xs)) = i" "xs \<noteq> [] \<Longrightarrow> k = hd xs"
  using assms
proof (induction xs arbitrary: p k)
  case (Cons x xs)
  { case 1 with Cons.IH(1) [of x "h_next (h x)"] show ?case by (auto split: if_splits) next
    case 2 with Cons.IH(2) [of x "h_next (h x)"] show ?case by auto next
    case 3 then show ?case by simp next
    case 4 with Cons.IH(3) [of "h_next (h x)" x] Cons.IH(4) [of x "h_next (h x)"] show ?case by auto next
    case 5 then show ?case by simp }
qed auto

lemma chain_remove:
  assumes "chain h p k (xs @ i # ys)" and "distinct (xs @ i # ys)"
    and "\<And>x. x \<in> set (xs @ ys) \<Longrightarrow> n_active (h' x) = n_active (h x)
      \<and> h_prev (h' x) = (if ys \<noteq> [] \<and> x = hd ys then h_prev (h i) else h_prev (h x))
      \<and> h_next (h' x) = (if xs \<noteq> [] \<and> x = last xs then h_next (h i) else h_next (h x))"
  shows "chain h' p (if xs = [] then h_next (h i) else k) (xs @ ys)"
  using assms
proof (induction xs arbitrary: p k)
  case Nil
  show ?case
  proof (cases ys)
    case (Cons y zs)
    have "chain h' y (h_next (h y)) zs = chain h y (h_next (h y)) zs"
      using Nil Cons by (intro chain_cong) auto
    with Nil Cons show ?thesis by auto
  qed (use Nil in auto)
next
  case (Cons x xs)
  have x: "x \<notin> set ys" "x \<notin> set xs" "k = x" "n_active (h x)" "h_prev (h x) = p" "x \<noteq> 0"
    "chain h x (h_next (h x)) (xs @ i # ys)"
    using Cons.prems by auto
  have x': "n_active (h' x)" "h_prev (h' x) = p" "h_next (h' x) = (if xs = [] then h_next (h i) else h_next (h x))"
    using Cons.prems(3) [of x] x by auto
  have "chain h' x (if xs = [] then h_next (h i) else h_next (h x)) (xs @ ys)"
    by (rule Cons.IH [OF x(7)]) (use Cons.prems(2,3) in \<open>auto split: if_splits\<close>)
  with x x' show ?case by simp
qed

lemma extract_chained:
  fixes s :: "'a hashset"
  assumes ch: "chained s cs A" and i: "i \<in> A" "1 \<le> i" "i < e_next s" "n_active (e_node s i)"
    and cap: "0 < b_capacity s"
  shows "\<exists>s' cs'. hash_extract i s = Some (s', n_data (e_node s i)) \<and> chained s' cs' (A - {i})
    \<and> hframe (hset_active i False (s\<lparr>e_count := e_count s - 1\<rparr>)) s'"
proof -
  let ?b = "unat (h_temp (e_node s i)) mod b_capacity s"
  have b: "?b < b_capacity s" using cap by simp
  have chb: "chain (e_node s) 0 (b_bucket s ?b) (cs ?b)" "distinct (cs ?b)"
    "set (cs ?b) = {j \<in> A. unat (h_temp (e_node s j)) mod b_capacity s = ?b}"
    using ch b by (auto simp: chained_def)
  then have "i \<in> set (cs ?b)" using i(1) by simp
  then obtain xs ys where xy: "cs ?b = xs @ i # ys" using split_list by metis
  note mid = chain_middle [OF chb(1) [unfolded xy]]
  let ?n = "h_next (e_node s i)" and ?p = "h_prev (e_node s i)"
  have dist: "i \<notin> set xs" "i \<notin> set ys" "distinct xs" "distinct ys" "set xs \<inter> set ys = {}"
    using chb(2) xy by auto
  have n: "?n = 0 \<and> ys = [] \<or> ?n \<noteq> 0 \<and> ys \<noteq> [] \<and> hd ys = ?n \<and> ?n \<in> set ys \<and> n_active (e_node s ?n)
      \<and> h_prev (e_node s ?n) = i"
    using mid(2) by (cases ys) auto
  have act: "n_active (e_node s x) \<and> x \<noteq> 0" if "x \<in> set xs" for x
    using chain_active [OF chb(1), of x] xy that by simp
  have p: "?p = 0 \<and> xs = [] \<and> b_bucket s ?b = i \<or> ?p \<noteq> 0 \<and> xs \<noteq> [] \<and> last xs = ?p \<and> ?p \<in> set xs
      \<and> n_active (e_node s ?p) \<and> h_next (e_node s ?p) = i \<and> b_bucket s ?b \<noteq> i \<and> b_bucket s ?b \<noteq> 0"
  proof (cases "xs = []")
    case False
    then have "last xs \<in> set xs" "hd xs \<in> set xs" by auto
    with mid(1,4,5) False act dist(1) show ?thesis by metis
  qed (use mid in auto)
  define s1 where "s1 = hset_active i False s"
  define s2 where "s2 = (if ?n \<noteq> 0 then hset_prev ?n ?p s1 else s1)"
  define s3 where "s3 = (if xs = [] then set_bucket ?b ?n s2 else hset_next ?p ?n s2)"
  define s' where "s' = s3\<lparr>e_count := e_count s - 1\<rparr>"
  have ni: "?n \<noteq> i" "?p \<noteq> i" "?n \<noteq> 0 \<Longrightarrow> ?p \<noteq> 0 \<Longrightarrow> ?n \<noteq> ?p"
    using n p dist i(2) by auto
  have run: "hash_extract i s = Some (s', n_data (e_node s i))"
    using i n p ni cap
    by (auto simp: hash_extract_def bucket_def s'_def s3_def s2_def s1_def Let_def)
  have f: "n_active (e_node s' x) = (x \<noteq> i \<and> n_active (e_node s x))" "n_data (e_node s' x) = n_data (e_node s x)"
    "h_temp (e_node s' x) = h_temp (e_node s x)"
    "h_prev (e_node s' x) = (if ?n \<noteq> 0 \<and> x = ?n then ?p else h_prev (e_node s x))"
    "h_next (e_node s' x) = (if xs \<noteq> [] \<and> x = ?p then ?n else h_next (e_node s x))" for x
    using ni by (auto simp: s'_def s3_def s2_def s1_def)
  have g: "b_bucket s' = (if xs = [] then (b_bucket s)(?b := ?n) else b_bucket s)" "b_capacity s' = b_capacity s"
    by (auto simp: s'_def s3_def s2_def s1_def)
  have new: "chain (e_node s') 0 (b_bucket s' ?b) (xs @ ys)"
  proof -
    have "chain (e_node s') 0 (if xs = [] then ?n else b_bucket s ?b) (xs @ ys)"
    proof (rule chain_remove [OF chb(1) [unfolded xy] chb(2) [unfolded xy]])
      fix x assume "x \<in> set (xs @ ys)"
      then have "x \<noteq> i" using dist by auto
      moreover have "(?n \<noteq> 0 \<and> x = ?n) = (ys \<noteq> [] \<and> x = hd ys)" using n by auto
      moreover have "(xs \<noteq> [] \<and> x = ?p) = (xs \<noteq> [] \<and> x = last xs)" using p by auto
      ultimately show "n_active (e_node s' x) = n_active (e_node s x)
          \<and> h_prev (e_node s' x) = (if ys \<noteq> [] \<and> x = hd ys then ?p else h_prev (e_node s x))
          \<and> h_next (e_node s' x) = (if xs \<noteq> [] \<and> x = last xs then ?n else h_next (e_node s x))"
        by (simp only: f simp_thms)
    qed
    then show ?thesis by (auto simp: g)
  qed
  have old: "chain (e_node s') 0 (b_bucket s' c) (cs c)" if "c < b_capacity s" "c \<noteq> ?b" for c
  proof -
    have cc: "chain (e_node s) 0 (b_bucket s c) (cs c)"
      "set (cs c) = {j \<in> A. unat (h_temp (e_node s j)) mod b_capacity s = c}"
      using ch that by (auto simp: chained_def)
    have "x \<notin> set (cs ?b)" if "x \<in> set (cs c)" for x
      using that cc(2) chb(3) \<open>c \<noteq> ?b\<close> by auto
    then have "x \<noteq> i \<and> x \<noteq> ?n \<and> x \<noteq> ?p" if "x \<in> set (cs c)" for x
      using that n p xy chain_active [OF cc(1) that] by (metis Un_iff in_set_conv_decomp set_append list.set_intros)
    then have "chain (e_node s') 0 (b_bucket s c) (cs c)"
      using cc(1) by (subst chain_cong [of _ _ "e_node s"]) (auto simp: f)
    then show ?thesis using that(2) by (auto simp: g)
  qed
  have "chained s' (cs(?b := xs @ ys)) (A - {i})"
    unfolding chained_def g(2) f(3)
  proof (intro allI impI)
    fix c assume c: "c < b_capacity s"
    have "set (cs c) = {j \<in> A. unat (h_temp (e_node s j)) mod b_capacity s = c}" "distinct (cs c)"
      using ch c by (auto simp: chained_def)
    then show "chain (e_node s') 0 (b_bucket s' c) ((cs(?b := xs @ ys)) c) \<and> distinct ((cs(?b := xs @ ys)) c)
        \<and> set ((cs(?b := xs @ ys)) c) = {j \<in> A - {i}. unat (h_temp (e_node s j)) mod b_capacity s = c}"
      using new old [OF c] xy dist by (cases "c = ?b") auto
  qed
  moreover have "hframe (hset_active i False (s\<lparr>e_count := e_count s - 1\<rparr>)) s'"
    unfolding hframe_def by (auto simp: f g) (auto simp: s'_def s3_def s2_def s1_def)
  ultimately show ?thesis using run by blast
qed

section \<open>Searching\<close>

lemma find_in_chain:
  assumes "chain (e_node s) p i xs" and "\<And>x. x \<in> set xs \<Longrightarrow> x < e_next s" and "e_count s < e_next s"
  shows "find_in eq s v i =
    Some (case find (\<lambda>i. eq (n_data (e_node s i)) v) xs of None \<Rightarrow> e_next s | Some j \<Rightarrow> j)"
  using assms
proof (induction xs arbitrary: p i)
  case Nil
  then show ?case by (simp add: find_in.simps)
next
  case (Cons x xs)
  then show ?case by (subst find_in.simps) auto
qed

end
