(* ===== verification/HashSpec.thy ===== *)
theory HashSpec
  imports HashShape "HOL-Library.Multiset"
begin

text \<open>
  What a \<open>HashSet\<close> promises.  \<open>hash_repr eq hash s M\<close>: the array \<open>s\<close> is well formed, its bucket
  lists hold exactly the slots in use, and the values there are the multiset \<open>M\<close>, no two of
  them equal.  The order of the slots is not part of the contract: \<open>reorder\<close> changes it.
\<close>

definition used :: "(('a, 'm) node_scheme, 'z) elements_scheme \<Rightarrow> nat set" where
  "used s = {i. 1 \<le> i \<and> i < e_next s \<and> n_active (e_node s i)}"

definition hash_slots :: "('a \<Rightarrow> 'a \<Rightarrow> bool) \<Rightarrow> ('a \<Rightarrow> u32) \<Rightarrow> 'a hashset \<Rightarrow> bool" where
  "hash_slots eq hash s \<longleftrightarrow> elements_ok s
     \<and> (\<forall>i\<in>used s. h_temp (e_node s i) = hash (n_data (e_node s i)))
     \<and> (\<forall>i\<in>used s. \<forall>j\<in>used s. i \<noteq> j \<longrightarrow> \<not> eq (n_data (e_node s i)) (n_data (e_node s j)))"

definition hash_ok :: "('a \<Rightarrow> 'a \<Rightarrow> bool) \<Rightarrow> ('a \<Rightarrow> u32) \<Rightarrow> 'a hashset \<Rightarrow> bool" where
  "hash_ok eq hash s \<longleftrightarrow> hash_slots eq hash s \<and> (0 < e_capacity s \<longrightarrow> 0 < b_capacity s)
     \<and> (\<exists>cs. chained s cs (used s))"

definition hvalues :: "(('a, 'm) node_scheme, 'z) elements_scheme \<Rightarrow> 'a multiset" where
  "hvalues s = image_mset (\<lambda>i. n_data (e_node s i)) (mset_set (used s))"

definition hash_repr :: "('a \<Rightarrow> 'a \<Rightarrow> bool) \<Rightarrow> ('a \<Rightarrow> u32) \<Rightarrow> 'a hashset \<Rightarrow> 'a multiset \<Rightarrow> bool" where
  "hash_repr eq hash s M \<longleftrightarrow> hash_ok eq hash s \<and> hvalues s = M"

text \<open>
  The load factors for which the bucket array is never empty, and the states in which
  \<open>increase\<close> makes room for one more value: there is memory, and the slots are not all used up
  by values that have been erased since (\<open>reorganize\<close> does nothing for an empty set).
\<close>

definition valid_load :: "nat \<Rightarrow> bool" where
  "valid_load L \<longleftrightarrow> 7 \<le> L \<and> L \<le> UINT32_MAX"

definition hash_can_grow :: "(nat \<Rightarrow> bool) \<Rightarrow> 'a hashset \<Rightarrow> bool" where
  "hash_can_grow alloc s \<longleftrightarrow> alloc (if e_capacity s = 0 then 16 else e_capacity s * 2)
     \<and> e_capacity s * 2 \<le> UINT32_MAX
     \<and> (0 < e_capacity s \<longrightarrow> e_capacity s \<le> e_next s \<longrightarrow> 0 < e_count s)"

section \<open>Slots in use\<close>

lemma finite_used [simp]: "finite (used s)"
  by (simp add: used_def)

lemma mset_slot_values: "mset (slot_values (e_node s) 1 (e_next s)) = hvalues s"
proof -
  have "mset (filter (\<lambda>i. n_active (e_node s i)) [1..<e_next s]) = mset_set (used s)"
    by (subst mset_set_set [symmetric])
      (auto simp: used_def intro!: arg_cong [of _ _ mset_set])
  then show ?thesis by (simp add: slot_values_def hvalues_def)
qed

lemma card_used: "length (slot_values (e_node s) 1 (e_next s)) = card (used s)"
  using arg_cong [OF mset_slot_values [of s], of size] by (simp add: hvalues_def)

lemma elements_okD:
  assumes "elements_ok s"
  shows "1 \<le> e_next s" "e_count s = card (used s)" "e_capacity s \<le> UINT32_MAX" "e_count s < e_next s"
    "e_capacity s = 0 \<and> e_next s = 1 \<or> 16 \<le> e_capacity s \<and> e_next s \<le> e_capacity s \<and> \<not> n_active (e_node s 0)"
proof -
  show 1: "1 \<le> e_next s" "e_count s = card (used s)" "e_capacity s \<le> UINT32_MAX"
    "e_capacity s = 0 \<and> e_next s = 1 \<or> 16 \<le> e_capacity s \<and> e_next s \<le> e_capacity s \<and> \<not> n_active (e_node s 0)"
    using assms by (simp_all add: elements_ok_def card_used [simplified])
  have "used s \<subseteq> {1..<e_next s}" by (auto simp: used_def)
  then have "card (used s) \<le> e_next s - 1" using card_mono [of "{1..<e_next s}" "used s"] by simp
  with 1 show "e_count s < e_next s" by linarith
qed

lemma elements_okI:
  "1 \<le> e_next s \<Longrightarrow> e_count s = card (used s) \<Longrightarrow> e_capacity s \<le> UINT32_MAX \<Longrightarrow>
    e_capacity s = 0 \<and> e_next s = 1 \<or> 16 \<le> e_capacity s \<and> e_next s \<le> e_capacity s \<and> \<not> n_active (e_node s 0) \<Longrightarrow>
    elements_ok s"
  by (simp add: elements_ok_def card_used [simplified])

lemma values_member: "x \<in># hvalues s \<longleftrightarrow> (\<exists>i\<in>used s. n_data (e_node s i) = x)"
  by (auto simp: hvalues_def)

lemma buckets_pos:
  assumes "valid_load L" and "16 \<le> n" and "n \<le> UINT32_MAX"
  shows "0 < buckets L n"
proof -
  have "n * L \<le> UINT32_MAX * UINT32_MAX"
    using assms by (intro mult_le_mono) (auto simp: valid_load_def)
  then have "n * L < 2 ^ 64" by (simp add: UINT32_MAX_def)
  moreover have "16 * 7 \<le> n * L"
    using assms by (intro mult_le_mono) (auto simp: valid_load_def)
  then have "0 < n * L div 100" by simp
  ultimately show ?thesis by (simp add: buckets_def Let_def UINT32_MAX_def)
qed

section \<open>Rebuilding the buckets\<close>

lemma bucketize_loop_chained:
  fixes s :: "'a hashset"
  assumes "chained s cs {x. 1 \<le> x \<and> x < i \<and> n_active (e_node s x)}"
    and "c = card {x. 1 \<le> x \<and> x < i \<and> n_active (e_node s x)}" and "c < e_count s"
    and "1 \<le> i" and "i + todo = e_capacity s" and "0 < b_capacity s"
    and "elements_ok s"
    and "\<And>x. x \<in> used s \<Longrightarrow> (i \<le> x \<longrightarrow> \<not> rehash) \<Longrightarrow> h_temp (e_node s x) = hash (n_data (e_node s x))"
  shows "\<exists>s' cs'. bucketize_loop hash rehash todo i c s = Some s' \<and> chained s' cs' (used s')
    \<and> e_capacity s' = e_capacity s \<and> e_next s' = e_next s \<and> e_count s' = e_count s
    \<and> b_capacity s' = b_capacity s
    \<and> (\<forall>x. n_active (e_node s' x) = n_active (e_node s x) \<and> n_data (e_node s' x) = n_data (e_node s x))
    \<and> (\<forall>x\<in>used s. h_temp (e_node s' x) = hash (n_data (e_node s x)))"
  using assms
proof (induction todo arbitrary: i c s cs)
  case 0
  have "e_next s \<le> i" using elements_okD(5) [OF 0(7)] 0(4,5) by auto
  then have "used s \<subseteq> {x. 1 \<le> x \<and> x < i \<and> n_active (e_node s x)}" by (auto simp: used_def)
  then have "card (used s) \<le> c" unfolding 0(2) by (intro card_mono) auto
  then show ?case using 0(3) elements_okD(2) [OF 0(7)] by simp
next
  case (Suc todo)
  let ?A = "{x. 1 \<le> x \<and> x < i \<and> n_active (e_node s x)}"
  have split: "{x. 1 \<le> x \<and> x < i + 1 \<and> n_active (h x)} =
      (if n_active (h i) then insert i {x. 1 \<le> x \<and> x < i \<and> n_active (h x)} else {x. 1 \<le> x \<and> x < i \<and> n_active (h x)})"
    for h :: "nat \<Rightarrow> 'a hash_node"
    using Suc.prems(4) by (auto simp: less_Suc_eq)
  have iA: "i \<notin> ?A" "finite ?A" by auto
  show ?case
  proof (cases "n_active (e_node s i)")
    case False
    have "\<exists>s' cs'. bucketize_loop hash rehash todo (i + 1) c s = Some s' \<and> chained s' cs' (used s')
      \<and> e_capacity s' = e_capacity s \<and> e_next s' = e_next s \<and> e_count s' = e_count s
      \<and> b_capacity s' = b_capacity s
      \<and> (\<forall>x. n_active (e_node s' x) = n_active (e_node s x) \<and> n_data (e_node s' x) = n_data (e_node s x))
      \<and> (\<forall>x\<in>used s. h_temp (e_node s' x) = hash (n_data (e_node s x)))"
    proof (rule Suc.IH)
      show "chained s cs {x. 1 \<le> x \<and> x < i + 1 \<and> n_active (e_node s x)}"
        "c = card {x. 1 \<le> x \<and> x < i + 1 \<and> n_active (e_node s x)}"
        unfolding split using Suc.prems(1,2) False by simp_all
      show "h_temp (e_node s x) = hash (n_data (e_node s x))" if "x \<in> used s" "i + 1 \<le> x \<longrightarrow> \<not> rehash" for x
      proof (rule Suc.prems(8) [OF that(1)])
        have "x \<noteq> i" using that(1) False by (auto simp: used_def)
        with that(2) show "i \<le> x \<longrightarrow> \<not> rehash" by auto
      qed
    qed (use Suc.prems in auto)
    with False show ?thesis by simp
  next
    case True
    have iu: "i \<in> used s"
    proof (rule ccontr)
      assume "i \<notin> used s"
      then have "used s \<subseteq> ?A" using True Suc.prems(4) by (auto simp: used_def)
      then have "card (used s) \<le> c" unfolding Suc.prems(2) by (intro card_mono) auto
      then show False using Suc.prems(3) elements_okD(2) [OF Suc.prems(7)] by simp
    qed
    let ?s1 = "if rehash then hset_temp i (hash (n_data (e_node s i))) s else s"
    let ?b = "unat (h_temp (e_node ?s1 i)) mod b_capacity s"
    have t1: "h_temp (e_node ?s1 x) = (if rehash \<and> x = i then hash (n_data (e_node s i)) else h_temp (e_node s x))"
      "n_active (e_node ?s1 x) = n_active (e_node s x)" "n_data (e_node ?s1 x) = n_data (e_node s x)"
      "h_prev (e_node ?s1 x) = h_prev (e_node s x)" "h_next (e_node ?s1 x) = h_next (e_node s x)" for x
      by auto
    have f1: "e_capacity ?s1 = e_capacity s" "e_next ?s1 = e_next s" "e_count ?s1 = e_count s"
      "b_capacity ?s1 = b_capacity s" "b_bucket ?s1 = b_bucket s" by auto
    have chs1: "chained ?s1 cs ?A"
      unfolding chained_def f1
    proof (intro allI impI)
      fix b assume b: "b < b_capacity s"
      have old: "chain (e_node s) 0 (b_bucket s b) (cs b)" "distinct (cs b)"
        "set (cs b) = {x \<in> ?A. unat (h_temp (e_node s x)) mod b_capacity s = b}"
        using Suc.prems(1) b by (auto simp: chained_def)
      have "chain (e_node ?s1) 0 (b_bucket s b) (cs b)"
        using old(1) by (subst chain_cong [of _ _ "e_node s"]) (simp_all only: t1 simp_thms)
      moreover have "set (cs b) = {x \<in> ?A. unat (h_temp (e_node ?s1 x)) mod b_capacity s = b}"
        unfolding old(3) t1 by auto
      ultimately show "chain (e_node ?s1) 0 (b_bucket s b) (cs b) \<and> distinct (cs b)
        \<and> set (cs b) = {x \<in> ?A. unat (h_temp (e_node ?s1 x)) mod b_capacity s = b}"
        using old(2) by blast
    qed
    have "i \<noteq> 0" "n_active (e_node ?s1 i)" "?b < b_capacity ?s1"
      using Suc.prems(4,6) True by (auto simp only: t1 f1 mod_less_divisor)
    with link_head_chained [OF chs1 iA(1), of ?b] obtain s2 where link: "link_head i ?b ?s1 = Some s2"
      and ch2: "chained s2 (cs(?b := i # cs ?b)) (insert i ?A)" and fr: "hframe ?s1 s2"
      by (auto simp only: f1 simp_thms)
    have same: "e_capacity s2 = e_capacity s" "e_next s2 = e_next s" "e_count s2 = e_count s"
      "b_capacity s2 = b_capacity s"
      "n_active (e_node s2 x) = n_active (e_node s x)" "n_data (e_node s2 x) = n_data (e_node s x)"
      "h_temp (e_node s2 x) = h_temp (e_node ?s1 x)" for x
      using fr by (auto simp: hframe_def)
    have used2: "used s2 = used s" by (simp add: used_def same)
    have hashed: "h_temp (e_node s2 x) = hash (n_data (e_node s x))"
      if "x \<in> used s" "i + 1 \<le> x \<longrightarrow> \<not> rehash" for x
    proof (cases "rehash \<and> x = i")
      case False
      then have "h_temp (e_node s x) = hash (n_data (e_node s x))"
        using that(2) by (intro Suc.prems(8) [OF that(1)]) auto
      with False show ?thesis by (simp only: same(7) t1(1) if_False)
    qed (auto simp: same(7))
    have run: "bucketize_loop hash rehash (Suc todo) i c s =
        (if c + 1 \<ge> e_count s then Some s2 else bucketize_loop hash rehash todo (i + 1) (c + 1) s2)"
      using True link same(3) Suc.prems(6) by (simp add: bucket_def Let_def f1 del: upd_node_simps(4))
    have card: "c + 1 = card {x. 1 \<le> x \<and> x < i + 1 \<and> n_active (e_node s2 x)}"
      unfolding split same using True Suc.prems(2) iA by simp
    have ch3: "chained s2 (cs(?b := i # cs ?b)) {x. 1 \<le> x \<and> x < i + 1 \<and> n_active (e_node s2 x)}"
      unfolding split same using True ch2 by simp
    show ?thesis
    proof (cases "c + 1 \<ge> e_count s")
      case True
      have sub: "{x. 1 \<le> x \<and> x < i + 1 \<and> n_active (e_node s2 x)} \<subseteq> used s"
        using iu by (auto simp: used_def same)
      have "card {x. 1 \<le> x \<and> x < i + 1 \<and> n_active (e_node s2 x)} = card (used s)"
        using True card Suc.prems(3) elements_okD(2) [OF Suc.prems(7)] by simp
      then have all: "{x. 1 \<le> x \<and> x < i + 1 \<and> n_active (e_node s2 x)} = used s"
        using sub by (intro card_subset_eq) auto
      have "\<forall>x\<in>used s. h_temp (e_node s2 x) = hash (n_data (e_node s x))"
      proof
        fix x assume x: "x \<in> used s"
        then have "x < i + 1" using all by blast
        with hashed [OF x] show "h_temp (e_node s2 x) = hash (n_data (e_node s x))" by simp
      qed
      moreover have "chained s2 (cs(?b := i # cs ?b)) (used s2)"
        using ch3 unfolding all used2 .
      ultimately show ?thesis
        using run True same(1-6) by (intro exI [of _ s2] exI [of _ "cs(?b := i # cs ?b)"]) (simp only: if_True simp_thms)
    next
      case False
      have "\<exists>s' cs'. bucketize_loop hash rehash todo (i + 1) (c + 1) s2 = Some s' \<and> chained s' cs' (used s')
        \<and> e_capacity s' = e_capacity s2 \<and> e_next s' = e_next s2 \<and> e_count s' = e_count s2
        \<and> b_capacity s' = b_capacity s2
        \<and> (\<forall>x. n_active (e_node s' x) = n_active (e_node s2 x) \<and> n_data (e_node s' x) = n_data (e_node s2 x))
        \<and> (\<forall>x\<in>used s2. h_temp (e_node s' x) = hash (n_data (e_node s2 x)))"
      proof (rule Suc.IH [OF ch3 card])
        show "elements_ok s2"
          using elements_okD [OF Suc.prems(7)] by (intro elements_okI) (simp_all only: same used2)
        show "h_temp (e_node s2 x) = hash (n_data (e_node s2 x))"
          if "x \<in> used s2" "i + 1 \<le> x \<longrightarrow> \<not> rehash" for x
          using hashed [of x] that by (simp only: used2 same)
      qed (use Suc.prems False same in auto)
      then show ?thesis using run False by (simp only: same used2 if_False)
    qed
  qed
qed

lemma bucketize_ok:
  fixes s :: "'a hashset"
  assumes el: "elements_ok s" and cap: "0 < b_capacity s"
    and temps: "\<not> rehash \<Longrightarrow> \<forall>i\<in>used s. h_temp (e_node s i) = hash (n_data (e_node s i))"
    and uniq: "\<forall>i\<in>used s. \<forall>j\<in>used s. i \<noteq> j \<longrightarrow> \<not> eq (n_data (e_node s i)) (n_data (e_node s j))"
  shows "\<exists>s'. bucketize hash rehash s = Some s' \<and> hash_ok eq hash s' \<and> hvalues s' = hvalues s
    \<and> e_capacity s' = e_capacity s \<and> e_next s' = e_next s \<and> e_count s' = e_count s
    \<and> b_capacity s' = b_capacity s \<and> used s' = used s"
proof -
  define s0 where "s0 = s\<lparr>b_bucket := (\<lambda>b. if b < b_capacity s then 0 else b_bucket s b)\<rparr>"
  have same0: "e_capacity s0 = e_capacity s" "e_next s0 = e_next s" "e_count s0 = e_count s"
    "b_capacity s0 = b_capacity s" "e_node s0 = e_node s" "used s0 = used s"
    by (simp_all add: s0_def used_def)
  have ch0: "chained s0 (\<lambda>_. []) {x. 1 \<le> x \<and> x < 1 \<and> n_active (e_node s0 x)}"
    by (auto simp: chained_def s0_def)
  have el0: "elements_ok s0"
    using elements_okD [OF el] by (intro elements_okI) (simp_all only: same0)
  show ?thesis
  proof (cases "0 < e_count s")
    case False
    then have "used s = {}" using elements_okD(2) [OF el] by simp
    moreover have "{x. 1 \<le> x \<and> x < 1 \<and> n_active (e_node s0 x)} = {}" by auto
    ultimately have "chained s0 (\<lambda>_. []) (used s0)" using ch0 by (simp only: same0)
    then have "hash_ok eq hash s0"
      unfolding hash_ok_def hash_slots_def using el0 cap \<open>used s = {}\<close>
      by (intro conjI exI [of _ "\<lambda>_. []"]) (simp_all add: same0)
    moreover have "hvalues s0 = hvalues s" by (simp add: hvalues_def same0)
    ultimately have "hash_ok eq hash s0" "hvalues s0 = hvalues s" by simp_all
    with False same0 show ?thesis by (auto simp: bucketize_def s0_def [symmetric] Let_def)
  next
    case True
    have "1 + (e_capacity s0 - 1) = e_capacity s0"
      using True elements_okD(4,5) [OF el] same0 by auto
    then obtain s' cs' where run: "bucketize_loop hash rehash (e_capacity s - 1) 1 0 s0 = Some s'"
      and ch: "chained s' cs' (used s')" and same: "e_capacity s' = e_capacity s" "e_next s' = e_next s"
        "e_count s' = e_count s" "b_capacity s' = b_capacity s"
        "\<And>x. n_active (e_node s' x) = n_active (e_node s x)" "\<And>x. n_data (e_node s' x) = n_data (e_node s x)"
      and temp: "\<forall>x\<in>used s. h_temp (e_node s' x) = hash (n_data (e_node s x))"
      using bucketize_loop_chained [OF ch0, of 0 "e_capacity s - 1" rehash hash] True cap el0 temps
      unfolding same0 by (auto simp: used_def)
    have u: "used s' = used s" by (simp add: used_def same)
    have "elements_ok s'"
      using elements_okD [OF el] by (intro elements_okI) (simp_all only: same u)
    then have "hash_ok eq hash s'"
      using ch temp uniq cap by (auto simp: hash_ok_def hash_slots_def u same)
    moreover have "hvalues s' = hvalues s" by (simp add: hvalues_def u same)
    ultimately show ?thesis
      using run True same u
      by (intro exI [of _ s']) (simp add: bucketize_def s0_def [symmetric] Let_def same0)
  qed
qed

section \<open>Moving values to other slots\<close>

definition hreordering :: "('a \<Rightarrow> 'a \<Rightarrow> bool) \<Rightarrow> ('a \<Rightarrow> u32) \<Rightarrow> 'a hashset \<Rightarrow> nat \<Rightarrow> nat \<Rightarrow> bool" where
  "hreordering eq hash s i j \<longleftrightarrow>
     (let U = {x. 1 \<le> x \<and> x \<le> j \<and> n_active (e_node s x)} in
      card U = e_count s \<and> (\<forall>x. 1 \<le> x \<longrightarrow> x < i \<longrightarrow> n_active (e_node s x)) \<and> 1 \<le> i
      \<and> (\<forall>x\<in>U. h_temp (e_node s x) = hash (n_data (e_node s x)))
      \<and> (\<forall>x\<in>U. \<forall>y\<in>U. x \<noteq> y \<longrightarrow> \<not> eq (n_data (e_node s x)) (n_data (e_node s y))))"

definition upto_values :: "'a hashset \<Rightarrow> nat \<Rightarrow> 'a multiset" where
  "upto_values s j =
     image_mset (\<lambda>i. n_data (e_node s i)) (mset_set {x. 1 \<le> x \<and> x \<le> j \<and> n_active (e_node s x)})"

lemma card_swap: "finite U \<Longrightarrow> j \<in> U \<Longrightarrow> i \<notin> U \<Longrightarrow> card (insert i (U - {j})) = card U"
  using card_Suc_Diff1 [of U j] by simp

lemma values_swap:
  assumes U: "finite U" "j \<in> U" "i \<notin> U" and f: "f' i = f j" "\<And>x. x \<in> U \<Longrightarrow> f' x = f x"
  shows "image_mset f' (mset_set (insert i (U - {j}))) = image_mset f (mset_set U)"
proof -
  have "image_mset f' (mset_set (insert i (U - {j}))) = add_mset (f j) (image_mset f' (mset_set (U - {j})))"
    using U f(1) by simp
  also have "image_mset f' (mset_set (U - {j})) = image_mset f (mset_set (U - {j}))"
    using U f(2) by (intro image_mset_cong) auto
  finally show ?thesis using mset_set.remove [OF U(1,2)] by simp
qed

lemma hreordering_step:
  fixes s :: "'a hashset"
  assumes inv: "hreordering eq hash s i j" and i: "i \<le> e_count s" and gap: "\<not> n_active (e_node s i)"
  shows "\<exists>j'. skip_unused (e_node s) i j = Some j' \<and> i < j'
    \<and> hreordering eq hash (hset_active j' False (hset_active i True (hset_temp i (h_temp (e_node s j'))
        (hset_data i (n_data (e_node s j')) s)))) (i + 1) (j' - 1)
    \<and> upto_values (hset_active j' False (hset_active i True (hset_temp i (h_temp (e_node s j'))
        (hset_data i (n_data (e_node s j')) s)))) (j' - 1) = upto_values s j"
proof -
  let ?U = "{x. 1 \<le> x \<and> x \<le> j \<and> n_active (e_node s x)}"
  have card: "card ?U = e_count s" and low: "\<And>x. 1 \<le> x \<Longrightarrow> x < i \<Longrightarrow> n_active (e_node s x)" and i1: "1 \<le> i"
    and temps: "\<And>x. x \<in> ?U \<Longrightarrow> h_temp (e_node s x) = hash (n_data (e_node s x))"
    and uniq: "\<And>x y. x \<in> ?U \<Longrightarrow> y \<in> ?U \<Longrightarrow> x \<noteq> y \<Longrightarrow> \<not> eq (n_data (e_node s x)) (n_data (e_node s y))"
    using inv by (auto simp: hreordering_def Let_def)
  have "\<exists>x\<in>?U. i < x"
  proof (rule ccontr)
    assume "\<not> ?thesis"
    then have "?U \<subseteq> {1..<i}" using gap by (force simp: not_less le_less)
    then have "card ?U \<le> i - 1" using card_mono [of "{1..<i}" ?U] by simp
    then show False using card i i1 by simp
  qed
  then obtain j' where sk: "skip_unused (e_node s) i j = Some j'" and j': "i < j'" "j' \<le> j" "n_active (e_node s j')"
    and top: "\<And>y. j' < y \<Longrightarrow> y \<le> j \<Longrightarrow> \<not> n_active (e_node s y)"
    using skip_unused_finds [of i _ j "e_node s"] by blast
  let ?s = "hset_active j' False (hset_active i True (hset_temp i (h_temp (e_node s j'))
        (hset_data i (n_data (e_node s j')) s)))"
  have f: "n_active (e_node ?s x) = (x \<noteq> j' \<and> (x = i \<or> n_active (e_node s x)))"
    "n_data (e_node ?s x) = (if x = i then n_data (e_node s j') else n_data (e_node s x))"
    "h_temp (e_node ?s x) = (if x = i then h_temp (e_node s j') else h_temp (e_node s x))" for x
    using j'(1) by auto
  have c: "e_count ?s = e_count s" by simp
  have jU: "j' \<in> ?U" and iU: "i \<notin> ?U" using j' gap i1 by auto
  have "x \<in> {x. 1 \<le> x \<and> x \<le> j' - 1 \<and> n_active (e_node ?s x)} \<longleftrightarrow> x \<in> insert i (?U - {j'})" for x
    unfolding f mem_Collect_eq using j' top [of x] i1 by (cases "x = i"; cases "j' < x") auto
  then have U': "{x. 1 \<le> x \<and> x \<le> j' - 1 \<and> n_active (e_node ?s x)} = insert i (?U - {j'})" by blast
  have fin: "finite ?U" by simp
  have "card (insert i (?U - {j'})) = card ?U"
    by (rule card_swap [OF fin jU iU])
  with card have card': "card (insert i (?U - {j'})) = e_count s" by simp
  have low': "n_active (e_node ?s x)" if "1 \<le> x" "x < i + 1" for x
    unfolding f using low [of x] that j'(1) by (cases "x = i") auto
  have temps': "h_temp (e_node ?s x) = hash (n_data (e_node ?s x))" if "x \<in> insert i (?U - {j'})" for x
    unfolding f using temps [of x] temps [OF jU] that by (cases "x = i") auto
  have uniq': "\<not> eq (n_data (e_node ?s x)) (n_data (e_node ?s y))"
    if "x \<in> insert i (?U - {j'})" "y \<in> insert i (?U - {j'})" "x \<noteq> y" for x y
    unfolding f using that uniq [of x y] uniq [of x j'] uniq [of j' y] jU
    by (cases "x = i"; cases "y = i") auto
  have "1 \<le> i + 1" by simp
  then have "hreordering eq hash ?s (i + 1) (j' - 1)"
    unfolding hreordering_def Let_def U' c using card' low' temps' uniq' by blast
  moreover have "upto_values ?s (j' - 1) = upto_values s j"
    unfolding upto_values_def U'
  proof (rule values_swap [OF fin jU iU])
    show "n_data (e_node ?s i) = n_data (e_node s j')" by (simp only: f if_True simp_thms)
    show "n_data (e_node ?s x) = n_data (e_node s x)" if "x \<in> ?U" for x
    proof -
      have "x \<noteq> i" using that iU by blast
      then show ?thesis by (simp only: f if_False)
    qed
  qed
  ultimately show ?thesis using sk j'(1) by blast
qed

lemma hash_reorder_loop_inv:
  fixes s :: "'a hashset"
  assumes "hreordering eq hash s i j" and "i + todo = e_count s + 1"
  shows "\<exists>s' j'. hash_reorder_loop todo i j s = Some s' \<and> hreordering eq hash s' (e_count s + 1) j'
    \<and> upto_values s' j' = upto_values s j \<and> e_capacity s' = e_capacity s \<and> e_next s' = e_next s
    \<and> e_count s' = e_count s \<and> b_capacity s' = b_capacity s \<and> n_active (e_node s' 0) = n_active (e_node s 0)"
  using assms
proof (induction todo i j s rule: hash_reorder_loop.induct)
  case (1 i j s)
  then show ?case by auto
next
  case (2 todo i j s)
  show ?case
  proof (cases "n_active (e_node s i)")
    case True
    then have "hreordering eq hash s (i + 1) j"
      using 2(3) by (auto simp: hreordering_def Let_def less_Suc_eq)
    with 2(1) [OF True this] 2(4) True show ?thesis by simp
  next
    case False
    have i1: "1 \<le> i" using 2(3) by (simp add: hreordering_def Let_def)
    from hreordering_step [OF 2(3) _ False] 2(4) obtain j' where sk: "skip_unused (e_node s) i j = Some j'" and ij: "i < j'"
      and step: "hreordering eq hash (hset_active j' False (hset_active i True (hset_temp i (h_temp (e_node s j'))
        (hset_data i (n_data (e_node s j')) s)))) (i + 1) (j' - 1)
      \<and> upto_values (hset_active j' False (hset_active i True (hset_temp i (h_temp (e_node s j'))
        (hset_data i (n_data (e_node s j')) s)))) (j' - 1) = upto_values s j"
      by auto
    let ?s = "hset_active j' False (hset_active i True (hset_temp i (h_temp (e_node s j'))
        (hset_data i (n_data (e_node s j')) s)))"
    note inv = step [THEN conjunct1] and vals = step [THEN conjunct2]
    have j0: "j' \<noteq> 0" using ij by simp
    have t: "h_temp (e_node (hset_data i (n_data (e_node s j')) s) j') = h_temp (e_node s j')" by simp
    have "\<exists>s' j''. hash_reorder_loop todo (i + 1) (j' - 1) ?s = Some s' \<and> hreordering eq hash s' (e_count s + 1) j''
        \<and> upto_values s' j'' = upto_values s j \<and> e_capacity s' = e_capacity s \<and> e_next s' = e_next s
        \<and> e_count s' = e_count s \<and> b_capacity s' = b_capacity s
        \<and> n_active (e_node s' 0) = n_active (e_node s 0)"
      using 2(2) [OF False sk refl refl refl refl] inv vals 2(4) i1 j0 t by simp
    then show ?thesis using False sk t by (simp add: Let_def)
  qed
qed

lemma hash_reorder_ok:
  fixes s :: "'a hashset"
  assumes ok: "hash_slots eq hash s"
  shows "\<exists>s' b. hash_reorder s = Some (s', b) \<and> hash_slots eq hash s' \<and> hvalues s' = hvalues s
    \<and> e_capacity s' = e_capacity s \<and> e_count s' = e_count s \<and> b_capacity s' = b_capacity s
    \<and> e_next s' = e_count s + 1 \<and> (\<not> b \<longrightarrow> s' = s)"
proof (cases "e_count s + 1 < e_next s")
  case False
  then have "e_next s = e_count s + 1"
    using elements_okD(4) [of s] ok by (simp add: hash_slots_def)
  with ok False show ?thesis by (intro exI [of _ s] exI [of _ False]) (simp add: hash_reorder_def)
next
  case True
  have el: "elements_ok s" using ok by (simp add: hash_slots_def)
  have U: "{x. 1 \<le> x \<and> x \<le> e_next s - 1 \<and> n_active (e_node s x)} = used s"
    using True by (auto simp: used_def)
  have "hreordering eq hash s 1 (e_next s - 1)"
    unfolding hreordering_def U Let_def using ok elements_okD(2) [OF el] by (auto simp: hash_slots_def)
  moreover have "upto_values s (e_next s - 1) = hvalues s"
    by (simp add: upto_values_def U [simplified] hvalues_def)
  ultimately obtain s1 j where loop: "hash_reorder_loop (e_count s) 1 (e_next s - 1) s = Some s1"
    and inv: "hreordering eq hash s1 (e_count s + 1) j" and vals: "upto_values s1 j = hvalues s"
    and same: "e_capacity s1 = e_capacity s" "e_next s1 = e_next s" "e_count s1 = e_count s"
      "b_capacity s1 = b_capacity s" "n_active (e_node s1 0) = n_active (e_node s 0)"
    using hash_reorder_loop_inv [of eq hash s 1 "e_next s - 1" "e_count s"] by auto
  let ?U = "{x. 1 \<le> x \<and> x \<le> j \<and> n_active (e_node s1 x)}"
  have card: "card ?U = e_count s" and low: "\<And>x. 1 \<le> x \<Longrightarrow> x < e_count s + 1 \<Longrightarrow> n_active (e_node s1 x)"
    using inv same by (auto simp: hreordering_def Let_def)
  let ?s = "s1\<lparr>e_next := e_count s1 + 1\<rparr>"
  have used': "used ?s = {1..e_count s}" using low same by (auto simp: used_def)
  have "?U = {1..e_count s}"
  proof (cases "e_count s \<le> j")
    case True
    then have "{1..e_count s} \<subseteq> ?U" using low by auto
    then show ?thesis using card by (intro card_subset_eq [symmetric]) auto
  next
    case False
    have "card ?U \<le> card {1..j}" by (intro card_mono) auto
    with card False show ?thesis by simp
  qed
  then have UU: "?U = used ?s" using used' by simp
  have "elements_ok ?s"
    using elements_okD [OF el] True used' by (intro elements_okI) (auto simp: same)
  then have "hash_slots eq hash ?s"
    using inv unfolding hreordering_def Let_def UU hash_slots_def by simp
  moreover have "hvalues ?s = hvalues s"
    using vals unfolding upto_values_def UU hvalues_def by simp
  moreover have "hash_reorder s = Some (?s, True)"
    using loop True same by (simp add: hash_reorder_def)
  ultimately show ?thesis using same by auto
qed

end
