(* ===== verification/HashProps.thy ===== *)
theory HashProps
  imports HashSpec
begin

text \<open>
  The operations of a \<open>HashSet\<close> keep it well formed and do to its values what a set does.
\<close>

section \<open>Capacity\<close>

lemma hash_okD:
  assumes "hash_ok eq hash s"
  shows "elements_ok s" "hash_slots eq hash s" "0 < e_capacity s \<Longrightarrow> 0 < b_capacity s"
    "\<exists>cs. chained s cs (used s)"
    "\<And>i. i \<in> used s \<Longrightarrow> h_temp (e_node s i) = hash (n_data (e_node s i))"
    "\<And>i j. i \<in> used s \<Longrightarrow> j \<in> used s \<Longrightarrow> i \<noteq> j \<Longrightarrow> \<not> eq (n_data (e_node s i)) (n_data (e_node s j))"
  using assms by (auto simp: hash_ok_def hash_slots_def)

lemma used_capacity: "hash_ok eq hash s \<Longrightarrow> i \<in> used s \<Longrightarrow> 0 < e_capacity s"
  using elements_okD(5) [OF hash_okD(1)] by (fastforce simp: used_def)

lemma clear_new_simps [simp]:
  "e_capacity (clear_new o' c s) = e_capacity s" "e_next (clear_new o' c s) = e_next s"
  "e_count (clear_new o' c s) = e_count s" "b_capacity (clear_new o' c s) = b_capacity s"
  by (simp_all add: clear_new_def)

lemma hash_grown_slots:
  fixes s :: "'a hashset"
  assumes ok: "hash_slots eq hash s" and next_le: "e_next s = e_count s + 1"
    and c: "16 \<le> c" "e_count s < c" "c \<le> UINT32_MAX"
    and s': "s' = (hset_active 0 False (clear_new (e_capacity s) c (s\<lparr>e_capacity := c\<rparr>)))\<lparr>b_capacity := b\<rparr>"
  shows "hash_slots eq hash s'" "hvalues s' = hvalues s" "used s' = used s"
proof -
  have el: "elements_ok s" using ok by (simp add: hash_slots_def)
  have le: "i < e_capacity s" "i \<noteq> 0" if "i \<in> used s" for i
    using that elements_okD(5) [OF el] by (auto simp: used_def)
  have n: "n_active (e_node s' i) = (i \<noteq> 0 \<and> \<not> (e_capacity s \<le> i \<and> i < c) \<and> n_active (e_node s i))"
    "n_data (e_node s' i) = n_data (e_node s i)" for i
    by (auto simp: s' clear_new_def)
  have t: "i < e_capacity s \<Longrightarrow> i \<noteq> 0 \<Longrightarrow> h_temp (e_node s' i) = h_temp (e_node s i)" for i
    by (auto simp: s' clear_new_def)
  have f: "e_next s' = e_next s" "e_count s' = e_count s" "e_capacity s' = c" by (simp_all add: s')
  have "i \<in> used s' \<longleftrightarrow> i \<in> used s" for i
    using le [of i] unfolding used_def mem_Collect_eq n f by auto
  then show u: "used s' = used s" by blast
  have "elements_ok s'"
    using elements_okD [OF el] c next_le
    by (intro elements_okI) (auto simp: f u n)
  then show "hash_slots eq hash s'"
    using ok le t by (auto simp: hash_slots_def u n)
  show "hvalues s' = hvalues s" by (simp add: hvalues_def u n)
qed

lemma hash_resize_ok:
  fixes s :: "'a hashset"
  assumes L: "valid_load L" and ok: "hash_ok eq hash s"
  shows "\<exists>s' b. hash_resize hash L alloc c s = Some (s', b) \<and> hash_ok eq hash s' \<and> hvalues s' = hvalues s
    \<and> e_count s' = e_count s
    \<and> (b \<longleftrightarrow> e_count s < c \<and> c \<le> UINT32_MAX \<and> (max 16 c = e_capacity s \<or> alloc (max 16 c)))
    \<and> (b \<longrightarrow> e_capacity s' = max 16 c \<and> e_next s' = e_count s + 1)
    \<and> (\<not> b \<longrightarrow> e_capacity s' = e_capacity s)"
proof (cases "c \<le> e_count s \<or> UINT32_MAX < c")
  case True
  then show ?thesis
    by (intro exI [of _ s] exI [of _ False]) (use ok in \<open>auto simp: hash_resize_def\<close>)
next
  case False
  define c' where "c' = max 16 c"
  have c': "16 \<le> c'" "e_count s < c'" "c' \<le> UINT32_MAX"
    using False elements_okD(4,5) [OF hash_okD(1) [OF ok]] by (auto simp: c'_def UINT32_MAX_def)
  have c'_if: "(if c < 16 then 16 else c) = c'" by (simp add: c'_def)
  obtain s1 moved where re: "hash_reorder s = Some (s1, moved)" and ok1: "hash_slots eq hash s1"
    and vals: "hvalues s1 = hvalues s" and same: "e_capacity s1 = e_capacity s" "e_count s1 = e_count s"
      "b_capacity s1 = b_capacity s" "e_next s1 = e_count s + 1" and not: "\<not> moved \<Longrightarrow> s1 = s"
    using hash_reorder_ok [OF hash_okD(2) [OF ok]] by blast
  show ?thesis
  proof (cases "c' \<noteq> e_capacity s \<and> alloc c'")
    case True
    define s2 where "s2 = (hset_active 0 False (clear_new (e_capacity s1) c' (s1\<lparr>e_capacity := c'\<rparr>)))\<lparr>b_capacity := buckets L c'\<rparr>"
    note g = hash_grown_slots [OF ok1 _ c'(1) _ c'(3) s2_def]
    have g: "hash_slots eq hash s2" "hvalues s2 = hvalues s1" "used s2 = used s1"
      using g same c' by simp_all
    have b: "0 < b_capacity s2" using buckets_pos [OF L c'(1,3)] by (simp add: s2_def)
    obtain s3 where run: "bucketize hash False s2 = Some s3" and ok3: "hash_ok eq hash s3"
      and v3: "hvalues s3 = hvalues s2" and same3: "e_capacity s3 = e_capacity s2" "e_next s3 = e_next s2"
        "e_count s3 = e_count s2"
      using bucketize_ok [of s2 False hash eq] g(1) b by (auto simp: hash_slots_def)
    have "hash_resize hash L alloc c s = Some (s3, True)"
      using False re run True same(1)
      by (simp add: hash_resize_def c'_if elements_resize_def Let_def s2_def)
    then show ?thesis
      using ok3 v3 g(2) vals same3 same True False
      by (intro exI [of _ s3] exI [of _ True]) (auto simp: s2_def c'_def)
  next
    case stay: False
    have "\<exists>s3. (if moved then bucketize hash False s1 else Some s1) = Some s3 \<and> hash_ok eq hash s3
        \<and> hvalues s3 = hvalues s1 \<and> e_capacity s3 = e_capacity s1 \<and> e_next s3 = e_next s1 \<and> e_count s3 = e_count s1"
    proof (cases moved)
      case True
      then have "e_next s \<noteq> e_count s + 1" using re by (auto simp: hash_reorder_def split: if_splits)
      then have "0 < b_capacity s1"
        using elements_okD(4,5) [OF hash_okD(1) [OF ok]] hash_okD(3) [OF ok] same by auto
      with bucketize_ok [of s1 False hash eq] ok1 True show ?thesis by (auto simp: hash_slots_def)
    qed (use not ok in auto)
    then obtain s3 where s3: "(if moved then bucketize hash False s1 else Some s1) = Some s3"
      and ok3: "hash_ok eq hash s3" "hvalues s3 = hvalues s1" and same3: "e_capacity s3 = e_capacity s1"
        "e_next s3 = e_next s1" "e_count s3 = e_count s1"
      by blast
    have "hash_resize hash L alloc c s = Some (s3, c' = e_capacity s)"
      using False re s3 stay same(1)
      by (auto simp: hash_resize_def c'_if elements_resize_def Let_def)
    then show ?thesis
      using ok3 vals same3 same stay False
      by (intro exI [of _ s3] exI [of _ "c' = e_capacity s"]) (auto simp: c'_def)
  qed
qed

lemma hash_reorganize_ok:
  fixes s :: "'a hashset"
  assumes ok: "hash_ok eq hash s"
  shows "\<exists>s'. hash_reorganize hash s = Some s' \<and> hash_ok eq hash s' \<and> hvalues s' = hvalues s
    \<and> e_capacity s' = e_capacity s \<and> e_count s' = e_count s
    \<and> e_next s' = (if e_count s = 0 then e_next s else e_count s + 1)"
proof (cases "e_count s = 0")
  case True
  with ok show ?thesis by (simp add: hash_reorganize_def)
next
  case False
  obtain s1 moved where re: "hash_reorder s = Some (s1, moved)" and ok1: "hash_slots eq hash s1"
    and vals: "hvalues s1 = hvalues s" and same: "e_capacity s1 = e_capacity s" "e_count s1 = e_count s"
      "b_capacity s1 = b_capacity s" "e_next s1 = e_count s + 1" and not: "\<not> moved \<Longrightarrow> s1 = s"
    using hash_reorder_ok [OF hash_okD(2) [OF ok]] by blast
  have "0 < b_capacity s1"
    using False elements_okD(4,5) [OF hash_okD(1) [OF ok]] hash_okD(3) [OF ok] same by auto
  with bucketize_ok [of s1 False hash eq] ok1 have "\<exists>s'. bucketize hash False s1 = Some s'
      \<and> hash_ok eq hash s' \<and> hvalues s' = hvalues s1 \<and> e_capacity s' = e_capacity s1 \<and> e_next s' = e_next s1
      \<and> e_count s' = e_count s1"
    by (auto simp: hash_slots_def)
  then show ?thesis
    using False re vals same not ok by (cases moved) (auto simp: hash_reorganize_def)
qed

lemma hash_increase_ok:
  fixes s :: "'a hashset"
  assumes L: "valid_load L" and ok: "hash_ok eq hash s" and grow: "hash_can_grow alloc s"
  shows "\<exists>s' b. hash_increase hash L alloc s = Some (s', b) \<and> hash_ok eq hash s' \<and> hvalues s' = hvalues s
    \<and> e_next s' < e_capacity s'"
proof -
  note el = elements_okD [OF hash_okD(1) [OF ok]]
  consider (fresh) "e_capacity s = 0" | (room) "e_capacity s \<noteq> 0" "e_next s < e_capacity s"
    | (gaps) "e_capacity s \<noteq> 0" "e_capacity s \<le> e_next s" "e_count s * 2 mod (UINT32_MAX + 1) \<le> e_capacity s"
    | (full) "e_capacity s \<noteq> 0" "e_capacity s \<le> e_next s" "e_capacity s < e_count s * 2 mod (UINT32_MAX + 1)"
    by linarith
  then show ?thesis
  proof cases
    case fresh
    with hash_resize_ok [OF L ok, of alloc 16] grow el show ?thesis
      by (fastforce simp: hash_increase_def hash_can_grow_def UINT32_MAX_def)
  next
    case room
    then show ?thesis
      by (intro exI [of _ s] exI [of _ True]) (use ok in \<open>simp add: hash_increase_def\<close>)
  next
    case gaps
    have "16 \<le> e_capacity s" "e_count s \<noteq> 0" "e_count s * 2 \<le> e_capacity s"
      using el gaps grow by (auto simp: hash_can_grow_def)
    with hash_reorganize_ok [OF ok] gaps show ?thesis by (fastforce simp: hash_increase_def)
  next
    case full
    have "e_capacity s < e_count s * 2" using full(3) mod_less_eq_dividend order.strict_trans2 by blast
    then have c: "e_capacity s * 2 mod (UINT32_MAX + 1) = e_capacity s * 2" "max 16 (e_capacity s * 2) = e_capacity s * 2"
      "e_capacity s * 2 \<le> UINT32_MAX" "alloc (e_capacity s * 2)" "e_count s < e_capacity s * 2"
      using el full grow by (auto simp: hash_can_grow_def)
    obtain s' b where r: "hash_resize hash L alloc (e_capacity s * 2) s = Some (s', b)"
      and b: b and s': "hash_ok eq hash s'" "hvalues s' = hvalues s"
        "b \<longrightarrow> e_capacity s' = e_capacity s * 2 \<and> e_next s' = e_count s + 1"
      using hash_resize_ok [OF L ok, of alloc "e_capacity s * 2", unfolded c(2)] c by blast
    then have s': "hash_ok eq hash s'" "hvalues s' = hvalues s" "e_capacity s' = e_capacity s * 2"
      "e_next s' = e_count s + 1" by simp_all
    have "e_next s' < e_capacity s'" using s' el full by simp
    moreover have "hash_increase hash L alloc s = Some (s', b)"
      using full r c(1) by (simp add: hash_increase_def)
    ultimately show ?thesis using s' by blast
  qed
qed

section \<open>Searching\<close>

lemma hash_lookup_self: "hashing eq hash \<Longrightarrow> hash_lookup eq hash eq hash"
  by (intro hash_lookup.intro hash_lookup_axioms.intro)
    (auto intro: hashing.eq_hash hashing.eq_trans hashing.eq_sym)

lemma find_SomeD: "find P xs = Some x \<Longrightarrow> x \<in> set xs \<and> P x"
  by (auto simp: find_Some_iff)

lemma find_in_bucket:
  assumes "hash_lookup eq hash oeq ohash" and ok: "hash_ok eq hash s" and cap: "0 < b_capacity s"
  shows "\<exists>i. find_in oeq s v (b_bucket s (unat (ohash v) mod b_capacity s)) = Some i
    \<and> (i \<in> used s \<and> oeq (n_data (e_node s i)) v
       \<or> i = e_next s \<and> (\<forall>j\<in>used s. \<not> oeq (n_data (e_node s j)) v))"
proof -
  let ?b = "unat (ohash v) mod b_capacity s" and ?P = "\<lambda>i. oeq (n_data (e_node s i)) v"
  have b: "?b < b_capacity s" using cap by simp
  obtain cs where "chained s cs (used s)" using hash_okD(4) [OF ok] by blast
  then have ch: "chain (e_node s) 0 (b_bucket s ?b) (cs ?b)"
    "set (cs ?b) = {i \<in> used s. unat (h_temp (e_node s i)) mod b_capacity s = ?b}"
    using b by (auto simp: chained_def)
  have hit: "j \<in> set (cs ?b)" if "j \<in> used s" "?P j" for j
    using that hash_okD(5) [OF ok that(1)] hash_lookup.oeq_hash [OF assms(1) that(2)] ch(2) by auto
  have run: "find_in oeq s v (b_bucket s ?b) =
      Some (case find ?P (cs ?b) of None \<Rightarrow> e_next s | Some j \<Rightarrow> j)"
    using ch(2) elements_okD(4) [OF hash_okD(1) [OF ok]]
    by (intro find_in_chain [OF ch(1)]) (auto simp: used_def)
  show ?thesis
  proof (cases "find ?P (cs ?b)")
    case None
    then have "\<forall>j\<in>used s. \<not> ?P j" using hit by (auto simp: find_None_iff)
    then show ?thesis using run None by (intro exI [of _ "e_next s"]) simp
  next
    case (Some j)
    then have "j \<in> used s \<and> ?P j" using ch(2) find_SomeD [OF Some] by blast
    then show ?thesis using run Some by (intro exI [of _ j]) simp
  qed
qed

lemma hash_find_ok:
  assumes "hash_lookup eq hash oeq ohash" and ok: "hash_ok eq hash s"
  shows "\<exists>i. hash_find oeq ohash v s = Some i
    \<and> (i \<in> used s \<and> oeq (n_data (e_node s i)) v
       \<or> i = e_next s \<and> (\<forall>j\<in>used s. \<not> oeq (n_data (e_node s j)) v))"
proof (cases "e_count s = 0")
  case True
  then have "used s = {}" using elements_okD(2) [OF hash_okD(1) [OF ok]] by simp
  with True show ?thesis by (simp add: hash_find_def)
next
  case False
  then have "0 < b_capacity s"
    using elements_okD(4,5) [OF hash_okD(1) [OF ok]] hash_okD(3) [OF ok] by auto
  with find_in_bucket [OF assms, of v] False show ?thesis by (auto simp: hash_find_def bucket_def)
qed

lemma hash_contains_ok:
  assumes "hash_lookup eq hash oeq ohash" and ok: "hash_ok eq hash s"
  shows "hash_contains oeq ohash v s = Some (\<exists>j\<in>used s. oeq (n_data (e_node s j)) v)"
proof -
  have "hash_contains oeq ohash v s = map_option (\<lambda>i. e_count s \<noteq> 0 \<and> i \<noteq> e_next s) (hash_find oeq ohash v s)"
    by (auto simp: hash_contains_def hash_find_def split: bind_splits)
  moreover have "e_count s = 0 \<Longrightarrow> used s = {}"
    using elements_okD(2) [OF hash_okD(1) [OF ok]] by simp
  moreover have "e_next s \<notin> used s" by (simp add: used_def)
  ultimately show ?thesis using hash_find_ok [OF assms, of v] by auto
qed

section \<open>Inserting\<close>

lemma hash_ok_unused:
  fixes s :: "'a hashset"
  assumes ok: "hash_ok eq hash s" and i: "e_next s \<le> i"
  shows "hash_ok eq hash (upd_node i f s)" "used (upd_node i f s) = used s" "hvalues (upd_node i f s) = hvalues s"
proof -
  let ?s = "upd_node i f s"
  have ne: "x \<in> used s \<Longrightarrow> x \<noteq> i" for x using i by (auto simp: used_def)
  have same: "x \<noteq> i \<Longrightarrow> e_node ?s x = e_node s x" for x by simp
  show u: "used ?s = used s" using i by (auto simp: used_def)
  have el: "elements_ok ?s"
    using elements_okD [OF hash_okD(1) [OF ok]] i by (intro elements_okI) (auto simp: u)
  obtain cs where ch: "chained s cs (used s)" using hash_okD(4) [OF ok] by blast
  have "chained ?s cs (used s)"
    unfolding chained_def
  proof (intro allI impI)
    fix b assume "b < b_capacity ?s"
    then have old: "chain (e_node s) 0 (b_bucket s b) (cs b)" "distinct (cs b)"
      "set (cs b) = {x \<in> used s. unat (h_temp (e_node s x)) mod b_capacity s = b}"
      using ch by (auto simp: chained_def)
    have "chain (e_node ?s) 0 (b_bucket s b) (cs b)"
      using old(1,3) ne by (subst chain_cong [of _ _ "e_node s"]) auto
    then show "chain (e_node ?s) 0 (b_bucket ?s b) (cs b) \<and> distinct (cs b)
        \<and> set (cs b) = {x \<in> used s. unat (h_temp (e_node ?s x)) mod b_capacity ?s = b}"
      using old(2,3) ne by auto
  qed
  then show "hash_ok eq hash ?s"
    using ok ne el unfolding hash_ok_def hash_slots_def u by auto
  show "hvalues ?s = hvalues s"
    unfolding hvalues_def u using ne by (intro image_mset_cong) auto
qed

lemma insert_chain_ok:
  fixes s :: "'a hashset"
  assumes ch: "chained s cs A" and A: "A = used s - {n}" and n: "1 \<le> n" "n < e_next s"
    and b: "b = unat (h_temp (e_node s n)) mod b_capacity s" "0 < b_capacity s"
    and temps: "\<And>x. x \<in> insert n A \<Longrightarrow> h_temp (e_node s x) = hash (n_data (e_node s x))"
    and uniq: "\<And>x y. x \<in> insert n A \<Longrightarrow> y \<in> insert n A \<Longrightarrow> x \<noteq> y \<Longrightarrow>
      \<not> eq (n_data (e_node s x)) (n_data (e_node s y))"
    and count: "e_count s = card A"
    and size: "16 \<le> e_capacity s" "e_next s \<le> e_capacity s" "e_capacity s \<le> UINT32_MAX" "\<not> n_active (e_node s 0)"
  shows "\<exists>s'. insert_chain n b s = Some (s', n, True) \<and> hash_ok eq hash s'
    \<and> hvalues s' = add_mset (n_data (e_node s n)) (image_mset (\<lambda>i. n_data (e_node s i)) (mset_set A))
    \<and> e_next s' = e_next s \<and> e_capacity s' = e_capacity s \<and> used s' = insert n A
    \<and> (\<forall>x. n_data (e_node s' x) = n_data (e_node s x))"
proof -
  let ?s = "(hset_active n True s)\<lparr>e_count := e_count s + 1\<rparr>"
  have nA: "n \<notin> A" "finite A" using A by auto
  have f: "n_active (e_node ?s x) = (x = n \<or> n_active (e_node s x))" "n_data (e_node ?s x) = n_data (e_node s x)"
    "h_temp (e_node ?s x) = h_temp (e_node s x)" "h_prev (e_node ?s x) = h_prev (e_node s x)"
    "h_next (e_node ?s x) = h_next (e_node s x)" for x
    by auto
  have "chained ?s cs A"
    unfolding chained_def
  proof (intro allI impI)
    fix c assume "c < b_capacity ?s"
    then have old: "chain (e_node s) 0 (b_bucket s c) (cs c)" "distinct (cs c)"
      "set (cs c) = {x \<in> A. unat (h_temp (e_node s x)) mod b_capacity s = c}"
      using ch by (auto simp: chained_def)
    have "x \<noteq> n" if "x \<in> set (cs c)" for x using that old(3) nA by auto
    then have "chain (e_node ?s) 0 (b_bucket s c) (cs c)"
      using old(1) by (subst chain_cong [of _ _ "e_node s"]) auto
    then show "chain (e_node ?s) 0 (b_bucket ?s c) (cs c) \<and> distinct (cs c)
        \<and> set (cs c) = {x \<in> A. unat (h_temp (e_node ?s x)) mod b_capacity ?s = c}"
      unfolding f using old(2,3) by simp
  qed
  from link_head_chained [OF this nA(1), of b] n(1) b obtain s' where link: "link_head n b ?s = Some s'"
    and ch': "chained s' (cs(b := n # cs b)) (insert n A)" and fr: "hframe ?s s'"
    by auto
  have same: "e_capacity s' = e_capacity s" "e_next s' = e_next s" "e_count s' = e_count s + 1"
    "b_capacity s' = b_capacity s" "n_active (e_node s' x) = (x = n \<or> n_active (e_node s x))"
    "n_data (e_node s' x) = n_data (e_node s x)" "h_temp (e_node s' x) = h_temp (e_node s x)" for x
    using fr by (auto simp: hframe_def)
  have u: "used s' = insert n A" using n by (auto simp: used_def same A)
  have "elements_ok s'"
    using size n count nA by (intro elements_okI) (auto simp: same u)
  then have "hash_ok eq hash s'"
    unfolding hash_ok_def hash_slots_def u same using temps uniq ch' b(2) by blast
  moreover have "hvalues s' = add_mset (n_data (e_node s n)) (image_mset (\<lambda>i. n_data (e_node s i)) (mset_set A))"
    using nA by (simp add: hvalues_def u same)
  moreover have "insert_chain n b s = Some (s', n, True)"
    using link by (simp add: insert_chain_def)
  ultimately show ?thesis using same u by auto
qed

lemma set_hvalues: "set_mset (hvalues s) = (\<lambda>i. n_data (e_node s i)) ` used s"
  by (simp add: hvalues_def)

lemma hash_reprD:
  assumes "hash_repr eq hash s M"
  shows "hash_ok eq hash s" "hvalues s = M"
  using assms by (simp_all add: hash_repr_def)

lemma hash_valueI: "i \<in> used s \<Longrightarrow> hash_value s i = Some (n_data (e_node s i))"
  by (simp add: hash_value_def used_def)

lemma hash_link_new:
  fixes s :: "'a hashset"
  assumes H: "hashing eq hash" and ok: "hash_ok eq hash s" and n: "n = e_next s" "n < e_capacity s"
    and v: "n_data (e_node s n) = v" "h_temp (e_node s n) = hash v"
    and fresh: "\<forall>j\<in>used s. \<not> eq (n_data (e_node s j)) v"
  shows "\<exists>s'. insert_chain n (unat (hash v) mod b_capacity s) (s\<lparr>e_next := n + 1\<rparr>) = Some (s', n, True)
    \<and> hash_repr eq hash s' (add_mset v (hvalues s)) \<and> n \<in> used s' \<and> n_data (e_node s' n) = v
    \<and> e_next s' = n + 1 \<and> e_capacity s' = e_capacity s"
proof -
  let ?s = "s\<lparr>e_next := n + 1\<rparr>"
  note el = elements_okD [OF hash_okD(1) [OF ok]]
  have cap: "0 < b_capacity s" using hash_okD(3) [OF ok] n by simp
  have size: "16 \<le> e_capacity ?s" "e_next ?s \<le> e_capacity ?s" "e_capacity ?s \<le> UINT32_MAX"
    "\<not> n_active (e_node ?s 0)" "1 \<le> n" "n < e_next ?s"
    using el n by auto
  have A: "used s = used ?s - {n}" using n by (auto simp: used_def)
  obtain cs where "chained s cs (used s)" using hash_okD(4) [OF ok] by blast
  then have ch: "chained ?s cs (used s)" by (simp add: chained_def)
  have sym: "eq a b \<Longrightarrow> eq b a" for a b by (rule hashing.eq_sym [OF H])
  have "\<exists>s'. insert_chain n (unat (hash v) mod b_capacity s) ?s = Some (s', n, True) \<and> hash_ok eq hash s'
    \<and> hvalues s' = add_mset (n_data (e_node ?s n)) (image_mset (\<lambda>i. n_data (e_node ?s i)) (mset_set (used s)))
    \<and> e_next s' = e_next ?s \<and> e_capacity s' = e_capacity ?s \<and> used s' = insert n (used s)
    \<and> (\<forall>x. n_data (e_node s' x) = n_data (e_node ?s x))"
  proof (rule insert_chain_ok [OF ch A size(5,6) _ _ _ _ _ size(1-4)])
    show "h_temp (e_node ?s x) = hash (n_data (e_node ?s x))" if "x \<in> insert n (used s)" for x
      using that hash_okD(5) [OF ok, of x] v by auto
    show "\<not> eq (n_data (e_node ?s x)) (n_data (e_node ?s y))"
      if "x \<in> insert n (used s)" "y \<in> insert n (used s)" "x \<noteq> y" for x y
      using that hash_okD(6) [OF ok, of x y] v(1) fresh sym by auto
  qed (use v cap el in auto)
  then show ?thesis using ok v(1) by (auto simp: hash_repr_def hvalues_def)
qed

definition hash_added :: "('a \<Rightarrow> 'a \<Rightarrow> bool) \<Rightarrow> ('a \<Rightarrow> u32) \<Rightarrow> 'a multiset \<Rightarrow> 'a \<Rightarrow> 'a hashset \<times> nat \<times> bool \<Rightarrow> bool" where
  "hash_added eq hash M v r \<longleftrightarrow> (case r of (s', i, new) \<Rightarrow>
     (new \<longleftrightarrow> (\<forall>x\<in>#M. \<not> eq x v)) \<and> hash_repr eq hash s' (if new then add_mset v M else M)
     \<and> i \<in> used s' \<and> eq (n_data (e_node s' i)) v \<and> (new \<longrightarrow> n_data (e_node s' i) = v))"

lemma hash_increase_room: "e_next s < e_capacity s \<Longrightarrow> hash_increase hash L alloc s = Some (s, True)"
  by (simp add: hash_increase_def)

lemma hash_insert_room:
  assumes H: "hashing eq hash" and r: "hash_repr eq hash s M" and room: "e_next s < e_capacity s"
  shows "\<exists>s' i b. hash_insert eq hash L alloc v s = Some (s', i, b) \<and> hash_added eq hash M v (s', i, b)
    \<and> e_capacity s' = e_capacity s \<and> e_next s' = e_next s + of_bool b"
proof -
  note ok = hash_reprD(1) [OF r] and vals = hash_reprD(2) [OF r]
  have cap: "0 < b_capacity s" using hash_okD(3) [OF ok] room by simp
  let ?b = "unat (hash v) mod b_capacity s" and ?n = "e_next s"
  obtain i where find: "find_in eq s v (b_bucket s ?b) = Some i"
    and i: "i \<in> used s \<and> eq (n_data (e_node s i)) v
       \<or> i = e_next s \<and> (\<forall>j\<in>used s. \<not> eq (n_data (e_node s j)) v)"
    using find_in_bucket [OF hash_lookup_self [OF H] ok cap] by blast
  show ?thesis
  proof (cases "i = e_next s")
    case False
    then have "hash_insert eq hash L alloc v s = Some (s, i, False)"
      using room find cap by (simp add: hash_insert_def bucket_def hash_increase_room)
    moreover have "hash_added eq hash M v (s, i, False)"
      using False i ok vals by (auto simp: hash_added_def hash_repr_def set_hvalues simp flip: vals)
    ultimately show ?thesis by (intro exI [of _ s] exI [of _ i] exI [of _ False]) simp
  next
    case True
    define s1 where "s1 = hset_data ?n v (hset_temp ?n (hash v) s)"
    have fresh: "\<forall>j\<in>used s. \<not> eq (n_data (e_node s j)) v" using i True by (auto simp: used_def)
    note t = hash_ok_unused [OF ok order.refl, of "h_temp_update (\<lambda>_. hash v)"]
    have ok1: "hash_ok eq hash s1" and u1: "used s1 = used s" and v1: "hvalues s1 = M"
      using hash_ok_unused [OF t(1), of ?n "n_data_update (\<lambda>_. v)"] t vals by (simp_all add: s1_def)
    have f: "e_next s1 = ?n" "e_capacity s1 = e_capacity s" "b_capacity s1 = b_capacity s"
      "n_data (e_node s1 ?n) = v" "h_temp (e_node s1 ?n) = hash v"
      by (simp_all add: s1_def)
    have g: "n_data (e_node s1 j) = n_data (e_node s j)" if "j \<in> used s" for j
      using that by (simp add: s1_def used_def)
    from hash_link_new [OF H ok1 _ _ f(4,5)] f u1 g fresh room obtain s'
      where "insert_chain ?n ?b (s1\<lparr>e_next := ?n + 1\<rparr>) = Some (s', ?n, True)"
        and s': "hash_repr eq hash s' (add_mset v M)" "?n \<in> used s'" "n_data (e_node s' ?n) = v"
          "e_next s' = ?n + 1" "e_capacity s' = e_capacity s"
      using v1 by auto
    then have "hash_insert eq hash L alloc v s = Some (s', ?n, True)"
      using find cap room True by (simp add: hash_insert_def bucket_def Let_def hash_increase_room s1_def)
    moreover have "hash_added eq hash M v (s', ?n, True)"
      using s' fresh hashing.eq_refl [OF H] by (auto simp: hash_added_def set_hvalues simp flip: vals)
    ultimately show ?thesis using s'(4,5)
      by (intro exI [of _ s'] exI [of _ ?n] exI [of _ True]) simp
  qed
qed

lemma hash_emplace_room:
  assumes H: "hashing eq hash" and r: "hash_repr eq hash s M" and room: "e_next s < e_capacity s"
  shows "\<exists>s' i b. hash_emplace eq hash L alloc v s = Some (s', i, b) \<and> hash_added eq hash M v (s', i, b)
    \<and> e_capacity s' = e_capacity s \<and> e_next s' = e_next s + of_bool b"
proof -
  note ok1 = hash_reprD(1) [OF r] and vals1 = hash_reprD(2) [OF r]
  define n where "n = e_next s"
  define s2 where "s2 = hset_temp n (hash v) (hset_data n v s)"
  have f: "e_next s2 = n" "e_capacity s2 = e_capacity s" "n_data (e_node s2 n) = v" "h_temp (e_node s2 n) = hash v"
    "b_capacity s2 = b_capacity s" "b_bucket s2 = b_bucket s"
    by (simp_all add: s2_def n_def)
  have ok: "hash_ok eq hash s2" and vals: "hvalues s2 = M"
    using hash_ok_unused [OF hash_ok_unused(1) [OF ok1, of n "n_data_update (\<lambda>_. v)"], of n
        "h_temp_update (\<lambda>_. hash v)"] hash_ok_unused [OF ok1, of n "n_data_update (\<lambda>_. v)"] vals1
    by (simp_all add: s2_def n_def)
  have cap: "0 < b_capacity s2" using hash_okD(3) [OF ok] room f by simp
  let ?b = "unat (hash v) mod b_capacity s2"
  obtain i where find: "find_in eq s2 v (b_bucket s2 ?b) = Some i"
    and i: "i \<in> used s2 \<and> eq (n_data (e_node s2 i)) v
       \<or> i = n \<and> (\<forall>j\<in>used s2. \<not> eq (n_data (e_node s2 j)) v)"
    using find_in_bucket [OF hash_lookup_self [OF H] ok cap] f(1) by metis
  have run: "hash_emplace eq hash L alloc v s =
      (if i \<noteq> n then Some (s2, i, False) else insert_chain n ?b (s2\<lparr>e_next := n + 1\<rparr>))"
    using find cap room f(5,6) hash_increase_room [OF room]
    by (simp add: hash_emplace_def bucket_def Let_def n_def [symmetric] s2_def [symmetric] f(1))
  show ?thesis
  proof (cases "i = n")
    case False
    then have "hash_added eq hash M v (s2, i, False)"
      using i ok vals by (auto simp: hash_added_def hash_repr_def set_hvalues simp flip: vals)
    with run False f n_def show ?thesis
      by (intro exI [of _ s2] exI [of _ i] exI [of _ False]) simp
  next
    case True
    then have fresh: "\<forall>j\<in>used s2. \<not> eq (n_data (e_node s2 j)) v" using i f(1) by (auto simp: used_def)
    from hash_link_new [OF H ok _ _ f(3,4) fresh] f room obtain s'
      where link: "insert_chain n ?b (s2\<lparr>e_next := n + 1\<rparr>) = Some (s', n, True)"
        and s': "hash_repr eq hash s' (add_mset v M)" "n \<in> used s'" "n_data (e_node s' n) = v"
          "e_next s' = n + 1" "e_capacity s' = e_capacity s"
      using vals n_def by auto
    have "hash_added eq hash M v (s', n, True)"
      using s' fresh hashing.eq_refl [OF H] by (auto simp: hash_added_def set_hvalues simp flip: vals)
    then show ?thesis using run True link s'(4,5) n_def
      by (intro exI [of _ s'] exI [of _ n] exI [of _ True]) simp
  qed
qed

lemma hash_insert_ok:
  assumes H: "hashing eq hash" and L: "valid_load L" and r: "hash_repr eq hash s M"
    and grow: "hash_can_grow alloc s"
  shows "\<exists>r. hash_insert eq hash L alloc v s = Some r \<and> hash_added eq hash M v r"
    and "\<exists>r. hash_emplace eq hash L alloc v s = Some r \<and> hash_added eq hash M v r"
proof -
  obtain s1 b where inc: "hash_increase hash L alloc s = Some (s1, b)" and ok: "hash_ok eq hash s1"
    and vals: "hvalues s1 = M" and room: "e_next s1 < e_capacity s1"
    using hash_increase_ok [OF L hash_reprD(1) [OF r] grow] hash_reprD(2) [OF r] by auto
  have r1: "hash_repr eq hash s1 M" using ok vals by (simp add: hash_repr_def)
  have "hash_insert eq hash L alloc v s = hash_insert eq hash L alloc v s1"
    "hash_emplace eq hash L alloc v s = hash_emplace eq hash L alloc v s1"
    using inc hash_increase_room [OF room] by (simp_all add: hash_insert_def hash_emplace_def)
  then show "\<exists>r. hash_insert eq hash L alloc v s = Some r \<and> hash_added eq hash M v r"
    and "\<exists>r. hash_emplace eq hash L alloc v s = Some r \<and> hash_added eq hash M v r"
    using hash_insert_room [OF H r1 room, of L alloc v] hash_emplace_room [OF H r1 room, of L alloc v] by metis+
qed

section \<open>Taking values out\<close>

lemma hash_extract_ok:
  fixes s :: "'a hashset"
  assumes ok: "hash_ok eq hash s" and i: "i \<in> used s"
  shows "\<exists>s'. hash_extract i s = Some (s', n_data (e_node s i)) \<and> hash_ok eq hash s' \<and> used s' = used s - {i}
    \<and> e_next s' = e_next s \<and> e_capacity s' = e_capacity s \<and> \<not> n_active (e_node s' i)
    \<and> (\<forall>x. n_data (e_node s' x) = n_data (e_node s x))"
proof -
  note el = elements_okD [OF hash_okD(1) [OF ok]]
  have iu: "1 \<le> i" "i < e_next s" "n_active (e_node s i)" using i by (simp_all add: used_def)
  have cap: "0 < b_capacity s" using hash_okD(3) [OF ok] used_capacity [OF ok i] by simp
  obtain cs where "chained s cs (used s)" using hash_okD(4) [OF ok] by blast
  from extract_chained [OF this i iu cap] obtain s' cs'
    where run: "hash_extract i s = Some (s', n_data (e_node s i))" and ch: "chained s' cs' (used s - {i})"
      and fr: "hframe (hset_active i False (s\<lparr>e_count := e_count s - 1\<rparr>)) s'" by blast
  have same: "e_capacity s' = e_capacity s" "e_next s' = e_next s" "e_count s' = e_count s - 1"
    "b_capacity s' = b_capacity s" "n_active (e_node s' x) = (x \<noteq> i \<and> n_active (e_node s x))"
    "n_data (e_node s' x) = n_data (e_node s x)" "h_temp (e_node s' x) = h_temp (e_node s x)" for x
    using fr by (auto simp: hframe_def)
  have u: "used s' = used s - {i}" by (auto simp: used_def same)
  have "elements_ok s'"
    using el i by (intro elements_okI) (auto simp: same u)
  then have "hash_ok eq hash s'"
    unfolding hash_ok_def hash_slots_def u same
    using ok ch by (auto simp: hash_ok_def hash_slots_def)
  then show ?thesis using run u same by auto
qed

lemma hvalues_remove:
  assumes "used s' = used s - {i}" and "i \<in> used s" and "\<And>x. n_data (e_node s' x) = n_data (e_node s x)"
  shows "hvalues s' = hvalues s - {#n_data (e_node s i)#}" "hvalues s = add_mset (n_data (e_node s i)) (hvalues s')"
proof -
  show "hvalues s = add_mset (n_data (e_node s i)) (hvalues s')"
    unfolding hvalues_def assms(1,3) using mset_set.remove [OF finite_used assms(2)] by simp
  then show "hvalues s' = hvalues s - {#n_data (e_node s i)#}" by simp
qed

lemma hash_erase_at_ok:
  assumes r: "hash_repr eq hash s M" and i: "i \<in> used s"
  shows "\<exists>s'. hash_erase_at i s = Some (s', Some (n_data (e_node s i)))
    \<and> hash_repr eq hash s' (M - {#n_data (e_node s i)#})"
proof -
  obtain s' where run: "hash_extract i s = Some (s', n_data (e_node s i))" and ok': "hash_ok eq hash s'"
    and u: "used s' = used s - {i}" and d: "\<And>x. n_data (e_node s' x) = n_data (e_node s x)"
    using hash_extract_ok [OF hash_reprD(1) [OF r] i] by blast
  have "hash_erase_at i s = Some (s', Some (n_data (e_node s i)))"
    using i run by (simp add: hash_erase_at_def used_def)
  then show ?thesis
    using ok' hvalues_remove(1) [OF u i d] hash_reprD(2) [OF r] by (auto simp: hash_repr_def)
qed

lemma hash_erase_ok:
  assumes lk: "hash_lookup eq hash oeq ohash" and r: "hash_repr eq hash s M"
  shows "\<exists>s' x. hash_erase oeq ohash v s = Some (s', x)
    \<and> hash_repr eq hash s' (filter_mset (\<lambda>a. \<not> oeq a v) M)
    \<and> (case x of None \<Rightarrow> \<forall>a\<in>#M. \<not> oeq a v | Some a \<Rightarrow> a \<in># M \<and> oeq a v)
    \<and> e_next s' = e_next s \<and> e_capacity s' = e_capacity s"
proof -
  note ok = hash_reprD(1) [OF r] and vals = hash_reprD(2) [OF r]
  obtain i where find: "hash_find oeq ohash v s = Some i"
    and i: "i \<in> used s \<and> oeq (n_data (e_node s i)) v
       \<or> i = e_next s \<and> (\<forall>j\<in>used s. \<not> oeq (n_data (e_node s j)) v)"
    using hash_find_ok [OF lk ok] by blast
  show ?thesis
  proof (cases "i = e_next s")
    case True
    then have none: "\<forall>a\<in>#M. \<not> oeq a v" using i by (auto simp: set_hvalues used_def simp flip: vals)
    then have "filter_mset (\<lambda>a. \<not> oeq a v) M = M" by (simp add: filter_mset_eq_conv)
    then show ?thesis using True find r none by (auto simp: hash_erase_def)
  next
    case False
    then have iu: "i \<in> used s" "oeq (n_data (e_node s i)) v" using i by auto
    obtain s' where run: "hash_extract i s = Some (s', n_data (e_node s i))" and ok': "hash_ok eq hash s'"
      and u: "used s' = used s - {i}" and d: "\<And>x. n_data (e_node s' x) = n_data (e_node s x)"
      and fr: "e_next s' = e_next s" "e_capacity s' = e_capacity s"
      using hash_extract_ok [OF ok iu(1)] by blast
    have "\<not> oeq (n_data (e_node s j)) v" if "j \<in> used s" "j \<noteq> i" for j
      using hash_lookup.oeq_eq [OF lk _ iu(2)] hash_okD(6) [OF ok that(1) iu(1) that(2)] by blast
    then have "filter_mset (\<lambda>a. \<not> oeq a v) (hvalues s') = hvalues s'"
      by (auto simp: filter_mset_eq_conv set_hvalues u d)
    then have "filter_mset (\<lambda>a. \<not> oeq a v) M = hvalues s'"
      using hvalues_remove(2) [OF u iu(1) d] iu(2) vals by simp
    moreover have "n_data (e_node s i) \<in># M" using iu(1) by (auto simp: set_hvalues simp flip: vals)
    ultimately show ?thesis
      using find run iu ok' fr by (auto simp: hash_erase_def used_def hash_repr_def)
  qed
qed

text \<open>A value that has been taken out goes back into its slot.\<close>

lemma hash_reinsert_ok:
  assumes H: "hashing eq hash" and r: "hash_repr eq hash s M"
    and slot: "slot = None \<or> slot = Some 0 \<Longrightarrow> e_next s < e_capacity s"
      "\<And>n. slot = Some (Suc n) \<Longrightarrow> Suc n < e_next s \<and> \<not> n_active (e_node s (Suc n)) \<and> n_data (e_node s (Suc n)) = v"
  shows "\<exists>r. hash_reinsert eq hash slot v s = Some r \<and> hash_added eq hash M v r"
proof -
  note ok = hash_reprD(1) [OF r] and vals = hash_reprD(2) [OF r]
  note el = elements_okD [OF hash_okD(1) [OF ok]]
  have ecap: "0 < e_capacity s" using slot el by (cases slot; cases "the slot") auto
  then have cap: "0 < b_capacity s" using hash_okD(3) [OF ok] by simp
  let ?b = "unat (hash v) mod b_capacity s"
  obtain i where find: "find_in eq s v (b_bucket s ?b) = Some i"
    and i: "i \<in> used s \<and> eq (n_data (e_node s i)) v
       \<or> i = e_next s \<and> (\<forall>j\<in>used s. \<not> eq (n_data (e_node s j)) v)"
    using find_in_bucket [OF hash_lookup_self [OF H] ok cap] by blast
  show ?thesis
  proof (cases "i = e_next s")
    case False
    then have "hash_added eq hash M v (s, i, False)"
      using i r by (auto simp: hash_added_def hash_repr_def set_hvalues simp flip: vals)
    with False find cap show ?thesis by (simp add: hash_reinsert_def bucket_def)
  next
    case True
    then have fresh: "\<forall>j\<in>used s. \<not> eq (n_data (e_node s j)) v" using i by (auto simp: used_def)
    show ?thesis
    proof (cases "\<exists>n. slot = Some (Suc n)")
      case False
      define n where "n = e_next s"
      define s1 where "s1 = hset_temp n (hash v) (hset_data n v s)"
      have f: "e_next s1 = n" "e_capacity s1 = e_capacity s" "n_data (e_node s1 n) = v" "h_temp (e_node s1 n) = hash v"
        "b_capacity s1 = b_capacity s"
        by (simp_all add: s1_def n_def)
      have g: "n_data (e_node s1 j) = n_data (e_node s j)" if "j \<in> used s" for j
        using that by (simp add: s1_def n_def used_def)
      have ok1: "hash_ok eq hash s1" and vals1: "hvalues s1 = M" and u1: "used s1 = used s"
        using hash_ok_unused [OF hash_ok_unused(1) [OF ok, of n "n_data_update (\<lambda>_. v)"], of n
            "h_temp_update (\<lambda>_. hash v)"] hash_ok_unused [OF ok, of n "n_data_update (\<lambda>_. v)"] vals
        by (simp_all add: s1_def n_def)
      have room: "n < e_capacity s"
        using slot(1) False unfolding n_def by (metis not0_implies_Suc not_Some_eq)
      from hash_link_new [OF H ok1 _ _ f(3,4)] f u1 g fresh room obtain s'
        where "insert_chain n ?b (s1\<lparr>e_next := n + 1\<rparr>) = Some (s', n, True)"
          and s': "hash_repr eq hash s' (add_mset v M)" "n \<in> used s'" "n_data (e_node s' n) = v"
        using vals1 by auto
      moreover have "s1\<lparr>e_next := n + 1\<rparr> = hset_temp n (hash v) ((hset_data n v s)\<lparr>e_next := n + 1\<rparr>)"
        by (simp add: s1_def upd_node_def)
      ultimately have "hash_reinsert eq hash slot v s = Some (s', n, True)"
        using False find cap True room
        by (auto simp: hash_reinsert_def bucket_def Let_def n_def [symmetric] split: option.splits nat.splits)
      moreover have "hash_added eq hash M v (s', n, True)"
        using s' fresh hashing.eq_refl [OF H] by (auto simp: hash_added_def set_hvalues simp flip: vals)
      ultimately show ?thesis by blast
    next
      case A: True
      then obtain m where m: "slot = Some (Suc m)" by blast
      define n where "n = Suc m"
      have n: "1 \<le> n" "n < e_next s" "\<not> n_active (e_node s n)" "n_data (e_node s n) = v"
        using slot(2) [OF m] by (simp_all add: n_def)
      have nu: "n \<notin> used s" using n by (simp add: used_def)
      define s1 where "s1 = hset_temp n (hash v) s"
      have f: "e_next s1 = e_next s" "e_capacity s1 = e_capacity s" "e_count s1 = e_count s"
        "b_capacity s1 = b_capacity s" "b_bucket s1 = b_bucket s"
        "n_data (e_node s1 x) = n_data (e_node s x)" "n_active (e_node s1 x) = n_active (e_node s x)"
        "h_next (e_node s1 x) = h_next (e_node s x)" "h_prev (e_node s1 x) = h_prev (e_node s x)"
        "h_temp (e_node s1 x) = (if x = n then hash v else h_temp (e_node s x))" for x
        by (simp_all add: s1_def)
      have u1: "used s1 = used s" by (simp add: used_def f)
      obtain cs where ch: "chained s cs (used s)" using hash_okD(4) [OF ok] by blast
      have ch1: "chained s1 cs (used s)"
        unfolding chained_def f
      proof (intro allI impI)
        fix b assume "b < b_capacity s"
        then have old: "chain (e_node s) 0 (b_bucket s b) (cs b)" "distinct (cs b)"
          "set (cs b) = {x \<in> used s. unat (h_temp (e_node s x)) mod b_capacity s = b}"
          using ch by (auto simp: chained_def)
        have "chain (e_node s1) 0 (b_bucket s b) (cs b)"
          using old(1) by (subst chain_cong [of _ _ "e_node s"]) (simp_all only: f simp_thms)
        then show "chain (e_node s1) 0 (b_bucket s b) (cs b) \<and> distinct (cs b)
            \<and> set (cs b) = {x \<in> used s. unat (if x = n then hash v else h_temp (e_node s x)) mod b_capacity s = b}"
          using old(2,3) nu by auto
      qed
      have sym: "eq a b \<Longrightarrow> eq b a" for a b by (rule hashing.eq_sym [OF H])
      have "\<exists>s'. insert_chain n ?b s1 = Some (s', n, True) \<and> hash_ok eq hash s'
        \<and> hvalues s' = add_mset (n_data (e_node s1 n)) (image_mset (\<lambda>i. n_data (e_node s1 i)) (mset_set (used s)))
        \<and> e_next s' = e_next s1 \<and> e_capacity s' = e_capacity s1 \<and> used s' = insert n (used s)
        \<and> (\<forall>x. n_data (e_node s' x) = n_data (e_node s1 x))"
      proof (rule insert_chain_ok [OF ch1])
        show "h_temp (e_node s1 x) = hash (n_data (e_node s1 x))" if "x \<in> insert n (used s)" for x
          using that hash_okD(5) [OF ok, of x] n(4) by (auto simp: f)
        show "\<not> eq (n_data (e_node s1 x)) (n_data (e_node s1 y))"
          if "x \<in> insert n (used s)" "y \<in> insert n (used s)" "x \<noteq> y" for x y
          using that hash_okD(6) [OF ok, of x y] n(4) fresh sym by (auto simp: f)
      qed (use n nu u1 cap ecap el in \<open>auto simp: f\<close>)
      then obtain s' where s': "insert_chain n ?b s1 = Some (s', n, True)" "hash_ok eq hash s'"
        "hvalues s' = add_mset v M" "used s' = insert n (used s)" "n_data (e_node s' n) = v"
        using n(4) vals by (auto simp: f hvalues_def)
      then have "hash_reinsert eq hash slot v s = Some (s', n, True)"
        using m True find cap by (simp add: hash_reinsert_def bucket_def n_def s1_def)
      moreover have "hash_added eq hash M v (s', n, True)"
        using s' fresh hashing.eq_refl [OF H]
        by (auto simp: hash_added_def hash_repr_def set_hvalues simp flip: vals)
      ultimately show ?thesis by blast
    qed
  qed
qed

section \<open>Iteration\<close>

lemma skip_forward:
  "i \<le> skip_forward h i k \<and> skip_forward h i k \<le> i + k
    \<and> (skip_forward h i k < i + k \<longrightarrow> n_active (h (skip_forward h i k)))
    \<and> slot_values h (skip_forward h i k) (i + k) = slot_values h i (i + k)"
proof (induction k arbitrary: i)
  case (Suc k)
  have "slot_values h i (i + Suc k) = slot_values h (i + 1) (i + 1 + k)" if "\<not> n_active (h i)"
    using that slot_values_step [of i "i + Suc k" h] by simp
  with Suc.IH [of "i + 1"] show ?case by auto
qed simp

lemma hash_iterate_from:
  "i \<le> e_next s \<Longrightarrow>
    hash_iterate s (skip_forward (e_node s) i (e_next s - i)) = Some (slot_values (e_node s) i (e_next s))"
proof (induction "e_next s - i" arbitrary: i rule: less_induct)
  case less
  let ?j = "skip_forward (e_node s) i (e_next s - i)"
  have j: "i \<le> ?j" "?j \<le> e_next s" "?j < e_next s \<Longrightarrow> n_active (e_node s ?j)"
    "slot_values (e_node s) ?j (e_next s) = slot_values (e_node s) i (e_next s)"
    using skip_forward [of i "e_node s" "e_next s - i"] less.prems by auto
  show ?case
  proof (cases "?j = e_next s")
    case True
    then show ?thesis using j(4) by (simp add: hash_iterate.simps slot_values_def)
  next
    case False
    then have lt: "?j < e_next s" using j(2) by simp
    then have "hash_iterate s (hash_next s ?j) = Some (slot_values (e_node s) (?j + 1) (e_next s))"
      using less.hyps [of "?j + 1"] j(1) by (simp add: hash_next_def)
    moreover have "slot_values (e_node s) i (e_next s) = n_data (e_node s ?j) # slot_values (e_node s) (?j + 1) (e_next s)"
      using slot_values_step [OF lt, of "e_node s"] j(3,4) lt by simp
    ultimately show ?thesis
      using j(3) lt by (subst hash_iterate.simps) (simp add: hash_value_def)
  qed
qed

lemma hash_iterate_ok:
  assumes r: "hash_repr eq hash s M"
  shows "\<exists>vs. hash_iterate s (hash_begin s) = Some vs \<and> mset vs = M"
proof (cases "e_count s = 0")
  case True
  have "M = {#}"
    using elements_okD(2) [OF hash_okD(1) [OF hash_reprD(1) [OF r]]] True hash_reprD(2) [OF r]
    by (simp add: hvalues_def flip: hash_reprD(2) [OF r])
  with True show ?thesis by (simp add: hash_begin_def hash_iterate.simps)
next
  case False
  have "1 \<le> e_next s" using elements_okD(1) [OF hash_okD(1) [OF hash_reprD(1) [OF r]]] .
  from hash_iterate_from [OF this] False show ?thesis
    using hash_reprD(2) [OF r] by (simp add: hash_begin_def mset_slot_values [simplified])
qed

text \<open>Walking forward and backward visits the same slots.\<close>

lemma skip_backward:
  "skip_backward h i \<le> i \<and> (skip_backward h i \<noteq> 0 \<longrightarrow> n_active (h (skip_backward h i)))
    \<and> (\<forall>y. skip_backward h i < y \<longrightarrow> y \<le> i \<longrightarrow> \<not> n_active (h y))"
  by (induction i) (auto simp: le_Suc_eq)

lemma skip_forward_first:
  "i \<le> y \<Longrightarrow> y < skip_forward h i k \<Longrightarrow> \<not> n_active (h y)"
proof (induction k arbitrary: i)
  case (Suc k)
  then show ?case using Suc.IH [of "i + 1"] by (cases "y = i") (auto split: if_splits)
qed simp

lemma hash_prev_next:
  assumes "i \<in> used s" and "hash_next s i \<noteq> e_next s"
  shows "hash_next s i \<in> used s" "hash_prev s (hash_next s i) = i"
proof -
  let ?j = "hash_next s i"
  have i: "1 \<le> i" "i < e_next s" "n_active (e_node s i)" using assms(1) by (auto simp: used_def)
  have j: "i < ?j" "?j \<le> e_next s" "?j < e_next s \<longrightarrow> n_active (e_node s ?j)"
    using skip_forward [of "i + 1" "e_node s" "e_next s - (i + 1)"] i by (auto simp: hash_next_def)
  then show "?j \<in> used s" using assms(2) i by (simp add: used_def)
  have gap: "\<not> n_active (e_node s y)" if "i < y" "y < ?j" for y
    using skip_forward_first [of "i + 1" y "e_node s"] that by (auto simp: hash_next_def)
  let ?p = "skip_backward (e_node s) (?j - 1)"
  have p: "?p \<le> ?j - 1" "?p \<noteq> 0 \<longrightarrow> n_active (e_node s ?p)" "\<And>y. ?p < y \<Longrightarrow> y \<le> ?j - 1 \<Longrightarrow> \<not> n_active (e_node s y)"
    using skip_backward [of "e_node s" "?j - 1"] by auto
  have "i \<le> ?p" using p(3) [of i] j(1) i(3) by force
  moreover have "?p < ?j" using p(1) j(1) by linarith
  then have "\<not> i < ?p" using gap [of ?p] p(2) by auto
  ultimately show "hash_prev s ?j = i" by (simp add: hash_prev_def)
qed

section \<open>Construction and clearing\<close>

lemma chained_empty:
  "(\<And>b. b < b_capacity s \<Longrightarrow> b_bucket s b = 0) \<Longrightarrow> chained s (\<lambda>_. []) {}"
  by (simp add: chained_def)

lemma hash_empty_repr: "hash_repr eq hash (hash_empty h b) {#}"
proof -
  have u: "used (hash_empty h b) = {}" by (simp add: used_def hash_empty_def)
  have "elements_ok (hash_empty h b)"
    by (intro elements_okI) (simp_all add: u, simp_all add: hash_empty_def)
  moreover have "chained (hash_empty h b) (\<lambda>_. []) {}"
    by (rule chained_empty) (simp add: hash_empty_def)
  ultimately show ?thesis
    by (auto simp: hash_repr_def hash_ok_def hash_slots_def u hvalues_def) (simp add: hash_empty_def)
qed

lemma hash_new_ok:
  assumes L: "valid_load L"
  shows "\<exists>s. hash_new hash L alloc capacity h b = Some s \<and> hash_repr eq hash s {#}
    \<and> (0 < capacity \<and> capacity < UINT32_MAX \<and> alloc (max 16 (capacity + 1)) \<longrightarrow>
         e_capacity s = max 16 (capacity + 1) \<and> e_next s = 1)"
proof (cases "capacity = 0")
  case True
  then show ?thesis using hash_empty_repr by (auto simp: hash_new_def) (auto simp: hash_empty_def)
next
  case False
  obtain s b' where "hash_resize hash L alloc (capacity + 1) (hash_empty h b) = Some (s, b')"
    and "hash_ok eq hash s" "hvalues s = hvalues (hash_empty h b)" "e_count s = e_count (hash_empty h b)"
    and "b' \<longleftrightarrow> e_count (hash_empty h b) < capacity + 1 \<and> capacity + 1 \<le> UINT32_MAX
      \<and> (max 16 (capacity + 1) = e_capacity (hash_empty h b) \<or> alloc (max 16 (capacity + 1)))"
    and "b' \<longrightarrow> e_capacity s = max 16 (capacity + 1) \<and> e_next s = e_count (hash_empty h b) + 1"
    using hash_resize_ok [OF L hash_reprD(1) [OF hash_empty_repr [of eq hash h b]], of alloc "capacity + 1"]
    by blast
  with False show ?thesis
    using hash_reprD(2) [OF hash_empty_repr [of eq hash h b]]
    by (auto simp: hash_new_def hash_repr_def) (auto simp: hash_empty_def)
qed

lemma hash_clear_ok:
  assumes r: "hash_repr eq hash s M"
  shows "hash_repr eq hash (hash_clear s) {#}" "e_capacity (hash_clear s) = e_capacity s"
    "M \<noteq> {#} \<Longrightarrow> e_next (hash_clear s) = 1"
proof -
  note ok = hash_reprD(1) [OF r]
  note el = elements_okD [OF hash_okD(1) [OF ok]]
  let ?s = "hash_clear s"
  have c: "e_capacity ?s = e_capacity s" "b_capacity ?s = b_capacity s" "e_count ?s = 0"
    "e_next ?s = (if e_count s = 0 then e_next s else 1)" "\<And>b. b < b_capacity s \<Longrightarrow> b_bucket ?s b = 0"
    by (auto simp: hash_clear_def elements_clear_def)
  have n: "n_active (e_node ?s i) \<Longrightarrow> n_active (e_node s i)" for i
    by (auto simp: hash_clear_def elements_clear_def clear_loop_eq split: if_splits)
  have "e_count s = 0 \<Longrightarrow> used s = {}" using el(2) by simp
  then have u: "used ?s = {}" using n by (auto simp: used_def c(4) split: if_splits)
  have "elements_ok ?s"
    using el n by (intro elements_okI) (auto simp: c(1-4) u)
  moreover have "chained ?s (\<lambda>_. []) {}" by (rule chained_empty) (simp add: c)
  ultimately show "hash_repr eq hash ?s {#}"
    using hash_okD(3) [OF ok] by (auto simp: hash_repr_def hash_ok_def hash_slots_def u hvalues_def c)
  show "e_capacity ?s = e_capacity s" by (rule c)
  show "M \<noteq> {#} \<Longrightarrow> e_next ?s = 1"
    using el(2) by (auto simp: c hvalues_def simp flip: hash_reprD(2) [OF r])
qed

lemma hash_size_ok: "hash_repr eq hash s M \<Longrightarrow> hash_size s = size M \<and> (hash_is_empty s \<longleftrightarrow> M = {#})"
proof -
  assume r: "hash_repr eq hash s M"
  have "size M = e_count s"
    using elements_okD(2) [OF hash_okD(1) [OF hash_reprD(1) [OF r]]]
    by (simp add: hvalues_def flip: hash_reprD(2) [OF r])
  then show ?thesis by (auto simp: hash_size_def hash_is_empty_def)
qed

lemma hash_rehash_ok:
  assumes r: "hash_repr eq hash s M"
  shows "\<exists>s'. hash_rehash hash s = Some s' \<and> hash_repr eq hash s' M"
proof (cases "e_count s = 0")
  case False
  then have "0 < b_capacity s"
    using elements_okD(4,5) [OF hash_okD(1)] hash_okD(3) hash_reprD(1) [OF r] by fastforce
  with bucketize_ok [of s True hash eq] r False show ?thesis
    by (auto simp: hash_rehash_def hash_repr_def hash_ok_def hash_slots_def)
qed (use r in \<open>simp add: hash_rehash_def\<close>)

text \<open>Taking over the slots of another container.\<close>

lemma hash_from_elements_ok:
  assumes L: "valid_load L" and el: "elements_ok e" and count: "e_count e \<noteq> 0"
    and uniq: "\<forall>i\<in>used e. \<forall>j\<in>used e. i \<noteq> j \<longrightarrow> \<not> eq (n_data (e_node e i)) (n_data (e_node e j))"
  shows "\<exists>s. hash_from_elements hash L e b = Some s \<and> hash_repr eq hash s (hvalues e)"
proof -
  define s where "s = \<lparr>e_capacity = e_capacity e, e_next = e_next e, e_count = e_count e, e_node = e_node e,
               b_capacity = buckets L (e_capacity e), b_bucket = b\<rparr>"
  have f: "e_capacity s = e_capacity e" "e_next s = e_next e" "e_count s = e_count e" "e_node s = e_node e"
    "b_capacity s = buckets L (e_capacity e)"
    by (simp_all add: s_def)
  have u: "used s = used e" "hvalues s = hvalues e" by (simp_all add: used_def hvalues_def f)
  have cap: "16 \<le> e_capacity e" "\<not> n_active (e_node e 0)" using elements_okD(4,5) [OF el] count by auto
  then have "0 < b_capacity s" using buckets_pos [OF L cap(1) elements_okD(3) [OF el]] by (simp add: f)
  moreover have "elements_ok s"
    using elements_okD [OF el] by (intro elements_okI) (simp_all only: f u)
  ultimately obtain s' where "bucketize hash True s = Some s'" "hash_ok eq hash s'" "hvalues s' = hvalues e"
    using bucketize_ok [of s True hash eq] uniq u f by auto
  then show ?thesis using count cap by (auto simp: hash_from_elements_def Let_def hash_repr_def s_def)
qed

section \<open>Buckets in use\<close>

lemma bucket_count_loop_card: "bucket_count_loop b n = card {i. i < n \<and> b i \<noteq> 0}"
proof (induction n)
  case (Suc n)
  have "{i. i < Suc n \<and> b i \<noteq> 0} = (if b n \<noteq> 0 then insert n {i. i < n \<and> b i \<noteq> 0} else {i. i < n \<and> b i \<noteq> 0})"
    by (auto simp: less_Suc_eq)
  with Suc show ?case by simp
qed simp

lemma bucket_count_le:
  assumes r: "hash_repr eq hash s M"
  shows "bucket_count s \<le> size M"
proof -
  note ok = hash_reprD(1) [OF r]
  obtain cs where ch: "chained s cs (used s)" using hash_okD(4) [OF ok] by blast
  let ?B = "{i. i < b_capacity s \<and> b_bucket s i \<noteq> 0}"
  have hit: "b_bucket s i \<in> used s \<and> unat (h_temp (e_node s (b_bucket s i))) mod b_capacity s = i" if i: "i \<in> ?B" for i
  proof -
    have c: "chain (e_node s) 0 (b_bucket s i) (cs i)"
      "set (cs i) = {x \<in> used s. unat (h_temp (e_node s x)) mod b_capacity s = i}"
      using i ch by (auto simp: chained_def)
    then have "b_bucket s i \<in> set (cs i)" using i by (cases "cs i") auto
    with c(2) show ?thesis by blast
  qed
  then have "inj_on (b_bucket s) ?B" by (metis (no_types, lifting) inj_onI)
  then have "card ?B \<le> card (used s)" using hit by (intro card_inj_on_le [of "b_bucket s"]) auto
  then show ?thesis
    unfolding bucket_count_def bucket_count_loop_card by (simp add: hvalues_def flip: hash_reprD(2) [OF r])
qed

section \<open>Many values\<close>

definition hash_add :: "('a \<Rightarrow> 'a \<Rightarrow> bool) \<Rightarrow> 'a multiset \<Rightarrow> 'a \<Rightarrow> 'a multiset" where
  "hash_add eq M v = (if \<exists>x\<in>#M. eq x v then M else add_mset v M)"

lemma hash_emplace_all_room:
  assumes H: "hashing eq hash" and "hash_repr eq hash s M" and "e_next s + length vs \<le> e_capacity s"
  shows "\<exists>s'. hash_emplace_all eq hash L alloc vs s = Some s' \<and> hash_repr eq hash s' (foldl (hash_add eq) M vs)
    \<and> e_capacity s' = e_capacity s \<and> e_next s' + size M = e_next s + size (foldl (hash_add eq) M vs)"
  using assms(2,3)
proof (induction vs arbitrary: s M)
  case (Cons v vs)
  then have room: "e_next s < e_capacity s" by simp
  obtain s1 i b where run: "hash_emplace eq hash L alloc v s = Some (s1, i, b)"
    and added: "hash_added eq hash M v (s1, i, b)"
    and c: "e_capacity s1 = e_capacity s" "e_next s1 = e_next s + of_bool b"
    using hash_emplace_room [OF H Cons.prems(1) room] by blast
  have r1: "hash_repr eq hash s1 (hash_add eq M v)" and b: "b \<longleftrightarrow> (\<forall>x\<in>#M. \<not> eq x v)"
    using added by (auto simp: hash_added_def hash_add_def split: if_splits)
  have size: "size (hash_add eq M v) = size M + of_bool b" using b by (auto simp: hash_add_def)
  have "e_next s1 + length vs \<le> e_capacity s1" using Cons.prems(2) c by (cases b) auto
  from Cons.IH [OF r1 this] obtain s' where "hash_emplace_all eq hash L alloc vs s1 = Some s'"
    "hash_repr eq hash s' (foldl (hash_add eq) (hash_add eq M v) vs)" "e_capacity s' = e_capacity s1"
    "e_next s' + size (hash_add eq M v) = e_next s1 + size (foldl (hash_add eq) (hash_add eq M v) vs)"
    by blast
  then show ?case using run c size by auto
qed simp

lemma hash_from_range_ok:
  assumes H: "hashing eq hash" and L: "valid_load L" and n: "n = (if c = 0 then length vs else c)"
    and room: "length vs \<le> n" "n < UINT32_MAX" "alloc (max 16 (n + 1))"
  shows "\<exists>s. hash_from_range eq hash L alloc c vs h b = Some s
    \<and> hash_repr eq hash s (foldl (hash_add eq) {#} vs) \<and> e_capacity s = max 16 (n + 1)
    \<and> e_next s = 1 + size (foldl (hash_add eq) {#} vs)"
proof -
  have e: "e_count (hash_empty h b) = 0" "e_capacity (hash_empty h b) = 0"
    by (simp_all add: hash_empty_def)
  obtain s b' where res: "hash_resize hash L alloc (n + 1) (hash_empty h b) = Some (s, b')"
    and ok: "hash_ok eq hash s" and vals: "hvalues s = {#}"
    and s: "e_capacity s = max 16 (n + 1)" "e_next s = 1"
    using hash_resize_ok [OF L hash_reprD(1) [OF hash_empty_repr [of eq hash h b]], of alloc "n + 1"] room e
      hash_reprD(2) [OF hash_empty_repr [of eq hash h b]] by auto
  have r: "hash_repr eq hash s {#}" using ok vals by (simp add: hash_repr_def)
  have fits: "e_next s + length vs \<le> e_capacity s"
    using s room(1) by (simp add: le_max_iff_disj)
  obtain s' where run: "hash_emplace_all eq hash L alloc vs s = Some s'"
    and r': "hash_repr eq hash s' (foldl (hash_add eq) {#} vs)" and s': "e_capacity s' = e_capacity s"
    "e_next s' = e_next s + size (foldl (hash_add eq) {#} vs)"
    using hash_emplace_all_room [OF H r fits, of L alloc] s by auto
  have "e_capacity s' \<noteq> 0" using s s' by simp
  then have "\<not> n_active (e_node s' 0)" using elements_okD(5) [OF hash_okD(1) [OF hash_reprD(1) [OF r']]] by simp
  then show ?thesis using res run r' s s' by (auto simp: hash_from_range_def n)
qed

lemma hash_copy_ok:
  assumes r: "hash_repr eq hash s M" and "e_capacity s > 0 \<Longrightarrow> alloc (e_capacity s)"
    and b: "b_capacity s > 0 \<Longrightarrow> e_capacity s > 0"
  shows "\<exists>s'. hash_copy integral alloc h b s = Some s' \<and> hash_repr eq hash s' M"
proof -
  note ok = hash_reprD(1) [OF r] and vals = hash_reprD(2) [OF r]
  note el = elements_okD [OF hash_okD(1) [OF ok]]
  define copied where "copied = (if e_capacity s = 0 then 0 else if integral then e_capacity s else e_next s)"
  define node where "node = (\<lambda>i. if i < copied then e_node s i else h i)"
  define s' where "s' = \<lparr>e_capacity = e_capacity s, e_next = e_next s, e_count = e_count s, e_node = node,
      b_capacity = b_capacity s, b_bucket = (\<lambda>i. if i < b_capacity s then b_bucket s i else b i)\<rparr>"
  have f: "e_capacity s' = e_capacity s" "e_next s' = e_next s" "e_count s' = e_count s"
    "b_capacity s' = b_capacity s" "i < b_capacity s \<Longrightarrow> b_bucket s' i = b_bucket s i" for i
    by (simp_all add: s'_def)
  have same: "e_node s' i = e_node s i" if "i < e_next s" "e_capacity s \<noteq> 0" for i
    using that el(5) by (auto simp: s'_def node_def copied_def)
  have cap: "i \<in> used s \<Longrightarrow> e_capacity s \<noteq> 0" for i using used_capacity [OF ok] by simp
  have u: "used s' = used s"
  proof (cases "e_capacity s = 0")
    case True
    then show ?thesis using el(5) by (auto simp: used_def f)
  next
    case False
    then show ?thesis using same by (auto simp: used_def f)
  qed
  have data: "e_node s' i = e_node s i" if "i \<in> used s" for i
    using same [of i] cap [OF that] that by (simp add: used_def)
  have n0: "e_capacity s \<noteq> 0 \<Longrightarrow> \<not> n_active (e_node s' 0)"
    using same [of 0] el by auto
  have el': "elements_ok s'"
    using el n0 by (intro elements_okI) (auto simp: f u)
  obtain cs where ch: "chained s cs (used s)" using hash_okD(4) [OF ok] by blast
  have ch': "chained s' cs (used s)"
    unfolding chained_def f(4)
  proof (intro allI impI)
    fix c assume c: "c < b_capacity s"
    then have old: "chain (e_node s) 0 (b_bucket s c) (cs c)" "distinct (cs c)"
      "set (cs c) = {x \<in> used s. unat (h_temp (e_node s x)) mod b_capacity s = c}"
      using ch by (auto simp: chained_def)
    have "chain (e_node s') 0 (b_bucket s c) (cs c)"
      using old(1,3) data by (subst chain_cong [of _ _ "e_node s"]) auto
    then show "chain (e_node s') 0 (b_bucket s' c) (cs c) \<and> distinct (cs c)
        \<and> set (cs c) = {x \<in> used s. unat (h_temp (e_node s' x)) mod b_capacity s = c}"
      using old(2,3) data f(5) [OF c] by auto
  qed
  have "hash_ok eq hash s'"
    using el' ch' hash_okD(3,5,6) [OF ok] data unfolding hash_ok_def hash_slots_def u f by auto
  moreover have "hvalues s' = M"
    unfolding vals [symmetric] hvalues_def u using data by (intro image_mset_cong) auto
  moreover have "hash_copy integral alloc h b s = Some s'"
    using assms(2,3) n0
    by (auto simp: hash_copy_def Let_def s'_def node_def copied_def assert_that_def)
  ultimately show ?thesis by (auto simp: hash_repr_def)
qed

text \<open>A set whose slots have all been handed out and whose values have all been erased.\<close>

fun hash_erase_all ::
    "('a \<Rightarrow> 'a \<Rightarrow> bool) \<Rightarrow> ('a \<Rightarrow> u32) \<Rightarrow> 'a list \<Rightarrow> 'a hashset \<Rightarrow> 'a hashset option" where
  "hash_erase_all eq hash [] s = Some s"
| "hash_erase_all eq hash (v # vs) s = do { (s, _) \<leftarrow> hash_erase eq hash v s; hash_erase_all eq hash vs s }"

lemma hash_erase_all_ok:
  assumes "hashing eq hash" and "hash_repr eq hash s M"
  shows "\<exists>s'. hash_erase_all eq hash vs s = Some s'
    \<and> hash_repr eq hash s' (filter_mset (\<lambda>a. \<forall>v\<in>set vs. \<not> eq a v) M)
    \<and> e_next s' = e_next s \<and> e_capacity s' = e_capacity s"
  using assms(2)
proof (induction vs arbitrary: s M)
  case (Cons v vs)
  obtain s1 x where run: "hash_erase eq hash v s = Some (s1, x)"
    and r1: "hash_repr eq hash s1 (filter_mset (\<lambda>a. \<not> eq a v) M)"
    and c: "e_next s1 = e_next s" "e_capacity s1 = e_capacity s"
    using hash_erase_ok [OF hash_lookup_self [OF assms(1)] Cons.prems] by blast
  have "filter_mset (\<lambda>a. \<forall>v\<in>set vs. \<not> eq a v) (filter_mset (\<lambda>a. \<not> eq a v) M)
      = filter_mset (\<lambda>a. \<forall>w\<in>set (v # vs). \<not> eq a w) M"
    unfolding filter_filter_mset by (rule filter_mset_cong) auto
  with Cons.IH [OF r1] run c show ?case by auto
qed simp

lemma hash_full_empty_fails:
  assumes r: "hash_repr eq hash s {#}" and full: "e_next s = e_capacity s"
  shows "hash_insert eq hash L alloc v s = None" "hash_emplace eq hash L alloc v s = None"
proof -
  note ok = hash_reprD(1) [OF r]
  note el = elements_okD [OF hash_okD(1) [OF ok]]
  have u: "used s = {}" using hash_reprD(2) [OF r] by (simp add: hvalues_def mset_set_empty_iff)
  have count: "e_count s = 0" using el(2) u by simp
  have cap: "e_capacity s \<noteq> 0" using el(1) full by simp
  have inc: "hash_increase hash L alloc s = Some (s, True)"
    using cap full count by (simp add: hash_increase_def hash_reorganize_def)
  obtain cs where "chained s cs (used s)" using hash_okD(4) [OF ok] by blast
  then have "b_bucket s b = 0" if "b < b_capacity s" for b
    using that by (auto simp: chained_def u)
  then have "b_bucket s (unat (hash v) mod b_capacity s) = 0"
    using hash_okD(3) [OF ok] cap by simp
  then show "hash_insert eq hash L alloc v s = None" "hash_emplace eq hash L alloc v s = None"
    using inc full by (simp_all add: hash_insert_def hash_emplace_def bucket_def find_in.simps)
qed

text \<open>A set made from an array that has slots but no values has no buckets.\<close>

lemma hash_from_no_elements:
  assumes el: "elements_ok e" and "e_count e = 0" and "e_next e < e_capacity e"
  shows "\<exists>s. hash_from_elements hash L e b = Some s \<and> hash_insert eq hash L alloc v s = None
    \<and> hash_emplace eq hash L alloc v s = None"
  using assms
  by (simp add: hash_from_elements_def Let_def hash_insert_def hash_emplace_def hash_increase_def bucket_def)

end
