(* ===== verification/Words.thy ===== *)
theory Words
  imports Prelude
begin

text \<open>Generic lemmas on machine words: casts to a narrower type and masks.\<close>

lemma of_nat_mod64: "(of_nat (n mod 2 ^ 64) :: u32) = of_nat n"
  by (simp add: word_of_nat_eq_iff take_bit_eq_mod mod_mod_cancel)

lemma ucast32_of_nat: "(ucast (of_nat n :: u64) :: u32) = of_nat n"
proof -
  have "(ucast (of_nat n :: u64) :: u32) = of_nat (unat (of_nat n :: u64))" by (rule of_nat_unat [symmetric])
  also have "unat (of_nat n :: u64) = n mod 2 ^ 64" by (simp only: unat_of_nat) simp
  finally show ?thesis by (simp only: of_nat_mod64)
qed

lemma ucast32_plus: "(ucast (a + b :: u64) :: u32) = ucast a + ucast b"
  unfolding word_arith_nat_add [of a b] ucast32_of_nat by (simp only: of_nat_add of_nat_unat)

lemma ucast32_times: "(ucast (a * b :: u64) :: u32) = ucast a * ucast b"
  unfolding word_arith_nat_mult [of a b] ucast32_of_nat by (simp only: of_nat_mult of_nat_unat)

lemma ucast_ucast_u8: "(ucast (ucast (c :: u8) :: u64) :: u32) = ucast c"
  by (rule bit_word_eqI) (auto simp: bit_simps)

lemma ucast32_mask: "(ucast (v AND 0xffffffff :: u64) :: u32) = ucast v"
proof -
  have m: "(0xffffffff :: u64) = mask 32" by (simp add: mask_eq_exp_minus_1)
  show ?thesis
    unfolding m by (rule bit_word_eqI) (simp only: bit_simps, simp)
qed

end
