(* ===== verification/Hashing.thy ===== *)
theory Hashing
  imports Comparison HashProps Words
begin

text \<open>
  The equality and hash functions of include/dlh/comparison.hpp, and the contract \<open>hashing\<close> for
  them.
\<close>

section \<open>Hash values\<close>

definition hash_u64 :: "u64 \<Rightarrow> u32" where
  "hash_u64 v = (ucast (v AND 0xFFFFFFFF) :: u32) XOR ucast (drop_bit 32 v AND 0xFFFFFFFF)"

definition hash_u32 :: "u32 \<Rightarrow> u32" where
  "hash_u32 v = v"

definition hash_u16 :: "u16 \<Rightarrow> u32" where
  "hash_u16 v = ucast v"

definition hash_s16 :: "u16 \<Rightarrow> u32" where
  "hash_s16 v = scast v"

definition hash_u8 :: "u8 \<Rightarrow> u32" where
  "hash_u8 v = ucast v"

definition hash_s8 :: "u8 \<Rightarrow> u32" where
  "hash_s8 v = scast v"

text \<open>
  The hash of the bytes of an object (\<open>None\<close> is the null pointer), in the 64 bits of
  \<open>uint_fast32_t\<close>.
\<close>

fun hash_bytes_loop :: "u8 list \<Rightarrow> u64 \<Rightarrow> u64" where
  "hash_bytes_loop [] h = h"
| "hash_bytes_loop (c # cs) h = hash_bytes_loop cs (h * 31 + ucast c)"

definition hash_bytes :: "u8 list option \<Rightarrow> u32" where
  "hash_bytes v = (ucast ((case v of None \<Rightarrow> 0 | Some cs \<Rightarrow> hash_bytes_loop cs 0) AND 0xffffffff :: u64) :: u32)"

definition hash_kv :: "('k \<Rightarrow> u32) \<Rightarrow> ('k, 'v) key_value \<Rightarrow> u32" where
  "hash_kv hash e = hash (key e)"

definition hash_pair :: "('a \<Rightarrow> u32) \<Rightarrow> ('b \<Rightarrow> u32) \<Rightarrow> 'a \<times> 'b \<Rightarrow> u32" where
  "hash_pair hf hs p = hf (fst p) XOR hs (snd p)"

section \<open>Equality\<close>

definition equal_kv_key :: "('k \<Rightarrow> 'o \<Rightarrow> bool) \<Rightarrow> ('k, 'v) key_value \<Rightarrow> 'o \<Rightarrow> bool" where
  "equal_kv_key eq a b = eq (key a) b"

definition equal_kv_kv :: "('k \<Rightarrow> 'k \<Rightarrow> bool) \<Rightarrow> ('k, 'v) key_value \<Rightarrow> ('k, 'v) key_value \<Rightarrow> bool" where
  "equal_kv_kv eq a b = eq (key a) (key b)"

section \<open>The contract\<close>

text \<open>Values compared with \<open>==\<close>, whatever the hash.\<close>

lemma hashing_eq: "hashing (=) hash"
  by unfold_locales auto

interpretation hash_u64: hashing "(=)" hash_u64 by (rule hashing_eq)
interpretation hash_u32: hashing "(=)" hash_u32 by (rule hashing_eq)
interpretation hash_bytes: hashing "(=)" hash_bytes by (rule hashing_eq)

lemma hashing_kv: "hashing eq hash \<Longrightarrow> hashing (equal_kv_kv eq) (hash_kv hash)"
  unfolding hashing_def equal_kv_kv_def hash_kv_def by blast

lemma hash_lookup_kv:
  assumes "hash_lookup eq hash oeq ohash"
  shows "hash_lookup (equal_kv_kv eq) (hash_kv hash) (equal_kv_key oeq) ohash"
  using assms unfolding hash_lookup_def hash_lookup_axioms_def hashing_def equal_kv_kv_def equal_kv_key_def
    hash_kv_def by blast

interpretation u64_kv: hash_lookup "equal_kv_kv (=)" "hash_kv hash_u64" "equal_kv_key (=)" hash_u64
  by (rule hash_lookup_kv) (rule hash_u64.hself.hash_lookup_axioms)

interpretation pairs: hashing "(=)" "hash_pair hash_u64 hash_u32"
  by (rule hashing_eq)

section \<open>What the hash values are\<close>

text \<open>The hash of the bytes can be computed in 32 bits.\<close>

lemma ucast_hash_bytes_loop:
  "(ucast (hash_bytes_loop cs h) :: u32) = foldl (\<lambda>h c. h * 31 + ucast c) (ucast h) cs"
proof (induction cs arbitrary: h)
  case (Cons c cs)
  have "(ucast (h * 31 + ucast c) :: u32) = ucast h * 31 + ucast c"
    by (simp add: ucast32_plus ucast32_times ucast_ucast_u8)
  with Cons show ?case by simp
qed simp

lemma hash_bytes_32:
  "hash_bytes (Some cs) = foldl (\<lambda>h c. h * 31 + ucast c) 0 cs"
  by (simp only: hash_bytes_def option.case ucast32_mask ucast_hash_bytes_loop) simp

text \<open>A 64 bit value that fits into 32 bits has the hash of the 32 bit value.\<close>

lemma hash_u64_small: "hash_u64 (ucast (v :: u32)) = hash_u32 v"
proof -
  have "drop_bit 32 (ucast v :: u64) = 0"
    by (rule bit_word_eqI) (auto simp: bit_simps dest: bit_imp_le_length)
  then show ?thesis
    unfolding hash_u64_def hash_u32_def ucast32_mask by (simp add: ucast_down_ucast_id is_down)
qed

end
