(* ===== verification/Maps.thy ===== *)
theory Maps
  imports TreeTheorems Hashing
begin

text \<open>
  \<open>TreeMap\<close> (tree.hpp) and \<open>HashMap\<close> (hash.hpp): sets of \<open>KeyValue\<close> entries that are compared, and
  hashed, by their key.  The two classes have the same text over different base classes, so the
  operations are given once over those of the base class; the interface \<open>dictionary\<close> says what
  a base class has to provide for them to be a finite map, and it is interpreted on both sets.
\<close>

section \<open>The operations of the maps\<close>

definition map_insert ::
    "(('k, 'v) key_value \<Rightarrow> 's \<Rightarrow> ('s \<times> nat \<times> bool) option) \<Rightarrow> 'k \<Rightarrow> 'v \<Rightarrow> 's \<Rightarrow> ('s \<times> nat \<times> bool) option" where
  "map_insert emplace k v s = emplace \<lparr>key = k, val = v\<rparr> s"

text \<open>\<open>erase(key)\<close> and \<open>erase(position)\<close> return the value of the entry that the set gave back.\<close>

definition map_erase ::
    "('i \<Rightarrow> 's \<Rightarrow> ('s \<times> ('k, 'v) key_value option) option) \<Rightarrow> 'i \<Rightarrow> 's \<Rightarrow> ('s \<times> 'v option) option" where
  "map_erase erase k s = do { (s, i) \<leftarrow> erase k s; Some (s, case i of Some e \<Rightarrow> Some (val e) | None \<Rightarrow> None) }"

text \<open>
  \<open>at(key)\<close> moves the value into an \<open>Optional\<close>, whose constructor from \<open>T &&\<close> copies it and then
  runs the destructor of the original: \<open>moved\<close> is what that leaves in the entry (the value
  itself when the destructor is trivial).
\<close>

definition map_at ::
    "('k \<Rightarrow> 's \<Rightarrow> nat option) \<Rightarrow> ('s \<Rightarrow> nat \<Rightarrow> bool) \<Rightarrow> ('s \<Rightarrow> nat \<Rightarrow> ('k, 'v) key_value option)
      \<Rightarrow> (nat \<Rightarrow> 'v \<Rightarrow> 's \<Rightarrow> 's) \<Rightarrow> ('v \<Rightarrow> 'v) \<Rightarrow> 'k \<Rightarrow> 's \<Rightarrow> ('s \<times> 'v option) option" where
  "map_at locate valid deref assign moved k s = do {
     i \<leftarrow> locate k s;
     if valid s i then do { e \<leftarrow> deref s i; Some (assign i (moved (val e)) s, Some (val e)) }
     else Some (s, None)
   }"

text \<open>\<open>operator[](key)\<close> emplaces an entry with the value \<open>d\<close> of \<open>V()\<close>; \<open>m[k] = v\<close> writes to it.\<close>

definition map_index ::
    "(('k, 'v) key_value \<Rightarrow> 's \<Rightarrow> ('s \<times> nat \<times> bool) option) \<Rightarrow> ('s \<Rightarrow> nat \<Rightarrow> ('k, 'v) key_value option)
      \<Rightarrow> 'v \<Rightarrow> 'k \<Rightarrow> 's \<Rightarrow> ('s \<times> nat \<times> 'v) option" where
  "map_index emplace deref d k s = do {
     (s, i, _) \<leftarrow> emplace \<lparr>key = k, val = d\<rparr> s;
     e \<leftarrow> deref s i;
     Some (s, i, val e)
   }"

definition map_assign ::
    "(('k, 'v) key_value \<Rightarrow> 's \<Rightarrow> ('s \<times> nat \<times> bool) option) \<Rightarrow> ('s \<Rightarrow> nat \<Rightarrow> ('k, 'v) key_value option)
      \<Rightarrow> (nat \<Rightarrow> 'v \<Rightarrow> 's \<Rightarrow> 's) \<Rightarrow> 'v \<Rightarrow> 'k \<Rightarrow> 'v \<Rightarrow> 's \<Rightarrow> 's option" where
  "map_assign emplace deref assign d k v s =
     do { (s, i, _) \<leftarrow> map_index emplace deref d k s; Some (assign i v s) }"

text \<open>\<open>TreeMap\<close>.\<close>

definition tree_assign :: "nat \<Rightarrow> 'v \<Rightarrow> ('k, 'v) key_value treeset \<Rightarrow> ('k, 'v) key_value treeset" where
  "tree_assign i v s = set_data i ((n_data (e_node s i))\<lparr>val := v\<rparr>) s"

definition tree_map_insert ::
    "('k \<Rightarrow> 'k \<Rightarrow> int) \<Rightarrow> (nat \<Rightarrow> bool) \<Rightarrow> 'k \<Rightarrow> 'v \<Rightarrow> ('k, 'v) key_value treeset
      \<Rightarrow> (('k, 'v) key_value treeset \<times> nat \<times> bool) option" where
  "tree_map_insert cmp alloc = map_insert (tree_emplace (compare_kv_kv cmp) alloc)"

definition tree_map_erase ::
    "('k \<Rightarrow> 'o \<Rightarrow> int) \<Rightarrow> 'o \<Rightarrow> ('k, 'v) key_value treeset \<Rightarrow> (('k, 'v) key_value treeset \<times> 'v option) option" where
  "tree_map_erase ocmp = map_erase (tree_erase (compare_kv_key ocmp))"

definition tree_map_erase_at ::
    "nat \<Rightarrow> ('k, 'v) key_value treeset \<Rightarrow> (('k, 'v) key_value treeset \<times> 'v option) option" where
  "tree_map_erase_at = map_erase tree_erase_at"

definition tree_map_at ::
    "('k \<Rightarrow> 'k \<Rightarrow> int) \<Rightarrow> ('v \<Rightarrow> 'v) \<Rightarrow> 'k \<Rightarrow> ('k, 'v) key_value treeset
      \<Rightarrow> (('k, 'v) key_value treeset \<times> 'v option) option" where
  "tree_map_at ocmp = map_at (tree_find (compare_kv_key ocmp)) (\<lambda>s i. i \<noteq> 0) iter_value tree_assign"

definition tree_map_index ::
    "('k \<Rightarrow> 'k \<Rightarrow> int) \<Rightarrow> (nat \<Rightarrow> bool) \<Rightarrow> 'v \<Rightarrow> 'k \<Rightarrow> ('k, 'v) key_value treeset
      \<Rightarrow> (('k, 'v) key_value treeset \<times> nat \<times> 'v) option" where
  "tree_map_index cmp alloc = map_index (tree_emplace (compare_kv_kv cmp) alloc) iter_value"

text \<open>\<open>HashMap\<close>.\<close>

definition hash_assign :: "nat \<Rightarrow> 'v \<Rightarrow> ('k, 'v) key_value hashset \<Rightarrow> ('k, 'v) key_value hashset" where
  "hash_assign i v s = hset_data i ((n_data (e_node s i))\<lparr>val := v\<rparr>) s"

definition hash_map_insert ::
    "('k \<Rightarrow> 'k \<Rightarrow> bool) \<Rightarrow> ('k \<Rightarrow> u32) \<Rightarrow> nat \<Rightarrow> (nat \<Rightarrow> bool) \<Rightarrow> 'k \<Rightarrow> 'v \<Rightarrow> ('k, 'v) key_value hashset
      \<Rightarrow> (('k, 'v) key_value hashset \<times> nat \<times> bool) option" where
  "hash_map_insert eq hash L alloc = map_insert (hash_emplace (equal_kv_kv eq) (hash_kv hash) L alloc)"

definition hash_map_erase ::
    "('k \<Rightarrow> 'o \<Rightarrow> bool) \<Rightarrow> ('o \<Rightarrow> u32) \<Rightarrow> 'o \<Rightarrow> ('k, 'v) key_value hashset
      \<Rightarrow> (('k, 'v) key_value hashset \<times> 'v option) option" where
  "hash_map_erase oeq ohash = map_erase (hash_erase (equal_kv_key oeq) ohash)"

definition hash_map_erase_at ::
    "nat \<Rightarrow> ('k, 'v) key_value hashset \<Rightarrow> (('k, 'v) key_value hashset \<times> 'v option) option" where
  "hash_map_erase_at = map_erase hash_erase_at"

definition hash_map_at ::
    "('k \<Rightarrow> 'k \<Rightarrow> bool) \<Rightarrow> ('k \<Rightarrow> u32) \<Rightarrow> ('v \<Rightarrow> 'v) \<Rightarrow> 'k \<Rightarrow> ('k, 'v) key_value hashset
      \<Rightarrow> (('k, 'v) key_value hashset \<times> 'v option) option" where
  "hash_map_at oeq ohash =
     map_at (hash_find (equal_kv_key oeq) ohash) (\<lambda>s i. i \<noteq> 0 \<and> i \<noteq> e_next s) hash_value hash_assign"

definition hash_map_index ::
    "('k \<Rightarrow> 'k \<Rightarrow> bool) \<Rightarrow> ('k \<Rightarrow> u32) \<Rightarrow> nat \<Rightarrow> (nat \<Rightarrow> bool) \<Rightarrow> 'v \<Rightarrow> 'k \<Rightarrow> ('k, 'v) key_value hashset
      \<Rightarrow> (('k, 'v) key_value hashset \<times> nat \<times> 'v) option" where
  "hash_map_index eq hash L alloc = map_index (hash_emplace (equal_kv_kv eq) (hash_kv hash) L alloc) hash_value"

section \<open>The interface\<close>

text \<open>
  \<open>repr s m\<close>: the container \<open>s\<close> holds the finite map \<open>m\<close>; \<open>holds s i e\<close>: position \<open>i\<close> is that of
  the entry \<open>e\<close>; \<open>ready s\<close>: there is memory for another entry.
\<close>

locale dictionary =
  fixes repr :: "'s \<Rightarrow> ('k \<Rightarrow> 'v option) \<Rightarrow> bool"
    and ready :: "'s \<Rightarrow> bool"
    and emplace :: "('k, 'v) key_value \<Rightarrow> 's \<Rightarrow> ('s \<times> nat \<times> bool) option"
    and lookup_at :: "'k \<Rightarrow> 's \<Rightarrow> nat option"
    and erase :: "'k \<Rightarrow> 's \<Rightarrow> ('s \<times> ('k, 'v) key_value option) option"
    and erase_pos :: "nat \<Rightarrow> 's \<Rightarrow> ('s \<times> ('k, 'v) key_value option) option"
    and valid :: "'s \<Rightarrow> nat \<Rightarrow> bool"
    and deref :: "'s \<Rightarrow> nat \<Rightarrow> ('k, 'v) key_value option"
    and assign :: "nat \<Rightarrow> 'v \<Rightarrow> 's \<Rightarrow> 's"
    and holds :: "'s \<Rightarrow> nat \<Rightarrow> ('k, 'v) key_value \<Rightarrow> bool"
  assumes emplace_law: "repr s m \<Longrightarrow> ready s \<Longrightarrow>
      \<exists>s' i. emplace e s = Some (s', i, m (key e) = None)
        \<and> repr s' (if m (key e) = None then m(key e \<mapsto> val e) else m)
        \<and> (\<exists>e'. holds s' i e' \<and> key e' = key e)"
    and find_law: "repr s m \<Longrightarrow>
      \<exists>i. lookup_at k s = Some i \<and> (case m k of None \<Rightarrow> \<not> valid s i | Some v \<Rightarrow> holds s i \<lparr>key = k, val = v\<rparr>)"
    and erase_law: "repr s m \<Longrightarrow>
      \<exists>s'. erase k s = Some (s', map_option (\<lambda>v. \<lparr>key = k, val = v\<rparr>) (m k)) \<and> repr s' (m(k := None))"
    and erase_pos_law: "repr s m \<Longrightarrow> holds s i e \<Longrightarrow>
      \<exists>s'. erase_pos i s = Some (s', Some e) \<and> repr s' (m(key e := None))"
    and holds_law: "repr s m \<Longrightarrow> holds s i e \<Longrightarrow> valid s i \<and> deref s i = Some e \<and> m (key e) = Some (val e)"
    and write_law: "repr s m \<Longrightarrow> holds s i e \<Longrightarrow> repr (assign i v s) (m(key e \<mapsto> v))"
begin

lemma insert_map:
  assumes "repr s m" and "ready s"
  shows "\<exists>s' i. map_insert emplace k v s = Some (s', i, m k = None)
    \<and> repr s' (if m k = None then m(k \<mapsto> v) else m)"
  using emplace_law [OF assms, of "\<lparr>key = k, val = v\<rparr>"] by (auto simp: map_insert_def)

lemma erase_map:
  assumes "repr s m"
  shows "\<exists>s'. map_erase erase k s = Some (s', m k) \<and> repr s' (m(k := None))"
  using erase_law [OF assms, of k] by (cases "m k") (auto simp: map_erase_def)

lemma at_map:
  assumes "repr s m"
  shows "\<exists>s'. map_at lookup_at valid deref assign moved k s = Some (s', m k)
    \<and> repr s' (m(k := map_option moved (m k)))"
proof (cases "m k")
  case None
  with find_law [OF assms, of k] assms show ?thesis by (auto simp: map_at_def fun_upd_idem)
next
  case (Some v)
  then obtain i where i: "lookup_at k s = Some i" "holds s i \<lparr>key = k, val = v\<rparr>"
    using find_law [OF assms, of k] by auto
  note h = holds_law [OF assms i(2)] write_law [OF assms i(2), of "moved v"]
  show ?thesis using i(1) h Some by (auto simp: map_at_def)
qed

lemma index_map:
  assumes "repr s m" and "ready s"
  shows "\<exists>s' i v. map_index emplace deref d k s = Some (s', i, v)
    \<and> v = (case m k of None \<Rightarrow> d | Some v \<Rightarrow> v) \<and> repr s' (m(k \<mapsto> v)) \<and> holds s' i \<lparr>key = k, val = v\<rparr>"
proof -
  obtain s' i e' where e: "emplace \<lparr>key = k, val = d\<rparr> s = Some (s', i, m k = None)"
    and r: "repr s' (if m k = None then m(k \<mapsto> d) else m)" and h: "holds s' i e'" "key e' = k"
    using emplace_law [OF assms, of "\<lparr>key = k, val = d\<rparr>", unfolded key_value.simps] by blast
  have v: "val e' = (case m k of None \<Rightarrow> d | Some v \<Rightarrow> v)" and d: "deref s' i = Some e'"
    using holds_law [OF r h(1)] h(2) by (cases "m k"; auto)+
  have "(if m k = None then m(k \<mapsto> d) else m) = m(k \<mapsto> val e')"
    using v by (cases "m k") (auto simp: fun_eq_iff)
  then show ?thesis
    using e d r h v by (intro exI [of _ s'] exI [of _ i] exI [of _ "val e'"]) (cases e'; auto simp: map_index_def)
qed

lemma assign_map:
  assumes "repr s m" and "ready s"
  shows "\<exists>s'. map_assign emplace deref assign d k v s = Some s' \<and> repr s' (m(k \<mapsto> v))"
proof -
  obtain s' i w where "map_index emplace deref d k s = Some (s', i, w)" "repr s' (m(k \<mapsto> w))"
    "holds s' i \<lparr>key = k, val = w\<rparr>"
    using index_map [OF assms] by blast
  with write_law [of s' "m(k \<mapsto> w)" i "\<lparr>key = k, val = w\<rparr>" v] show ?thesis by (auto simp: map_assign_def)
qed

end

section \<open>Entries of a map\<close>

definition entries :: "('k, 'v) key_value set \<Rightarrow> ('k \<Rightarrow> 'v option) \<Rightarrow> bool" where
  "entries E m \<longleftrightarrow> (\<forall>e. e \<in> E \<longleftrightarrow> m (key e) = Some (val e))"

lemma entry_eq: "(x :: ('k, 'v) key_value) = y \<longleftrightarrow> key x = key y \<and> val x = val y"
  by (cases x; cases y) simp

lemma entries_key: "entries E m \<Longrightarrow> (\<exists>x\<in>E. key x = k) \<longleftrightarrow> m k \<noteq> None"
  by (auto simp: entries_def) (metis key_value.select_convs)

lemma entries_unique: "entries E m \<Longrightarrow> x \<in> E \<Longrightarrow> y \<in> E \<Longrightarrow> key x = key y \<Longrightarrow> x = y"
  by (auto simp: entries_def entry_eq)

lemma entries_insert: "entries E m \<Longrightarrow> m (key e) = None \<Longrightarrow> entries (insert e E) (m(key e \<mapsto> val e))"
  by (auto simp: entries_def entry_eq)

lemma entries_delete: "entries E m \<Longrightarrow> entries {x \<in> E. key x \<noteq> k} (m(k := None))"
  by (auto simp: entries_def)

lemma entries_update:
  "entries E m \<Longrightarrow> e \<in> E \<Longrightarrow> entries (insert (e\<lparr>val := v\<rparr>) {x \<in> E. key x \<noteq> key e}) (m(key e \<mapsto> v))"
  by (auto simp: entries_def entry_eq)

section \<open>\<open>TreeMap\<close> is a dictionary\<close>

definition tree_map_repr :: "('k::linorder, 'v) key_value treeset \<Rightarrow> ('k \<Rightarrow> 'v option) \<Rightarrow> bool" where
  "tree_map_repr s m \<longleftrightarrow> (\<exists>xs. tree_repr (compare_kv_kv compare) s xs \<and> entries (set xs) m)"

definition tree_holds :: "'a treeset \<Rightarrow> nat \<Rightarrow> 'a \<Rightarrow> bool" where
  "tree_holds s i x \<longleftrightarrow> 1 \<le> i \<and> i < e_next s \<and> n_active (e_node s i) \<and> n_data (e_node s i) = x"

lemma sorted_wrt_related: "sorted_wrt R xs \<Longrightarrow> x \<in> set xs \<Longrightarrow> y \<in> set xs \<Longrightarrow> x \<noteq> y \<Longrightarrow> R x y \<or> R y x"
  by (induction xs) auto

lemma tree_repr_holds:
  assumes "tree_repr cmp s xs" and "tree_holds s i x"
  shows "x \<in> set xs"
  using assms tree_okD(2) node_keys_nth by (fastforce simp: tree_repr_def tree_holds_def)

text \<open>Replacing an element by one that compares like it.\<close>

lemma tree_repr_assign:
  assumes repr: "tree_repr cmp s xs" and h: "tree_holds s i x"
    and same: "\<And>a. cmp a y = cmp a x \<and> cmp y a = cmp x a" and C: "comparison cmp"
  shows "\<exists>ys. tree_repr cmp (set_data i y s) ys \<and> set ys = insert y {z \<in> set xs. cmp z x \<noteq> 0}"
proof -
  obtain t where ok: "tree_ok s t" and keys: "node_keys s t = xs"
    and sorted: "sorted_wrt (\<lambda>a b. cmp a b < 0) xs"
    using repr by (auto simp: tree_repr_def)
  let ?s = "set_data i y s"
  have f: "n_data (e_node ?s j) = (if j = i then y else n_data (e_node s j))"
    "n_active (e_node ?s j) = n_active (e_node s j)" for j
    by simp_all
  have i: "i \<in> set_tree t" "n_data (e_node s i) = x"
    using h tree_okD(2) [OF ok, of i] by (simp_all add: tree_holds_def)
  have slots: "set_tree t = {i. 1 \<le> i \<and> i < e_next s \<and> n_active (e_node s i)}"
    using ok by (simp add: tree_ok_def)
  have "tree_ok ?s t"
    using ok unfolding tree_ok_def tree_core_def
    by (simp add: avl_set_data field_reads del: upd_node_simps(4))
  moreover have srt: "sorted_wrt (\<lambda>j k. cmp (n_data (e_node s j)) (n_data (e_node s k)) < 0) (inorder t)"
    using sorted keys by (auto simp: node_keys_def sorted_wrt_map)
  then have "sorted_wrt (\<lambda>a b. cmp a b < 0) (node_keys ?s t)"
    unfolding node_keys_def sorted_wrt_map f
    by (rule sorted_wrt_mono_rel [rotated]) (use same i(2) in auto)
  moreover have "set (node_keys ?s t) = insert y {z \<in> set xs. cmp z x \<noteq> 0}"
  proof -
    have ne: "cmp (n_data (e_node s j)) x \<noteq> 0" if "j \<in> set_tree t" "j \<noteq> i" for j
      using sorted_wrt_related [OF srt, of j i] that i comparison.cmp_zero_sym [OF C]
      by (metis less_irrefl set_inorder)
    have x0: "cmp x x = 0" using comparison.cmp_refl [OF C] .
    have "set (node_keys ?s t) = insert y ((\<lambda>j. n_data (e_node s j)) ` (set_tree t - {i}))"
      unfolding node_keys_def set_map set_inorder f using i(1) by auto
    also have "(\<lambda>j. n_data (e_node s j)) ` (set_tree t - {i}) = {z \<in> set xs. cmp z x \<noteq> 0}"
      unfolding keys [symmetric] node_keys_def set_map set_inorder using ne x0 i(2) by auto
    finally show ?thesis .
  qed
  ultimately show ?thesis unfolding tree_repr_def by blast
qed

lemma tree_map_holds:
  assumes "tree_map_repr s m" and "tree_holds s i e"
  shows "m (key e) = Some (val e)"
  using assms(1) tree_repr_holds [OF _ assms(2)] by (auto simp: tree_map_repr_def entries_def)

lemma key_compare [simp]:
  "compare_kv_kv compare a b = 0 \<longleftrightarrow> key a = key b" "compare_kv_key compare a k = 0 \<longleftrightarrow> key a = k"
  by (simp_all add: compare_kv_kv_def compare_kv_key_def)

context lookup
begin

lemma repr_erase_at:
  assumes repr: "tree_repr cmp s xs" and h: "tree_holds s i x" and v: "ocmp x v = 0"
  shows "\<exists>s'. tree_erase_at i s = Some (s', Some x) \<and> tree_repr cmp s' (del ocmp v xs)"
proof -
  obtain t where ok: "tree_ok s t" and keys: "node_keys s t = xs" and sorted: "sorted_nodes (e_node s) (inorder t)"
    using repr by (rule repr_nodes)
  have i: "i \<in> set_tree t" "n_data (e_node s i) = x"
    using h tree_okD(2) [OF ok, of i] by (simp_all add: tree_holds_def)
  obtain s' t' where ex: "tree_extract i s = Some (s', n_data (e_node s i))" and ok': "tree_ok s' t'"
    and io: "inorder t' = remove1 i (inorder t)" and sh: "shrunk i s s'"
    using extract_ok [OF ok i(1)] by blast
  have "node_keys s' t' = del ocmp v xs"
    using del_node [OF sorted i(1) _ tree_coreD(2) [OF tree_okD(1) [OF ok]], of v] keys v i(2) sh
    by (simp add: node_keys_def io shrunk_def)
  then have "tree_repr cmp s' (del ocmp v xs)"
    using ok' repr unfolding tree_repr_def
    by (intro exI [of _ t']) (auto simp: del_def sorted_wrt_filter)
  then show ?thesis using h ex i(2) by (auto simp: tree_erase_at_def tree_holds_def)
qed

lemma repr_find_holds:
  assumes repr: "tree_repr cmp s xs"
  shows "\<exists>i. tree_find ocmp v s = Some i
    \<and> (i = 0 \<and> (\<forall>x\<in>set xs. ocmp x v \<noteq> 0) \<or> (\<exists>x. tree_holds s i x \<and> ocmp x v = 0))"
proof -
  obtain t where ok: "tree_ok s t" and keys: "node_keys s t = xs" and sorted: "sorted_nodes (e_node s) (inorder t)"
    using repr by (rule repr_nodes)
  from find_node [OF tree_okD(1) [OF ok] sorted, of v] tree_okD(2) [OF ok] keys show ?thesis
    by (auto simp: tree_holds_def)
qed

end

lemma tree_map_emplace:
  assumes "tree_map_repr s m" and grow: "can_grow alloc s"
  shows "\<exists>s' i. tree_emplace (compare_kv_kv compare) alloc e s = Some (s', i, m (key e) = None)
    \<and> tree_map_repr s' (if m (key e) = None then m(key e \<mapsto> val e) else m)
    \<and> (\<exists>e'. tree_holds s' i e' \<and> key e' = key e)"
proof -
  obtain xs where xs: "tree_repr (compare_kv_kv compare) s xs" and E: "entries (set xs) m"
    using assms(1) by (auto simp: tree_map_repr_def)
  obtain s' j b where run: "tree_emplace (compare_kv_kv compare) alloc e s = Some (s', j, b)"
    and ins: "tree_repr (compare_kv_kv compare) s' (ins (compare_kv_kv compare) e xs)"
      "b = (\<forall>x\<in>set xs. key x \<noteq> key e)" "1 \<le> j" "j < e_next s'"
      "iter_value s' j = (if b then Some e else find (\<lambda>x. key x = key e) xs)"
    using comparison.repr_emplace [OF integral_kv.comparison_axioms xs grow, of e]
    unfolding comparison.inserted_def [OF integral_kv.comparison_axioms] key_compare by blast
  have b: "b \<longleftrightarrow> m (key e) = None" using entries_key [OF E, of "key e"] ins(2) by auto
  have "entries (set (ins (compare_kv_kv compare) e xs)) (if m (key e) = None then m(key e \<mapsto> val e) else m)"
    using entries_insert [OF E, of e] E b ins(2) by (auto simp: set_ins)
  moreover have "\<exists>e'. iter_value s' j = Some e' \<and> key e' = key e"
  proof (cases b)
    case False
    then have "find (\<lambda>x. key x = key e) xs \<noteq> None" using ins(2) by (auto simp: find_None_iff)
    with ins(5) False show ?thesis using find_SomeD by fastforce
  qed (use ins(5) in simp)
  then have "\<exists>e'. tree_holds s' j e' \<and> key e' = key e"
    using ins(3,4) by (auto simp: tree_holds_def iter_value_def split: if_splits)
  ultimately show ?thesis using run ins(1) b by (auto simp: tree_map_repr_def)
qed

lemma tree_map_find:
  assumes "tree_map_repr s m"
  shows "\<exists>i. tree_find (compare_kv_key compare) k s = Some i
    \<and> (case m k of None \<Rightarrow> \<not> i \<noteq> 0 | Some v \<Rightarrow> tree_holds s i \<lparr>key = k, val = v\<rparr>)"
proof -
  obtain xs where xs: "tree_repr (compare_kv_kv compare) s xs" and E: "entries (set xs) m"
    using assms(1) by (auto simp: tree_map_repr_def)
  obtain i where find: "tree_find (compare_kv_key compare) k s = Some i"
    and i: "i = 0 \<and> (\<forall>x\<in>set xs. key x \<noteq> k) \<or> (\<exists>x. tree_holds s i x \<and> key x = k)"
    using integral_kv.repr_find_holds [OF xs, of k] by auto
  show ?thesis
  proof (cases "\<exists>x. tree_holds s i x \<and> key x = k")
    case True
    then obtain x where x: "tree_holds s i x" "key x = k" by blast
    then have "m k = Some (val x)" using tree_map_holds [OF assms x(1)] by simp
    moreover have "x = \<lparr>key = k, val = val x\<rparr>" using x(2) by (simp add: entry_eq)
    ultimately show ?thesis using find x(1) by auto
  next
    case False
    then have "m k = None" using i entries_key [OF E, of k] by auto
    with find i False show ?thesis by auto
  qed
qed

lemma tree_map_removed:
  assumes "tree_repr (compare_kv_kv compare) s (filter (\<lambda>x. key x \<noteq> k) xs)" and "entries (set xs) m"
  shows "tree_map_repr s (m(k := None))"
  unfolding tree_map_repr_def
  using assms(1) entries_delete [OF assms(2), of k]
  by (intro exI [of _ "filter (\<lambda>x. key x \<noteq> k) xs"]) simp

lemma tree_map_erases:
  assumes "tree_map_repr s m"
  shows "\<exists>s'. tree_erase (compare_kv_key compare) k s = Some (s', map_option (\<lambda>v. \<lparr>key = k, val = v\<rparr>) (m k))
    \<and> tree_map_repr s' (m(k := None))"
proof -
  obtain xs where xs: "tree_repr (compare_kv_kv compare) s xs" and E: "entries (set xs) m"
    using assms(1) by (auto simp: tree_map_repr_def)
  have "find (\<lambda>x. key x = k) xs = map_option (\<lambda>v. \<lparr>key = k, val = v\<rparr>) (m k)"
  proof (cases "find (\<lambda>x. key x = k) xs")
    case None
    then show ?thesis using entries_key [OF E, of k] by (auto simp: find_None_iff)
  next
    case (Some x)
    then have "x \<in> set xs" "key x = k" using find_SomeD by fastforce+
    then show ?thesis using E Some by (auto simp: entries_def entry_eq)
  qed
  then show ?thesis
    using integral_kv.repr_erase [OF xs, of k] tree_map_removed [OF _ E, of _ k] by (auto simp: del_def)
qed

lemma tree_map_erases_at:
  assumes "tree_map_repr s m" and h: "tree_holds s i e"
  shows "\<exists>s'. tree_erase_at i s = Some (s', Some e) \<and> tree_map_repr s' (m(key e := None))"
proof -
  obtain xs where xs: "tree_repr (compare_kv_kv compare) s xs" and E: "entries (set xs) m"
    using assms(1) by (auto simp: tree_map_repr_def)
  show ?thesis
    using integral_kv.repr_erase_at [OF xs h, of "key e"] tree_map_removed [OF _ E, of _ "key e"]
    by (auto simp: del_def)
qed

lemma tree_map_assigns:
  assumes "tree_map_repr s m" and h: "tree_holds s i e"
  shows "tree_map_repr (tree_assign i v s) (m(key e \<mapsto> v))"
proof -
  obtain xs where xs: "tree_repr (compare_kv_kv compare) s xs" and E: "entries (set xs) m"
    using assms(1) by (auto simp: tree_map_repr_def)
  have e: "e \<in> set xs" "n_data (e_node s i) = e"
    using tree_repr_holds [OF xs h] h by (simp_all add: tree_holds_def)
  obtain ys where "tree_repr (compare_kv_kv compare) (set_data i (e\<lparr>val := v\<rparr>) s) ys"
    and "set ys = insert (e\<lparr>val := v\<rparr>) {z \<in> set xs. compare_kv_kv compare z e \<noteq> 0}"
    using tree_repr_assign [OF xs h, of "e\<lparr>val := v\<rparr>"] integral_kv.comparison_axioms
    by (auto simp: compare_kv_kv_def)
  then show ?thesis
    using entries_update [OF E e(1), of v] e(2)
    unfolding tree_map_repr_def tree_assign_def key_compare by metis
qed

interpretation tree_map: dictionary tree_map_repr "can_grow alloc" "tree_emplace (compare_kv_kv compare) alloc"
    "tree_find (compare_kv_key compare)" "tree_erase (compare_kv_key compare)" tree_erase_at
    "\<lambda>s i. i \<noteq> 0" iter_value tree_assign tree_holds
proof (unfold_locales, goal_cases)
  case 1 then show ?case by (rule tree_map_emplace)
next
  case 2 then show ?case by (rule tree_map_find)
next
  case 3 then show ?case by (rule tree_map_erases)
next
  case 4 then show ?case by (rule tree_map_erases_at)
next
  case (5 s m i e)
  then show ?case using tree_map_holds [OF 5] by (auto simp: tree_holds_def iter_value_def)
next
  case 6 then show ?case by (rule tree_map_assigns)
qed

section \<open>\<open>HashMap\<close> is a dictionary\<close>

definition hash_map_repr :: "('k \<Rightarrow> u32) \<Rightarrow> ('k, 'v) key_value hashset \<Rightarrow> ('k \<Rightarrow> 'v option) \<Rightarrow> bool" where
  "hash_map_repr hash s m \<longleftrightarrow>
     (\<exists>M. hash_repr (equal_kv_kv (=)) (hash_kv hash) s M \<and> entries (set_mset M) m)"

definition hash_holds :: "'a hashset \<Rightarrow> nat \<Rightarrow> 'a \<Rightarrow> bool" where
  "hash_holds s i x \<longleftrightarrow> i \<in> used s \<and> n_data (e_node s i) = x"

lemma key_equal [simp]: "equal_kv_kv (=) a b \<longleftrightarrow> key a = key b" "equal_kv_key (=) a k \<longleftrightarrow> key a = k"
  by (simp_all add: equal_kv_kv_def equal_kv_key_def)

lemma kv_hashing: "hashing (equal_kv_kv (=)) (hash_kv hash)"
  by (rule hashing_kv) (rule hashing_eq)

lemma kv_lookup: "hash_lookup (equal_kv_kv (=)) (hash_kv hash) (equal_kv_key (=)) hash"
  by (rule hash_lookup_kv) (rule hash_lookup_self [OF hashing_eq])

lemma hash_map_reprE:
  assumes "hash_map_repr hash s m"
  obtains M where "hash_repr (equal_kv_kv (=)) (hash_kv hash) s M" "entries (set_mset M) m"
    "set_mset M = (\<lambda>i. n_data (e_node s i)) ` used s" "hash_ok (equal_kv_kv (=)) (hash_kv hash) s"
  using assms set_hvalues hash_reprD by (metis hash_map_repr_def)

lemma hash_map_holds:
  assumes "hash_map_repr hash s m" and "hash_holds s i e"
  shows "m (key e) = Some (val e)"
  using assms(1)
proof (rule hash_map_reprE)
  fix M assume "entries (set_mset M) m" "set_mset M = (\<lambda>i. n_data (e_node s i)) ` used s"
  moreover have "e \<in> (\<lambda>i. n_data (e_node s i)) ` used s" using assms(2) by (auto simp: hash_holds_def)
  ultimately show ?thesis by (simp add: entries_def)
qed

lemma hash_map_emplace:
  assumes L: "valid_load L" and r: "hash_map_repr hash s m" and grow: "hash_can_grow alloc s"
  shows "\<exists>s' i. hash_emplace (equal_kv_kv (=)) (hash_kv hash) L alloc e s = Some (s', i, m (key e) = None)
    \<and> hash_map_repr hash s' (if m (key e) = None then m(key e \<mapsto> val e) else m)
    \<and> (\<exists>e'. hash_holds s' i e' \<and> key e' = key e)"
  using r
proof (rule hash_map_reprE)
  fix M assume M: "hash_repr (equal_kv_kv (=)) (hash_kv hash) s M" and E: "entries (set_mset M) m"
  obtain s' i b where run: "hash_emplace (equal_kv_kv (=)) (hash_kv hash) L alloc e s = Some (s', i, b)"
    and b: "b \<longleftrightarrow> (\<forall>x\<in>#M. key x \<noteq> key e)"
    and r': "hash_repr (equal_kv_kv (=)) (hash_kv hash) s' (if b then add_mset e M else M)"
    and i: "i \<in> used s'" "key (n_data (e_node s' i)) = key e"
    using hash_insert_ok(2) [OF kv_hashing L M grow, of e] by (auto simp: hash_added_def)
  have bm: "b \<longleftrightarrow> m (key e) = None" using entries_key [OF E, of "key e"] b by auto
  have "entries (set_mset (if b then add_mset e M else M)) (if b then m(key e \<mapsto> val e) else m)"
    using entries_insert [OF E, of e] E bm by auto
  then have "hash_map_repr hash s' (if b then m(key e \<mapsto> val e) else m)"
    using r' unfolding hash_map_repr_def by blast
  then show ?thesis using run bm i by (auto simp: hash_holds_def)
qed

lemma hash_map_find:
  assumes r: "hash_map_repr hash s m"
  shows "\<exists>i. hash_find (equal_kv_key (=)) hash k s = Some i
    \<and> (case m k of None \<Rightarrow> \<not> (i \<noteq> 0 \<and> i \<noteq> e_next s) | Some v \<Rightarrow> hash_holds s i \<lparr>key = k, val = v\<rparr>)"
  using r
proof (rule hash_map_reprE)
  fix M assume E: "entries (set_mset M) m" and M: "set_mset M = (\<lambda>i. n_data (e_node s i)) ` used s"
    and ok: "hash_ok (equal_kv_kv (=)) (hash_kv hash) s"
  obtain i where find: "hash_find (equal_kv_key (=)) hash k s = Some i"
    and i: "i \<in> used s \<and> key (n_data (e_node s i)) = k \<or> i = e_next s \<and> (\<forall>j\<in>used s. key (n_data (e_node s j)) \<noteq> k)"
    using hash_find_ok [OF kv_lookup ok, of k] by auto
  show ?thesis
  proof (cases "i \<in> used s \<and> key (n_data (e_node s i)) = k")
    case True
    let ?x = "n_data (e_node s i)"
    have h: "hash_holds s i ?x" using True by (simp add: hash_holds_def)
    have "m k = Some (val ?x)" using hash_map_holds [OF r h] True by simp
    moreover have "?x = \<lparr>key = k, val = val ?x\<rparr>" using True by (simp add: entry_eq)
    ultimately show ?thesis using find h by auto
  next
    case False
    then have "m k = None" using i entries_key [OF E, of k] M by auto
    with find i False show ?thesis by auto
  qed
qed

lemma hash_map_erases:
  assumes r: "hash_map_repr hash s m"
  shows "\<exists>s'. hash_erase (equal_kv_key (=)) hash k s = Some (s', map_option (\<lambda>v. \<lparr>key = k, val = v\<rparr>) (m k))
    \<and> hash_map_repr hash s' (m(k := None))"
  using r
proof (rule hash_map_reprE)
  fix M assume M: "hash_repr (equal_kv_kv (=)) (hash_kv hash) s M" and E: "entries (set_mset M) m"
  obtain s' x where run: "hash_erase (equal_kv_key (=)) hash k s = Some (s', x)"
    and r': "hash_repr (equal_kv_kv (=)) (hash_kv hash) s' (filter_mset (\<lambda>a. key a \<noteq> k) M)"
    and x: "case x of None \<Rightarrow> \<forall>a\<in>#M. key a \<noteq> k | Some a \<Rightarrow> a \<in># M \<and> key a = k"
    using hash_erase_ok [OF kv_lookup M, of k] unfolding key_equal by blast
  have "x = map_option (\<lambda>v. \<lparr>key = k, val = v\<rparr>) (m k)"
  proof (cases x)
    case None
    then show ?thesis using x entries_key [OF E, of k] by auto
  next
    case (Some a)
    then have "m k = Some (val a)" "key a = k" using x E by (auto simp: entries_def)
    with Some show ?thesis by (simp add: entry_eq)
  qed
  moreover have "hash_map_repr hash s' (m(k := None))"
    unfolding hash_map_repr_def using r' entries_delete [OF E, of k] by (intro exI conjI) auto
  ultimately show ?thesis using run by blast
qed

lemma hash_map_erases_at:
  assumes r: "hash_map_repr hash s m" and h: "hash_holds s i e"
  shows "\<exists>s'. hash_erase_at i s = Some (s', Some e) \<and> hash_map_repr hash s' (m(key e := None))"
  using r
proof (rule hash_map_reprE)
  fix M assume E: "entries (set_mset M) m" and M: "set_mset M = (\<lambda>i. n_data (e_node s i)) ` used s"
    and ok: "hash_ok (equal_kv_kv (=)) (hash_kv hash) s"
  have i: "i \<in> used s" "n_data (e_node s i) = e" using h by (simp_all add: hash_holds_def)
  obtain s' where run: "hash_extract i s = Some (s', n_data (e_node s i))"
    and ok': "hash_ok (equal_kv_kv (=)) (hash_kv hash) s'" and u: "used s' = used s - {i}"
    and d: "\<And>x. n_data (e_node s' x) = n_data (e_node s x)"
    using hash_extract_ok [OF ok i(1)] by blast
  have "key (n_data (e_node s j)) \<noteq> key e" if "j \<in> used s" "j \<noteq> i" for j
    using hash_okD(6) [OF ok that(1) i(1) that(2)] i(2) by simp
  then have "set_mset (hvalues s') = {x \<in> set_mset M. key x \<noteq> key e}"
    unfolding set_hvalues u d M using i by auto
  then have "hash_map_repr hash s' (m(key e := None))"
    unfolding hash_map_repr_def using ok' entries_delete [OF E, of "key e"]
    by (intro exI [of _ "hvalues s'"]) (simp add: hash_repr_def)
  moreover have "hash_erase_at i s = Some (s', Some e)"
    using i run by (simp add: hash_erase_at_def used_def)
  ultimately show ?thesis by blast
qed

lemma chained_data: "chained (hset_data i v s) cs A = chained s cs A"
proof -
  have f: "n_active (e_node (hset_data i v s) x) = n_active (e_node s x)"
    "h_prev (e_node (hset_data i v s) x) = h_prev (e_node s x)"
    "h_next (e_node (hset_data i v s) x) = h_next (e_node s x)"
    "h_temp (e_node (hset_data i v s) x) = h_temp (e_node s x)" for x
    by simp_all
  have "chain (e_node (hset_data i v s)) 0 b xs = chain (e_node s) 0 b xs" for b xs
    by (rule chain_cong) (simp only: f simp_thms)
  then show ?thesis unfolding chained_def f by simp
qed

lemma hash_map_assigns:
  assumes r: "hash_map_repr hash s m" and h: "hash_holds s i e"
  shows "hash_map_repr hash (hash_assign i v s) (m(key e \<mapsto> v))"
  using r
proof (rule hash_map_reprE)
  fix M assume E: "entries (set_mset M) m" and M: "set_mset M = (\<lambda>i. n_data (e_node s i)) ` used s"
    and ok: "hash_ok (equal_kv_kv (=)) (hash_kv hash) s"
  have i: "i \<in> used s" "n_data (e_node s i) = e" using h by (simp_all add: hash_holds_def)
  let ?s = "hash_assign i v s"
  have s: "?s = hset_data i (e\<lparr>val := v\<rparr>) s" by (simp add: hash_assign_def i)
  have f: "n_data (e_node ?s x) = (if x = i then e\<lparr>val := v\<rparr> else n_data (e_node s x))"
    "n_active (e_node ?s x) = n_active (e_node s x)" "h_temp (e_node ?s x) = h_temp (e_node s x)"
    "e_next ?s = e_next s" "e_capacity ?s = e_capacity s" "e_count ?s = e_count s" "b_capacity ?s = b_capacity s" for x
    by (simp_all add: s)
  have k: "key (n_data (e_node ?s x)) = key (n_data (e_node s x))" for x
    using i(2) by (simp add: f)
  have u: "used ?s = used s" by (simp add: used_def f)
  have "elements_ok ?s"
    using elements_okD [OF hash_okD(1) [OF ok]] by (intro elements_okI) (simp_all only: f u)
  moreover obtain cs where "chained ?s cs (used s)" using hash_okD(4) [OF ok] by (auto simp: s chained_data)
  ultimately have ok': "hash_ok (equal_kv_kv (=)) (hash_kv hash) ?s"
    using hash_okD(3,5,6) [OF ok] unfolding hash_ok_def hash_slots_def u key_equal hash_kv_def k f(3-7) by blast
  have "key (n_data (e_node s j)) \<noteq> key e" if "j \<in> used s" "j \<noteq> i" for j
    using hash_okD(6) [OF ok that(1) i(1) that(2)] i(2) by simp
  then have "set_mset (hvalues ?s) = insert (e\<lparr>val := v\<rparr>) {x \<in> set_mset M. key x \<noteq> key e}"
    unfolding set_hvalues u M f(1) using i by auto
  moreover have "e \<in> set_mset M" unfolding M using i by auto
  ultimately show ?thesis
    unfolding hash_map_repr_def using ok' entries_update [OF E, of e v]
    by (intro exI [of _ "hvalues ?s"]) (simp add: hash_repr_def)
qed

interpretation hash_map: dictionary "hash_map_repr hash" "\<lambda>s. valid_load L \<and> hash_can_grow alloc s"
    "hash_emplace (equal_kv_kv (=)) (hash_kv hash) L alloc"
    "hash_find (equal_kv_key (=)) hash" "hash_erase (equal_kv_key (=)) hash" hash_erase_at
    "\<lambda>s i. i \<noteq> 0 \<and> i \<noteq> e_next s" hash_value hash_assign hash_holds
proof (unfold_locales, goal_cases)
  case 1 then show ?case using hash_map_emplace by blast
next
  case 2 then show ?case by (rule hash_map_find)
next
  case 3 then show ?case by (rule hash_map_erases)
next
  case 4 then show ?case by (rule hash_map_erases_at)
next
  case (5 s m i e)
  then show ?case using hash_map_holds [OF 5] by (auto simp: hash_holds_def hash_value_def used_def)
next
  case 6 then show ?case by (rule hash_map_assigns)
qed

end
