(* ===== verification/HashTheorems.thy ===== *)
theory HashTheorems
  imports Maps
begin

text \<open>
  The properties of \<open>HashSet\<close>, \<open>HashMap\<close> and \<open>TreeMap\<close> (include/dlh/container/hash.hpp and
  tree.hpp), for every equality and hash that keep the contract \<open>hashing\<close> or \<open>hash_lookup\<close>, each
  with an instance on a concrete container.
\<close>

text \<open>A set with the values 10 and 34, whose hashes share the bucket 10 of 24.\<close>

definition example_hash :: "u32 hashset" where
  "example_hash = \<lparr>e_capacity = 16, e_next = 4, e_count = 2,
     e_node = (\<lambda>i. \<lparr>n_active = (i = 1 \<or> i = 2), n_data = (if i = 1 then 10 else if i = 2 then 34 else 0),
       h_prev = (if i = 1 then 2 else 0), h_next = (if i = 2 then 1 else 0),
       h_temp = (if i = 1 then 10 else if i = 2 then 34 else 0)\<rparr>),
     b_capacity = 24, b_bucket = (\<lambda>b. if b = 10 then 2 else 0)\<rparr>"

lemma used_example: "used example_hash = {1, 2}"
  by (auto simp: used_def example_hash_def)

lemma example_hash_repr: "hash_repr (=) hash_u32 example_hash {#10, 34#}"
proof -
  have el: "elements_ok example_hash"
    by (intro elements_okI) (simp_all only: used_example, simp_all add: example_hash_def UINT32_MAX_def)
  have "chained example_hash (\<lambda>b. if b = 10 then [2, 1] else []) (used example_hash)"
    unfolding chained_def used_example by (auto simp: example_hash_def)
  then have "hash_ok (=) hash_u32 example_hash"
    using el unfolding hash_ok_def hash_slots_def used_example
    by (auto simp: hash_u32_def example_hash_def)
  moreover have "hvalues example_hash = {#10, 34#}"
    by (simp add: hvalues_def used_example) (simp add: example_hash_def)
  ultimately show ?thesis by (simp add: hash_repr_def)
qed

lemma example_hash_size: "e_capacity example_hash = 16" "e_next example_hash = 4" "b_capacity example_hash = 24"
  by (simp_all add: example_hash_def)

definition fresh_nodes :: "nat \<Rightarrow> u32 hash_node" where
  "fresh_nodes i = \<lparr>n_active = True, n_data = 3, h_prev = 1, h_next = 1, h_temp = 9\<rparr>"

definition fresh_buckets :: "nat \<Rightarrow> nat" where
  "fresh_buckets i = 1"

text \<open>The default load factor of the code is a valid one.\<close>

lemma load_150: "valid_load 150"
  by (simp add: valid_load_def UINT32_MAX_def)

section \<open>Sets\<close>

text \<open>
  C13.  \<open>insert(value)\<close> and \<open>emplace(args)\<close> return when there is memory to grow and the set is not a
  full one whose values have all been erased; the set then holds its values and the new one,
  unless an equal one was there; the flag tells which, and the position holds the value.
\<close>

theorem hash_insert_correct:
  assumes "hashing eq hash" and "valid_load L" and "hash_repr eq hash s M" and "hash_can_grow alloc s"
    and "f = hash_insert eq hash L alloc \<or> f = hash_emplace eq hash L alloc"
  shows "\<exists>s' i b. f v s = Some (s', i, b) \<and> b = (\<forall>x\<in>#M. \<not> eq x v)
    \<and> hash_repr eq hash s' (if b then add_mset v M else M)
    \<and> (\<exists>x. hash_value s' i = Some x \<and> eq x v \<and> (b \<longrightarrow> x = v))"
proof -
  have "\<exists>r. f v s = Some r \<and> hash_added eq hash M v r"
    using assms(5) hash_insert_ok [OF assms(1-4), of v] by blast
  then obtain s' i b where "f v s = Some (s', i, b)" "hash_added eq hash M v (s', i, b)"
    by (metis prod_cases3)
  then show ?thesis
    using hash_valueI [of i s'] unfolding hash_added_def prod.case by blast
qed

theorem hash_insert_correct_witness:
  "\<exists>s' i. hash_insert (=) hash_u32 150 (\<lambda>n. n = 32) 58 example_hash = Some (s', i, True)
    \<and> hash_repr (=) hash_u32 s' {#58, 10, 34#} \<and> hash_value s' i = Some 58"
  using hash_insert_correct [OF hashing_eq load_150 example_hash_repr, of "\<lambda>n. n = 32" _ 58, OF _ disjI1 [OF refl]]
  by (auto simp: hash_can_grow_def example_hash_size UINT32_MAX_def)

text \<open>
  C14.  \<open>erase(value)\<close> always returns; it gives back the value that is equal to the search value,
  which may be of another type, if there is one, and leaves the others.
\<close>

theorem hash_erase_correct:
  assumes "hash_lookup eq hash oeq ohash" and "hash_repr eq hash s M"
  shows "\<exists>s' x. hash_erase oeq ohash v s = Some (s', x)
    \<and> hash_repr eq hash s' (filter_mset (\<lambda>a. \<not> oeq a v) M)
    \<and> (case x of None \<Rightarrow> \<forall>a\<in>#M. \<not> oeq a v | Some a \<Rightarrow> a \<in># M \<and> oeq a v)"
  using hash_erase_ok [OF assms] by blast

theorem hash_erase_correct_witness:
  "\<exists>s'. hash_erase (=) hash_u32 10 example_hash = Some (s', Some 10) \<and> hash_repr (=) hash_u32 s' {#34#}"
  using hash_erase_correct [OF hash_lookup_self [OF hashing_eq] example_hash_repr, of 10]
  by (auto split: option.splits)

lemma hash_find_correct_facts:
  assumes "hash_lookup eq hash oeq ohash" and "hash_repr eq hash s M"
  shows "\<exists>i. hash_find oeq ohash v s = Some i
    \<and> (if \<exists>a\<in>#M. oeq a v then \<exists>a\<in>#M. oeq a v \<and> i \<noteq> e_next s \<and> hash_value s i = Some a else i = e_next s)"
    and "hash_contains oeq ohash v s = Some (\<exists>a\<in>#M. oeq a v)"
proof -
  note ok = hash_reprD(1) [OF assms(2)]
  have M: "set_mset M = (\<lambda>i. n_data (e_node s i)) ` used s"
    using set_hvalues [of s] hash_reprD(2) [OF assms(2)] by simp
  show "\<exists>i. hash_find oeq ohash v s = Some i
    \<and> (if \<exists>a\<in>#M. oeq a v then \<exists>a\<in>#M. oeq a v \<and> i \<noteq> e_next s \<and> hash_value s i = Some a else i = e_next s)"
    using hash_find_ok [OF assms(1) ok, of v] hash_valueI [of _ s] unfolding M by (auto simp: used_def)
  show "hash_contains oeq ohash v s = Some (\<exists>a\<in>#M. oeq a v)"
    using hash_contains_ok [OF assms(1) ok, of v] unfolding M by simp
qed

text \<open>
  C15.  \<open>find\<close> and \<open>contains\<close> find exactly the values that are in the set, although only one
  bucket is searched.
\<close>

theorem hash_find_correct:
  assumes "hash_lookup eq hash oeq ohash" and "hash_repr eq hash s M"
  shows "(\<exists>i. hash_find oeq ohash v s = Some i
    \<and> (if \<exists>a\<in>#M. oeq a v then \<exists>a\<in>#M. oeq a v \<and> i \<noteq> e_next s \<and> hash_value s i = Some a else i = e_next s))
    \<and> (hash_contains oeq ohash v s = Some (\<exists>a\<in>#M. oeq a v))"
  by (rule conjI, rule hash_find_correct_facts(1) [OF assms],
    rule hash_find_correct_facts(2) [OF assms])

theorem hash_find_correct_witness:
  "hash_contains (=) hash_u32 34 example_hash = Some True \<and> hash_find (=) hash_u32 11 example_hash = Some 4"
  using hash_find_correct [OF hash_lookup_self [OF hashing_eq] example_hash_repr, of 34]
    hash_find_correct [OF hash_lookup_self [OF hashing_eq] example_hash_repr, of 11]
  by (auto simp: example_hash_size)

lemma hash_iteration_correct_facts:
  assumes "hash_repr eq hash s M"
  shows "\<exists>vs. hash_iterate s (hash_begin s) = Some vs \<and> mset vs = M"
    and "i \<in> used s \<Longrightarrow> hash_next s i \<noteq> e_next s \<Longrightarrow> hash_next s i \<in> used s \<and> hash_prev s (hash_next s i) = i"
  using hash_iterate_ok [OF assms] hash_prev_next [of i s] by blast+

text \<open>C16.  Iterating from \<open>begin()\<close> to \<open>end()\<close> visits every value once, and \<open>--\<close> undoes \<open>++\<close>.\<close>

theorem hash_iteration_correct:
  assumes "hash_repr eq hash s M"
  shows "(\<exists>vs. hash_iterate s (hash_begin s) = Some vs \<and> mset vs = M)
    \<and> ((i \<in> used s) \<longrightarrow> (hash_next s i \<noteq> e_next s) \<longrightarrow> (hash_next s i \<in> used s \<and> hash_prev s (hash_next s i) = i))"
  by (rule conjI, rule hash_iteration_correct_facts(1) [OF assms],
    (rule impI)+, rule hash_iteration_correct_facts(2) [OF assms], assumption+)

theorem hash_iteration_correct_witness:
  "(\<exists>vs. hash_iterate example_hash (hash_begin example_hash) = Some vs \<and> mset vs = {#10, 34#})
    \<and> hash_prev example_hash 2 = 1"
proof -
  have "hash_next example_hash 1 = 2" by (simp add: hash_next_def example_hash_def numeral_eq_Suc)
  then show ?thesis
    using hash_iteration_correct [OF example_hash_repr, THEN conjunct1] hash_iteration_correct [OF example_hash_repr, THEN conjunct2, THEN mp, THEN mp, of 1] by (simp add: used_example example_hash_size)
qed

lemma hash_resize_correct_facts:
  assumes "valid_load L" and "hash_repr eq hash s M"
  shows "\<exists>s' b. hash_resize hash L alloc c s = Some (s', b) \<and> hash_repr eq hash s' M
      \<and> (b \<longleftrightarrow> size M < c \<and> c \<le> UINT32_MAX \<and> (max 16 c = e_capacity s \<or> alloc (max 16 c)))
      \<and> e_capacity s' = (if b then max 16 c else e_capacity s)"
    and "\<exists>s'. hash_rehash hash s = Some s' \<and> hash_repr eq hash s' M"
    and "hash_repr eq hash (hash_clear s) {#}"
    and "(0 < b_capacity s \<longrightarrow> 0 < e_capacity s \<and> alloc (e_capacity s)) \<Longrightarrow> e_capacity s = 0 \<or> alloc (e_capacity s) \<Longrightarrow>
      \<exists>s'. hash_copy integral alloc h b s = Some s' \<and> hash_repr eq hash s' M"
    and "bucket_count s \<le> hash_size s"
proof -
  have "e_count s = size M" using hash_size_ok [OF assms(2)] by (simp add: hash_size_def)
  then show "\<exists>s' b. hash_resize hash L alloc c s = Some (s', b) \<and> hash_repr eq hash s' M
      \<and> (b \<longleftrightarrow> size M < c \<and> c \<le> UINT32_MAX \<and> (max 16 c = e_capacity s \<or> alloc (max 16 c)))
      \<and> e_capacity s' = (if b then max 16 c else e_capacity s)"
    using hash_resize_ok [OF assms(1) hash_reprD(1) [OF assms(2)], of alloc c] hash_reprD(2) [OF assms(2)]
    unfolding hash_repr_def by fastforce
  show "\<exists>s'. hash_rehash hash s = Some s' \<and> hash_repr eq hash s' M" by (rule hash_rehash_ok [OF assms(2)])
  show "hash_repr eq hash (hash_clear s) {#}" by (rule hash_clear_ok [OF assms(2)])
  show "(0 < b_capacity s \<longrightarrow> 0 < e_capacity s \<and> alloc (e_capacity s)) \<Longrightarrow> e_capacity s = 0 \<or> alloc (e_capacity s) \<Longrightarrow>
      \<exists>s'. hash_copy integral alloc h b s = Some s' \<and> hash_repr eq hash s' M"
    by (rule hash_copy_ok [OF assms(2)]) auto
  show "bucket_count s \<le> hash_size s" using bucket_count_le [OF assms(2)] hash_size_ok [OF assms(2)] by simp
qed

text \<open>
  C17.  \<open>resize\<close>, \<open>rehash\<close> and the copy constructor return and keep the values; \<open>clear\<close> empties the set.
  \<open>resize\<close> changes the capacity, and answers \<open>true\<close>, exactly if the number of slots is above the number
  of values, fits into 32 bits and there is memory for it.  There are never more buckets in use than
  values.
\<close>

theorem hash_resize_correct:
  assumes "valid_load L" and "hash_repr eq hash s M"
  shows "(\<exists>s' b. hash_resize hash L alloc c s = Some (s', b) \<and> hash_repr eq hash s' M
      \<and> (b \<longleftrightarrow> size M < c \<and> c \<le> UINT32_MAX \<and> (max 16 c = e_capacity s \<or> alloc (max 16 c)))
      \<and> e_capacity s' = (if b then max 16 c else e_capacity s))
    \<and> (\<exists>s'. hash_rehash hash s = Some s' \<and> hash_repr eq hash s' M)
    \<and> (hash_repr eq hash (hash_clear s) {#})
    \<and> (((0 < b_capacity s \<longrightarrow> 0 < e_capacity s \<and> alloc (e_capacity s))) \<longrightarrow> (e_capacity s = 0 \<or> alloc (e_capacity s)) \<longrightarrow> (\<exists>s'. hash_copy integral alloc h b s = Some s' \<and> hash_repr eq hash s' M))
    \<and> (bucket_count s \<le> hash_size s)"
  by (rule conjI, rule hash_resize_correct_facts(1) [OF assms],
    rule conjI, rule hash_resize_correct_facts(2) [OF assms],
    rule conjI, rule hash_resize_correct_facts(3) [OF assms],
    rule conjI, (rule impI)+, rule hash_resize_correct_facts(4) [OF assms], assumption+,
    rule hash_resize_correct_facts(5) [OF assms])

theorem hash_resize_correct_witness:
  "(\<exists>s'. hash_resize hash_u32 150 (\<lambda>n. n = 40) 40 example_hash = Some (s', True)
      \<and> hash_repr (=) hash_u32 s' {#10, 34#} \<and> e_capacity s' = 40)
    \<and> (\<exists>s'. hash_copy False (\<lambda>n. n = 16) fresh_nodes fresh_buckets example_hash = Some s' \<and> hash_repr (=) hash_u32 s' {#10, 34#})
    \<and> bucket_count example_hash \<le> hash_size example_hash"
  using hash_resize_correct [OF load_150 example_hash_repr, THEN conjunct1, of "\<lambda>n. n = 40" 40]
    hash_resize_correct [OF load_150 example_hash_repr, THEN conjunct2, THEN conjunct2, THEN conjunct2, THEN conjunct2]
    hash_resize_correct [OF load_150 example_hash_repr, THEN conjunct2, THEN conjunct2, THEN conjunct2, THEN conjunct1, THEN mp, THEN mp, of "\<lambda>n. n = 16" False fresh_nodes fresh_buckets]
  by (auto simp: example_hash_size UINT32_MAX_def)

text \<open>\<open>HashSet(begin, end)\<close> builds the set of the values of a range: of equal ones the first.\<close>

theorem hash_from_range_correct:
  assumes "hashing eq hash" and "valid_load L" and "length vs < UINT32_MAX" and "alloc (max 16 (length vs + 1))"
  shows "\<exists>s. hash_from_range eq hash L alloc 0 vs h b = Some s
    \<and> hash_repr eq hash s (foldl (\<lambda>M v. if \<exists>x\<in>#M. eq x v then M else add_mset v M) {#} vs)"
  using hash_from_range_ok [OF assms(1,2) refl, where c = 0 and vs = vs and alloc = alloc and h = h and b = b] assms(3,4)
  by (auto simp: hash_add_def [abs_def])

text \<open>
  C19.  A set of capacity 16 that has been filled and whose values have then been erased one by
  one cannot take a value again, whatever memory there is: \<open>reorganize\<close> does nothing for an empty
  set, and \<open>insert\<close> and \<open>emplace\<close> write behind the last slot.
\<close>

theorem hash_refill_fails:
  assumes "hashing eq hash" and "valid_load L" and "alloc 16" and "length vs = 15"
    and "\<forall>i<15. \<forall>j<i. \<not> eq (vs ! j) (vs ! i)"
  shows "\<exists>s s'. hash_from_range eq hash L alloc 0 vs h b = Some s \<and> hash_repr eq hash s (mset vs)
    \<and> hash_erase_all eq hash vs s = Some s' \<and> hash_repr eq hash s' {#}
    \<and> hash_insert eq hash L alloc v s' = None \<and> hash_emplace eq hash L alloc v s' = None"
proof -
  have added: "foldl (hash_add eq) {#} (take n vs) = mset (take n vs)" if "n \<le> 15" for n
    using that
  proof (induction n)
    case (Suc n)
    then have "take (Suc n) vs = take n vs @ [vs ! n]" using assms(4) by (simp add: take_Suc_conv_app_nth)
    moreover have "\<forall>x\<in>set (take n vs). \<not> eq x (vs ! n)"
      using Suc.prems assms(4,5) by (auto simp: in_set_conv_nth)
    ultimately show ?case using Suc by (simp add: hash_add_def)
  qed simp
  then have all: "foldl (hash_add eq) {#} vs = mset vs" using added [of 15] assms(4) by simp
  obtain s where s: "hash_from_range eq hash L alloc 0 vs h b = Some s" "hash_repr eq hash s (mset vs)"
    and c: "e_capacity s = 16" "e_next s = 16"
    using hash_from_range_ok [OF assms(1,2) refl, where c = 0 and vs = vs and alloc = alloc and h = h and b = b]
      assms(3,4) all by (auto simp: UINT32_MAX_def)
  obtain s' where s': "hash_erase_all eq hash vs s = Some s'"
    and r: "hash_repr eq hash s' (filter_mset (\<lambda>a. \<forall>v\<in>set vs. \<not> eq a v) (mset vs))"
    and c': "e_next s' = e_next s" "e_capacity s' = e_capacity s"
    using hash_erase_all_ok [OF assms(1) s(2)] by blast
  have none: "filter_mset (\<lambda>a. \<forall>v\<in>set vs. \<not> eq a v) (mset vs) = {#}"
    using hashing.eq_refl [OF assms(1)] by (subst set_mset_eq_empty_iff [symmetric]) auto
  note r' = r [unfolded none]
  then show ?thesis using s s' hash_full_empty_fails [OF r'] c c' by auto
qed

theorem hash_refill_fails_witness:
  "\<exists>s s'. hash_from_range (=) hash_u32 150 (\<lambda>n. True) 0 (map of_nat [0..<15]) fresh_nodes fresh_buckets = Some s
    \<and> hash_erase_all (=) hash_u32 (map of_nat [0..<15]) s = Some s' \<and> hash_insert (=) hash_u32 150 (\<lambda>n. True) 0 s' = None"
proof -
  have "\<forall>i<15. \<forall>j<i. \<not> (map of_nat [0..<15] ! j :: u32) = map of_nat [0..<15] ! i"
    by (auto simp: word_of_nat_eq_iff take_bit_eq_mod)
  with hash_refill_fails [OF hashing_eq load_150, of "\<lambda>n. True" "map of_nat [0..<15] :: u32 list" hash_u32 fresh_nodes fresh_buckets 0]
  show ?thesis by auto
qed

lemma hash_from_elements_correct_facts:
  assumes "elements_ok e"
  shows "valid_load L \<Longrightarrow> e_count e \<noteq> 0 \<Longrightarrow>
      \<forall>i\<in>used e. \<forall>j\<in>used e. i \<noteq> j \<longrightarrow> \<not> eq (n_data (e_node e i)) (n_data (e_node e j)) \<Longrightarrow>
      \<exists>s. hash_from_elements hash L e b = Some s \<and> hash_repr eq hash s (hvalues e)"
    and "e_count e = 0 \<Longrightarrow> e_next e < e_capacity e \<Longrightarrow>
      \<exists>s. hash_from_elements hash L e b = Some s \<and> hash_insert eq hash L alloc v s = None"
  using hash_from_elements_ok [OF _ assms] hash_from_no_elements [OF assms] by blast+

text \<open>
  A set made from another container keeps its values, if there are any; made from one that
  has slots but no values it has no buckets, and the first \<open>insert\<close> divides by zero.
\<close>

theorem hash_from_elements_correct:
  assumes "elements_ok e"
  shows "((valid_load L) \<longrightarrow> (e_count e \<noteq> 0) \<longrightarrow> (\<forall>i\<in>used e. \<forall>j\<in>used e. i \<noteq> j \<longrightarrow> \<not> eq (n_data (e_node e i)) (n_data (e_node e j))) \<longrightarrow> (\<exists>s. hash_from_elements hash L e b = Some s \<and> hash_repr eq hash s (hvalues e)))
    \<and> ((e_count e = 0) \<longrightarrow> (e_next e < e_capacity e) \<longrightarrow> (\<exists>s. hash_from_elements hash L e b = Some s \<and> hash_insert eq hash L alloc v s = None))"
  by (rule conjI, (rule impI)+, rule hash_from_elements_correct_facts(1) [OF assms], assumption+,
    (rule impI)+, rule hash_from_elements_correct_facts(2) [OF assms], assumption+)

definition no_elements :: "u32 hash_node elements" where
  "no_elements = \<lparr>e_capacity = 16, e_next = 1, e_count = 0,
     e_node = (\<lambda>i. \<lparr>n_active = False, n_data = 0, h_prev = 0, h_next = 0, h_temp = 0\<rparr>)\<rparr>"

theorem hash_from_elements_correct_witness:
  "\<exists>s. hash_from_elements hash_u32 150 no_elements fresh_buckets = Some s \<and> hash_insert (=) hash_u32 150 (\<lambda>n. True) 7 s = None"
proof -
  have "used no_elements = {}" by (auto simp: used_def no_elements_def)
  then have "elements_ok no_elements"
    by (intro elements_okI) (simp_all add: no_elements_def UINT32_MAX_def)
  from hash_from_elements_correct [OF this, THEN conjunct2, THEN mp, THEN mp] show ?thesis by (simp add: no_elements_def)
qed

section \<open>Maps\<close>

lemma tree_map_correct_facts:
  assumes "tree_map_repr s m"
  shows "can_grow alloc s \<Longrightarrow> \<exists>s' i. tree_map_insert compare alloc k v s = Some (s', i, m k = None)
      \<and> tree_map_repr s' (if m k = None then m(k \<mapsto> v) else m)"
    and "\<exists>s'. tree_map_erase compare k s = Some (s', m k) \<and> tree_map_repr s' (m(k := None))"
    and "\<exists>s'. tree_map_at compare moved k s = Some (s', m k) \<and> tree_map_repr s' (m(k := map_option moved (m k)))"
    and "can_grow alloc s \<Longrightarrow> \<exists>s' i v. tree_map_index compare alloc d k s = Some (s', i, v)
      \<and> v = (case m k of None \<Rightarrow> d | Some v \<Rightarrow> v) \<and> tree_map_repr s' (m(k \<mapsto> v))
      \<and> tree_map_repr (tree_assign i w s') (m(k \<mapsto> w))"
proof -
  show "can_grow alloc s \<Longrightarrow> \<exists>s' i. tree_map_insert compare alloc k v s = Some (s', i, m k = None)
      \<and> tree_map_repr s' (if m k = None then m(k \<mapsto> v) else m)"
    unfolding tree_map_insert_def by (rule tree_map.insert_map [OF assms])
  show "\<exists>s'. tree_map_erase compare k s = Some (s', m k) \<and> tree_map_repr s' (m(k := None))"
    unfolding tree_map_erase_def by (rule tree_map.erase_map [OF assms])
  show "\<exists>s'. tree_map_at compare moved k s = Some (s', m k) \<and> tree_map_repr s' (m(k := map_option moved (m k)))"
    unfolding tree_map_at_def by (rule tree_map.at_map [OF assms])
  assume "can_grow alloc s"
  from tree_map.index_map [OF assms this, of d k] obtain s' i v where
    "tree_map_index compare alloc d k s = Some (s', i, v)" "v = (case m k of None \<Rightarrow> d | Some v \<Rightarrow> v)"
    "tree_map_repr s' (m(k \<mapsto> v))" and h: "tree_holds s' i \<lparr>key = k, val = v\<rparr>"
    unfolding tree_map_index_def by blast
  moreover have "tree_map_repr (tree_assign i w s') (m(k \<mapsto> w))"
    using tree_map.write_law [OF calculation(3) h, of w] by simp
  ultimately show "\<exists>s' i v. tree_map_index compare alloc d k s = Some (s', i, v)
      \<and> v = (case m k of None \<Rightarrow> d | Some v \<Rightarrow> v) \<and> tree_map_repr s' (m(k \<mapsto> v))
      \<and> tree_map_repr (tree_assign i w s') (m(k \<mapsto> w))"
    by blast
qed

text \<open>
  C21.  \<open>TreeMap\<close> is a finite map: \<open>insert\<close> adds an entry unless the key has one, \<open>erase\<close> and \<open>at\<close>
  return the value of the key, \<open>operator[]\<close> the value or a new default.  \<open>at\<close> leaves in the map what
  its \<open>Optional\<close> leaves of a value it has moved out.
\<close>

theorem tree_map_correct:
  assumes "tree_map_repr s m"
  shows "((can_grow alloc s) \<longrightarrow> (\<exists>s' i. tree_map_insert compare alloc k v s = Some (s', i, m k = None)
      \<and> tree_map_repr s' (if m k = None then m(k \<mapsto> v) else m)))
    \<and> (\<exists>s'. tree_map_erase compare k s = Some (s', m k) \<and> tree_map_repr s' (m(k := None)))
    \<and> (\<exists>s'. tree_map_at compare moved k s = Some (s', m k) \<and> tree_map_repr s' (m(k := map_option moved (m k))))
    \<and> ((can_grow alloc s) \<longrightarrow> (\<exists>s' i v. tree_map_index compare alloc d k s = Some (s', i, v)
      \<and> v = (case m k of None \<Rightarrow> d | Some v \<Rightarrow> v) \<and> tree_map_repr s' (m(k \<mapsto> v))
      \<and> tree_map_repr (tree_assign i w s') (m(k \<mapsto> w))))"
  by (rule conjI, (rule impI)+, rule tree_map_correct_facts(1) [OF assms], assumption+,
    rule conjI, rule tree_map_correct_facts(2) [OF assms],
    rule conjI, rule tree_map_correct_facts(3) [OF assms],
    (rule impI)+, rule tree_map_correct_facts(4) [OF assms], assumption+)

definition empty_tree_map :: "(nat, nat) key_value treeset" where
  "empty_tree_map = tree_empty (\<lambda>i. \<lparr>n_active = True, n_data = \<lparr>key = 1, val = 1\<rparr>, t_balance = 1, t_parent = 1,
     t_left = 1, t_right = 1\<rparr>)"

lemma empty_tree_map_repr: "tree_map_repr empty_tree_map Map.empty" "can_grow (\<lambda>_. True) empty_tree_map"
proof -
  show "tree_map_repr empty_tree_map Map.empty"
    unfolding tree_map_repr_def empty_tree_map_def
    using repr_empty by (intro exI [of _ "[]"]) (simp add: entries_def)
  show "can_grow (\<lambda>_. True) empty_tree_map"
    by (simp add: can_grow_def empty_tree_map_def tree_empty_def UINT32_MAX_def)
qed

theorem tree_map_correct_witness:
  "\<exists>s i s'. tree_map_insert compare (\<lambda>_. True) 5 50 empty_tree_map = Some (s, i, True)
    \<and> tree_map_erase compare 5 s = Some (s', Some 50) \<and> tree_map_repr s' Map.empty"
proof -
  obtain s i where s: "tree_map_insert compare (\<lambda>_. True) 5 50 empty_tree_map = Some (s, i, True)"
    "tree_map_repr s [5 \<mapsto> 50]"
    using tree_map_correct [OF empty_tree_map_repr(1), THEN conjunct1, THEN mp, OF empty_tree_map_repr(2), of 5 50] by auto
  obtain s' where "tree_map_erase compare 5 s = Some (s', Some 50)" "tree_map_repr s' Map.empty"
    using tree_map_correct [OF s(2), THEN conjunct2, THEN conjunct1, of 5] by auto
  with s(1) show ?thesis by blast
qed

lemma hash_map_correct_facts:
  assumes "valid_load L" and "hash_map_repr hash s m"
  shows "hash_can_grow alloc s \<Longrightarrow> \<exists>s' i. hash_map_insert (=) hash L alloc k v s = Some (s', i, m k = None)
      \<and> hash_map_repr hash s' (if m k = None then m(k \<mapsto> v) else m)"
    and "\<exists>s'. hash_map_erase (=) hash k s = Some (s', m k) \<and> hash_map_repr hash s' (m(k := None))"
    and "\<exists>s'. hash_map_at (=) hash moved k s = Some (s', m k)
      \<and> hash_map_repr hash s' (m(k := map_option moved (m k)))"
    and "hash_can_grow alloc s \<Longrightarrow> \<exists>s' i v. hash_map_index (=) hash L alloc d k s = Some (s', i, v)
      \<and> v = (case m k of None \<Rightarrow> d | Some v \<Rightarrow> v) \<and> hash_map_repr hash s' (m(k \<mapsto> v))
      \<and> hash_map_repr hash (hash_assign i w s') (m(k \<mapsto> w))"
proof -
  show "hash_can_grow alloc s \<Longrightarrow> \<exists>s' i. hash_map_insert (=) hash L alloc k v s = Some (s', i, m k = None)
      \<and> hash_map_repr hash s' (if m k = None then m(k \<mapsto> v) else m)"
    unfolding hash_map_insert_def using assms by (intro hash_map.insert_map) auto
  show "\<exists>s'. hash_map_erase (=) hash k s = Some (s', m k) \<and> hash_map_repr hash s' (m(k := None))"
    unfolding hash_map_erase_def by (rule hash_map.erase_map [OF assms(2)])
  show "\<exists>s'. hash_map_at (=) hash moved k s = Some (s', m k)
      \<and> hash_map_repr hash s' (m(k := map_option moved (m k)))"
    unfolding hash_map_at_def by (rule hash_map.at_map [OF assms(2)])
  assume "hash_can_grow alloc s"
  with hash_map.index_map [OF assms(2), of L alloc d k] assms(1) obtain s' i v where
    "hash_map_index (=) hash L alloc d k s = Some (s', i, v)" "v = (case m k of None \<Rightarrow> d | Some v \<Rightarrow> v)"
    "hash_map_repr hash s' (m(k \<mapsto> v))" and h: "hash_holds s' i \<lparr>key = k, val = v\<rparr>"
    unfolding hash_map_index_def by blast
  moreover have "hash_map_repr hash (hash_assign i w s') (m(k \<mapsto> w))"
    using hash_map.write_law [OF calculation(3) h, of w] by simp
  ultimately show "\<exists>s' i v. hash_map_index (=) hash L alloc d k s = Some (s', i, v)
      \<and> v = (case m k of None \<Rightarrow> d | Some v \<Rightarrow> v) \<and> hash_map_repr hash s' (m(k \<mapsto> v))
      \<and> hash_map_repr hash (hash_assign i w s') (m(k \<mapsto> w))"
    by blast
qed

text \<open>
  C22.  \<open>HashMap\<close> is the same finite map.
\<close>

theorem hash_map_correct:
  assumes "valid_load L" and "hash_map_repr hash s m"
  shows "((hash_can_grow alloc s) \<longrightarrow> (\<exists>s' i. hash_map_insert (=) hash L alloc k v s = Some (s', i, m k = None)
      \<and> hash_map_repr hash s' (if m k = None then m(k \<mapsto> v) else m)))
    \<and> (\<exists>s'. hash_map_erase (=) hash k s = Some (s', m k) \<and> hash_map_repr hash s' (m(k := None)))
    \<and> (\<exists>s'. hash_map_at (=) hash moved k s = Some (s', m k)
      \<and> hash_map_repr hash s' (m(k := map_option moved (m k))))
    \<and> ((hash_can_grow alloc s) \<longrightarrow> (\<exists>s' i v. hash_map_index (=) hash L alloc d k s = Some (s', i, v)
      \<and> v = (case m k of None \<Rightarrow> d | Some v \<Rightarrow> v) \<and> hash_map_repr hash s' (m(k \<mapsto> v))
      \<and> hash_map_repr hash (hash_assign i w s') (m(k \<mapsto> w))))"
  by (rule conjI, (rule impI)+, rule hash_map_correct_facts(1) [OF assms], assumption+,
    rule conjI, rule hash_map_correct_facts(2) [OF assms],
    rule conjI, rule hash_map_correct_facts(3) [OF assms],
    (rule impI)+, rule hash_map_correct_facts(4) [OF assms], assumption+)

definition empty_hash_map :: "(u64, nat) key_value hashset" where
  "empty_hash_map = hash_empty (\<lambda>i. \<lparr>n_active = True, n_data = \<lparr>key = 1, val = 1\<rparr>, h_prev = 1, h_next = 1, h_temp = 1\<rparr>)
     fresh_buckets"

lemma empty_hash_map_repr: "hash_map_repr hash_u64 empty_hash_map Map.empty" "hash_can_grow (\<lambda>_. True) empty_hash_map"
proof -
  show "hash_map_repr hash_u64 empty_hash_map Map.empty"
    unfolding hash_map_repr_def empty_hash_map_def
    using hash_empty_repr by (intro exI [of _ "{#}"]) (simp add: entries_def)
  show "hash_can_grow (\<lambda>_. True) empty_hash_map"
    by (simp add: hash_can_grow_def empty_hash_map_def hash_empty_def UINT32_MAX_def)
qed

theorem hash_map_correct_witness:
  "\<exists>s i s'. hash_map_insert (=) hash_u64 150 (\<lambda>_. True) 5 50 empty_hash_map = Some (s, i, True)
    \<and> hash_map_at (=) hash_u64 (\<lambda>_. 0) 5 s = Some (s', Some 50) \<and> hash_map_repr hash_u64 s' [5 \<mapsto> 0]"
proof -
  obtain s i where s: "hash_map_insert (=) hash_u64 150 (\<lambda>_. True) 5 50 empty_hash_map = Some (s, i, True)"
    "hash_map_repr hash_u64 s [5 \<mapsto> 50]"
    using hash_map_correct [OF load_150 empty_hash_map_repr(1), THEN conjunct1, THEN mp, OF empty_hash_map_repr(2), of 5 50] by auto
  obtain s' where "hash_map_at (=) hash_u64 (\<lambda>_. 0) 5 s = Some (s', Some 50)" "hash_map_repr hash_u64 s' [5 \<mapsto> 0]"
    using hash_map_correct [OF load_150 s(2), THEN conjunct2, THEN conjunct2, THEN conjunct1, of "\<lambda>_. 0" 5] by auto
  with s(1) show ?thesis by blast
qed

text \<open>
  The byte-wise hash computed in 64 bit registers is the polynomial in 32 bits, and a value
  has the same hash as a 32 bit and as a 64 bit integer.
\<close>

theorem hash_bytes_correct:
  "hash_bytes (Some cs) = foldl (\<lambda>h c. h * 31 + ucast c) 0 cs \<and> hash_bytes None = 0
    \<and> hash_u64 (ucast v) = hash_u32 v"
  using hash_bytes_32 [of cs] hash_u64_small [of v] by (simp add: hash_bytes_def [of None])

end
