(* ===== verification/Vector.thy ===== *)
theory Vector
  imports Prelude
begin

text \<open>
  include/dlh/container/vector.hpp: the state of \<open>Vector\<close> and its operations.

  The array is a block of raw memory in which objects are created and destroyed: a cell is
  \<open>Some x\<close> while an object lives in it and \<open>None\<close> otherwise, \<open>v_data\<close> is \<open>None\<close> for the null
  pointer.  Reading from or destroying a cell without an object, touching a cell outside of the
  capacity or through the null pointer, a failed assert and an overflow of a signed integer are
  \<open>None\<close>.  \<open>alloc\<close> says for how many elements \<open>Memory\<close> has a block.
\<close>

definition INT32_MAX :: nat where
  "INT32_MAX = 2147483647"

record 'a vector =
  v_size :: nat
  v_capacity :: nat
  v_data :: "(nat \<Rightarrow> 'a option) option"

section \<open>Cells\<close>

definition vec_read :: "nat \<Rightarrow> 'a vector \<Rightarrow> 'a option" where
  "vec_read i v = do { d \<leftarrow> v_data v; assert_that (i < v_capacity v); d i }"

definition vec_construct :: "nat \<Rightarrow> 'a \<Rightarrow> 'a vector \<Rightarrow> 'a vector option" where
  "vec_construct i x v =
     do { d \<leftarrow> v_data v; assert_that (i < v_capacity v); Some (v\<lparr>v_data := Some (d(i \<mapsto> x))\<rparr>) }"

definition vec_destroy :: "nat \<Rightarrow> 'a vector \<Rightarrow> 'a vector option" where
  "vec_destroy i v =
     do { d \<leftarrow> v_data v; assert_that (i < v_capacity v \<and> d i \<noteq> None); Some (v\<lparr>v_data := Some (d(i := None))\<rparr>) }"

section \<open>Capacity\<close>

text \<open>A failed \<open>realloc\<close> is not noticed: the pointer is null from then on.\<close>

definition vec_reserve :: "(nat \<Rightarrow> bool) \<Rightarrow> nat \<Rightarrow> 'a vector \<Rightarrow> 'a vector" where
  "vec_reserve alloc capacity v =
     (let c = (if capacity < INT32_MAX then capacity else INT32_MAX - 1) in
      if c > v_capacity v
      then v\<lparr>v_capacity := c,
             v_data := (if alloc c
               then Some (\<lambda>i. case v_data v of None \<Rightarrow> None | Some d \<Rightarrow> if i < v_capacity v then d i else None)
               else None)\<rparr>
      else v)"

definition vec_expand :: "(nat \<Rightarrow> bool) \<Rightarrow> 'a vector \<Rightarrow> 'a vector option" where
  "vec_expand alloc v =
     (if 0 < v_capacity v
      then do { assert_that (2 * v_capacity v \<le> INT32_MAX); Some (vec_reserve alloc (2 * v_capacity v) v) }
      else Some (vec_reserve alloc 16 v))"

fun destroy_from :: "nat \<Rightarrow> nat \<Rightarrow> 'a vector \<Rightarrow> 'a vector option" where
  "destroy_from i 0 v = Some v"
| "destroy_from i (Suc todo) v = do { v \<leftarrow> vec_destroy i v; destroy_from (i + 1) todo v }"

definition vec_resize :: "(nat \<Rightarrow> bool) \<Rightarrow> nat \<Rightarrow> 'a vector \<Rightarrow> 'a vector option" where
  "vec_resize alloc count v = do {
     let c = (if count < INT32_MAX then count else INT32_MAX - 1);
     v \<leftarrow> (if c < v_size v then do {
              v \<leftarrow> destroy_from c (v_size v - c) v;
              Some (v\<lparr>v_size := c\<rparr>)
            } else Some v);
     Some (vec_reserve alloc count v)
   }"

definition vec_clear :: "'a vector \<Rightarrow> 'a vector" where
  "vec_clear v = v\<lparr>v_size := 0\<rparr>"

section \<open>Inserting\<close>

fun shift_up :: "nat \<Rightarrow> nat \<Rightarrow> 'a vector \<Rightarrow> 'a vector option" where
  "shift_up pos 0 v = Some v"
| "shift_up pos (Suc i) v =
     (if Suc i > pos then do {
        x \<leftarrow> vec_read i v;
        v \<leftarrow> vec_construct (Suc i) x v;
        v \<leftarrow> vec_destroy i v;
        shift_up pos i v
      } else Some v)"

text \<open>\<open>emplace(pos, args)\<close>; the result is the index of the iterator.\<close>

definition vec_emplace :: "(nat \<Rightarrow> bool) \<Rightarrow> int \<Rightarrow> 'a \<Rightarrow> 'a vector \<Rightarrow> ('a vector \<times> nat) option" where
  "vec_emplace alloc pos x v =
     (if pos \<ge> 0 \<and> pos \<le> int (v_size v) then do {
        let pos = nat pos;
        v \<leftarrow> (if pos = v_capacity v then vec_expand alloc v else Some v);
        v \<leftarrow> shift_up pos (v_size v) v;
        v \<leftarrow> vec_construct pos x v;
        Some (v\<lparr>v_size := v_size v + 1\<rparr>, pos)
      } else Some (v, v_size v))"

definition vec_emplace_size :: "(nat \<Rightarrow> bool) \<Rightarrow> nat \<Rightarrow> 'a \<Rightarrow> 'a vector \<Rightarrow> ('a vector \<times> nat) option" where
  "vec_emplace_size alloc pos x v =
     (if pos < INT32_MAX then vec_emplace alloc (int pos) x v else Some (v, v_size v))"

definition vec_emplace_front :: "(nat \<Rightarrow> bool) \<Rightarrow> 'a \<Rightarrow> 'a vector \<Rightarrow> ('a vector \<times> nat) option" where
  "vec_emplace_front alloc x v = vec_emplace alloc 0 x v"

definition vec_emplace_back :: "(nat \<Rightarrow> bool) \<Rightarrow> 'a \<Rightarrow> 'a vector \<Rightarrow> ('a vector \<times> nat) option" where
  "vec_emplace_back alloc x v = do {
     v \<leftarrow> (if v_capacity v = v_size v then vec_expand alloc v else Some v);
     v \<leftarrow> vec_construct (v_size v) x v;
     Some (v\<lparr>v_size := v_size v + 1\<rparr>, v_size v)
   }"

fun vec_emplace_all :: "(nat \<Rightarrow> bool) \<Rightarrow> 'a list \<Rightarrow> 'a vector \<Rightarrow> 'a vector option" where
  "vec_emplace_all alloc [] v = Some v"
| "vec_emplace_all alloc (x # xs) v = do { (v, _) \<leftarrow> vec_emplace_back alloc x v; vec_emplace_all alloc xs v }"

section \<open>Removing\<close>

text \<open>The elements behind \<open>i\<close> move one cell forward.\<close>

fun shift_down :: "nat \<Rightarrow> nat \<Rightarrow> 'a vector \<Rightarrow> 'a vector option" where
  "shift_down i 0 v = Some v"
| "shift_down i (Suc todo) v = do {
     x \<leftarrow> vec_read (i + 1) v;
     v \<leftarrow> vec_construct i x v;
     v \<leftarrow> vec_destroy (i + 1) v;
     shift_down (i + 1) todo v
   }"

text \<open>\<open>pop_back\<close> copies the last element and leaves it in its cell.\<close>

definition vec_pop_back :: "'a vector \<Rightarrow> ('a vector \<times> 'a option) option" where
  "vec_pop_back v =
     (if v_size v > 0 then do {
        let v = v\<lparr>v_size := v_size v - 1\<rparr>;
        x \<leftarrow> vec_read (v_size v) v;
        Some (v, Some x)
      } else Some (v, None))"

definition vec_remove :: "int \<Rightarrow> 'a vector \<Rightarrow> ('a vector \<times> 'a option) option" where
  "vec_remove pos v =
     (if pos \<ge> 0 \<and> pos < int (v_size v) then do {
        r \<leftarrow> vec_read (nat pos) v;
        v \<leftarrow> shift_down (nat pos) (v_size v - 1 - nat pos) v;
        Some (v\<lparr>v_size := v_size v - 1\<rparr>, Some r)
      } else Some (v, None))"

definition vec_remove_size :: "nat \<Rightarrow> 'a vector \<Rightarrow> ('a vector \<times> 'a option) option" where
  "vec_remove_size pos v = (if pos \<le> INT32_MAX then vec_remove (int pos) v else Some (v, None))"

definition vec_pop_front :: "'a vector \<Rightarrow> ('a vector \<times> 'a option) option" where
  "vec_pop_front v = vec_remove 0 v"

text \<open>\<open>erase(pos)\<close>; the result is the index of the iterator.\<close>

definition erase_helper :: "int \<Rightarrow> 'a vector \<Rightarrow> ('a vector \<times> nat) option" where
  "erase_helper pos v =
     (if pos \<ge> 0 \<and> pos < int (v_size v) then do {
        v \<leftarrow> vec_destroy (nat pos) v;
        v \<leftarrow> shift_down (nat pos) (v_size v - 1 - nat pos) v;
        Some (v\<lparr>v_size := v_size v - 1\<rparr>, nat pos)
      } else Some (v, v_size v))"

definition vec_erase :: "nat \<Rightarrow> 'a vector \<Rightarrow> ('a vector \<times> nat) option" where
  "vec_erase pos v = (if pos \<le> INT32_MAX then erase_helper (int pos) v else Some (v, v_size v))"

section \<open>Access\<close>

definition vec_at :: "int \<Rightarrow> 'a vector \<Rightarrow> 'a option option" where
  "vec_at i v = (if i \<ge> 0 \<and> i < int (v_size v) then map_option Some (vec_read (nat i) v) else Some None)"

definition vec_at_size :: "nat \<Rightarrow> 'a vector \<Rightarrow> 'a option option" where
  "vec_at_size i v = (if i < v_size v then map_option Some (vec_read i v) else Some None)"

definition vec_index :: "int \<Rightarrow> 'a vector \<Rightarrow> 'a option" where
  "vec_index i v = do { assert_that (i \<ge> 0 \<and> i < int (v_size v)); vec_read (nat i) v }"

definition vec_index_size :: "nat \<Rightarrow> 'a vector \<Rightarrow> 'a option" where
  "vec_index_size i v = do { assert_that (i < v_size v); vec_read i v }"

definition vec_front :: "'a vector \<Rightarrow> 'a option" where
  "vec_front v = vec_index 0 v"

definition vec_back :: "'a vector \<Rightarrow> 'a option" where
  "vec_back v = vec_index (int (v_size v) - 1) v"

definition vec_is_empty :: "'a vector \<Rightarrow> bool" where
  "vec_is_empty v = (v_size v = 0)"

text \<open>An iterator is an index; \<open>begin\<close> is 0, \<open>end\<close> is the size, \<open>rend\<close> is -1.\<close>

definition vec_deref :: "int \<Rightarrow> 'a vector \<Rightarrow> 'a option" where
  "vec_deref i v = do { assert_that (i \<ge> 0 \<and> i < int (v_size v)); vec_read (nat i) v }"

definition vec_valid :: "int \<Rightarrow> 'a vector \<Rightarrow> bool" where
  "vec_valid i v \<longleftrightarrow> i \<ge> 0 \<and> i < int (v_size v)"

partial_function (option) vec_iterate :: "'a vector \<Rightarrow> int \<Rightarrow> 'a list option" where
  "vec_iterate v i =
     (if i = int (v_size v) then Some []
      else do { x \<leftarrow> vec_deref i v; xs \<leftarrow> vec_iterate v (i + 1); Some (x # xs) })"

declare vec_iterate.simps [code]

partial_function (option) vec_iterate_back :: "'a vector \<Rightarrow> int \<Rightarrow> 'a list option" where
  "vec_iterate_back v i =
     (if i = - 1 then Some []
      else do { x \<leftarrow> vec_deref i v; xs \<leftarrow> vec_iterate_back v (i - 1); Some (x # xs) })"

declare vec_iterate_back.simps [code]

section \<open>Construction and assignment\<close>

definition vec_empty :: "'a vector" where
  "vec_empty = \<lparr>v_size = 0, v_capacity = 0, v_data = None\<rparr>"

definition vec_new :: "(nat \<Rightarrow> bool) \<Rightarrow> nat \<Rightarrow> 'a vector option" where
  "vec_new alloc capacity = do {
     assert_that (capacity > 0 \<longrightarrow> capacity \<le> INT32_MAX);
     assert_that (capacity > 0 \<longrightarrow> alloc capacity);
     Some \<lparr>v_size = 0, v_capacity = capacity, v_data = (if capacity > 0 then Some (\<lambda>_. None) else None)\<rparr>
   }"

definition vec_from_range :: "(nat \<Rightarrow> bool) \<Rightarrow> 'a list \<Rightarrow> 'a vector option" where
  "vec_from_range alloc xs = vec_emplace_all alloc xs vec_empty"

definition vec_from_list :: "(nat \<Rightarrow> bool) \<Rightarrow> 'a list \<Rightarrow> 'a vector option" where
  "vec_from_list alloc xs = do { v \<leftarrow> vec_new alloc (length xs); vec_emplace_all alloc xs v }"

definition vec_copy :: "(nat \<Rightarrow> bool) \<Rightarrow> 'a vector \<Rightarrow> 'a vector option" where
  "vec_copy alloc other = do { xs \<leftarrow> vec_iterate other 0; vec_emplace_all alloc xs vec_empty }"

text \<open>The move constructor returns the new vector and what is left of the old one.\<close>

definition vec_move :: "'a vector \<Rightarrow> 'a vector \<times> 'a vector" where
  "vec_move other = (other, other\<lparr>v_data := None, v_size := 0, v_capacity := 0\<rparr>)"

definition vec_assign :: "(nat \<Rightarrow> bool) \<Rightarrow> 'a vector \<Rightarrow> 'a vector \<Rightarrow> 'a vector option" where
  "vec_assign alloc other v = do {
     v \<leftarrow> vec_resize alloc 0 v;
     xs \<leftarrow> vec_iterate other 0;
     vec_emplace_all alloc xs v
   }"

definition vec_move_assign :: "(nat \<Rightarrow> bool) \<Rightarrow> 'a vector \<Rightarrow> 'a vector \<Rightarrow> ('a vector \<times> 'a vector) option" where
  "vec_move_assign alloc other v = do {
     _ \<leftarrow> vec_resize alloc 0 v;
     Some (other, other\<lparr>v_data := None, v_size := 0, v_capacity := 0\<rparr>)
   }"

text \<open>\<open>operator+=\<close>: the elements of another vector, from index \<open>i\<close> on, and those of the same one.\<close>

fun append_loop :: "(nat \<Rightarrow> bool) \<Rightarrow> 'a vector \<Rightarrow> nat \<Rightarrow> nat \<Rightarrow> 'a vector \<Rightarrow> 'a vector option" where
  "append_loop alloc other i 0 v = Some v"
| "append_loop alloc other i (Suc todo) v = do {
     x \<leftarrow> vec_read i other;
     (v, _) \<leftarrow> vec_emplace_back alloc x v;
     append_loop alloc other (i + 1) todo v
   }"

definition vec_append :: "(nat \<Rightarrow> bool) \<Rightarrow> 'a vector \<Rightarrow> 'a vector \<Rightarrow> 'a vector option" where
  "vec_append alloc other v = do {
     assert_that (v_size v + v_size other \<le> INT32_MAX);
     let v = vec_reserve alloc (v_size v + v_size other) v;
     append_loop alloc other 0 (v_size other) v
   }"

partial_function (option) append_self_loop :: "(nat \<Rightarrow> bool) \<Rightarrow> nat \<Rightarrow> 'a vector \<Rightarrow> 'a vector option" where
  "append_self_loop alloc i v =
     (if i < v_size v then do {
        x \<leftarrow> vec_read i v;
        (v, _) \<leftarrow> vec_emplace_back alloc x v;
        append_self_loop alloc (i + 1) v
      } else Some v)"

definition vec_append_self :: "(nat \<Rightarrow> bool) \<Rightarrow> 'a vector \<Rightarrow> 'a vector option" where
  "vec_append_self alloc v = do {
     assert_that (v_size v + v_size v \<le> INT32_MAX);
     append_self_loop alloc 0 (vec_reserve alloc (v_size v + v_size v) v)
   }"

definition vec_append_element :: "(nat \<Rightarrow> bool) \<Rightarrow> 'a \<Rightarrow> 'a vector \<Rightarrow> 'a vector option" where
  "vec_append_element alloc x v = map_option fst (vec_emplace_back alloc x v)"

definition vec_concat :: "(nat \<Rightarrow> bool) \<Rightarrow> 'a vector \<Rightarrow> 'a vector \<Rightarrow> 'a vector option" where
  "vec_concat alloc other v = do { r \<leftarrow> vec_copy alloc v; vec_append alloc other r }"

end
