(* ===== verification/VectorProps.thy ===== *)
theory VectorProps
  imports Vector
begin

text \<open>
  \<open>vec_repr v xs\<close>: the vector \<open>v\<close> is well formed and holds the sequence \<open>xs\<close>; the operations refine
  those on sequences.  \<open>vec_clean v\<close>: no object lives behind the last element.
\<close>

definition vec_repr :: "'a vector \<Rightarrow> 'a list \<Rightarrow> bool" where
  "vec_repr v xs \<longleftrightarrow> v_size v = length xs \<and> v_size v \<le> v_capacity v \<and> v_capacity v \<le> INT32_MAX
     \<and> (case v_data v of None \<Rightarrow> v_capacity v = 0 | Some d \<Rightarrow> \<forall>i<length xs. d i = Some (xs ! i))"

definition vec_clean :: "'a vector \<Rightarrow> bool" where
  "vec_clean v \<longleftrightarrow> (\<forall>d i. v_data v = Some d \<longrightarrow> v_size v \<le> i \<longrightarrow> d i = None)"

definition vec_room :: "(nat \<Rightarrow> bool) \<Rightarrow> 'a vector \<Rightarrow> bool" where
  "vec_room alloc v \<longleftrightarrow> v_size v < v_capacity v
     \<or> 2 * v_capacity v \<le> INT32_MAX \<and> alloc (if v_capacity v = 0 then 16 else 2 * v_capacity v)"

lemma vec_reprD:
  assumes "vec_repr v xs"
  shows "v_size v = length xs" "length xs \<le> v_capacity v" "v_capacity v \<le> INT32_MAX"
    "i < length xs \<Longrightarrow> vec_read i v = Some (xs ! i)"
    "0 < v_capacity v \<Longrightarrow> \<exists>d. v_data v = Some d \<and> (\<forall>i<length xs. d i = Some (xs ! i))"
  using assms by (auto simp: vec_repr_def vec_read_def split: option.splits)

lemma vec_repr_cells:
  assumes "vec_repr v xs" and "0 < v_capacity v"
  obtains d where "v_data v = Some d" "\<And>i. i < length xs \<Longrightarrow> d i = Some (xs ! i)"
  using vec_reprD(5) [OF assms] by blast

lemma vec_reprI:
  "v_size v = length xs \<Longrightarrow> length xs \<le> v_capacity v \<Longrightarrow> v_capacity v \<le> INT32_MAX \<Longrightarrow> v_data v = Some d \<Longrightarrow>
    (\<And>i. i < length xs \<Longrightarrow> d i = Some (xs ! i)) \<Longrightarrow> vec_repr v xs"
  by (simp add: vec_repr_def)

section \<open>Capacity\<close>

lemma vec_reserve_ok:
  fixes c :: nat
  defines "c' \<equiv> if c < INT32_MAX then c else INT32_MAX - 1"
  assumes r: "vec_repr v xs" and a: "v_capacity v < c' \<Longrightarrow> alloc c'"
  shows "vec_repr (vec_reserve alloc c v) xs" "v_capacity (vec_reserve alloc c v) = max (v_capacity v) c'"
    "v_size (vec_reserve alloc c v) = v_size v" "vec_clean v \<Longrightarrow> vec_clean (vec_reserve alloc c v)"
proof -
  have c': "c' \<le> INT32_MAX" by (auto simp: c'_def)
  have v: "v_size v = length xs" "length xs \<le> v_capacity v" "v_capacity v \<le> INT32_MAX"
    by (fact vec_reprD [OF r])+
  have cells: "d i = Some (xs ! i)" if "v_data v = Some d" "i < length xs" for d i
    using that r by (simp add: vec_repr_def)
  have "v_data v = None \<Longrightarrow> xs = []" using r by (auto simp: vec_repr_def)
  then show "vec_repr (vec_reserve alloc c v) xs"
    using r v c' a cells unfolding vec_reserve_def Let_def c'_def [symmetric]
    by (auto simp: vec_repr_def split: option.splits)
  show "v_capacity (vec_reserve alloc c v) = max (v_capacity v) c'" "v_size (vec_reserve alloc c v) = v_size v"
    unfolding vec_reserve_def Let_def c'_def [symmetric] by auto
  show "vec_clean v \<Longrightarrow> vec_clean (vec_reserve alloc c v)"
    unfolding vec_reserve_def Let_def by (auto simp: vec_clean_def split: option.splits)
qed

lemma vec_expand_ok:
  assumes r: "vec_repr v xs" and room: "vec_room alloc v" and full: "v_size v = v_capacity v"
  shows "\<exists>v'. vec_expand alloc v = Some v' \<and> vec_repr v' xs \<and> v_size v' < v_capacity v'
    \<and> (vec_clean v \<longrightarrow> vec_clean v')"
proof -
  define c where "c = (if v_capacity v = 0 then 16 else 2 * v_capacity v)"
  have c: "2 * v_capacity v \<le> INT32_MAX" "alloc c" using room full by (auto simp: vec_room_def c_def)
  have "c < INT32_MAX"
    using c(1) by (auto simp: c_def INT32_MAX_def) presburger
  then have c': "(if c < INT32_MAX then c else INT32_MAX - 1) = c" by simp
  note res = vec_reserve_ok [OF r, of c alloc, unfolded c']
  have "vec_expand alloc v = Some (vec_reserve alloc c v)"
    using c(1) by (simp add: vec_expand_def c_def)
  moreover have "v_size v < max (v_capacity v) c" using full by (auto simp: c_def max_def)
  ultimately show ?thesis using res c(2) by simp
qed

section \<open>Moving elements\<close>

lemma shift_up_cells:
  assumes "v_data v = Some d" and "n < v_capacity v" and "pos \<le> n" and "\<And>i. pos \<le> i \<Longrightarrow> i < n \<Longrightarrow> d i \<noteq> None"
  shows "shift_up pos n v = Some (v\<lparr>v_data :=
    Some (\<lambda>i. if pos < i \<and> i \<le> n then d (i - 1) else if i = pos \<and> pos < n then None else d i)\<rparr>)"
  using assms
proof (induction n arbitrary: v d)
  case 0
  then show ?case by (auto simp: fun_eq_iff intro!: vector.equality)
next
  case (Suc n)
  show ?case
  proof (cases "pos < Suc n")
    case False
    then have "pos = Suc n" using Suc.prems by simp
    then show ?thesis using Suc.prems by (auto simp: fun_eq_iff intro!: vector.equality)
  next
    case True
    then obtain x where x: "d n = Some x" using Suc.prems(4) [of n] by auto
    let ?d = "(d(Suc n \<mapsto> x))(n := None)"
    let ?v = "v\<lparr>v_data := Some ?d\<rparr>"
    have "shift_up pos n ?v = Some (?v\<lparr>v_data :=
        Some (\<lambda>i. if pos < i \<and> i \<le> n then ?d (i - 1) else if i = pos \<and> pos < n then None else ?d i)\<rparr>)"
      by (rule Suc.IH) (use Suc.prems True in auto)
    moreover have "shift_up pos (Suc n) v = shift_up pos n ?v"
      using True x Suc.prems(1,2) by (simp add: vec_read_def vec_construct_def vec_destroy_def)
    moreover have "(\<lambda>i. if pos < i \<and> i \<le> n then ?d (i - 1) else if i = pos \<and> pos < n then None else ?d i)
      = (\<lambda>i. if pos < i \<and> i \<le> Suc n then d (i - 1) else if i = pos \<and> pos < Suc n then None else d i)"
      using True x by (auto simp: fun_eq_iff)
    ultimately show ?thesis by simp
  qed
qed

lemma shift_down_cells:
  assumes "v_data v = Some d" and "i + todo < v_capacity v" and "\<And>j. i < j \<Longrightarrow> j \<le> i + todo \<Longrightarrow> d j \<noteq> None"
  shows "shift_down i todo v = Some (v\<lparr>v_data :=
    Some (\<lambda>j. if i \<le> j \<and> j < i + todo then d (j + 1) else if j = i + todo \<and> 0 < todo then None else d j)\<rparr>)"
  using assms
proof (induction todo arbitrary: i v d)
  case 0
  then show ?case by (auto simp: fun_eq_iff intro!: vector.equality)
next
  case (Suc todo)
  obtain x where x: "d (i + 1) = Some x" using Suc.prems(3) [of "i + 1"] by auto
  let ?d = "(d(i \<mapsto> x))(i + 1 := None)"
  let ?v = "v\<lparr>v_data := Some ?d\<rparr>"
  have "shift_down (i + 1) todo ?v = Some (?v\<lparr>v_data :=
      Some (\<lambda>j. if i + 1 \<le> j \<and> j < i + 1 + todo then ?d (j + 1)
        else if j = i + 1 + todo \<and> 0 < todo then None else ?d j)\<rparr>)"
    by (rule Suc.IH) (use Suc.prems in auto)
  moreover have "shift_down i (Suc todo) v = shift_down (i + 1) todo ?v"
    using x Suc.prems(1,2) by (simp add: vec_read_def vec_construct_def vec_destroy_def)
  moreover have "(\<lambda>j. if i + 1 \<le> j \<and> j < i + 1 + todo then ?d (j + 1)
        else if j = i + 1 + todo \<and> 0 < todo then None else ?d j)
    = (\<lambda>j. if i \<le> j \<and> j < i + Suc todo then d (j + 1) else if j = i + Suc todo \<and> 0 < Suc todo then None else d j)"
    using x by (auto simp: fun_eq_iff)
  ultimately show ?case by simp
qed

section \<open>Inserting\<close>

lemma vec_emplace_ok:
  assumes r: "vec_repr v xs" and pos: "0 \<le> pos" "pos \<le> int (length xs)" and room: "vec_room alloc v"
    and fits: "pos = int (length xs) \<or> v_size v < v_capacity v"
  shows "\<exists>v'. vec_emplace alloc pos x v = Some (v', nat pos)
    \<and> vec_repr v' (take (nat pos) xs @ x # drop (nat pos) xs) \<and> (vec_clean v \<longrightarrow> vec_clean v')"
proof -
  define p where "p = nat pos"
  have p: "p \<le> length xs" "pos = int p" using pos by (auto simp: p_def)
  obtain v1 where v1: "(if p = v_capacity v then vec_expand alloc v else Some v) = Some v1" "vec_repr v1 xs"
    "v_size v1 < v_capacity v1" "vec_clean v \<longrightarrow> vec_clean v1"
  proof (cases "p = v_capacity v")
    case True
    then have "v_size v = v_capacity v" using vec_reprD(1,2) [OF r] p by simp
    from vec_expand_ok [OF r room this] that True show thesis by auto
  next
    case False
    then have "v_size v < v_capacity v"
      using fits vec_reprD(1,2) [OF r] p by auto
    with that False r show thesis by auto
  qed
  have size: "v_size v1 = length xs" "length xs < v_capacity v1" "v_capacity v1 \<le> INT32_MAX"
    using vec_reprD [OF v1(2)] v1(3) by auto
  obtain d where d: "v_data v1 = Some d" "\<And>i. i < length xs \<Longrightarrow> d i = Some (xs ! i)"
    using vec_repr_cells [OF v1(2)] size by (metis gr_implies_not0 neq0_conv)
  let ?d = "(\<lambda>i. if p < i \<and> i \<le> length xs then d (i - 1) else if i = p \<and> p < length xs then None else d i)(p \<mapsto> x)"
  let ?v = "v1\<lparr>v_data := Some ?d, v_size := length xs + 1\<rparr>"
  have "shift_up p (length xs) v1 = Some (v1\<lparr>v_data :=
      Some (\<lambda>i. if p < i \<and> i \<le> length xs then d (i - 1) else if i = p \<and> p < length xs then None else d i)\<rparr>)"
    by (rule shift_up_cells [OF d(1) size(2) p(1)]) (simp add: d(2))
  then have "vec_emplace alloc pos x v = Some (?v, p)"
    using p v1(1) size vec_reprD(1) [OF r] by (simp add: vec_emplace_def vec_construct_def)
  moreover have "vec_repr ?v (take p xs @ x # drop p xs)"
    by (rule vec_reprI [where d = ?d]) (use p d size in \<open>auto simp: nth_append nth_Cons' min_def\<close>)
  moreover have "vec_clean v \<longrightarrow> vec_clean ?v"
    using v1(4) d(1) size p(1) by (auto simp: vec_clean_def)
  ultimately show ?thesis by (auto simp: p_def)
qed

text \<open>Inserting before the end of a full vector writes behind the array.\<close>

lemma vec_emplace_full:
  assumes r: "vec_repr v xs" and pos: "0 \<le> pos" "pos < int (length xs)" and full: "v_size v = v_capacity v"
  shows "vec_emplace alloc pos x v = None"
proof -
  have size: "v_size v = length xs" "v_capacity v = length xs" using vec_reprD(1) [OF r] full by auto
  then obtain n where n: "v_size v = Suc n" using pos by (cases "length xs") auto
  have "vec_construct (Suc n) y v = None" for y
    using size n by (cases "v_data v") (auto simp: vec_construct_def)
  moreover have "nat pos < Suc n" "vec_read n v = Some (xs ! n)"
    using pos size n vec_reprD(4) [OF r, of n] by auto
  ultimately have "shift_up (nat pos) (v_size v) v = None" by (simp add: n)
  moreover have "nat pos \<noteq> v_capacity v" using pos size by simp
  ultimately show ?thesis using pos size by (simp add: vec_emplace_def Let_def)
qed

lemma vec_emplace_back_ok:
  assumes r: "vec_repr v xs" and room: "vec_room alloc v"
  shows "\<exists>v'. vec_emplace_back alloc x v = Some (v', length xs) \<and> vec_repr v' (xs @ [x])
    \<and> (vec_clean v \<longrightarrow> vec_clean v')
    \<and> (v_size v < v_capacity v \<longrightarrow> v_capacity v' = v_capacity v)"
proof -
  obtain v1 where v1: "(if v_capacity v = v_size v then vec_expand alloc v else Some v) = Some v1" "vec_repr v1 xs"
    "v_size v1 < v_capacity v1" "vec_clean v \<longrightarrow> vec_clean v1" "v_size v < v_capacity v \<longrightarrow> v1 = v"
  proof (cases "v_capacity v = v_size v")
    case True
    from vec_expand_ok [OF r room True [symmetric]] that True show thesis by auto
  next
    case False
    then have "v_size v < v_capacity v" using vec_reprD(1,2) [OF r] by simp
    with that False r show thesis by auto
  qed
  have size: "v_size v1 = length xs" "length xs < v_capacity v1" "v_capacity v1 \<le> INT32_MAX"
    using vec_reprD [OF v1(2)] v1(3) by auto
  obtain d where d: "v_data v1 = Some d" "\<And>i. i < length xs \<Longrightarrow> d i = Some (xs ! i)"
    using vec_repr_cells [OF v1(2)] size by (metis gr_implies_not0 neq0_conv)
  let ?v = "v1\<lparr>v_data := Some (d(length xs \<mapsto> x)), v_size := length xs + 1\<rparr>"
  have "vec_emplace_back alloc x v = Some (?v, length xs)"
    using v1(1) size d(1) by (simp add: vec_emplace_back_def vec_construct_def)
  moreover have "vec_repr ?v (xs @ [x])"
    by (rule vec_reprI [where d = "d(length xs \<mapsto> x)"]) (use d size in \<open>auto simp: nth_append less_Suc_eq\<close>)
  moreover have "vec_clean v \<longrightarrow> vec_clean ?v"
    using v1(4) d(1) size by (auto simp: vec_clean_def)
  ultimately show ?thesis using v1(5) by auto
qed

lemma vec_emplace_all_room:
  "vec_repr v xs \<Longrightarrow> length xs + length ys \<le> v_capacity v \<Longrightarrow>
    \<exists>v'. vec_emplace_all alloc ys v = Some v' \<and> vec_repr v' (xs @ ys) \<and> (vec_clean v \<longrightarrow> vec_clean v')"
proof (induction ys arbitrary: v xs)
  case (Cons y ys)
  have "v_size v < v_capacity v" using Cons.prems vec_reprD(1) by fastforce
  then have "vec_room alloc v" by (simp add: vec_room_def)
  from vec_emplace_back_ok [OF Cons.prems(1) this, of y] \<open>v_size v < v_capacity v\<close>
  obtain v1 where v1: "vec_emplace_back alloc y v = Some (v1, length xs)" "vec_repr v1 (xs @ [y])"
    "vec_clean v \<longrightarrow> vec_clean v1" "v_capacity v1 = v_capacity v" by auto
  have "length (xs @ [y]) + length ys \<le> v_capacity v1" using Cons.prems(2) v1(4) by simp
  from Cons.IH [OF v1(2) this] v1 show ?case by auto
qed simp

text \<open>With memory for every size the code asks for, elements can be added until the size doubles out of range.\<close>

lemma vec_room_alloc:
  assumes "\<And>n. n \<le> INT32_MAX \<Longrightarrow> alloc n" and "vec_repr v xs" and "2 * length xs \<le> INT32_MAX"
  shows "vec_room alloc v"
proof (cases "v_size v < v_capacity v")
  case False
  then have "v_capacity v = length xs" using vec_reprD(1,2) [OF assms(2)] by simp
  then show ?thesis using assms(1,3) by (auto simp: vec_room_def INT32_MAX_def)
qed (simp add: vec_room_def)

lemma vec_emplace_all_ok:
  assumes "\<And>n. n \<le> INT32_MAX \<Longrightarrow> alloc n"
  shows "vec_repr v xs \<Longrightarrow> 2 * (length xs + length ys) \<le> INT32_MAX \<Longrightarrow>
    \<exists>v'. vec_emplace_all alloc ys v = Some v' \<and> vec_repr v' (xs @ ys) \<and> (vec_clean v \<longrightarrow> vec_clean v')"
proof (induction ys arbitrary: v xs)
  case (Cons y ys)
  have "2 * length xs \<le> INT32_MAX" using Cons.prems(2) by simp
  from vec_room_alloc [OF assms Cons.prems(1) this] vec_emplace_back_ok [OF Cons.prems(1), of alloc y]
  obtain v1 where v1: "vec_emplace_back alloc y v = Some (v1, length xs)" "vec_repr v1 (xs @ [y])"
    "vec_clean v \<longrightarrow> vec_clean v1" by auto
  have "2 * (length (xs @ [y]) + length ys) \<le> INT32_MAX" using Cons.prems(2) by simp
  from Cons.IH [OF v1(2) this] v1 show ?case by auto
qed simp

section \<open>Removing\<close>

lemma vec_shifted_down:
  assumes r: "vec_repr v xs" and p: "p < length xs" and d: "v_data v = Some d" and d': "\<And>j. j \<noteq> p \<Longrightarrow> d' j = d j"
    and w: "v_size w = v_size v" "v_capacity w = v_capacity v" "v_data w = Some d'"
  shows "\<exists>w'. shift_down p (length xs - 1 - p) w = Some w' \<and> v_size w' = v_size w \<and> v_capacity w' = v_capacity v
    \<and> vec_repr (w'\<lparr>v_size := length xs - 1\<rparr>) (take p xs @ drop (Suc p) xs)
    \<and> (vec_clean v \<longrightarrow> p + 1 < length xs \<or> d' p = None \<longrightarrow> vec_clean (w'\<lparr>v_size := length xs - 1\<rparr>))
    \<and> (p + 1 = length xs \<longrightarrow> w' = w)"
proof -
  let ?t = "length xs - 1 - p"
  have size: "v_size v = length xs" "length xs \<le> v_capacity v" "v_capacity v \<le> INT32_MAX"
    by (fact vec_reprD [OF r])+
  have cells: "d i = Some (xs ! i)" if "i < length xs" for i using r d that by (simp add: vec_repr_def)
  let ?d = "\<lambda>j. if p \<le> j \<and> j < p + ?t then d' (j + 1) else if j = p + ?t \<and> 0 < ?t then None else d' j"
  have run: "shift_down p ?t w = Some (w\<lparr>v_data := Some ?d\<rparr>)"
    by (rule shift_down_cells [OF w(3)]) (use p size w d' cells in auto)
  have "vec_repr (w\<lparr>v_data := Some ?d, v_size := length xs - 1\<rparr>) (take p xs @ drop (Suc p) xs)"
    by (rule vec_reprI [where d = ?d]) (use p size w d' cells in \<open>auto simp: nth_append min_def\<close>)
  moreover have "vec_clean (w\<lparr>v_data := Some ?d, v_size := length xs - 1\<rparr>)"
    if "vec_clean v" "p + 1 < length xs \<or> d' p = None"
  proof -
    have "?d j = None" if j: "length xs - 1 \<le> j" for j
    proof (cases "j = p + ?t")
      case True
      then show ?thesis using \<open>p + 1 < length xs \<or> d' p = None\<close> p by (cases "0 < ?t") auto
    next
      case False
      then have "j \<noteq> p" "length xs \<le> j" using j p by auto
      then show ?thesis using d' [of j] \<open>vec_clean v\<close> d size(1) False by (auto simp: vec_clean_def)
    qed
    then show ?thesis by (simp add: vec_clean_def)
  qed
  moreover have "p + 1 = length xs \<Longrightarrow> w\<lparr>v_data := Some ?d\<rparr> = w"
    using w(3) by (auto simp: fun_eq_iff intro!: vector.equality)
  ultimately show ?thesis using run w by auto
qed

lemma vec_remove_ok:
  assumes r: "vec_repr v xs" and p: "0 \<le> pos" "pos < int (length xs)"
  shows "\<exists>v'. vec_remove pos v = Some (v', Some (xs ! nat pos))
    \<and> vec_repr v' (take (nat pos) xs @ drop (Suc (nat pos)) xs)
    \<and> (vec_clean v \<longrightarrow> nat pos + 1 < length xs \<longrightarrow> vec_clean v')"
proof -
  have size: "v_size v = length xs" "length xs \<le> v_capacity v" by (fact vec_reprD [OF r])+
  have p': "nat pos < length xs" using p by simp
  then have cap: "0 < v_capacity v" using size by linarith
  obtain d where d: "v_data v = Some d" using vec_repr_cells [OF r cap] by blast
  from vec_shifted_down [OF r p' d refl refl refl d] obtain w where w:
    "shift_down (nat pos) (length xs - 1 - nat pos) v = Some w"
    "vec_repr (w\<lparr>v_size := length xs - 1\<rparr>) (take (nat pos) xs @ drop (Suc (nat pos)) xs)"
    "vec_clean v \<longrightarrow> nat pos + 1 < length xs \<or> d (nat pos) = None \<longrightarrow> vec_clean (w\<lparr>v_size := length xs - 1\<rparr>)"
    "v_size w = v_size v"
    by (elim exE conjE)
  have "vec_remove pos v = Some (w\<lparr>v_size := length xs - 1\<rparr>, Some (xs ! nat pos))"
    using p size vec_reprD(4) [OF r p'] w(1,4) by (simp add: vec_remove_def)
  with w(2,3) show ?thesis by blast
qed

lemma vec_erase_ok:
  assumes r: "vec_repr v xs" and p: "0 \<le> pos" "pos < int (length xs)"
  shows "\<exists>v'. erase_helper pos v = Some (v', nat pos)
    \<and> vec_repr v' (take (nat pos) xs @ drop (Suc (nat pos)) xs) \<and> (vec_clean v \<longrightarrow> vec_clean v')"
proof -
  have size: "v_size v = length xs" "length xs \<le> v_capacity v" by (fact vec_reprD [OF r])+
  have p': "nat pos < length xs" using p by simp
  then have cap: "0 < v_capacity v" using size by linarith
  obtain d where d: "v_data v = Some d" "\<And>i. i < length xs \<Longrightarrow> d i = Some (xs ! i)"
    using vec_repr_cells [OF r cap] by blast
  let ?v = "v\<lparr>v_data := Some (d(nat pos := None))\<rparr>"
  have des: "vec_destroy (nat pos) v = Some ?v"
    using p' size d by (simp add: vec_destroy_def)
  from vec_shifted_down [OF r p' d(1), of "d(nat pos := None)" ?v] obtain w where
    "shift_down (nat pos) (length xs - 1 - nat pos) ?v = Some w"
    "vec_repr (w\<lparr>v_size := length xs - 1\<rparr>) (take (nat pos) xs @ drop (Suc (nat pos)) xs)"
    "vec_clean v \<longrightarrow> vec_clean (w\<lparr>v_size := length xs - 1\<rparr>)"
    "v_size w = v_size v"
    by auto
  moreover from this have "erase_helper pos v = Some (w\<lparr>v_size := length xs - 1\<rparr>, nat pos)"
    using p size des by (simp add: erase_helper_def)
  ultimately show ?thesis by blast
qed

lemma vec_pop_back_ok:
  assumes r: "vec_repr v xs" and ne: "xs \<noteq> []"
  shows "\<exists>v'. vec_pop_back v = Some (v', Some (last xs)) \<and> vec_repr v' (butlast xs) \<and> \<not> vec_clean v'"
proof -
  have size: "v_size v = length xs" "length xs \<le> v_capacity v" "v_capacity v \<le> INT32_MAX"
    by (fact vec_reprD [OF r])+
  have cap: "0 < v_capacity v" using size ne by (cases xs) auto
  obtain d where d: "v_data v = Some d" "\<And>i. i < length xs \<Longrightarrow> d i = Some (xs ! i)"
    using vec_repr_cells [OF r cap] by blast
  let ?v = "v\<lparr>v_size := length xs - 1\<rparr>"
  have l: "length xs - 1 < length xs" using ne by simp
  have "vec_pop_back v = Some (?v, Some (last xs))"
    using ne size l d order.strict_trans2 [OF l size(2)] by (simp add: vec_pop_back_def vec_read_def last_conv_nth)
  moreover have "vec_repr ?v (butlast xs)"
    by (rule vec_reprI [where d = d]) (use size d in \<open>auto simp: nth_butlast\<close>)
  moreover have "\<not> vec_clean ?v"
    using d l by (auto simp: vec_clean_def intro!: exI [of _ "length xs - 1"])
  ultimately show ?thesis by blast
qed

section \<open>Resizing, clearing\<close>

lemma destroy_from_cells:
  assumes "v_data v = Some d" and "i + todo \<le> v_capacity v" and "\<And>j. i \<le> j \<Longrightarrow> j < i + todo \<Longrightarrow> d j \<noteq> None"
  shows "destroy_from i todo v = Some (v\<lparr>v_data := Some (\<lambda>j. if i \<le> j \<and> j < i + todo then None else d j)\<rparr>)"
  using assms
proof (induction todo arbitrary: i v d)
  case 0
  then show ?case by (auto simp: fun_eq_iff intro!: vector.equality)
next
  case (Suc todo)
  let ?v = "v\<lparr>v_data := Some (d(i := None))\<rparr>"
  have "destroy_from (i + 1) todo ?v =
      Some (?v\<lparr>v_data := Some (\<lambda>j. if i + 1 \<le> j \<and> j < i + 1 + todo then None else (d(i := None)) j)\<rparr>)"
    by (rule Suc.IH) (use Suc.prems in auto)
  moreover have "destroy_from i (Suc todo) v = destroy_from (i + 1) todo ?v"
    using Suc.prems(1,2) Suc.prems(3) [of i] by (simp add: vec_destroy_def)
  moreover have "(\<lambda>j. if i + 1 \<le> j \<and> j < i + 1 + todo then None else (d(i := None)) j)
      = (\<lambda>j. if i \<le> j \<and> j < i + Suc todo then None else d j)"
    by (auto simp: fun_eq_iff)
  ultimately show ?case by simp
qed

text \<open>\<open>resize\<close> truncates and reserves; the size never grows.\<close>

lemma vec_resize_ok:
  assumes r: "vec_repr v xs" and a: "v_capacity v < n \<Longrightarrow> alloc n" and n: "n < INT32_MAX"
  shows "\<exists>v'. vec_resize alloc n v = Some v' \<and> vec_repr v' (take n xs) \<and> v_capacity v' = max (v_capacity v) n
    \<and> (vec_clean v \<longrightarrow> vec_clean v')"
proof -
  have size: "v_size v = length xs" "length xs \<le> v_capacity v" "v_capacity v \<le> INT32_MAX"
    by (fact vec_reprD [OF r])+
  obtain v1 where v1: "(if n < v_size v then do {
        v \<leftarrow> destroy_from n (v_size v - n) v; Some (v\<lparr>v_size := n\<rparr>) } else Some v) = Some v1"
    "vec_repr v1 (take n xs)" "vec_clean v \<longrightarrow> vec_clean v1" "v_capacity v1 = v_capacity v"
  proof (cases "n < v_size v")
    case True
    then have cap: "0 < v_capacity v" using size by linarith
    obtain d where d: "v_data v = Some d" "\<And>i. i < length xs \<Longrightarrow> d i = Some (xs ! i)"
      using vec_repr_cells [OF r cap] by blast
    let ?d = "\<lambda>j. if n \<le> j \<and> j < n + (v_size v - n) then None else d j"
    let ?v = "v\<lparr>v_data := Some ?d, v_size := n\<rparr>"
    have "destroy_from n (v_size v - n) v = Some (v\<lparr>v_data := Some ?d\<rparr>)"
      by (rule destroy_from_cells [OF d(1)]) (use size True d in auto)
    moreover have "vec_repr ?v (take n xs)"
      by (rule vec_reprI [where d = ?d]) (use size True d in auto)
    moreover have "vec_clean v \<longrightarrow> vec_clean ?v"
      using d(1) by (auto simp: vec_clean_def)
    ultimately show thesis using that [of ?v] True by simp
  next
    case False
    then show thesis using that [of v] r size by simp
  qed
  have "vec_resize alloc n v = Some (vec_reserve alloc n v1)"
    using v1(1) n by (simp add: vec_resize_def Let_def)
  then show ?thesis
    using vec_reserve_ok [OF v1(2), of n alloc] a v1(3,4) n by simp
qed

lemma vec_clear_ok: "vec_repr v xs \<Longrightarrow> vec_repr (vec_clear v) []"
  by (auto simp: vec_repr_def vec_clear_def split: option.splits)

section \<open>Access\<close>

lemma last_index: "nat (int (length xs) - 1) = length xs - 1"
  by simp

lemma vec_access:
  assumes r: "vec_repr v xs"
  shows "vec_at i v = Some (if 0 \<le> i \<and> i < int (length xs) then Some (xs ! nat i) else None)"
    "vec_at_size n v = Some (if n < length xs then Some (xs ! n) else None)"
    "vec_index i v = (if 0 \<le> i \<and> i < int (length xs) then Some (xs ! nat i) else None)"
    "vec_index_size n v = (if n < length xs then Some (xs ! n) else None)"
    "vec_deref i v = (if 0 \<le> i \<and> i < int (length xs) then Some (xs ! nat i) else None)"
    "vec_front v = (if xs = [] then None else Some (hd xs))"
    "vec_back v = (if xs = [] then None else Some (last xs))"
  using vec_reprD(1) [OF r] vec_reprD(4) [OF r, of "nat i"] vec_reprD(4) [OF r, of n]
    vec_reprD(4) [OF r, of 0] vec_reprD(4) [OF r, of "length xs - 1"] last_index [of xs]
  by (auto simp: vec_at_def vec_at_size_def vec_index_def vec_index_size_def vec_deref_def vec_front_def
      vec_back_def hd_conv_nth last_conv_nth nat_diff_distrib assert_that_def)

lemma vec_iterate_from:
  assumes r: "vec_repr v xs"
  shows "i \<le> length xs \<Longrightarrow> vec_iterate v (int i) = Some (drop i xs)"
proof (induction "length xs - i" arbitrary: i)
  case 0
  then show ?case using vec_reprD(1) [OF r] by (subst vec_iterate.simps) simp
next
  case (Suc k)
  then have i: "i < length xs" by simp
  have "vec_iterate v (int (i + 1)) = Some (drop (i + 1) xs)"
    using Suc by (intro Suc.hyps(1)) auto
  then show ?case
    using i vec_reprD(1) [OF r] by (subst vec_iterate.simps) (simp add: vec_access [OF r] Cons_nth_drop_Suc add.commute)
qed

lemma vec_iterate_ok: "vec_repr v xs \<Longrightarrow> vec_iterate v 0 = Some xs"
  using vec_iterate_from [of v xs 0] by simp

lemma vec_iterate_back_from:
  assumes r: "vec_repr v xs"
  shows "i \<le> length xs \<Longrightarrow> vec_iterate_back v (int i - 1) = Some (rev (take i xs))"
proof (induction i)
  case (Suc i)
  then have "vec_iterate_back v (int i - 1) = Some (rev (take i xs))" by simp
  with Suc.prems show ?case
    by (subst vec_iterate_back.simps) (simp add: vec_access [OF r] take_Suc_conv_app_nth)
qed (subst vec_iterate_back.simps, simp)

lemma vec_iterate_back_ok: "vec_repr v xs \<Longrightarrow> vec_iterate_back v (int (v_size v) - 1) = Some (rev xs)"
  using vec_iterate_back_from [of v xs "length xs"] vec_reprD(1) [of v xs] by simp

section \<open>Construction\<close>

lemma vec_empty_ok: "vec_repr vec_empty []" "vec_clean vec_empty"
  by (simp_all add: vec_repr_def vec_clean_def vec_empty_def)

lemma vec_new_ok:
  assumes "n \<le> INT32_MAX" and "0 < n \<Longrightarrow> alloc n"
  shows "\<exists>v. vec_new alloc n = Some v \<and> vec_repr v [] \<and> vec_clean v \<and> v_capacity v = n"
  using assms by (auto simp: vec_new_def vec_repr_def vec_clean_def assert_that_def)

lemma vec_from_list_ok:
  fixes xs :: "'a list"
  assumes "length xs \<le> INT32_MAX" and "xs \<noteq> [] \<Longrightarrow> alloc (length xs)"
  shows "\<exists>v. vec_from_list alloc xs = Some v \<and> vec_repr v xs \<and> vec_clean v"
proof -
  obtain v :: "'a vector" where v: "vec_new alloc (length xs) = Some v" "vec_repr v []" "vec_clean v" "v_capacity v = length xs"
    using vec_new_ok [OF assms(1), of alloc] assms(2) by auto
  then show ?thesis
    using vec_emplace_all_room [OF v(2), of xs alloc] by (auto simp: vec_from_list_def)
qed

section \<open>Appending\<close>

lemma append_loop_ok:
  assumes o: "vec_repr other ys"
  shows "vec_repr v xs \<Longrightarrow> i + todo = length ys \<Longrightarrow> length xs + todo \<le> v_capacity v \<Longrightarrow>
    \<exists>v'. append_loop alloc other i todo v = Some v' \<and> vec_repr v' (xs @ drop i ys)"
proof (induction todo arbitrary: i v xs)
  case (Suc todo)
  then have i: "i < length ys" by simp
  have "v_size v < v_capacity v" using Suc.prems vec_reprD(1) [of v xs] by simp
  then have "vec_room alloc v" by (simp add: vec_room_def)
  from vec_emplace_back_ok [OF Suc.prems(1) this, of "ys ! i"] \<open>v_size v < v_capacity v\<close>
  obtain v1 where v1: "vec_emplace_back alloc (ys ! i) v = Some (v1, length xs)" "vec_repr v1 (xs @ [ys ! i])"
    "v_capacity v1 = v_capacity v" by auto
  have "i + 1 + todo = length ys" "length (xs @ [ys ! i]) + todo \<le> v_capacity v1" using Suc.prems v1(3) by simp_all
  from Suc.IH [OF v1(2) this] v1(1) i vec_reprD(4) [OF o i] show ?case
    by (auto simp: Cons_nth_drop_Suc)
qed simp

lemma vec_append_ok:
  assumes r: "vec_repr v xs" and o: "vec_repr other ys" and n: "length xs + length ys < INT32_MAX"
    and a: "v_capacity v < length xs + length ys \<Longrightarrow> alloc (length xs + length ys)"
  shows "\<exists>v'. vec_append alloc other v = Some v' \<and> vec_repr v' (xs @ ys)"
proof -
  note size = vec_reprD(1) [OF r] vec_reprD(1) [OF o]
  let ?v = "vec_reserve alloc (length xs + length ys) v"
  have "vec_repr ?v xs" "length xs + length ys \<le> v_capacity ?v"
    using vec_reserve_ok(1,2) [OF r, of "length xs + length ys" alloc] a n by auto
  then show ?thesis
    using append_loop_ok [OF o, of ?v xs 0 "length ys" alloc] n size by (auto simp: vec_append_def)
qed

text \<open>Appending a vector to itself: the end of the loop moves away with every element.\<close>

lemma vec_emplace_back_grows: "vec_emplace_back alloc x v = Some (v', i) \<Longrightarrow> v_size v' = Suc (v_size v)"
  by (auto simp: vec_emplace_back_def vec_expand_def vec_reserve_def vec_construct_def Let_def
      split: if_splits bind_splits)

lemma append_self_never_ends:
  assumes "append_self_loop alloc i v = Some v'"
  shows "\<not> i < v_size v"
proof (rule append_self_loop.raw_induct [OF _ assms, where P = "\<lambda>alloc i v v'. \<not> i < v_size v"], goal_cases)
  case (1 rec alloc i v v')
  show ?case
  proof
    assume "i < v_size v"
    with 1(2) obtain x v1 j where "vec_read i v = Some x" "vec_emplace_back alloc x v = Some (v1, j)"
      and rec: "rec alloc (i + 1) v1 = Some v'"
      by (auto split: bind_splits)
    then have "i + 1 < v_size v1" using vec_emplace_back_grows \<open>i < v_size v\<close> by fastforce
    with 1(1) [OF rec] show False by simp
  qed
qed

lemma vec_append_self_none: "0 < v_size v \<Longrightarrow> vec_append_self alloc v = None"
proof (rule ccontr)
  assume v: "0 < v_size v" and "vec_append_self alloc v \<noteq> None"
  then obtain v' where "append_self_loop alloc 0 (vec_reserve alloc (v_size v + v_size v) v) = Some v'"
    by (auto simp: vec_append_self_def assert_that_def split: if_splits)
  from append_self_never_ends [OF this] v show False by (simp add: vec_reserve_def Let_def split: if_splits)
qed

end
