(* ===== verification/LinkedList.thy ===== *)
theory LinkedList
  imports Prelude
begin

text \<open>
  include/dlh/container/list.hpp: the doubly linked \<open>List\<close>.

  The memory is a map from addresses to nodes; 0 is the null pointer, an address without a node
  is not allocated.  Following a null or dangling pointer and a failed assert are \<open>None\<close>.  The
  operations that call \<open>new\<close> take the address it returns.
\<close>

record 'a list_node =
  l_data :: 'a
  l_prev :: nat
  l_next :: nat

record 'a linked =
  l_head :: nat
  l_tail :: nat
  l_size :: nat
  l_mem :: "nat \<Rightarrow> 'a list_node option"

definition list_set_next :: "nat \<Rightarrow> nat \<Rightarrow> 'a linked \<Rightarrow> 'a linked option" where
  "list_set_next i n s = do { x \<leftarrow> l_mem s i; Some (s\<lparr>l_mem := (l_mem s)(i \<mapsto> x\<lparr>l_next := n\<rparr>)\<rparr>) }"

definition list_set_prev :: "nat \<Rightarrow> nat \<Rightarrow> 'a linked \<Rightarrow> 'a linked option" where
  "list_set_prev i p s = do { x \<leftarrow> l_mem s i; Some (s\<lparr>l_mem := (l_mem s)(i \<mapsto> x\<lparr>l_prev := p\<rparr>)\<rparr>) }"

text \<open>\<open>new N(value)\<close> at a free address, and \<open>delete\<close>.\<close>

definition list_alloc :: "nat \<Rightarrow> 'a \<Rightarrow> 'a linked \<Rightarrow> 'a linked option" where
  "list_alloc a v s = do {
     assert_that (a \<noteq> 0 \<and> l_mem s a = None);
     Some (s\<lparr>l_mem := (l_mem s)(a \<mapsto> \<lparr>l_data = v, l_prev = 0, l_next = 0\<rparr>)\<rparr>)
   }"

definition list_delete :: "nat \<Rightarrow> 'a linked \<Rightarrow> 'a linked option" where
  "list_delete a s = do { _ \<leftarrow> l_mem s a; Some (s\<lparr>l_mem := (l_mem s)(a := None)\<rparr>) }"

section \<open>Linking nodes\<close>

text \<open>The asserts at the end of every operation that links a node.\<close>

definition check_linked :: "nat \<Rightarrow> 'a linked \<Rightarrow> unit option" where
  "check_linked node s = do {
     x \<leftarrow> l_mem s node;
     (if l_next x = 0 then assert_that (l_tail s = node)
      else do { n \<leftarrow> l_mem s (l_next x); assert_that (l_prev n = node \<and> l_tail s \<noteq> node) });
     (if l_prev x = 0 then assert_that (l_head s = node)
      else do { p \<leftarrow> l_mem s (l_prev x); assert_that (l_next p = node \<and> l_head s \<noteq> node) })
   }"

definition list_push_back :: "nat \<Rightarrow> 'a linked \<Rightarrow> ('a linked \<times> nat) option" where
  "list_push_back node s = do {
     assert_that (node \<noteq> 0);
     s \<leftarrow> list_set_prev node (l_tail s) s;
     s \<leftarrow> (if l_tail s \<noteq> 0 then do {
              t \<leftarrow> l_mem s (l_tail s);
              assert_that (l_next t = 0);
              list_set_next (l_tail s) node s
            } else if l_head s = 0 then Some (s\<lparr>l_head := node\<rparr>) else Some s);
     s \<leftarrow> list_set_next node 0 s;
     let s = s\<lparr>l_tail := node\<rparr>;
     check_linked node s;
     Some (s\<lparr>l_size := l_size s + 1\<rparr>, node)
   }"

definition list_push_front :: "nat \<Rightarrow> 'a linked \<Rightarrow> ('a linked \<times> nat) option" where
  "list_push_front node s = do {
     assert_that (node \<noteq> 0);
     s \<leftarrow> list_set_next node (l_head s) s;
     s \<leftarrow> (if l_head s \<noteq> 0 then do {
              h \<leftarrow> l_mem s (l_head s);
              assert_that (l_prev h = 0);
              list_set_prev (l_head s) node s
            } else if l_tail s = 0 then Some (s\<lparr>l_tail := node\<rparr>) else Some s);
     s \<leftarrow> list_set_prev node 0 s;
     let s = s\<lparr>l_head := node\<rparr>;
     check_linked node s;
     Some (s\<lparr>l_size := l_size s + 1\<rparr>, node)
   }"

text \<open>\<open>insert(position, node)\<close>: before the position, at the end for the null iterator.\<close>

definition list_insert :: "nat \<Rightarrow> nat \<Rightarrow> 'a linked \<Rightarrow> ('a linked \<times> nat) option" where
  "list_insert pos node s =
     (if pos = 0 then list_push_back node s
      else do {
        assert_that (node \<noteq> 0);
        s \<leftarrow> list_set_next node pos s;
        x \<leftarrow> l_mem s pos;
        let prev = l_prev x;
        s \<leftarrow> list_set_prev node prev s;
        s \<leftarrow> (if prev = 0 then do {
                 assert_that (l_head s = pos);
                 Some (s\<lparr>l_head := node\<rparr>)
               } else list_set_next prev node s);
        s \<leftarrow> list_set_prev pos node s;
        check_linked node s;
        Some (s\<lparr>l_size := l_size s + 1\<rparr>, node)
      })"

definition list_emplace :: "nat \<Rightarrow> nat \<Rightarrow> 'a \<Rightarrow> 'a linked \<Rightarrow> ('a linked \<times> nat) option" where
  "list_emplace a pos v s = do { s \<leftarrow> list_alloc a v s; list_insert pos a s }"

definition list_emplace_front :: "nat \<Rightarrow> 'a \<Rightarrow> 'a linked \<Rightarrow> ('a linked \<times> nat) option" where
  "list_emplace_front a v s = do { s \<leftarrow> list_alloc a v s; list_push_front a s }"

definition list_emplace_back :: "nat \<Rightarrow> 'a \<Rightarrow> 'a linked \<Rightarrow> ('a linked \<times> nat) option" where
  "list_emplace_back a v s = do { s \<leftarrow> list_alloc a v s; list_push_back a s }"

section \<open>Unlinking nodes\<close>

definition list_extract :: "nat \<Rightarrow> 'a linked \<Rightarrow> 'a linked option" where
  "list_extract node s = do {
     assert_that (node \<noteq> 0);
     x \<leftarrow> l_mem s node;
     let next = l_next x;
     let prev = l_prev x;
     s \<leftarrow> (if next = 0 then do {
              assert_that (l_tail s = node);
              Some (s\<lparr>l_tail := prev\<rparr>)
            } else do {
              n \<leftarrow> l_mem s next;
              assert_that (l_prev n = node);
              list_set_prev next prev s
            });
     s \<leftarrow> (if prev = 0 then do {
              assert_that (l_head s = node);
              Some (s\<lparr>l_head := next\<rparr>)
            } else do {
              p \<leftarrow> l_mem s prev;
              assert_that (l_next p = node);
              list_set_next prev next s
            });
     Some (s\<lparr>l_size := l_size s - 1\<rparr>)
   }"

definition list_erase :: "nat \<Rightarrow> 'a linked \<Rightarrow> ('a linked \<times> nat) option" where
  "list_erase node s =
     (if node = 0 then Some (s, 0)
      else do {
        x \<leftarrow> l_mem s node;
        s \<leftarrow> list_extract node s;
        s \<leftarrow> list_delete node s;
        Some (s, l_next x)
      })"

definition list_pop_front :: "'a linked \<Rightarrow> ('a linked \<times> bool) option" where
  "list_pop_front s = do { (s, next) \<leftarrow> list_erase (l_head s) s; Some (s, next \<noteq> 0) }"

definition list_pop_back :: "'a linked \<Rightarrow> ('a linked \<times> bool) option" where
  "list_pop_back s = do { (s, next) \<leftarrow> list_erase (l_tail s) s; Some (s, next \<noteq> 0) }"

partial_function (option) list_clear_loop :: "'a linked \<Rightarrow> 'a linked option" where
  "list_clear_loop s = do {
     (s, more) \<leftarrow> list_pop_front s;
     if more then list_clear_loop s else Some s
   }"

declare list_clear_loop.simps [code]

definition list_clear :: "'a linked \<Rightarrow> 'a linked option" where
  "list_clear s = do {
     s \<leftarrow> list_clear_loop s;
     assert_that (l_size s = 0 \<and> l_head s = 0 \<and> l_tail s = 0);
     Some s
   }"

section \<open>Access\<close>

definition list_empty :: "(nat \<Rightarrow> 'a list_node option) \<Rightarrow> 'a linked" where
  "list_empty mem = \<lparr>l_head = 0, l_tail = 0, l_size = 0, l_mem = mem\<rparr>"

definition list_size :: "'a linked \<Rightarrow> nat option" where
  "list_size s = do {
     assert_that (l_size s = 0 \<and> l_head s = 0 \<and> l_tail s = 0 \<or> l_size s > 0 \<and> l_head s \<noteq> 0 \<and> l_tail s \<noteq> 0);
     Some (l_size s)
   }"

definition list_is_empty :: "'a linked \<Rightarrow> bool option" where
  "list_is_empty s = do { n \<leftarrow> list_size s; Some (n = 0) }"

definition list_value :: "nat \<Rightarrow> 'a linked \<Rightarrow> 'a option" where
  "list_value i s = do { assert_that (i \<noteq> 0); x \<leftarrow> l_mem s i; Some (l_data x) }"

definition list_front :: "'a linked \<Rightarrow> 'a option" where
  "list_front s = do { assert_that (l_head s \<noteq> 0); x \<leftarrow> l_mem s (l_head s); Some (l_data x) }"

definition list_back :: "'a linked \<Rightarrow> 'a option" where
  "list_back s = do { assert_that (l_tail s \<noteq> 0); x \<leftarrow> l_mem s (l_tail s); Some (l_data x) }"

text \<open>Iterators: \<open>++\<close> forward and backward, and the loop over all elements.\<close>

definition list_next :: "nat \<Rightarrow> 'a linked \<Rightarrow> nat option" where
  "list_next i s = do { assert_that (i \<noteq> 0); x \<leftarrow> l_mem s i; Some (l_next x) }"

definition list_prev :: "nat \<Rightarrow> 'a linked \<Rightarrow> nat option" where
  "list_prev i s = do { assert_that (i \<noteq> 0); x \<leftarrow> l_mem s i; Some (l_prev x) }"

partial_function (option) list_iterate :: "'a linked \<Rightarrow> nat \<Rightarrow> 'a list option" where
  "list_iterate s i =
     (if i = 0 then Some []
      else do { v \<leftarrow> list_value i s; n \<leftarrow> list_next i s; vs \<leftarrow> list_iterate s n; Some (v # vs) })"

declare list_iterate.simps [code]

partial_function (option) list_iterate_back :: "'a linked \<Rightarrow> nat \<Rightarrow> 'a list option" where
  "list_iterate_back s i =
     (if i = 0 then Some []
      else do { v \<leftarrow> list_value i s; n \<leftarrow> list_prev i s; vs \<leftarrow> list_iterate_back s n; Some (v # vs) })"

declare list_iterate_back.simps [code]

text \<open>\<open>List(begin, end)\<close>: the values are appended one by one; \<open>as\<close> are the addresses \<open>new\<close> returns.\<close>

fun list_emplace_all :: "(nat \<times> 'a) list \<Rightarrow> 'a linked \<Rightarrow> 'a linked option" where
  "list_emplace_all [] s = Some s"
| "list_emplace_all ((a, v) # vs) s = do { (s, _) \<leftarrow> list_emplace_back a v s; list_emplace_all vs s }"

end
