(* ===== verification/LinkedListProps.thy ===== *)
theory LinkedListProps
  imports LinkedList
begin

text \<open>
  \<open>list_repr s is xs\<close>: the nodes of the list \<open>s\<close> are at the addresses \<open>is\<close>, from head to tail, and
  hold the values \<open>xs\<close>.  A segment \<open>lseg m p i is q j\<close> of the memory starts at \<open>i\<close>, behind \<open>p\<close>, and
  ends with \<open>q\<close>, before \<open>j\<close>.
\<close>

fun lseg :: "(nat \<Rightarrow> 'a list_node option) \<Rightarrow> nat \<Rightarrow> nat \<Rightarrow> nat list \<Rightarrow> nat \<Rightarrow> nat \<Rightarrow> bool" where
  "lseg m p i [] q j \<longleftrightarrow> i = j \<and> p = q"
| "lseg m p i (x # xs) q j \<longleftrightarrow>
     i = x \<and> x \<noteq> 0 \<and> (\<exists>n. m x = Some n \<and> l_prev n = p \<and> lseg m x (l_next n) xs q j)"

definition list_repr :: "'a linked \<Rightarrow> nat list \<Rightarrow> 'a list \<Rightarrow> bool" where
  "list_repr s is xs \<longleftrightarrow> lseg (l_mem s) 0 (l_head s) is (l_tail s) 0 \<and> distinct is \<and> l_size s = length is
     \<and> xs = map (\<lambda>i. l_data (the (l_mem s i))) is"

lemma lseg_append: "lseg m p i (xs @ ys) q j \<longleftrightarrow> (\<exists>r k. lseg m p i xs r k \<and> lseg m r k ys q j)"
  by (induction xs arbitrary: p i) auto

lemma lseg_alloc: "lseg m p i xs q j \<Longrightarrow> x \<in> set xs \<Longrightarrow> \<exists>n. m x = Some n \<and> x \<noteq> 0"
  by (induction xs arbitrary: p i) auto

lemma lseg_ends:
  "lseg m p i xs q j \<Longrightarrow> (if xs = [] then i = j \<and> q = p else i = hd xs \<and> q = last xs \<and> i \<noteq> 0 \<and> q \<noteq> 0)"
proof (induction xs arbitrary: p i)
  case (Cons x xs)
  then show ?case by (fastforce split: if_splits)
qed simp

text \<open>What follows and what precedes a segment can be changed.\<close>

lemma lseg_change:
  assumes "lseg m p i xs q j" and "distinct xs" and "xs \<noteq> []"
    and "\<And>x n. x \<in> set xs \<Longrightarrow> m x = Some n \<Longrightarrow> \<exists>n'. m' x = Some n'
      \<and> l_prev n' = (if x = hd xs then p' else l_prev n) \<and> l_next n' = (if x = last xs then j' else l_next n)"
  shows "lseg m' p' i xs q j'"
  using assms
proof (induction xs arbitrary: p p' i)
  case (Cons x xs)
  obtain n where n: "i = x" "x \<noteq> 0" "m x = Some n" "l_prev n = p" "lseg m x (l_next n) xs q j"
    using Cons.prems(1) by auto
  obtain n' where n': "m' x = Some n'" "l_prev n' = p'" "l_next n' = (if xs = [] then j' else l_next n)"
    using Cons.prems(4) [OF _ n(3)] Cons.prems(2) by (cases xs) (auto split: if_splits)
  show ?case
  proof (cases "xs = []")
    case True
    then show ?thesis using n n' by simp
  next
    case False
    have "lseg m' x (l_next n) xs q j'"
    proof (rule Cons.IH [OF n(5) _ False])
      show "distinct xs" using Cons.prems(2) by simp
      fix y k assume y: "y \<in> set xs" "m y = Some k"
      have hd: "y = hd xs \<Longrightarrow> l_prev k = x" using n(5) False y by (cases xs) auto
      have "y \<noteq> x" using Cons.prems(2) y(1) by auto
      with Cons.prems(4) [OF _ y(2)] y(1) False hd
      show "\<exists>n'. m' y = Some n' \<and> l_prev n' = (if y = hd xs then x else l_prev k)
          \<and> l_next n' = (if y = last xs then j' else l_next k)"
        by (auto split: if_splits)
    qed
    then show ?thesis using n n' False by simp
  qed
qed simp

lemma lseg_same:
  assumes "lseg m p i xs q j"
    and "\<And>x n. x \<in> set xs \<Longrightarrow> m x = Some n \<Longrightarrow> \<exists>n'. m' x = Some n' \<and> l_prev n' = l_prev n \<and> l_next n' = l_next n"
  shows "lseg m' p i xs q j"
  using assms by (induction xs arbitrary: p i) fastforce+

lemma lseg_other: "y \<notin> set xs \<Longrightarrow> lseg (m(y := v)) p i xs q j = lseg m p i xs q j"
  by (induction xs arbitrary: p i) auto

section \<open>Linking and unlinking a node\<close>

lemma link_between:
  assumes seg: "lseg m 0 h (as @ bs) t 0" and dist: "distinct (as @ bs)" and e: "e \<noteq> 0"
    and me: "m' e = Some n" "l_prev n = (if as = [] then 0 else last as)" "l_next n = (if bs = [] then 0 else hd bs)"
    and m': "\<And>x n. x \<in> set (as @ bs) \<Longrightarrow> m x = Some n \<Longrightarrow> \<exists>n'. m' x = Some n'
      \<and> l_next n' = (if as \<noteq> [] \<and> x = last as then e else l_next n)
      \<and> l_prev n' = (if bs \<noteq> [] \<and> x = hd bs then e else l_prev n)"
  shows "lseg m' 0 (if as = [] then e else h) (as @ e # bs) (if bs = [] then e else t) 0"
proof -
  obtain r k where a: "lseg m 0 h as r k" and b: "lseg m r k bs t 0"
    using seg by (auto simp: lseg_append)
  note ends = lseg_ends [OF a] lseg_ends [OF b]
  have hd0: "l_prev n = 0" if "as \<noteq> []" "m (hd as) = Some n" for n
    using a that by (cases as) auto
  have last0: "l_next n = 0" if "bs \<noteq> []" "m (last bs) = Some n" for n
    using b that by (cases bs rule: rev_cases) (auto simp: lseg_append)
  have "lseg m' 0 (if as = [] then e else h) as r e"
  proof (cases "as = []")
    case False
    have "lseg m' 0 h as r e"
    proof (rule lseg_change [OF a _ False])
      show "distinct as" using dist by simp
      fix x n assume x: "x \<in> set as" "m x = Some n"
      have "\<not> (bs \<noteq> [] \<and> x = hd bs)" using dist x(1) by (cases bs) auto
      with m' [OF _ x(2)] x False hd0 show "\<exists>n'. m' x = Some n' \<and> l_prev n' = (if x = hd as then 0 else l_prev n)
          \<and> l_next n' = (if x = last as then e else l_next n)"
        by auto
    qed
    with False show ?thesis by simp
  qed (use ends in simp)
  moreover have "lseg m' e (if bs = [] then 0 else k) bs (if bs = [] then e else t) 0"
  proof (cases "bs = []")
    case False
    have "lseg m' e k bs t 0"
    proof (rule lseg_change [OF b _ False])
      show "distinct bs" using dist by simp
      fix x n assume x: "x \<in> set bs" "m x = Some n"
      have "\<not> (as \<noteq> [] \<and> x = last as)" using dist x(1) by (cases as rule: rev_cases) auto
      with m' [OF _ x(2)] x False last0 show "\<exists>n'. m' x = Some n' \<and> l_prev n' = (if x = hd bs then e else l_prev n)
          \<and> l_next n' = (if x = last bs then 0 else l_next n)"
        by auto
    qed
    with False show ?thesis by simp
  qed simp
  moreover have "l_prev n = r" "l_next n = (if bs = [] then 0 else k)"
    using me ends by (auto split: if_splits)
  ultimately show ?thesis
    using me(1) e ends unfolding lseg_append by (intro exI [of _ r] exI [of _ e]) auto
qed

lemma unlink_between:
  assumes seg: "lseg m 0 h (as @ e # bs) t 0" and dist: "distinct (as @ e # bs)" and me: "m e = Some n"
    and m': "\<And>x k. x \<in> set (as @ bs) \<Longrightarrow> m x = Some k \<Longrightarrow> \<exists>n'. m' x = Some n'
      \<and> l_next n' = (if as \<noteq> [] \<and> x = last as then l_next n else l_next k)
      \<and> l_prev n' = (if bs \<noteq> [] \<and> x = hd bs then l_prev n else l_prev k)"
  shows "lseg m' 0 (if as = [] then l_next n else h) (as @ bs) (if bs = [] then l_prev n else t) 0"
    and "l_prev n = (if as = [] then 0 else last as)" "l_next n = (if bs = [] then 0 else hd bs)"
    "e = (if as = [] then h else l_next (the (m (last as))))" "e = (if bs = [] then t else l_prev (the (m (hd bs))))"
proof -
  obtain r k where a: "lseg m 0 h as r k" and b: "lseg m r k (e # bs) t 0"
    using seg by (auto simp: lseg_append)
  have b: "k = e" "l_prev n = r" "lseg m e (l_next n) bs t 0" using b me by auto
  note ends = lseg_ends [OF a] lseg_ends [OF b(3)]
  show "l_prev n = (if as = [] then 0 else last as)" "l_next n = (if bs = [] then 0 else hd bs)"
    using ends b by (auto split: if_splits)
  have hd0: "l_prev n = 0" if "as \<noteq> []" "m (hd as) = Some n" for n
    using a that by (cases as) auto
  have last0: "l_next n = 0" if "bs \<noteq> []" "m (last bs) = Some n" for n
    using b(3) that by (cases bs rule: rev_cases) (auto simp: lseg_append)
  show "e = (if as = [] then h else l_next (the (m (last as))))"
    using a b(1) by (cases as rule: rev_cases) (auto simp: lseg_append)
  show "e = (if bs = [] then t else l_prev (the (m (hd bs))))"
    using b(3) by (cases bs) auto
  have "lseg m' 0 (if as = [] then l_next n else h) as r (l_next n)"
  proof (cases "as = []")
    case False
    have "lseg m' 0 h as r (l_next n)"
    proof (rule lseg_change [OF a _ False])
      show "distinct as" using dist by simp
      fix x k' assume x: "x \<in> set as" "m x = Some k'"
      have "\<not> (bs \<noteq> [] \<and> x = hd bs)" using dist x(1) by (cases bs) auto
      with m' [OF _ x(2)] x False hd0 show "\<exists>n'. m' x = Some n' \<and> l_prev n' = (if x = hd as then 0 else l_prev k')
          \<and> l_next n' = (if x = last as then l_next n else l_next k')"
        by auto
    qed
    with False show ?thesis by simp
  qed (use ends in simp)
  moreover have "lseg m' r (l_next n) bs (if bs = [] then l_prev n else t) 0"
  proof (cases "bs = []")
    case False
    have "lseg m' r (l_next n) bs t 0"
    proof (rule lseg_change [OF b(3) _ False])
      show "distinct bs" using dist by simp
      fix x k' assume x: "x \<in> set bs" "m x = Some k'"
      have "\<not> (as \<noteq> [] \<and> x = last as)" using dist x(1) by (cases as rule: rev_cases) auto
      with m' [OF _ x(2)] x False last0 b(2) show "\<exists>n'. m' x = Some n' \<and> l_prev n' = (if x = hd bs then r else l_prev k')
          \<and> l_next n' = (if x = last bs then 0 else l_next k')"
        by auto
    qed
    with False show ?thesis by simp
  qed (use ends b in simp)
  ultimately show "lseg m' 0 (if as = [] then l_next n else h) (as @ bs) (if bs = [] then l_prev n else t) 0"
    unfolding lseg_append by blast
qed

section \<open>The operations that link a node\<close>

lemma list_reprD:
  assumes "list_repr s is xs"
  shows "lseg (l_mem s) 0 (l_head s) is (l_tail s) 0" "distinct is" "l_size s = length is"
    "xs = map (\<lambda>i. l_data (the (l_mem s i))) is" "length xs = length is"
    "i \<in> set is \<Longrightarrow> \<exists>n. l_mem s i = Some n \<and> i \<noteq> 0"
    "is = [] \<Longrightarrow> l_head s = 0 \<and> l_tail s = 0" "is \<noteq> [] \<Longrightarrow> l_head s = hd is \<and> l_tail s = last is"
proof -
  show seg: "lseg (l_mem s) 0 (l_head s) is (l_tail s) 0" and "distinct is" "l_size s = length is"
    and xs: "xs = map (\<lambda>i. l_data (the (l_mem s i))) is"
    using assms unfolding list_repr_def by blast+
  show "length xs = length is" by (simp add: xs)
  show "i \<in> set is \<Longrightarrow> \<exists>n. l_mem s i = Some n \<and> i \<noteq> 0" by (rule lseg_alloc [OF seg])
  show "is = [] \<Longrightarrow> l_head s = 0 \<and> l_tail s = 0" "is \<noteq> [] \<Longrightarrow> l_head s = hd is \<and> l_tail s = last is"
    using lseg_ends [OF seg] by (simp_all split: if_splits)
qed

lemma list_repr_first:
  assumes "list_repr s (x # xs) vs" and "l_mem s x = Some n"
  shows "l_prev n = 0"
  using list_reprD(1) [OF assms(1)] assms(2) by simp

lemma list_repr_last:
  assumes "list_repr s (xs @ [x]) vs" and "l_mem s x = Some n"
  shows "l_next n = 0"
  using list_reprD(1) [OF assms(1)] assms(2) by (simp add: lseg_append)

lemma list_repr_linked:
  assumes r: "list_repr s (as @ bs) xs" and e: "e \<noteq> 0" "e \<notin> set (as @ bs)"
    and me: "l_mem s' e = Some n" "l_prev n = (if as = [] then 0 else last as)" "l_next n = (if bs = [] then 0 else hd bs)"
    and m': "\<And>x n. x \<in> set (as @ bs) \<Longrightarrow> l_mem s x = Some n \<Longrightarrow> \<exists>n'. l_mem s' x = Some n'
      \<and> l_next n' = (if as \<noteq> [] \<and> x = last as then e else l_next n)
      \<and> l_prev n' = (if bs \<noteq> [] \<and> x = hd bs then e else l_prev n) \<and> l_data n' = l_data n"
    and s': "l_head s' = (if as = [] then e else l_head s)" "l_tail s' = (if bs = [] then e else l_tail s)"
      "l_size s' = l_size s + 1"
  shows "list_repr s' (as @ e # bs) (take (length as) xs @ l_data n # drop (length as) xs)"
proof -
  note d = list_reprD [OF r]
  have "lseg (l_mem s') 0 (l_head s') (as @ e # bs) (l_tail s') 0"
    unfolding s' by (rule link_between [where m = "l_mem s" and n = n]) (use d e me m' in \<open>blast+\<close>)
  moreover have "l_data (the (l_mem s' x)) = l_data (the (l_mem s x))" if "x \<in> set (as @ bs)" for x
    using d(6) [OF that] m' [OF that] by fastforce
  ultimately show ?thesis
    unfolding list_repr_def using d(2-4) e me(1) s'(3) by simp
qed

text \<open>The node at \<open>e\<close> has been allocated, but is not in the list.\<close>

lemma list_push_back_ok:
  assumes r: "list_repr s is xs" and e: "e \<noteq> 0" "e \<notin> set is" "l_mem s e = Some n"
  shows "\<exists>s'. list_push_back e s = Some (s', e) \<and> list_repr s' (is @ [e]) (xs @ [l_data n])
    \<and> (\<forall>x. l_mem s' x = None \<longleftrightarrow> l_mem s x = None)"
proof (cases "is" rule: rev_cases)
  case Nil
  note d = list_reprD [OF r]
  let ?n = "n\<lparr>l_prev := 0, l_next := 0\<rparr>"
  let ?s = "s\<lparr>l_mem := (l_mem s)(e \<mapsto> ?n), l_head := e, l_tail := e, l_size := l_size s + 1\<rparr>"
  have "list_push_back e s = Some (?s, e)"
    using e d(7) Nil
    by (cases s, cases n) (simp add: list_push_back_def list_set_prev_def list_set_next_def check_linked_def Let_def fun_upd_twist)
  moreover have "list_repr ?s (is @ [e]) (xs @ [l_data n])"
    using list_repr_linked [where as = "is" and bs = "[]" and e = e and n = ?n and s = s and s' = ?s and xs = xs]
      r Nil e d(5) by simp
  ultimately show ?thesis using e(3) by (intro exI [of _ ?s]) auto
next
  case (snoc ys t)
  note d = list_reprD [OF r]
  have t: "l_tail s = t" "t \<noteq> 0" "t \<noteq> e" using d(6,8) snoc e by auto
  obtain k where k: "l_mem s t = Some k" "l_next k = 0"
    using d(6) [of t] list_repr_last [of s ys t xs] r snoc by auto
  let ?n = "n\<lparr>l_prev := t, l_next := 0\<rparr>"
  let ?s = "s\<lparr>l_mem := (l_mem s)(e \<mapsto> ?n, t \<mapsto> k\<lparr>l_next := e\<rparr>), l_tail := e, l_size := l_size s + 1\<rparr>"
  have h: "l_head s \<noteq> e" using d(8) snoc e(2) by (cases ys) auto
  have "list_push_back e s = Some (?s, e)"
    using e t k h
    by (cases s, cases n) (simp add: list_push_back_def list_set_prev_def list_set_next_def check_linked_def Let_def fun_upd_twist)
  moreover have "list_repr ?s (is @ [e]) (xs @ [l_data n])"
  proof -
    have "list_repr ?s (is @ e # []) (take (length is) xs @ l_data ?n # drop (length is) xs)"
      by (rule list_repr_linked [where s = s and n = ?n]) (use r snoc e t k in auto)
    then show ?thesis using d(5) by simp
  qed
  ultimately show ?thesis using e(3) k(1) by (intro exI [of _ ?s]) auto
qed

lemma list_push_front_ok:
  assumes r: "list_repr s is xs" and e: "e \<noteq> 0" "e \<notin> set is" "l_mem s e = Some n"
  shows "\<exists>s'. list_push_front e s = Some (s', e) \<and> list_repr s' (e # is) (l_data n # xs)"
proof (cases "is")
  case Nil
  note d = list_reprD [OF r]
  let ?n = "n\<lparr>l_prev := 0, l_next := 0\<rparr>"
  let ?s = "s\<lparr>l_mem := (l_mem s)(e \<mapsto> ?n), l_head := e, l_tail := e, l_size := l_size s + 1\<rparr>"
  have "list_push_front e s = Some (?s, e)"
    using e d(7) Nil
    by (cases s, cases n) (simp add: list_push_front_def list_set_prev_def list_set_next_def check_linked_def Let_def fun_upd_twist)
  moreover have "list_repr ?s (e # is) (l_data n # xs)"
    using list_repr_linked [where as = "[]" and bs = "is" and e = e and n = ?n and s = s and s' = ?s and xs = xs]
      r Nil e d(5) by simp
  ultimately show ?thesis by (intro exI [of _ ?s]) auto
next
  case (Cons h ys)
  note d = list_reprD [OF r]
  have h: "l_head s = h" "h \<noteq> 0" "h \<noteq> e" using d(6,8) Cons e by auto
  obtain k where k: "l_mem s h = Some k" "l_prev k = 0"
    using d(6) [of h] list_repr_first [of s h ys xs] r Cons by auto
  let ?n = "n\<lparr>l_prev := 0, l_next := h\<rparr>"
  let ?s = "s\<lparr>l_mem := (l_mem s)(e \<mapsto> ?n, h \<mapsto> k\<lparr>l_prev := e\<rparr>), l_head := e, l_size := l_size s + 1\<rparr>"
  have t: "l_tail s \<noteq> e" "l_tail s \<noteq> 0" using d(6,8) Cons e(2) last_in_set [of "is"] by auto
  have "list_push_front e s = Some (?s, e)"
    using e t k h
    by (cases s, cases n) (simp add: list_push_front_def list_set_prev_def list_set_next_def check_linked_def Let_def fun_upd_twist)
  moreover have "list_repr ?s (e # is) (l_data n # xs)"
  proof -
    have "list_repr ?s ([] @ e # is) (take (length ([] :: nat list)) xs @ l_data ?n # drop (length ([] :: nat list)) xs)"
      by (rule list_repr_linked [where as = "[]" and bs = "is" and s = s and n = ?n]) (use r Cons e h k in auto)
    then show ?thesis by simp
  qed
  ultimately show ?thesis by (intro exI [of _ ?s]) auto
qed

lemma list_insert_ok:
  assumes r: "list_repr s (as @ p # bs) xs" and e: "e \<noteq> 0" "e \<notin> set (as @ p # bs)" "l_mem s e = Some n"
  shows "\<exists>s'. list_insert p e s = Some (s', e)
    \<and> list_repr s' (as @ e # p # bs) (take (length as) xs @ l_data n # drop (length as) xs)"
proof -
  note d = list_reprD [OF r]
  have p: "p \<noteq> 0" "p \<noteq> e" "p \<notin> set as" using d(2) d(6) [of p] e by auto
  obtain k where k: "l_mem s p = Some k" using d(6) [of p] by auto
  have prev: "l_prev k = (if as = [] then 0 else last as)"
  proof -
    obtain q where "lseg (l_mem s) 0 (l_head s) as q p" "lseg (l_mem s) q p (p # bs) (l_tail s) 0"
      using d(1) unfolding lseg_append by auto
    then show ?thesis using k lseg_ends by fastforce
  qed
  have t: "l_tail s \<noteq> e" using d(8) e(2) last_in_set [of "p # bs"] by auto
  show ?thesis
  proof (cases "as = []")
    case True
    let ?n = "n\<lparr>l_prev := 0, l_next := p\<rparr>"
    let ?s = "s\<lparr>l_mem := (l_mem s)(e \<mapsto> ?n, p \<mapsto> k\<lparr>l_prev := e\<rparr>), l_head := e, l_size := l_size s + 1\<rparr>"
    have "list_insert p e s = Some (?s, e)"
      using e p k prev t True d(8)
      by (cases s, cases n) (simp add: list_insert_def list_set_prev_def list_set_next_def check_linked_def Let_def fun_upd_twist)
    moreover have "list_repr ?s (as @ e # p # bs) (take (length as) xs @ l_data ?n # drop (length as) xs)"
      by (rule list_repr_linked [where s = s and n = ?n]) (use r True e p k in auto)
    ultimately show ?thesis by (intro exI [of _ ?s]) auto
  next
    case False
    define q where "q = last as"
    have q: "q \<in> set as" "q \<noteq> 0" "q \<noteq> e" "q \<noteq> p" "l_prev k = q"
      using False prev d(6) [of q] e(2) p(3) last_in_set [OF False] by (auto simp: q_def)
    obtain j where j: "l_mem s q = Some j" using d(6) [of q] q(1) by auto
    let ?n = "n\<lparr>l_prev := q, l_next := p\<rparr>"
    let ?s = "s\<lparr>l_mem := (l_mem s)(e \<mapsto> ?n, q \<mapsto> j\<lparr>l_next := e\<rparr>, p \<mapsto> k\<lparr>l_prev := e\<rparr>), l_size := l_size s + 1\<rparr>"
    have h: "l_head s \<noteq> e" using d(8) e(2) False by (cases as) auto
    have "list_insert p e s = Some (?s, e)"
      using e p k q j t h
      by (cases s, cases n) (simp add: list_insert_def list_set_prev_def list_set_next_def check_linked_def Let_def fun_upd_twist)
    moreover have "list_repr ?s (as @ e # p # bs) (take (length as) xs @ l_data ?n # drop (length as) xs)"
    proof (rule list_repr_linked [where s = s and n = ?n])
      show "\<exists>n'. l_mem ?s x = Some n' \<and> l_next n' = (if as \<noteq> [] \<and> x = last as then e else l_next k')
          \<and> l_prev n' = (if p # bs \<noteq> [] \<and> x = hd (p # bs) then e else l_prev k') \<and> l_data n' = l_data k'"
        if "x \<in> set (as @ p # bs)" "l_mem s x = Some k'" for x k'
        using that e p k q j False by (auto simp: q_def [symmetric])
    qed (use r False e p k q in \<open>auto simp: q_def\<close>)
    ultimately show ?thesis by (intro exI [of _ ?s]) auto
  qed
qed

section \<open>The operations that unlink a node\<close>

lemma list_extract_ok:
  assumes r: "list_repr s (as @ e # bs) xs"
  shows "\<exists>s'. list_extract e s = Some s' \<and> list_repr s' (as @ bs) (take (length as) xs @ drop (Suc (length as)) xs)
    \<and> (\<forall>x. l_mem s' x = None \<longleftrightarrow> l_mem s x = None)"
    and "\<exists>n. l_mem s e = Some n \<and> l_next n = (if bs = [] then 0 else hd bs) \<and> l_data n = xs ! length as \<and> e \<noteq> 0"
proof -
  note d = list_reprD [OF r]
  obtain n where n: "l_mem s e = Some n" "e \<noteq> 0" using d(6) [of e] by auto
  define p where "p = l_prev n"
  define q where "q = l_next n"
  define m1 where "m1 = (if q = 0 then l_mem s else (l_mem s)(q \<mapsto> (the (l_mem s q))\<lparr>l_prev := p\<rparr>))"
  define m2 where "m2 = (if p = 0 then m1 else m1(p \<mapsto> (the (m1 p))\<lparr>l_next := q\<rparr>))"
  have m': "\<exists>n'. m2 x = Some n'
      \<and> l_next n' = (if as \<noteq> [] \<and> x = last as then l_next n else l_next k)
      \<and> l_prev n' = (if bs \<noteq> [] \<and> x = hd bs then l_prev n else l_prev k) \<and> l_data n' = l_data k"
    if "x \<in> set (as @ bs)" "l_mem s x = Some k"
      "p = (if as = [] then 0 else last as)" "q = (if bs = [] then 0 else hd bs)" for x k
  proof -
    have "x \<noteq> 0" using d(6) [of x] that(1) by auto
    then have xq: "x = q \<longleftrightarrow> bs \<noteq> [] \<and> x = hd bs" and xp: "x = p \<longleftrightarrow> as \<noteq> [] \<and> x = last as"
      unfolding that(3,4) by simp_all
    have "m1 x = Some (if x = q then k\<lparr>l_prev := p\<rparr> else k)"
      using that(2) \<open>x \<noteq> 0\<close> by (auto simp: m1_def)
    then have "m2 x = Some (if x = p then (if x = q then k\<lparr>l_prev := p\<rparr> else k)\<lparr>l_next := q\<rparr>
        else if x = q then k\<lparr>l_prev := p\<rparr> else k)"
      using \<open>x \<noteq> 0\<close> by (auto simp: m2_def)
    then show ?thesis
      unfolding xp [symmetric] xq [symmetric] p_def [symmetric] q_def [symmetric] by auto
  qed
  have ends: "p = (if as = [] then 0 else last as)" "q = (if bs = [] then 0 else hd bs)"
    "e = (if as = [] then l_head s else l_next (the (l_mem s (last as))))"
    "e = (if bs = [] then l_tail s else l_prev (the (l_mem s (hd bs))))"
    unfolding p_def q_def using unlink_between(2-5) [OF d(1,2) n(1), where m' = "\<lambda>x. if x \<in> set (as @ bs) then
      map_option (\<lambda>k. k\<lparr>l_next := if as \<noteq> [] \<and> x = last as then l_next n else l_next k,
        l_prev := if bs \<noteq> [] \<and> x = hd bs then l_prev n else l_prev k\<rparr>) (l_mem s x) else None"]
    by auto
  have seg: "lseg m2 0 (if as = [] then l_next n else l_head s) (as @ bs) (if bs = [] then l_prev n else l_tail s) 0"
    by (rule unlink_between(1) [OF d(1,2) n(1)]) (use m' ends in blast)
  let ?s = "s\<lparr>l_mem := m2, l_tail := if q = 0 then p else l_tail s, l_head := if p = 0 then q else l_head s,
    l_size := l_size s - 1\<rparr>"
  have z: "q = 0 \<longleftrightarrow> bs = []" "p = 0 \<longleftrightarrow> as = []"
    using ends(1,2) d(6) [of "last as"] d(6) [of "hd bs"] by auto
  have pq: "p \<noteq> 0 \<Longrightarrow> p \<noteq> q"
  proof
    assume "p \<noteq> 0" "p = q"
    then have ne: "as \<noteq> []" "bs \<noteq> []" using z by auto
    then have "last as = hd bs" using \<open>p = q\<close> ends(1,2) by simp
    then show False using d(2) last_in_set [OF ne(1)] hd_in_set [OF ne(2)] by auto
  qed
  have nodes: "q \<noteq> 0 \<Longrightarrow> \<exists>k. l_mem s q = Some k \<and> l_prev k = e" "p \<noteq> 0 \<Longrightarrow> \<exists>k. l_mem s p = Some k \<and> l_next k = e"
    using ends z d(6) [of "last as"] d(6) [of "hd bs"] by (auto split: if_splits)
  have heads: "p = 0 \<Longrightarrow> l_head s = e" "q = 0 \<Longrightarrow> l_tail s = e" using ends z by auto
  have "list_extract e s = Some ?s"
    using n nodes heads pq
    by (auto simp: list_extract_def list_set_prev_def list_set_next_def Let_def p_def [symmetric] q_def [symmetric] m2_def m1_def)
  moreover have "l_data (the (m2 x)) = l_data (the (l_mem s x))" if "x \<in> set (as @ bs)" for x
    using d(6) [of x] m' [OF that _ ends(1,2)] that by fastforce
  then have "list_repr ?s (as @ bs) (take (length as) xs @ drop (Suc (length as)) xs)"
    using seg d(2-4) z unfolding list_repr_def by (auto simp: p_def q_def)
  moreover have "l_mem ?s x = None \<longleftrightarrow> l_mem s x = None" for x
    using nodes by (auto simp: m2_def m1_def)
  ultimately show "\<exists>s'. list_extract e s = Some s' \<and> list_repr s' (as @ bs) (take (length as) xs @ drop (Suc (length as)) xs)
    \<and> (\<forall>x. l_mem s' x = None \<longleftrightarrow> l_mem s x = None)" by blast
  show "\<exists>n. l_mem s e = Some n \<and> l_next n = (if bs = [] then 0 else hd bs) \<and> l_data n = xs ! length as \<and> e \<noteq> 0"
    using n ends(2) d(4) by (auto simp: q_def nth_append)
qed

section \<open>The operations on values\<close>

lemma list_alloc_ok:
  assumes r: "list_repr s is xs" and a: "a \<noteq> 0" "l_mem s a = None"
  shows "\<exists>s'. list_alloc a v s = Some s' \<and> list_repr s' is xs \<and> a \<notin> set is
    \<and> l_mem s' a = Some \<lparr>l_data = v, l_prev = 0, l_next = 0\<rparr>
    \<and> l_head s' = l_head s \<and> l_tail s' = l_tail s \<and> (\<forall>x. x \<noteq> a \<longrightarrow> l_mem s' x = l_mem s x)"
proof -
  note d = list_reprD [OF r]
  let ?s = "s\<lparr>l_mem := (l_mem s)(a \<mapsto> \<lparr>l_data = v, l_prev = 0, l_next = 0\<rparr>)\<rparr>"
  have "a \<notin> set is" using d(6) [of a] a by auto
  then have "list_repr ?s is xs"
    using d(1-3) d(4) unfolding list_repr_def by (auto simp: lseg_other)
  then show ?thesis using a \<open>a \<notin> set is\<close> by (intro exI [of _ ?s]) (simp add: list_alloc_def)
qed

lemma list_emplace_back_ok:
  assumes r: "list_repr s is xs" and a: "a \<noteq> 0" "l_mem s a = None"
  shows "\<exists>s'. list_emplace_back a v s = Some (s', a) \<and> list_repr s' (is @ [a]) (xs @ [v])
    \<and> (\<forall>x. x \<noteq> a \<longrightarrow> l_mem s x = None \<longrightarrow> l_mem s' x = None)"
proof -
  obtain s1 where s1: "list_alloc a v s = Some s1" "list_repr s1 is xs" "a \<notin> set is"
    "l_mem s1 a = Some \<lparr>l_data = v, l_prev = 0, l_next = 0\<rparr>" "\<forall>x. x \<noteq> a \<longrightarrow> l_mem s1 x = l_mem s x"
    using list_alloc_ok [OF assms] by blast
  from list_push_back_ok [OF s1(2) a(1) s1(3,4)] s1(1,5) show ?thesis by (auto simp: list_emplace_back_def)
qed

lemma list_emplace_front_ok:
  assumes r: "list_repr s is xs" and a: "a \<noteq> 0" "l_mem s a = None"
  shows "\<exists>s'. list_emplace_front a v s = Some (s', a) \<and> list_repr s' (a # is) (v # xs)"
proof -
  obtain s1 where s1: "list_alloc a v s = Some s1" "list_repr s1 is xs" "a \<notin> set is"
    "l_mem s1 a = Some \<lparr>l_data = v, l_prev = 0, l_next = 0\<rparr>"
    using list_alloc_ok [OF assms] by blast
  from list_push_front_ok [OF s1(2) a(1) s1(3,4)] s1(1) show ?thesis by (auto simp: list_emplace_front_def)
qed

text \<open>Inserting before the \<open>k\<close>-th node, or at the end.\<close>

lemma list_emplace_ok:
  assumes r: "list_repr s is xs" and a: "a \<noteq> 0" "l_mem s a = None" and k: "k \<le> length is"
  shows "\<exists>s'. list_emplace a (if k < length is then is ! k else 0) v s = Some (s', a)
    \<and> list_repr s' (take k is @ a # drop k is) (take k xs @ v # drop k xs)"
proof -
  obtain s1 where s1: "list_alloc a v s = Some s1" "list_repr s1 is xs" "a \<notin> set is"
    "l_mem s1 a = Some \<lparr>l_data = v, l_prev = 0, l_next = 0\<rparr>"
    using list_alloc_ok [OF r a] by blast
  note d = list_reprD [OF r]
  show ?thesis
  proof (cases "k < length is")
    case True
    then have split: "is = take k is @ is ! k # drop (Suc k) is" by (simp add: id_take_nth_drop)
    have "list_repr s1 (take k is @ is ! k # drop (Suc k) is) xs" using s1(2) split by simp
    from list_insert_ok [OF this a(1)] s1(3,4) split
    obtain s' where "list_insert (is ! k) a s1 = Some (s', a)"
      "list_repr s' (take k is @ a # is ! k # drop (Suc k) is) (take (length (take k is)) xs @ v # drop (length (take k is)) xs)"
      by auto
    then show ?thesis using True s1(1) by (auto simp: list_emplace_def Cons_nth_drop_Suc)
  next
    case False
    then have "k = length is" using k by simp
    with list_push_back_ok [OF s1(2) a(1) s1(3,4)] s1(1) d(5) show ?thesis
      by (auto simp: list_emplace_def list_insert_def)
  qed
qed

lemma list_erase_ok:
  assumes r: "list_repr s is xs" and k: "k < length is"
  shows "\<exists>s'. list_erase (is ! k) s = Some (s', if Suc k < length is then is ! Suc k else 0)
    \<and> list_repr s' (take k is @ drop (Suc k) is) (take k xs @ drop (Suc k) xs) \<and> l_mem s' (is ! k) = None"
proof -
  have split: "is = take k is @ is ! k # drop (Suc k) is" using k by (simp add: id_take_nth_drop)
  have r': "list_repr s (take k is @ is ! k # drop (Suc k) is) xs" using r split by simp
  have len: "length (take k is) = k" using k by simp
  note ex = list_extract_ok [OF r', unfolded len]
  obtain n where n: "l_mem s (is ! k) = Some n" "is ! k \<noteq> 0"
    "l_next n = (if drop (Suc k) is = [] then 0 else hd (drop (Suc k) is))"
    using ex(2) by blast
  obtain s1 where s1: "list_extract (is ! k) s = Some s1"
    "list_repr s1 (take k is @ drop (Suc k) is) (take k xs @ drop (Suc k) xs)"
    "\<forall>x. l_mem s1 x = None \<longleftrightarrow> l_mem s x = None"
    using ex(1) by blast
  let ?s = "s1\<lparr>l_mem := (l_mem s1)(is ! k := None)\<rparr>"
  have "distinct (take k is @ is ! k # drop (Suc k) is)" using list_reprD(2) [OF r'] .
  then have nin: "is ! k \<notin> set (take k is @ drop (Suc k) is)" by simp
  note d1 = list_reprD [OF s1(2)]
  have "lseg (l_mem ?s) 0 (l_head ?s) (take k is @ drop (Suc k) is) (l_tail ?s) 0"
    using d1(1) nin by (simp add: lseg_other)
  then have "list_repr ?s (take k is @ drop (Suc k) is) (take k xs @ drop (Suc k) xs)"
    using d1(2,3) d1(4) nin unfolding list_repr_def by auto
  moreover obtain n1 where "l_mem s1 (is ! k) = Some n1" using s1(3) n(1) by (metis option.distinct(1) option.exhaust)
  then have "list_erase (is ! k) s = Some (?s, l_next n)"
    using n s1(1) by (simp add: list_erase_def list_delete_def)
  moreover have "l_next n = (if Suc k < length is then is ! Suc k else 0)"
    using n(3) by (simp add: hd_drop_conv_nth)
  ultimately show ?thesis by (intro exI [of _ ?s]) simp
qed

lemma list_pop_front_ok:
  assumes r: "list_repr s is xs"
  shows "\<exists>s'. list_pop_front s = Some (s', 1 < length xs) \<and> list_repr s' (tl is) (tl xs)"
proof (cases "is")
  case Nil
  then show ?thesis using list_reprD [OF r] r by (simp add: list_pop_front_def list_erase_def)
next
  case (Cons i js)
  note d = list_reprD [OF r]
  obtain s' where "list_erase i s = Some (s', if Suc 0 < length is then is ! Suc 0 else 0)"
    "list_repr s' (drop (Suc 0) is) (drop (Suc 0) xs)"
    using list_erase_ok [OF r, of 0] Cons by auto
  moreover have "Suc 0 < length is \<Longrightarrow> is ! Suc 0 \<noteq> 0" using d(6) [of "is ! Suc 0"] by auto
  ultimately show ?thesis using d(5,8) Cons by (auto simp: list_pop_front_def drop_Suc)
qed

text \<open>\<open>pop_back\<close> removes the last element and never says so.\<close>

lemma list_pop_back_ok:
  assumes r: "list_repr s is xs"
  shows "\<exists>s'. list_pop_back s = Some (s', False) \<and> list_repr s' (butlast is) (butlast xs)"
proof (cases "is = []")
  case True
  then show ?thesis using list_reprD [OF r] r by (simp add: list_pop_back_def list_erase_def)
next
  case False
  note d = list_reprD [OF r]
  let ?k = "length is - 1"
  have "?k < length is" "is ! ?k = last is" "\<not> Suc ?k < length is" using False by (auto simp: last_conv_nth)
  with list_erase_ok [OF r, of ?k] obtain s' where "list_erase (last is) s = Some (s', 0)"
    "list_repr s' (take ?k is @ drop (Suc ?k) is) (take ?k xs @ drop (Suc ?k) xs)" by auto
  then show ?thesis using d(5,8) False by (auto simp: list_pop_back_def butlast_conv_take)
qed

lemma list_clear_loop_ok:
  "list_repr s is xs \<Longrightarrow> \<exists>s'. list_clear_loop s = Some s' \<and> list_repr s' [] []"
proof (induction "length xs" arbitrary: s "is" xs rule: less_induct)
  case less
  obtain s1 where s1: "list_pop_front s = Some (s1, 1 < length xs)" "list_repr s1 (tl is) (tl xs)"
    using list_pop_front_ok [OF less.prems] by blast
  show ?case
  proof (cases "1 < length xs")
    case True
    then have "length (tl xs) < length xs" by simp
    from less.hyps [OF this s1(2)] True s1(1) show ?thesis by (subst list_clear_loop.simps) simp
  next
    case False
    then have "tl xs = []" by (cases xs) auto
    then have "tl is = []" using list_reprD(5) [OF s1(2)] by (metis length_0_conv)
    then show ?thesis using False s1 \<open>tl xs = []\<close> by (subst list_clear_loop.simps) simp
  qed
qed

lemma list_clear_ok:
  assumes "list_repr s is xs"
  shows "\<exists>s'. list_clear s = Some s' \<and> list_repr s' [] []"
  using list_clear_loop_ok [OF assms] list_reprD(3,7) by (fastforce simp: list_clear_def)

lemma list_access:
  assumes r: "list_repr s is xs"
  shows "list_size s = Some (length xs)" "list_is_empty s = Some (xs = [])"
    "list_front s = (if xs = [] then None else Some (hd xs))" "list_back s = (if xs = [] then None else Some (last xs))"
    "k < length is \<Longrightarrow> list_value (is ! k) s = Some (xs ! k)"
proof -
  note d = list_reprD [OF r]
  have "is \<noteq> [] \<Longrightarrow> \<exists>n. l_mem s (hd is) = Some n \<and> hd is \<noteq> 0 \<and> l_data n = hd xs"
    "is \<noteq> [] \<Longrightarrow> \<exists>n. l_mem s (last is) = Some n \<and> last is \<noteq> 0 \<and> l_data n = last xs"
    using d(6) [of "hd is"] d(6) [of "last is"] d(4) by (auto simp: hd_map last_map)
  moreover have "xs = [] \<longleftrightarrow> is = []" using d(5) by auto
  ultimately show "list_size s = Some (length xs)" "list_is_empty s = Some (xs = [])"
    "list_front s = (if xs = [] then None else Some (hd xs))" "list_back s = (if xs = [] then None else Some (last xs))"
    using d(3,5,7,8)
    by (auto simp: list_size_def list_is_empty_def list_front_def list_back_def assert_that_def split: if_splits)
  show "k < length is \<Longrightarrow> list_value (is ! k) s = Some (xs ! k)"
    using d(4) d(6) [of "is ! k"] by (auto simp: list_value_def)
qed

lemma list_iterate_seg:
  "lseg (l_mem s) p i is q 0 \<Longrightarrow> list_iterate s i = Some (map (\<lambda>i. l_data (the (l_mem s i))) is)"
proof (induction "is" arbitrary: p i)
  case (Cons x xs)
  then obtain n where n: "i = x" "x \<noteq> 0" "l_mem s x = Some n" "lseg (l_mem s) x (l_next n) xs q 0" by auto
  from Cons.IH [OF n(4)] n(1-3) show ?case
    by (subst list_iterate.simps) (simp add: list_value_def list_next_def)
qed (simp add: list_iterate.simps)

lemma list_iterate_back_seg:
  "lseg (l_mem s) 0 i is q j \<Longrightarrow> list_iterate_back s q = Some (map (\<lambda>i. l_data (the (l_mem s i))) (rev is))"
proof (induction "is" arbitrary: q j rule: rev_induct)
  case (snoc x xs)
  then obtain n r where n: "q = x" "x \<noteq> 0" "l_mem s x = Some n" "l_prev n = r" "lseg (l_mem s) 0 i xs r x"
    by (auto simp: lseg_append)
  from snoc.IH [OF n(5)] n(1-4) show ?case
    by (subst list_iterate_back.simps) (simp add: list_value_def list_prev_def)
qed (simp add: list_iterate_back.simps)

lemma list_iterate_ok:
  assumes r: "list_repr s is xs"
  shows "list_iterate s (l_head s) = Some xs" "list_iterate_back s (l_tail s) = Some (rev xs)"
  using list_iterate_seg [OF list_reprD(1) [OF r]] list_iterate_back_seg [OF list_reprD(1) [OF r]] list_reprD(4) [OF r]
  by (simp_all add: rev_map)

lemma list_empty_ok: "list_repr (list_empty m) [] []"
  by (simp add: list_repr_def list_empty_def)

lemma list_emplace_all_ok:
  "list_repr s is xs \<Longrightarrow> distinct (map fst vs) \<Longrightarrow> (\<And>a v. (a, v) \<in> set vs \<Longrightarrow> a \<noteq> 0 \<and> l_mem s a = None) \<Longrightarrow>
    \<exists>s'. list_emplace_all vs s = Some s' \<and> list_repr s' (is @ map fst vs) (xs @ map snd vs)"
proof (induction vs arbitrary: s "is" xs)
  case (Cons w vs)
  obtain a v where w: "w = (a, v)" by (cases w)
  have a: "a \<noteq> 0" "l_mem s a = None" using Cons.prems(3) [of a v] w by auto
  obtain s1 where s1: "list_emplace_back a v s = Some (s1, a)" "list_repr s1 (is @ [a]) (xs @ [v])"
    "\<forall>x. x \<noteq> a \<longrightarrow> l_mem s x = None \<longrightarrow> l_mem s1 x = None"
    using list_emplace_back_ok [OF Cons.prems(1) a] by blast
  have "\<exists>s'. list_emplace_all vs s1 = Some s' \<and> list_repr s' ((is @ [a]) @ map fst vs) ((xs @ [v]) @ map snd vs)"
  proof (rule Cons.IH [OF s1(2)])
    show "distinct (map fst vs)" using Cons.prems(2) by simp
    show "b \<noteq> 0 \<and> l_mem s1 b = None" if "(b, u) \<in> set vs" for b u
      using that Cons.prems(2) Cons.prems(3) [of b u] s1(3) w by force
  qed
  with s1(1) w show ?case by simp
qed simp

end
