(* ===== verification/Sequences.thy ===== *)
theory Sequences
  imports VectorProps LinkedListProps
begin

text \<open>
  The interface that \<open>Vector\<close> and \<open>List\<close> share with their clients, and the properties of both.
\<close>

section \<open>The interface\<close>

text \<open>Taking all elements out, from the front and from the back.\<close>

fun drain :: "('s \<Rightarrow> 'a option) \<Rightarrow> ('s \<Rightarrow> 's option) \<Rightarrow> nat \<Rightarrow> 's \<Rightarrow> 'a list option" where
  "drain peek pop 0 s = Some []"
| "drain peek pop (Suc n) s = do { x \<leftarrow> peek s; s \<leftarrow> pop s; xs \<leftarrow> drain peek pop n s; Some (x # xs) }"

locale double_ended =
  fixes repr :: "'s \<Rightarrow> 'a list \<Rightarrow> bool"
    and first_of :: "'s \<Rightarrow> 'a option" and last_of :: "'s \<Rightarrow> 'a option"
    and pop_front :: "'s \<Rightarrow> 's option" and pop_back :: "'s \<Rightarrow> 's option"
  assumes front_law: "repr s (x # xs) \<Longrightarrow> first_of s = Some x"
    and back_law: "repr s (xs @ [x]) \<Longrightarrow> last_of s = Some x"
    and pop_front_law: "repr s (x # xs) \<Longrightarrow> \<exists>s'. pop_front s = Some s' \<and> repr s' xs"
    and pop_back_law: "repr s (xs @ [x]) \<Longrightarrow> \<exists>s'. pop_back s = Some s' \<and> repr s' xs"
begin

lemma drain_front: "repr s xs \<Longrightarrow> drain first_of pop_front (length xs) s = Some xs"
proof (induction xs arbitrary: s)
  case (Cons x xs)
  from pop_front_law [OF Cons.prems] obtain s' where "pop_front s = Some s'" "repr s' xs" by blast
  with Cons.IH front_law [OF Cons.prems] show ?case by simp
qed simp

lemma drain_back: "repr s xs \<Longrightarrow> drain last_of pop_back (length xs) s = Some (rev xs)"
proof (induction xs arbitrary: s rule: rev_induct)
  case (snoc x xs)
  from pop_back_law [OF snoc.prems] obtain s' where "pop_back s = Some s'" "repr s' xs" by blast
  with snoc.IH back_law [OF snoc.prems] show ?case by simp
qed simp

end

interpretation vec: double_ended vec_repr vec_front vec_back
    "\<lambda>v. map_option fst (vec_pop_front v)" "\<lambda>v. map_option fst (vec_pop_back v)"
proof (unfold_locales, goal_cases)
  case 1 then show ?case by (simp add: vec_access)
next
  case 2 then show ?case by (simp add: vec_access)
next
  case (3 s x xs)
  then show ?case using vec_remove_ok [OF 3, of 0] by (auto simp: vec_pop_front_def)
next
  case (4 s xs x)
  then show ?case using vec_pop_back_ok [OF 4] by auto
qed

interpretation lst: double_ended "\<lambda>s xs. \<exists>is. list_repr s is xs" list_front list_back
    "\<lambda>s. map_option fst (list_pop_front s)" "\<lambda>s. map_option fst (list_pop_back s)"
proof (unfold_locales, goal_cases)
  case (1 s x xs) then show ?case by (auto simp: list_access)
next
  case (2 s xs x) then show ?case by (auto simp: list_access)
next
  case (3 s x xs)
  then obtain "is" where "list_repr s is (x # xs)" by blast
  from list_pop_front_ok [OF this] show ?case by fastforce
next
  case (4 s xs x)
  then obtain "is" where "list_repr s is (xs @ [x])" by blast
  from list_pop_back_ok [OF this] show ?case by fastforce
qed

section \<open>Vectors\<close>

definition example_vector :: "int vector" where
  "example_vector = \<lparr>v_size = 3, v_capacity = 4,
     v_data = Some (\<lambda>i. if i = 0 then Some 5 else if i = 1 then Some 6 else if i = 2 then Some 7 else None)\<rparr>"

definition full_vector :: "int vector" where
  "full_vector = \<lparr>v_size = 2, v_capacity = 2, v_data = Some (\<lambda>i. if i < 2 then Some (int i) else None)\<rparr>"

lemma example_vector_repr: "vec_repr example_vector [5, 6, 7]"
  unfolding vec_repr_def example_vector_def by (simp add: INT32_MAX_def All_less_Suc numeral_3_eq_3)

lemma full_vector_repr: "vec_repr full_vector [0, 1]"
  unfolding vec_repr_def full_vector_def by (simp add: INT32_MAX_def All_less_Suc numeral_2_eq_2)

lemma vec_emplace_correct_facts:
  assumes "vec_repr v xs" and "0 \<le> pos" "pos \<le> int (length xs)"
  shows "vec_room alloc v \<Longrightarrow> pos = int (length xs) \<or> v_size v < v_capacity v \<Longrightarrow>
      \<exists>v'. vec_emplace alloc pos x v = Some (v', nat pos)
        \<and> vec_repr v' (take (nat pos) xs @ x # drop (nat pos) xs) \<and> (vec_clean v \<longrightarrow> vec_clean v')"
    and "pos < int (length xs) \<Longrightarrow> v_size v = v_capacity v \<Longrightarrow> vec_emplace alloc pos x v = None"
  using vec_emplace_ok [OF assms] vec_emplace_full [OF assms(1,2)] by blast+

text \<open>
  C24.  \<open>emplace(pos, args)\<close> inserts before the position and returns its index, in a vector that has
  room or at its end; no object is overwritten or lost.  Before the end of a full vector it moves
  the last element behind the array, because the code compares the capacity with the position.
\<close>

theorem vec_emplace_correct:
  assumes "vec_repr v xs" and "0 \<le> pos" "pos \<le> int (length xs)"
  shows "((vec_room alloc v) \<longrightarrow> (pos = int (length xs) \<or> v_size v < v_capacity v) \<longrightarrow> (\<exists>v'. vec_emplace alloc pos x v = Some (v', nat pos)
        \<and> vec_repr v' (take (nat pos) xs @ x # drop (nat pos) xs) \<and> (vec_clean v \<longrightarrow> vec_clean v')))
    \<and> ((pos < int (length xs)) \<longrightarrow> (v_size v = v_capacity v) \<longrightarrow> (vec_emplace alloc pos x v = None))"
  by (rule conjI, (rule impI)+, rule vec_emplace_correct_facts(1) [OF assms], assumption+,
    (rule impI)+, rule vec_emplace_correct_facts(2) [OF assms], assumption+)

theorem vec_emplace_correct_witness:
  "(\<exists>v'. vec_emplace (\<lambda>_. False) 1 9 example_vector = Some (v', 1) \<and> vec_repr v' [5, 9, 6, 7])
    \<and> vec_emplace (\<lambda>_. True) 0 9 full_vector = None"
  using vec_emplace_correct [OF example_vector_repr, THEN conjunct1, THEN mp, THEN mp, of 1 "\<lambda>_. False" 9]
    vec_emplace_correct [OF full_vector_repr, THEN conjunct2, THEN mp, THEN mp, of 0 "\<lambda>_. True" 9]
  by (auto simp: vec_room_def example_vector_def full_vector_def)

lemma vec_remove_correct_facts:
  assumes "vec_repr v xs" and "0 \<le> pos" "pos < int (length xs)"
  shows "\<exists>v'. vec_remove pos v = Some (v', Some (xs ! nat pos))
      \<and> vec_repr v' (take (nat pos) xs @ drop (Suc (nat pos)) xs)"
    and "\<exists>v'. erase_helper pos v = Some (v', nat pos)
      \<and> vec_repr v' (take (nat pos) xs @ drop (Suc (nat pos)) xs) \<and> (vec_clean v \<longrightarrow> vec_clean v')"
    and "\<exists>v'. vec_pop_back v = Some (v', Some (last xs)) \<and> vec_repr v' (butlast xs) \<and> \<not> vec_clean v'"
proof -
  show "\<exists>v'. vec_remove pos v = Some (v', Some (xs ! nat pos))
      \<and> vec_repr v' (take (nat pos) xs @ drop (Suc (nat pos)) xs)"
    using vec_remove_ok [OF assms] by blast
  show "\<exists>v'. erase_helper pos v = Some (v', nat pos)
      \<and> vec_repr v' (take (nat pos) xs @ drop (Suc (nat pos)) xs) \<and> (vec_clean v \<longrightarrow> vec_clean v')"
    by (rule vec_erase_ok [OF assms])
  have "xs \<noteq> []" using assms(2,3) by auto
  then show "\<exists>v'. vec_pop_back v = Some (v', Some (last xs)) \<and> vec_repr v' (butlast xs) \<and> \<not> vec_clean v'"
    by (rule vec_pop_back_ok [OF assms(1)])
qed

text \<open>
  C25.  \<open>remove\<close> and \<open>erase\<close> take out the element at a position, \<open>pop_back\<close> the last one; \<open>erase\<close>
  destroys it, \<open>pop_back\<close> never does: the object stays behind the end.
\<close>

theorem vec_remove_correct:
  assumes "vec_repr v xs" and "0 \<le> pos" "pos < int (length xs)"
  shows "(\<exists>v'. vec_remove pos v = Some (v', Some (xs ! nat pos))
      \<and> vec_repr v' (take (nat pos) xs @ drop (Suc (nat pos)) xs))
    \<and> (\<exists>v'. erase_helper pos v = Some (v', nat pos)
      \<and> vec_repr v' (take (nat pos) xs @ drop (Suc (nat pos)) xs) \<and> (vec_clean v \<longrightarrow> vec_clean v'))
    \<and> (\<exists>v'. vec_pop_back v = Some (v', Some (last xs)) \<and> vec_repr v' (butlast xs) \<and> \<not> vec_clean v')"
  by (rule conjI, rule vec_remove_correct_facts(1) [OF assms],
    rule conjI, rule vec_remove_correct_facts(2) [OF assms],
    rule vec_remove_correct_facts(3) [OF assms])

theorem vec_remove_correct_witness:
  "(\<exists>v'. vec_remove 1 example_vector = Some (v', Some 6) \<and> vec_repr v' [5, 7])
    \<and> (\<exists>v'. erase_helper 0 example_vector = Some (v', 0) \<and> vec_repr v' [6, 7])
    \<and> (\<exists>v'. vec_pop_back example_vector = Some (v', Some 7) \<and> vec_repr v' [5, 6] \<and> \<not> vec_clean v')"
  using vec_remove_correct [OF example_vector_repr, THEN conjunct1, of 1] vec_remove_correct [OF example_vector_repr, THEN conjunct2, THEN conjunct1, of 0]
    vec_remove_correct [OF example_vector_repr, THEN conjunct2, THEN conjunct2, of 0]
  by (auto simp: numeral_eq_Suc)

lemma vec_resize_correct_facts:
  assumes "vec_repr v xs"
  shows "n < INT32_MAX \<Longrightarrow> v_capacity v < n \<longrightarrow> alloc n \<Longrightarrow>
      \<exists>v'. vec_resize alloc n v = Some v' \<and> vec_repr v' (take n xs) \<and> v_capacity v' = max (v_capacity v) n
        \<and> (vec_clean v \<longrightarrow> vec_clean v')"
    and "vec_iterate v 0 = Some xs" "vec_iterate_back v (int (v_size v) - 1) = Some (rev xs)"
    and "vec_at i v = Some (if 0 \<le> i \<and> i < int (length xs) then Some (xs ! nat i) else None)"
    and "vec_index i v = (if 0 \<le> i \<and> i < int (length xs) then Some (xs ! nat i) else None)"
    and "vec_repr (vec_clear v) []"
  using vec_resize_ok [OF assms, of n alloc] vec_iterate_ok [OF assms] vec_iterate_back_ok [OF assms]
    vec_access(1,3) [OF assms, of i] vec_clear_ok [OF assms] by blast+

text \<open>
  C26.  \<open>resize(n)\<close> truncates a vector and reserves memory, but does not make it longer; the access
  functions and the iterators, in both directions, see exactly the elements.
\<close>

theorem vec_resize_correct:
  assumes "vec_repr v xs"
  shows "((n < INT32_MAX) \<longrightarrow> (v_capacity v < n \<longrightarrow> alloc n) \<longrightarrow> (\<exists>v'. vec_resize alloc n v = Some v' \<and> vec_repr v' (take n xs) \<and> v_capacity v' = max (v_capacity v) n
        \<and> (vec_clean v \<longrightarrow> vec_clean v')))
    \<and> (vec_iterate v 0 = Some xs)
    \<and> (vec_iterate_back v (int (v_size v) - 1) = Some (rev xs))
    \<and> (vec_at i v = Some (if 0 \<le> i \<and> i < int (length xs) then Some (xs ! nat i) else None))
    \<and> (vec_index i v = (if 0 \<le> i \<and> i < int (length xs) then Some (xs ! nat i) else None))
    \<and> (vec_repr (vec_clear v) [])"
  by (rule conjI, (rule impI)+, rule vec_resize_correct_facts(1) [OF assms], assumption+,
    rule conjI, rule vec_resize_correct_facts(2) [OF assms],
    rule conjI, rule vec_resize_correct_facts(3) [OF assms],
    rule conjI, rule vec_resize_correct_facts(4) [OF assms],
    rule conjI, rule vec_resize_correct_facts(5) [OF assms],
    rule vec_resize_correct_facts(6) [OF assms])

theorem vec_resize_correct_witness:
  "(\<exists>v'. vec_resize (\<lambda>n. n = 10) 10 example_vector = Some v' \<and> vec_repr v' [5, 6, 7] \<and> v_capacity v' = 10)
    \<and> vec_iterate_back example_vector 2 = Some [7, 6, 5]"
  using vec_resize_correct [OF example_vector_repr, THEN conjunct1, THEN mp, THEN mp, of 10 "\<lambda>n. n = 10"] vec_resize_correct [OF example_vector_repr, THEN conjunct2, THEN conjunct2, THEN conjunct1]
  by (auto simp: INT32_MAX_def example_vector_def)

lemma vec_append_correct_facts:
  assumes "vec_repr v xs"
  shows "vec_repr other ys \<Longrightarrow> length xs + length ys < INT32_MAX \<Longrightarrow>
      v_capacity v < length xs + length ys \<longrightarrow> alloc (length xs + length ys) \<Longrightarrow>
      \<exists>v'. vec_append alloc other v = Some v' \<and> vec_repr v' (xs @ ys)"
    and "xs \<noteq> [] \<Longrightarrow> vec_append_self alloc v = None"
  using vec_append_ok [OF assms, of other ys alloc] vec_append_self_none [of v alloc] vec_reprD(1) [OF assms]
  by auto

text \<open>
  C27.  \<open>a += b\<close> appends the elements of \<open>b\<close>; \<open>a += a\<close> never returns for a vector that has an
  element, as the end it runs to moves with every element it appends.
\<close>

theorem vec_append_correct:
  assumes "vec_repr v xs"
  shows "((vec_repr other ys) \<longrightarrow> (length xs + length ys < INT32_MAX) \<longrightarrow> (v_capacity v < length xs + length ys \<longrightarrow> alloc (length xs + length ys)) \<longrightarrow> (\<exists>v'. vec_append alloc other v = Some v' \<and> vec_repr v' (xs @ ys)))
    \<and> ((xs \<noteq> []) \<longrightarrow> (vec_append_self alloc v = None))"
  by (rule conjI, (rule impI)+, rule vec_append_correct_facts(1) [OF assms], assumption+,
    (rule impI)+, rule vec_append_correct_facts(2) [OF assms], assumption+)

theorem vec_append_correct_witness:
  "(\<exists>v'. vec_append (\<lambda>n. n = 5) full_vector example_vector = Some v' \<and> vec_repr v' [5, 6, 7, 0, 1])
    \<and> vec_append_self (\<lambda>_. True) full_vector = None"
  using vec_append_correct [OF example_vector_repr, THEN conjunct1, THEN mp, OF full_vector_repr, THEN mp, THEN mp, of "\<lambda>n. n = 5"]
    vec_append_correct [OF full_vector_repr, THEN conjunct2, THEN mp, of "\<lambda>_. True"]
  by (auto simp: INT32_MAX_def)

section \<open>Lists\<close>

definition example_list :: "int linked" where
  "example_list = \<lparr>l_head = 8, l_tail = 3, l_size = 2,
     l_mem = [8 \<mapsto> \<lparr>l_data = 50, l_prev = 0, l_next = 3\<rparr>, 3 \<mapsto> \<lparr>l_data = 60, l_prev = 8, l_next = 0\<rparr>]\<rparr>"

lemma example_list_repr: "list_repr example_list [8, 3] [50, 60]"
  by (simp add: list_repr_def example_list_def)

lemma list_update_correct_facts:
  assumes "list_repr s is xs"
  shows "a \<noteq> 0 \<Longrightarrow> l_mem s a = None \<Longrightarrow> k \<le> length is \<Longrightarrow>
      \<exists>s'. list_emplace a (if k < length is then is ! k else 0) v s = Some (s', a)
        \<and> list_repr s' (take k is @ a # drop k is) (take k xs @ v # drop k xs)"
    and "a \<noteq> 0 \<Longrightarrow> l_mem s a = None \<Longrightarrow>
      \<exists>s'. list_emplace_front a v s = Some (s', a) \<and> list_repr s' (a # is) (v # xs)"
    and "k < length is \<Longrightarrow>
      \<exists>s'. list_erase (is ! k) s = Some (s', if Suc k < length is then is ! Suc k else 0)
        \<and> list_repr s' (take k is @ drop (Suc k) is) (take k xs @ drop (Suc k) xs)"
  using list_emplace_ok [OF assms] list_emplace_front_ok [OF assms] list_erase_ok [OF assms] by blast+

text \<open>
  C28.  A new node is linked before any position, at the front and at the back, and any node is
  erased; the asserts of the code hold and the result is the sequence with the value inserted or
  removed.
\<close>

theorem list_update_correct:
  assumes "list_repr s is xs"
  shows "((a \<noteq> 0) \<longrightarrow> (l_mem s a = None) \<longrightarrow> (k \<le> length is) \<longrightarrow> (\<exists>s'. list_emplace a (if k < length is then is ! k else 0) v s = Some (s', a)
        \<and> list_repr s' (take k is @ a # drop k is) (take k xs @ v # drop k xs)))
    \<and> ((a \<noteq> 0) \<longrightarrow> (l_mem s a = None) \<longrightarrow> (\<exists>s'. list_emplace_front a v s = Some (s', a) \<and> list_repr s' (a # is) (v # xs)))
    \<and> ((k < length is) \<longrightarrow> (\<exists>s'. list_erase (is ! k) s = Some (s', if Suc k < length is then is ! Suc k else 0)
        \<and> list_repr s' (take k is @ drop (Suc k) is) (take k xs @ drop (Suc k) xs)))"
  by (rule conjI, (rule impI)+, rule list_update_correct_facts(1) [OF assms], assumption+,
    rule conjI, (rule impI)+, rule list_update_correct_facts(2) [OF assms], assumption+,
    (rule impI)+, rule list_update_correct_facts(3) [OF assms], assumption+)

theorem list_update_correct_witness:
  "(\<exists>s'. list_emplace 5 3 55 example_list = Some (s', 5) \<and> list_repr s' [8, 5, 3] [50, 55, 60])
    \<and> (\<exists>s'. list_erase 8 example_list = Some (s', 3) \<and> list_repr s' [3] [60])"
  using list_update_correct [OF example_list_repr, THEN conjunct1, THEN mp, THEN mp, THEN mp, of 5 1 55] list_update_correct [OF example_list_repr, THEN conjunct2, THEN conjunct2, THEN mp, of 0]
  by (auto simp: example_list_def)

lemma list_traversal_correct_facts:
  assumes "list_repr s is xs"
  shows "list_iterate s (l_head s) = Some xs" "list_iterate_back s (l_tail s) = Some (rev xs)"
    and "\<exists>s'. list_clear s = Some s' \<and> list_repr s' [] []"
    and "\<exists>s'. list_pop_front s = Some (s', 1 < length xs) \<and> list_repr s' (tl is) (tl xs)"
    and "\<exists>s'. list_pop_back s = Some (s', False) \<and> list_repr s' (butlast is) (butlast xs)"
  using list_iterate_ok [OF assms] list_clear_ok [OF assms] list_pop_front_ok [OF assms] list_pop_back_ok [OF assms]
  by blast+

text \<open>
  C29.  Iteration ends and yields the elements, in both directions; \<open>clear\<close> ends and frees every node.
  \<open>pop_front\<close> and \<open>pop_back\<close> remove the element, but what they return is whether an element follows
  it, not whether one was removed: \<open>pop_back\<close> always returns false.
\<close>

theorem list_traversal_correct:
  assumes "list_repr s is xs"
  shows "(list_iterate s (l_head s) = Some xs)
    \<and> (list_iterate_back s (l_tail s) = Some (rev xs))
    \<and> (\<exists>s'. list_clear s = Some s' \<and> list_repr s' [] [])
    \<and> (\<exists>s'. list_pop_front s = Some (s', 1 < length xs) \<and> list_repr s' (tl is) (tl xs))
    \<and> (\<exists>s'. list_pop_back s = Some (s', False) \<and> list_repr s' (butlast is) (butlast xs))"
  by (rule conjI, rule list_traversal_correct_facts(1) [OF assms],
    rule conjI, rule list_traversal_correct_facts(2) [OF assms],
    rule conjI, rule list_traversal_correct_facts(3) [OF assms],
    rule conjI, rule list_traversal_correct_facts(4) [OF assms],
    rule list_traversal_correct_facts(5) [OF assms])

theorem list_traversal_correct_witness:
  "list_iterate_back example_list 3 = Some [60, 50]
    \<and> (\<exists>s'. list_pop_back example_list = Some (s', False) \<and> list_repr s' [8] [50])"
  using list_traversal_correct [OF example_list_repr] by (simp add: example_list_def)

text \<open>A vector and a list that hold the same elements give them out in the same order, from either end.\<close>

theorem vec_list_equivalent:
  assumes "vec_repr v xs" and "list_repr s is xs"
  shows "drain vec_front (\<lambda>v. map_option fst (vec_pop_front v)) (v_size v) v =
      drain list_front (\<lambda>s. map_option fst (list_pop_front s)) (l_size s) s"
    and "drain vec_back (\<lambda>v. map_option fst (vec_pop_back v)) (v_size v) v =
      drain list_back (\<lambda>s. map_option fst (list_pop_back s)) (l_size s) s"
    and "drain vec_front (\<lambda>v. map_option fst (vec_pop_front v)) (v_size v) v = vec_iterate v 0"
proof -
  have n: "v_size v = length xs" "l_size s = length xs"
    using vec_reprD(1) [OF assms(1)] list_reprD(3,5) [OF assms(2)] by simp_all
  have l: "\<exists>is. list_repr s is xs" using assms(2) by blast
  show "drain vec_front (\<lambda>v. map_option fst (vec_pop_front v)) (v_size v) v =
      drain list_front (\<lambda>s. map_option fst (list_pop_front s)) (l_size s) s"
    unfolding n vec.drain_front [OF assms(1)] lst.drain_front [OF l] ..
  show "drain vec_back (\<lambda>v. map_option fst (vec_pop_back v)) (v_size v) v =
      drain list_back (\<lambda>s. map_option fst (list_pop_back s)) (l_size s) s"
    unfolding n vec.drain_back [OF assms(1)] lst.drain_back [OF l] ..
  show "drain vec_front (\<lambda>v. map_option fst (vec_pop_front v)) (v_size v) v = vec_iterate v 0"
    unfolding n vec.drain_front [OF assms(1)] vec_iterate_ok [OF assms(1)] ..
qed

end
