(* ===== verification/Strings.thy ===== *)
theory Strings
  imports Prelude
begin

text \<open>
  include/dlh/string.hpp and src/string.cpp: the functions on null-terminated strings.

  A pointer into a block of characters is the list of the characters from it to the end of
  the block (so \<open>p + 1\<close> is the tail of the list), or \<open>None\<close> for the null pointer where the
  code compares with it.  A pointer that a function returns is its distance to the argument it
  points into; a function that writes returns the block as it leaves it.  Reading or
  writing behind the end of a block is \<open>None\<close>, as are a failed assert and a loop that does not
  end.  Characters are signed: they are compared with \<open>int\<close> values through \<open>sint\<close>.  The argument
  \<open>same\<close> of a comparison says whether the two pointers are equal.
\<close>

type_synonym cstring = "u8 list"

definition SIZE_MAX :: nat where
  "SIZE_MAX = 18446744073709551615"

definition rd :: "'a list \<Rightarrow> nat \<Rightarrow> 'a option" where
  "rd b i = (if i < length b then Some (b ! i) else None)"

definition wr :: "'a list \<Rightarrow> nat \<Rightarrow> 'a \<Rightarrow> 'a list option" where
  "wr b i x = (if i < length b then Some (b[i := x]) else None)"

text \<open>\<open>p + n\<close>\<close>

definition advance :: "nat \<Rightarrow> 'a list \<Rightarrow> 'a list option" where
  "advance n b = (if n \<le> length b then Some (drop n b) else None)"

text \<open>The difference of two values of type \<open>size_t\<close>.\<close>

definition size_sub :: "nat \<Rightarrow> nat \<Rightarrow> nat" where
  "size_sub a b = (if b \<le> a then a - b else SIZE_MAX + 1 - (b - a))"

section \<open>Length, comparison and hash\<close>

fun len_loop :: "cstring \<Rightarrow> nat \<Rightarrow> nat option" where
  "len_loop [] n = None"
| "len_loop (c # s) n =
     (if c \<noteq> 0 \<and> n > 0 then do { l \<leftarrow> len_loop s (n - 1); Some (l + 1) } else Some 0)"

definition str_len :: "cstring option \<Rightarrow> nat \<Rightarrow> nat option" where
  "str_len s n = (case s of None \<Rightarrow> Some 0 | Some s \<Rightarrow> len_loop s n)"

fun compare_loop :: "cstring \<Rightarrow> cstring \<Rightarrow> int option" where
  "compare_loop (a # s1) (b # s2) =
     (if a = b then if a = 0 then Some 0 else compare_loop s1 s2 else Some (sint a - sint b))"
| "compare_loop _ _ = None"

definition str_compare :: "bool \<Rightarrow> cstring option \<Rightarrow> cstring option \<Rightarrow> int option" where
  "str_compare same s1 s2 =
     (if same then Some 0
      else case (s1, s2) of (Some s1, Some s2) \<Rightarrow> compare_loop s1 s2 | _ \<Rightarrow> Some 0)"

fun compare_n_loop :: "cstring \<Rightarrow> cstring \<Rightarrow> nat \<Rightarrow> int option" where
  "compare_n_loop s1 s2 0 = Some 0"
| "compare_n_loop (a # s1) (b # s2) (Suc n) =
     (if a \<noteq> b then Some (sint a - sint b) else if a = 0 then Some 0 else compare_n_loop s1 s2 n)"
| "compare_n_loop _ _ (Suc n) = None"

definition str_compare_n :: "bool \<Rightarrow> cstring option \<Rightarrow> cstring option \<Rightarrow> nat \<Rightarrow> int option" where
  "str_compare_n same s1 s2 n =
     (if same then Some 0
      else case (s1, s2) of (Some s1, Some s2) \<Rightarrow> compare_n_loop s1 s2 n | _ \<Rightarrow> Some 0)"

definition to_lower :: "u8 \<Rightarrow> u8" where
  "to_lower c = (if 65 \<le> sint c \<and> sint c \<le> 90 then c + 32 else c)"

fun compare_case_loop :: "cstring \<Rightarrow> cstring \<Rightarrow> int option" where
  "compare_case_loop (a # s1) (b # s2) =
     (if to_lower a = to_lower b then if a = 0 then Some 0 else compare_case_loop s1 s2
      else Some (sint (to_lower a) - sint (to_lower b)))"
| "compare_case_loop _ _ = None"

definition str_compare_case :: "bool \<Rightarrow> cstring option \<Rightarrow> cstring option \<Rightarrow> int option" where
  "str_compare_case same s1 s2 =
     (if same then Some 0
      else case (s1, s2) of (Some s1, Some s2) \<Rightarrow> compare_case_loop s1 s2 | _ \<Rightarrow> Some 0)"

fun compare_case_n_loop :: "cstring \<Rightarrow> cstring \<Rightarrow> nat \<Rightarrow> int option" where
  "compare_case_n_loop s1 s2 0 = Some 0"
| "compare_case_n_loop (a # s1) (b # s2) (Suc n) =
     (if to_lower a \<noteq> to_lower b then Some (sint (to_lower a) - sint (to_lower b))
      else if a = 0 then Some 0 else compare_case_n_loop s1 s2 n)"
| "compare_case_n_loop _ _ (Suc n) = None"

definition str_compare_case_n :: "bool \<Rightarrow> cstring option \<Rightarrow> cstring option \<Rightarrow> nat \<Rightarrow> int option" where
  "str_compare_case_n same s1 s2 n =
     (if same then Some 0
      else case (s1, s2) of (Some s1, Some s2) \<Rightarrow> compare_case_n_loop s1 s2 n | _ \<Rightarrow> Some 0)"

fun str_hash_loop :: "cstring \<Rightarrow> u64 \<Rightarrow> u64 option" where
  "str_hash_loop [] h = None"
| "str_hash_loop (c # s) h = (if c = 0 then Some h else str_hash_loop s (h * 33 + ucast c))"

definition str_hash :: "cstring option \<Rightarrow> u32 option" where
  "str_hash s =
     (case s of None \<Rightarrow> Some 0
      | Some s \<Rightarrow> do { h \<leftarrow> str_hash_loop s 5381; Some (ucast (h AND 0xffffffff)) })"

fun starts_loop :: "cstring \<Rightarrow> cstring \<Rightarrow> bool option" where
  "starts_loop s [] = None"
| "starts_loop [] (d # start) = (if d = 0 then Some True else None)"
| "starts_loop (c # s) (d # start) =
     (if d = 0 then Some True else if c \<noteq> d then Some False else starts_loop s start)"

definition str_starts_with :: "cstring option \<Rightarrow> cstring option \<Rightarrow> bool option" where
  "str_starts_with s start =
     (case (s, start) of (Some s, Some start) \<Rightarrow> starts_loop s start | _ \<Rightarrow> Some False)"

fun ends_loop :: "cstring \<Rightarrow> cstring \<Rightarrow> nat \<Rightarrow> nat \<Rightarrow> bool option" where
  "ends_loop s suffix i 0 = Some True"
| "ends_loop s suffix i (Suc todo) =
     do { a \<leftarrow> rd s i; b \<leftarrow> rd suffix 0;
          if a \<noteq> b then Some False else ends_loop s (tl suffix) (i + 1) todo }"

definition str_ends_with :: "cstring option \<Rightarrow> cstring option \<Rightarrow> bool option" where
  "str_ends_with s suffix =
     do { l \<leftarrow> str_len s SIZE_MAX; e \<leftarrow> str_len suffix SIZE_MAX;
          if l \<ge> e then (case (s, suffix) of (Some s, Some suffix) \<Rightarrow> ends_loop s suffix (l - e) e
                         | _ \<Rightarrow> Some True)
          else Some True }"

section \<open>Finding a character\<close>

fun find_char_loop :: "cstring \<Rightarrow> int \<Rightarrow> nat option option" where
  "find_char_loop [] c = None"
| "find_char_loop (b # s) c =
     (if b = 0 then Some None else if sint b = c then Some (Some 0)
      else do { r \<leftarrow> find_char_loop s c; Some (map_option Suc r) })"

definition str_find_char :: "cstring option \<Rightarrow> int \<Rightarrow> nat option option" where
  "str_find_char s c = (case s of None \<Rightarrow> Some None | Some s \<Rightarrow> find_char_loop s c)"

fun find_char_or_end_loop :: "cstring \<Rightarrow> int \<Rightarrow> nat option" where
  "find_char_or_end_loop [] c = None"
| "find_char_or_end_loop (b # s) c =
     (if b = 0 \<or> sint b = c then Some 0 else do { r \<leftarrow> find_char_or_end_loop s c; Some (r + 1) })"

definition str_find_char_or_end :: "cstring option \<Rightarrow> int \<Rightarrow> nat option option" where
  "str_find_char_or_end s c =
     (case s of None \<Rightarrow> Some None | Some s \<Rightarrow> map_option Some (find_char_or_end_loop s c))"

fun find_last_char_loop :: "cstring \<Rightarrow> int \<Rightarrow> nat \<Rightarrow> nat option \<Rightarrow> nat option option" where
  "find_last_char_loop [] c i last_pos = None"
| "find_last_char_loop (b # s) c i last_pos =
     (if b = 0 then Some last_pos
      else find_last_char_loop s c (i + 1) (if sint b = c then Some i else last_pos))"

definition str_find_last_char :: "cstring option \<Rightarrow> int \<Rightarrow> nat option option" where
  "str_find_last_char s c = (case s of None \<Rightarrow> Some None | Some s \<Rightarrow> find_last_char_loop s c 0 None)"

section \<open>Finding a substring\<close>

text \<open>
  \<open>prefix\<close> fills the table of the Knuth-Morris-Pratt search; the inner loop is \<open>prefix_chase\<close>.
\<close>

partial_function (option) prefix_chase :: "cstring \<Rightarrow> nat list \<Rightarrow> nat \<Rightarrow> nat \<Rightarrow> nat option" where
  "prefix_chase needle n i j =
     (if j = 0 then Some 0
      else do { a \<leftarrow> rd needle j; b \<leftarrow> rd needle i;
                if a = b then Some j else do { j' \<leftarrow> rd n j; prefix_chase needle n i j' } })"

fun prefix_loop :: "cstring \<Rightarrow> nat list \<Rightarrow> nat \<Rightarrow> nat \<Rightarrow> nat list option" where
  "prefix_loop needle n i 0 = Some n"
| "prefix_loop needle n i (Suc todo) =
     do { j \<leftarrow> rd n (i + 1); j \<leftarrow> prefix_chase needle n i j;
          a \<leftarrow> rd needle j; b \<leftarrow> rd needle i;
          n \<leftarrow> (if j > 0 \<or> a = b then wr n (i + 1) (j + 1) else Some n);
          prefix_loop needle n (i + 1) todo }"

definition str_prefix :: "cstring \<Rightarrow> nat \<Rightarrow> nat list option" where
  "str_prefix needle needle_len =
     do { assert_that (needle_len > 0);
          prefix_loop needle (replicate (needle_len + 1) 0) 1 (needle_len - 1) }"

partial_function (option) kmp_loop ::
    "cstring \<Rightarrow> cstring \<Rightarrow> nat \<Rightarrow> nat \<Rightarrow> nat list \<Rightarrow> nat \<Rightarrow> nat \<Rightarrow> nat option option" where
  "kmp_loop haystack needle haystack_len needle_len n i j =
     (if i < haystack_len
      then do { a \<leftarrow> rd haystack i; b \<leftarrow> rd needle j;
                if a = b
                then if j + 1 = needle_len then Some (Some (i + 1 - needle_len))
                     else kmp_loop haystack needle haystack_len needle_len n (i + 1) (j + 1)
                else if j > 0
                then do { j' \<leftarrow> rd n j; kmp_loop haystack needle haystack_len needle_len n i j' }
                else kmp_loop haystack needle haystack_len needle_len n (i + 1) 0 }
      else Some None)"

definition kmp_find ::
    "cstring \<Rightarrow> cstring \<Rightarrow> nat \<Rightarrow> nat \<Rightarrow> nat list \<Rightarrow> nat \<Rightarrow> nat option option" where
  "kmp_find haystack needle haystack_len needle_len n pos =
     do { assert_that (haystack_len > 0 \<and> needle_len > 0);
          if size_sub haystack_len pos \<ge> needle_len
          then kmp_loop haystack needle haystack_len needle_len n pos 0
          else Some None }"

definition str_find_or_end :: "bool \<Rightarrow> cstring option \<Rightarrow> cstring option \<Rightarrow> nat option option" where
  "str_find_or_end same haystack needle =
     do { needle_len \<leftarrow> str_len needle SIZE_MAX;
          if needle_len = 0 then Some (map_option (\<lambda>_. 0) haystack)
          else do {
            haystack_len \<leftarrow> str_len haystack SIZE_MAX;
            eq \<leftarrow> (if haystack_len = needle_len
                   then do { c \<leftarrow> str_compare same haystack needle; Some (c = 0) } else Some False);
            if eq then Some (map_option (\<lambda>_. 0) haystack)
            else if haystack_len > needle_len
            then do { h \<leftarrow> haystack; nd \<leftarrow> needle;
                      n \<leftarrow> str_prefix nd needle_len;
                      t \<leftarrow> kmp_find h nd haystack_len needle_len n 0;
                      Some (Some (case t of Some p \<Rightarrow> p | None \<Rightarrow> haystack_len)) }
            else Some (map_option (\<lambda>_. haystack_len) haystack) } }"

definition str_find :: "bool \<Rightarrow> cstring option \<Rightarrow> cstring option \<Rightarrow> nat option option" where
  "str_find same haystack needle =
     (case (haystack, needle) of
        (Some h, Some nd) \<Rightarrow>
          do { needle_len \<leftarrow> str_len needle SIZE_MAX;
               if needle_len = 0 then Some (Some 0)
               else do {
                 haystack_len \<leftarrow> str_len haystack SIZE_MAX;
                 eq \<leftarrow> (if haystack_len = needle_len
                        then do { c \<leftarrow> str_compare same haystack needle; Some (c = 0) } else Some False);
                 if eq then Some (Some 0)
                 else if haystack_len > needle_len
                 then do { n \<leftarrow> str_prefix nd needle_len; kmp_find h nd haystack_len needle_len n 0 }
                 else Some None } }
      | _ \<Rightarrow> Some (map_option (\<lambda>_. 0) haystack))"

partial_function (option) find_last_loop ::
    "cstring \<Rightarrow> cstring \<Rightarrow> nat \<Rightarrow> nat \<Rightarrow> nat list \<Rightarrow> nat \<Rightarrow> nat option \<Rightarrow> nat option option" where
  "find_last_loop haystack needle haystack_len needle_len n pos last_pos =
     do { t \<leftarrow> kmp_find haystack needle haystack_len needle_len n pos;
          case t of None \<Rightarrow> Some last_pos
          | Some p \<Rightarrow> find_last_loop haystack needle haystack_len needle_len n (p + 1) (Some p) }"

definition str_find_last :: "bool \<Rightarrow> cstring option \<Rightarrow> cstring option \<Rightarrow> nat option option" where
  "str_find_last same haystack needle =
     (case (haystack, needle) of
        (Some h, Some nd) \<Rightarrow>
          do { needle_len \<leftarrow> str_len needle SIZE_MAX;
               if needle_len = 0 then Some (Some 0)
               else do {
                 haystack_len \<leftarrow> str_len haystack SIZE_MAX;
                 eq \<leftarrow> (if haystack_len = needle_len
                        then do { c \<leftarrow> str_compare same haystack needle; Some (c = 0) } else Some False);
                 if eq then Some (Some 0)
                 else if haystack_len > needle_len
                 then do { n \<leftarrow> str_prefix nd needle_len;
                           find_last_loop h nd haystack_len needle_len n 0 None }
                 else Some None } }
      | _ \<Rightarrow> Some (map_option (\<lambda>_. 0) haystack))"

end
