(* ===== verification/StringEdit.thy ===== *)
theory StringEdit
  imports Strings
begin

text \<open>
  src/string.cpp, the second half: functions that copy, replace and split.

  \<open>alloc n\<close> says whether \<open>Memory::alloc\<close> returns a block of \<open>n\<close> bytes and \<open>fresh\<close> is what the
  bytes of a new block hold before they are written.  The vectors of pointers that the split
  functions return are given as the list of the pointers that were appended: blocks for the
  functions that duplicate the parts, offsets into the source for those that work in place.
\<close>

definition new_block :: "(nat \<Rightarrow> bool) \<Rightarrow> (nat \<Rightarrow> u8) \<Rightarrow> nat \<Rightarrow> cstring option" where
  "new_block alloc fresh n = (if alloc n then Some (map fresh [0..<n]) else None)"

section \<open>Copies\<close>

fun concat_loop :: "cstring \<Rightarrow> cstring \<Rightarrow> nat \<Rightarrow> (cstring \<times> nat) option" where
  "concat_loop dest src 0 = Some (dest, 0)"
| "concat_loop (d # dest) (c # src) (Suc n) =
     (if c = 0 then Some (c # dest, 0)
      else do { (dest, i) \<leftarrow> concat_loop dest src n; Some (c # dest, i + 1) })"
| "concat_loop _ _ (Suc n) = None"

definition str_concat :: "cstring \<Rightarrow> cstring option \<Rightarrow> nat \<Rightarrow> (cstring \<times> nat) option" where
  "str_concat dest src n = (case src of None \<Rightarrow> Some (dest, 0) | Some src \<Rightarrow> concat_loop dest src n)"

definition str_copy :: "cstring \<Rightarrow> cstring option \<Rightarrow> cstring option" where
  "str_copy dest src = do { (dest, i) \<leftarrow> str_concat dest src SIZE_MAX; Some dest }"

fun zero_loop :: "cstring \<Rightarrow> nat \<Rightarrow> nat \<Rightarrow> cstring option" where
  "zero_loop dest i 0 = Some dest"
| "zero_loop dest i (Suc todo) = do { dest \<leftarrow> wr dest i 0; zero_loop dest (i + 1) todo }"

definition str_copy_n :: "cstring \<Rightarrow> cstring option \<Rightarrow> nat \<Rightarrow> bool \<Rightarrow> cstring option" where
  "str_copy_n dest src n zero_remainder =
     do { (dest, i) \<leftarrow> str_concat dest src n;
          if zero_remainder then zero_loop dest i (n - i) else Some dest }"

text \<open>The inner option of the result is the null pointer.\<close>

definition str_duplicate_n ::
    "(nat \<Rightarrow> bool) \<Rightarrow> (nat \<Rightarrow> u8) \<Rightarrow> cstring option \<Rightarrow> nat \<Rightarrow> cstring option option" where
  "str_duplicate_n alloc fresh s n =
     (if s = None \<or> n = 0 then Some None
      else case new_block alloc fresh (n + 1) of
        None \<Rightarrow> Some None
      | Some d \<Rightarrow> do { d \<leftarrow> str_copy_n d s n False; d \<leftarrow> wr d n 0; Some (Some d) })"

definition str_duplicate ::
    "(nat \<Rightarrow> bool) \<Rightarrow> (nat \<Rightarrow> u8) \<Rightarrow> cstring option \<Rightarrow> cstring option option" where
  "str_duplicate alloc fresh s =
     (case s of None \<Rightarrow> Some None
      | Some _ \<Rightarrow> do { n \<leftarrow> str_len s SIZE_MAX; str_duplicate_n alloc fresh s n })"

section \<open>Replacing\<close>

fun replace_char_loop :: "cstring \<Rightarrow> int \<Rightarrow> int \<Rightarrow> nat \<Rightarrow> cstring option" where
  "replace_char_loop [] old new limit = None"
| "replace_char_loop (c # s) old new limit =
     (if c = 0 then Some (c # s)
      else if limit > 0 \<and> sint c = old
      then do { s \<leftarrow> replace_char_loop s old new (limit - 1); Some (word_of_int new # s) }
      else do { s \<leftarrow> replace_char_loop s old new limit; Some (c # s) })"

definition str_replace_char_inplace :: "cstring option \<Rightarrow> int \<Rightarrow> int \<Rightarrow> nat \<Rightarrow> cstring option option" where
  "str_replace_char_inplace target old new limit =
     (case target of None \<Rightarrow> Some None
      | Some t \<Rightarrow> map_option Some (replace_char_loop t old new limit))"

definition str_replace_char ::
    "(nat \<Rightarrow> bool) \<Rightarrow> (nat \<Rightarrow> u8) \<Rightarrow> cstring option \<Rightarrow> int \<Rightarrow> int \<Rightarrow> nat \<Rightarrow> cstring option option" where
  "str_replace_char alloc fresh source old new limit =
     (if source = None then Some None
      else do { t \<leftarrow> str_duplicate alloc fresh source; str_replace_char_inplace t old new limit })"

text \<open>
  The positions at which a delimiter is found; \<open>room\<close> is the length of the array \<open>part\<close> of the
  caller.
\<close>

partial_function (option) parts_loop ::
    "cstring \<Rightarrow> cstring \<Rightarrow> nat \<Rightarrow> nat \<Rightarrow> nat list \<Rightarrow> nat \<Rightarrow> nat \<Rightarrow> nat \<Rightarrow> nat list \<Rightarrow> nat list option" where
  "parts_loop source delimiter source_len delimiter_len n room pos limit part =
     (if limit > 0
      then do { t \<leftarrow> kmp_find source delimiter source_len delimiter_len n pos;
                case t of None \<Rightarrow> Some part
                | Some p \<Rightarrow>
                    do { assert_that (length part < room);
                         parts_loop source delimiter source_len delimiter_len n room
                           (p + delimiter_len) (limit - 1) (part @ [p]) } }
      else Some part)"

definition split_parts :: "cstring \<Rightarrow> cstring \<Rightarrow> nat \<Rightarrow> nat \<Rightarrow> nat \<Rightarrow> nat \<Rightarrow> nat list option" where
  "split_parts source delimiter source_len delimiter_len room limit =
     do { assert_that (source_len > 0 \<and> delimiter_len > 0);
          if delimiter_len > source_len then Some []
          else do { n \<leftarrow> str_prefix delimiter delimiter_len;
                    parts_loop source delimiter source_len delimiter_len n room 0 limit [] } }"

text \<open>\<open>target += concat(target, src, n)\<close>: \<open>at\<close> is how far \<open>target\<close> has been advanced.\<close>

definition concat_at :: "cstring \<Rightarrow> nat \<Rightarrow> cstring option \<Rightarrow> nat \<Rightarrow> (cstring \<times> nat) option" where
  "concat_at target at src n =
     do { rest \<leftarrow> advance at target; (rest, i) \<leftarrow> str_concat rest src n; Some (take at target @ rest, at + i) }"

fun combine_loop ::
    "cstring \<Rightarrow> nat \<Rightarrow> cstring \<Rightarrow> cstring option \<Rightarrow> nat \<Rightarrow> nat \<Rightarrow> nat \<Rightarrow> nat list \<Rightarrow> (cstring \<times> nat \<times> nat) option" where
  "combine_loop target at source to_str from_len to_len pos [] = Some (target, at, pos)"
| "combine_loop target at source to_str from_len to_len pos (p # part) =
     do { src \<leftarrow> advance pos source;
          (target, at) \<leftarrow> concat_at target at (Some src) (size_sub p pos);
          (target, at) \<leftarrow> concat_at target at to_str to_len;
          combine_loop target at source to_str from_len to_len (p + from_len) part }"

definition str_combine ::
    "cstring \<Rightarrow> cstring \<Rightarrow> cstring option \<Rightarrow> nat list \<Rightarrow> nat \<Rightarrow> nat \<Rightarrow> nat \<Rightarrow> cstring option" where
  "str_combine target source to_str part source_len from_len to_len =
     do { (target, at, pos) \<leftarrow> combine_loop target 0 source to_str from_len to_len 0 part;
          if pos < source_len
          then do { src \<leftarrow> advance pos source;
                    (target, at) \<leftarrow> concat_at target at (Some src) SIZE_MAX; Some target }
          else Some target }"

definition str_replace_inplace_n ::
    "(nat \<Rightarrow> u8) \<Rightarrow> cstring option \<Rightarrow> nat \<Rightarrow> cstring option \<Rightarrow> cstring option \<Rightarrow> nat \<Rightarrow> cstring option option" where
  "str_replace_inplace_n fresh target target_len from_str to_str limit =
     (case target of None \<Rightarrow> Some None
      | Some t \<Rightarrow>
          do { from_len \<leftarrow> str_len from_str SIZE_MAX;
               assert_that (from_len > 0);
               to_len \<leftarrow> str_len to_str SIZE_MAX;
               f \<leftarrow> from_str;
               part \<leftarrow> split_parts t f target_len from_len (target_len div from_len) limit;
               tmp \<leftarrow> str_copy_n (map fresh [0..<target_len]) target target_len False;
               t \<leftarrow> str_combine t tmp to_str part target_len from_len to_len;
               Some (Some t) })"

definition str_replace_inplace ::
    "(nat \<Rightarrow> u8) \<Rightarrow> cstring option \<Rightarrow> cstring option \<Rightarrow> cstring option \<Rightarrow> nat \<Rightarrow> cstring option option" where
  "str_replace_inplace fresh target from_str to_str limit =
     (if target = None then Some None
      else do { t \<leftarrow> str_len to_str SIZE_MAX; f \<leftarrow> str_len from_str SIZE_MAX;
                assert_that (t \<le> f);
                l \<leftarrow> str_len target SIZE_MAX;
                str_replace_inplace_n fresh target l from_str to_str limit })"

definition str_replace ::
    "(nat \<Rightarrow> bool) \<Rightarrow> (nat \<Rightarrow> u8) \<Rightarrow> cstring option \<Rightarrow> cstring option \<Rightarrow> cstring option \<Rightarrow> nat
     \<Rightarrow> cstring option option" where
  "str_replace alloc fresh source from_str to_str limit =
     (case source of None \<Rightarrow> Some None
      | Some s \<Rightarrow>
          do { from_len \<leftarrow> str_len from_str SIZE_MAX;
               assert_that (from_len > 0);
               to_len \<leftarrow> str_len to_str SIZE_MAX;
               source_len \<leftarrow> str_len source SIZE_MAX;
               f \<leftarrow> from_str;
               parts \<leftarrow> split_parts s f source_len from_len (source_len div from_len) limit;
               let size = nat ((1 + int source_len + int (length parts) * (int to_len - int from_len))
                               mod (int SIZE_MAX + 1));
               case new_block alloc fresh size of
                 None \<Rightarrow> Some None
               | Some target \<Rightarrow> do { t \<leftarrow> str_combine target s to_str parts source_len from_len to_len;
                                       Some (Some t) } })"

section \<open>Splitting at characters\<close>

text \<open>One part is duplicated and appended; also whether that worked.\<close>

definition push_part ::
    "(nat \<Rightarrow> bool) \<Rightarrow> (nat \<Rightarrow> u8) \<Rightarrow> cstring \<Rightarrow> nat \<Rightarrow> nat \<Rightarrow> cstring list \<Rightarrow> (cstring list \<times> bool) option" where
  "push_part alloc fresh source s len r =
     do { src \<leftarrow> advance s source;
          t \<leftarrow> str_duplicate_n alloc fresh (Some src) len;
          case t of None \<Rightarrow> Some (r, False) | Some t \<Rightarrow> Some (r @ [t], True) }"

fun split_char_loop ::
    "(nat \<Rightarrow> bool) \<Rightarrow> (nat \<Rightarrow> u8) \<Rightarrow> (u8 \<Rightarrow> bool option) \<Rightarrow> cstring \<Rightarrow> cstring \<Rightarrow> nat \<Rightarrow> nat \<Rightarrow> nat
     \<Rightarrow> cstring list \<Rightarrow> (nat \<times> nat \<times> cstring list) option" where
  "split_char_loop alloc fresh delim source [] i s limit r = None"
| "split_char_loop alloc fresh delim source (c # rest) i s limit r =
     (if c = 0 then Some (i, s, r)
      else do { found \<leftarrow> delim c;
                if found \<and> limit > 0
                then do { (r, limit) \<leftarrow>
                            (if s < i
                             then do { (r, ok) \<leftarrow> push_part alloc fresh source s (i - s) r;
                                       Some (r, if ok then limit - 1 else limit) }
                             else Some (r, limit));
                          split_char_loop alloc fresh delim source rest (i + 1) (i + 1) limit r }
                else split_char_loop alloc fresh delim source rest (i + 1) s limit r })"

definition split_chars ::
    "(nat \<Rightarrow> bool) \<Rightarrow> (nat \<Rightarrow> u8) \<Rightarrow> (u8 \<Rightarrow> bool option) \<Rightarrow> cstring \<Rightarrow> nat \<Rightarrow> cstring list option" where
  "split_chars alloc fresh delim source limit =
     do { (i, s, r) \<leftarrow> split_char_loop alloc fresh delim source source 0 0 limit [];
          if s < i then do { (r, ok) \<leftarrow> push_part alloc fresh source s (i - s) r; Some r } else Some r }"

definition str_split_char ::
    "(nat \<Rightarrow> bool) \<Rightarrow> (nat \<Rightarrow> u8) \<Rightarrow> cstring option \<Rightarrow> int \<Rightarrow> nat \<Rightarrow> cstring list option" where
  "str_split_char alloc fresh source delimiter limit =
     (case source of None \<Rightarrow> Some []
      | Some source \<Rightarrow> split_chars alloc fresh (\<lambda>c. Some (sint c = delimiter)) source limit)"

fun is_delimiter :: "cstring \<Rightarrow> u8 \<Rightarrow> bool option" where
  "is_delimiter [] c = None"
| "is_delimiter (d # ds) c = (if d = 0 then Some False else if c = d then Some True else is_delimiter ds c)"

definition str_split_any ::
    "(nat \<Rightarrow> bool) \<Rightarrow> (nat \<Rightarrow> u8) \<Rightarrow> cstring option \<Rightarrow> cstring option \<Rightarrow> nat \<Rightarrow> cstring list option" where
  "str_split_any alloc fresh source delimiter limit =
     (case source of None \<Rightarrow> Some []
      | Some s \<Rightarrow>
          (case delimiter of
             None \<Rightarrow> do { t \<leftarrow> str_duplicate alloc fresh source;
                           case t of None \<Rightarrow> Some [] | Some t \<Rightarrow> Some [t] }
           | Some d \<Rightarrow> split_chars alloc fresh (is_delimiter d) s limit))"

text \<open>
  The loop of the functions that split in place: the delimiters are overwritten with zeros, the
  result are the offsets at which parts start.
\<close>

fun split_inplace_loop ::
    "(u8 \<Rightarrow> bool option) \<Rightarrow> cstring \<Rightarrow> nat \<Rightarrow> nat \<Rightarrow> bool \<Rightarrow> nat list \<Rightarrow> (cstring \<times> nat list) option" where
  "split_inplace_loop delim [] i limit push_next r = None"
| "split_inplace_loop delim (c # rest) i limit push_next r =
     (if c = 0 then Some (c # rest, r)
      else do { found \<leftarrow> delim c;
                if found \<and> limit > 0
                then do { (rest, r) \<leftarrow> split_inplace_loop delim rest (i + 1)
                                         (if push_next then limit else limit - 1) True r;
                          Some (0 # rest, r) }
                else do { (rest, r) \<leftarrow> split_inplace_loop delim rest (i + 1) limit False
                                         (if push_next then r @ [i] else r);
                          Some (c # rest, r) } })"

definition str_split_char_inplace ::
    "cstring option \<Rightarrow> int \<Rightarrow> nat \<Rightarrow> (cstring option \<times> nat list) option" where
  "str_split_char_inplace source delimiter limit =
     (case source of None \<Rightarrow> Some (None, [])
      | Some s \<Rightarrow> do { (s, r) \<leftarrow> split_inplace_loop (\<lambda>c. Some (sint c = delimiter)) s 0 limit True [];
                       Some (Some s, r) })"

definition str_split_any_inplace ::
    "cstring option \<Rightarrow> cstring option \<Rightarrow> nat \<Rightarrow> (cstring option \<times> nat list) option" where
  "str_split_any_inplace source delimiter limit =
     (case source of None \<Rightarrow> Some (None, [])
      | Some s \<Rightarrow>
          (case delimiter of
             None \<Rightarrow> Some (source, [0])
           | Some d \<Rightarrow> do { (s, r) \<leftarrow> split_inplace_loop (is_delimiter d) s 0 limit True [];
                            Some (Some s, r) }))"

section \<open>Splitting at substrings\<close>

fun split_str_inplace_loop ::
    "cstring \<Rightarrow> nat list \<Rightarrow> nat \<Rightarrow> nat \<Rightarrow> nat \<Rightarrow> nat list \<Rightarrow> (cstring \<times> nat \<times> nat list) option" where
  "split_str_inplace_loop source [] delimiter_len pos limit r = Some (source, pos, r)"
| "split_str_inplace_loop source (p # part) delimiter_len pos limit r =
     do { (source, r, limit) \<leftarrow>
            (if size_sub p pos > 0 \<and> limit > 0
             then do { source \<leftarrow> wr source p 0; Some (source, r @ [pos], limit - 1) }
             else Some (source, r, limit));
          if limit = 0 then Some (source, p + delimiter_len, r)
          else split_str_inplace_loop source part delimiter_len (p + delimiter_len) limit r }"

definition str_split_str_inplace ::
    "cstring option \<Rightarrow> cstring option \<Rightarrow> nat \<Rightarrow> (cstring option \<times> nat list) option" where
  "str_split_str_inplace source delimiter limit =
     (case source of None \<Rightarrow> Some (None, [])
      | Some s \<Rightarrow>
          do { delimiter_len \<leftarrow> str_len delimiter SIZE_MAX;
               assert_that (delimiter_len > 0);
               source_len \<leftarrow> str_len source SIZE_MAX;
               d \<leftarrow> delimiter;
               part \<leftarrow> split_parts s d source_len delimiter_len (source_len div delimiter_len) limit;
               (s, pos, r) \<leftarrow> split_str_inplace_loop s part delimiter_len 0 limit [];
               Some (Some s, if pos < source_len then r @ [pos] else r) })"

fun split_str_loop ::
    "(nat \<Rightarrow> bool) \<Rightarrow> (nat \<Rightarrow> u8) \<Rightarrow> cstring \<Rightarrow> nat list \<Rightarrow> nat \<Rightarrow> nat \<Rightarrow> nat \<Rightarrow> cstring list
     \<Rightarrow> (nat \<times> cstring list) option" where
  "split_str_loop alloc fresh source [] delimiter_len pos limit r = Some (pos, r)"
| "split_str_loop alloc fresh source (p # part) delimiter_len pos limit r =
     do { (r, limit) \<leftarrow>
            (if size_sub p pos > 0 \<and> limit > 0
             then do { (r, ok) \<leftarrow> push_part alloc fresh source pos (size_sub p pos) r;
                       Some (r, if ok then limit - 1 else limit) }
             else Some (r, limit));
          if limit = 0 then Some (p + delimiter_len, r)
          else split_str_loop alloc fresh source part delimiter_len (p + delimiter_len) limit r }"

definition str_split_str ::
    "(nat \<Rightarrow> bool) \<Rightarrow> (nat \<Rightarrow> u8) \<Rightarrow> cstring option \<Rightarrow> cstring option \<Rightarrow> nat \<Rightarrow> cstring list option" where
  "str_split_str alloc fresh source delimiter limit =
     (case source of None \<Rightarrow> Some []
      | Some s \<Rightarrow>
          do { delimiter_len \<leftarrow> str_len delimiter SIZE_MAX;
               assert_that (delimiter_len > 0);
               source_len \<leftarrow> str_len source SIZE_MAX;
               d \<leftarrow> delimiter;
               part \<leftarrow> split_parts s d source_len delimiter_len (source_len div delimiter_len + 1) limit;
               (pos, r) \<leftarrow> split_str_loop alloc fresh s part delimiter_len 0 limit [];
               if pos < source_len
               then do { (r, ok) \<leftarrow> push_part alloc fresh s pos (source_len - pos) r; Some r }
               else Some r })"

end
