(* ===== verification/StringProps.thy ===== *)
theory StringProps
  imports StringEdit
begin

text \<open>
  Lemmas on the string functions: what they do on blocks that hold a null-terminated string.
\<close>

definition holds :: "cstring \<Rightarrow> u8 list \<Rightarrow> bool" where
  "holds b xs \<longleftrightarrow> (\<exists>rest. b = xs @ 0 # rest) \<and> 0 \<notin> set xs \<and> length xs < SIZE_MAX"

lemma holdsE:
  assumes "holds b xs"
  obtains rest where "b = xs @ 0 # rest" "0 \<notin> set xs" "length xs < SIZE_MAX"
  using assms unfolding holds_def by blast

lemma holds_nth: "holds b xs \<Longrightarrow> i < length xs \<Longrightarrow> b ! i = xs ! i"
  by (auto elim!: holdsE simp: nth_append)

lemma holds_length: "holds b xs \<Longrightarrow> length xs < length b"
  by (auto elim!: holdsE)

section \<open>Length and comparison\<close>

lemma len_loop_eq: "0 \<notin> set xs \<Longrightarrow> length xs \<le> n \<Longrightarrow> len_loop (xs @ 0 # rest) n = Some (length xs)"
  by (induction xs arbitrary: n) auto

lemma str_len_eq [simp]: "holds b xs \<Longrightarrow> str_len (Some b) SIZE_MAX = Some (length xs)"
  by (auto elim!: holdsE simp: str_len_def len_loop_eq)

lemma str_len_None [simp]: "str_len None n = Some 0"
  by (simp add: str_len_def)

text \<open>The reference order on strings: the difference of the first characters that differ.\<close>

fun string_order :: "u8 list \<Rightarrow> u8 list \<Rightarrow> int" where
  "string_order [] [] = 0"
| "string_order [] (b # ys) = 0 - sint b"
| "string_order (a # xs) [] = sint a"
| "string_order (a # xs) (b # ys) = (if a = b then string_order xs ys else sint a - sint b)"

lemma compare_loop_eq:
  "0 \<notin> set xs \<Longrightarrow> 0 \<notin> set ys \<Longrightarrow> compare_loop (xs @ 0 # r) (ys @ 0 # q) = Some (string_order xs ys)"
  by (induction xs ys rule: string_order.induct) auto

lemma string_order_refl [simp]: "string_order xs xs = 0"
  by (induction xs) auto

lemma sint_eq_iff: "sint (a :: u8) = sint b \<longleftrightarrow> a = b"
  by (auto intro: signed_word_eqI)

lemma string_order_eq_0:
  "0 \<notin> set xs \<Longrightarrow> 0 \<notin> set ys \<Longrightarrow> string_order xs ys = 0 \<longleftrightarrow> xs = ys"
  using sint_eq_iff [of _ 0] by (induction xs ys rule: string_order.induct) (auto simp: sint_eq_iff)

lemma holds_inj: "holds b xs \<Longrightarrow> holds b ys \<Longrightarrow> xs = ys"
proof (induction xs arbitrary: b ys)
  case Nil
  then show ?case by (cases ys) (auto elim!: holdsE)
next
  case (Cons x xs)
  from Cons.prems(1) obtain r where r: "b = (x # xs) @ 0 # r" "0 \<notin> set (x # xs)" "length (x # xs) < SIZE_MAX"
    by (elim holdsE)
  from Cons.prems(2) obtain q where q: "b = ys @ 0 # q" "0 \<notin> set ys" "length ys < SIZE_MAX"
    by (elim holdsE)
  from r(1,2) q(1) obtain ys' where y: "ys = x # ys'" by (cases ys) auto
  have "holds (xs @ 0 # r) xs" using r by (simp add: holds_def)
  moreover have "xs @ 0 # r = ys' @ 0 # q" using r(1) q(1) y by simp
  then have "holds (xs @ 0 # r) ys'" using q(2,3) y by (auto simp: holds_def)
  ultimately show ?case using Cons.IH y by blast
qed

lemma str_compare_eq:
  assumes "holds a xs" "holds b ys" "same \<longrightarrow> a = b"
  shows "str_compare same (Some a) (Some b) = Some (string_order xs ys)"
proof (cases same)
  case True
  then have "xs = ys" using assms holds_inj by blast
  then show ?thesis using True by (simp add: str_compare_def)
next
  case False
  then show ?thesis using assms by (auto elim!: holdsE simp: str_compare_def compare_loop_eq)
qed

lemma starts_loop_eq:
  "0 \<notin> set xs \<Longrightarrow> 0 \<notin> set ys \<Longrightarrow> starts_loop (xs @ 0 # r) (ys @ 0 # q) = Some (take (length ys) xs = ys)"
proof (induction ys arbitrary: xs)
  case Nil
  then show ?case by (cases xs) auto
next
  case (Cons y ys)
  then show ?case by (cases xs) auto
qed

lemma ends_loop_eq:
  assumes "i + todo \<le> length s" "todo \<le> length suffix"
  shows "ends_loop s suffix i todo = Some (take todo (drop i s) = take todo suffix)"
  using assms
proof (induction todo arbitrary: i suffix)
  case 0
  then show ?case by simp
next
  case (Suc todo)
  then obtain c cs where c: "suffix = c # cs" by (cases suffix) auto
  have d: "drop i s = s ! i # drop (Suc i) s" using Suc.prems by (intro Cons_nth_drop_Suc [symmetric]) simp
  show ?case using Suc c by (simp add: rd_def d)
qed

lemma str_ends_with_eq:
  assumes "holds a xs" "holds b ys"
  shows "str_ends_with (Some a) (Some b) = Some (length ys \<le> length xs \<longrightarrow> drop (length xs - length ys) xs = ys)"
proof -
  from assms obtain r q where "a = xs @ 0 # r" "b = ys @ 0 # q" by (auto elim!: holdsE)
  then show ?thesis
    using assms by (auto simp: str_ends_with_def ends_loop_eq)
qed

lemma str_starts_with_eq:
  assumes "holds a xs" "holds b ys"
  shows "str_starts_with (Some a) (Some b) = Some (take (length ys) xs = ys)"
  using assms by (auto elim!: holdsE simp: str_starts_with_def starts_loop_eq)

section \<open>The table of the search\<close>

text \<open>What \<open>prefix\<close> computes: no entry is above one.\<close>

definition prefix_entry :: "cstring \<Rightarrow> nat \<Rightarrow> nat" where
  "prefix_entry needle j = (if 2 \<le> j \<and> needle ! (j - 1) = needle ! 0 then 1 else 0)"

definition prefix_table :: "cstring \<Rightarrow> nat \<Rightarrow> nat \<Rightarrow> nat list" where
  "prefix_table needle len i = map (\<lambda>k. if k \<le> i then prefix_entry needle k else 0) [0..<len + 1]"

lemma prefix_table_nth: "k \<le> len \<Longrightarrow> prefix_table needle len i ! k = (if k \<le> i then prefix_entry needle k else 0)"
  by (simp add: prefix_table_def del: upt_Suc)

lemma length_prefix_table [simp]: "length (prefix_table needle len i) = len + 1"
  by (simp add: prefix_table_def)

lemma prefix_table_next:
  assumes "1 \<le> i" "i < len"
  shows "prefix_table needle len (i + 1) =
    (if needle ! 0 = needle ! i then (prefix_table needle len i)[i + 1 := 1] else prefix_table needle len i)"
  using assms
  by (intro nth_equalityI) (auto simp: nth_list_update prefix_table_nth prefix_entry_def le_Suc_eq)

lemma prefix_loop_eq:
  assumes "1 \<le> i" "i + todo = len" "len \<le> length needle"
  shows "prefix_loop needle (prefix_table needle len i) i todo = Some (prefix_table needle len len)"
  using assms
proof (induction todo arbitrary: i)
  case 0
  then show ?case by simp
next
  case (Suc todo)
  let ?n = "prefix_table needle len i"
  have r: "rd ?n (i + 1) = Some 0" using Suc.prems by (simp add: rd_def prefix_table_nth)
  have c: "prefix_chase needle ?n i 0 = Some 0" by (subst prefix_chase.simps) simp
  have a: "rd needle 0 = Some (needle ! 0)" "rd needle i = Some (needle ! i)"
    using Suc.prems by (auto simp: rd_def)
  have x: "wr ?n (i + 1) 1 = Some (?n[i + 1 := 1])"
    using Suc.prems by (simp add: wr_def)
  have IH: "prefix_loop needle (prefix_table needle len (i + 1)) (i + 1) todo = Some (prefix_table needle len len)"
    using Suc.IH [of "i + 1"] Suc.prems by simp
  show ?case
    using IH prefix_table_next [of i len needle] Suc.prems r c a x by (auto split: if_splits)
qed

lemma str_prefix_eq:
  assumes "0 < len" "len \<le> length needle"
  shows "str_prefix needle len = Some (prefix_table needle len len)"
proof -
  have "replicate (len + 1) 0 = prefix_table needle len 1"
    by (intro nth_equalityI) (auto simp: prefix_entry_def prefix_table_nth simp del: replicate.simps)
  then show ?thesis
    using prefix_loop_eq [of 1 "len - 1" len needle] assms by (simp add: str_prefix_def del: replicate.simps)
qed

section \<open>The search\<close>

definition occurs_at :: "u8 list \<Rightarrow> u8 list \<Rightarrow> nat \<Rightarrow> bool" where
  "occurs_at needle hay p \<longleftrightarrow> p + length needle \<le> length hay \<and> take (length needle) (drop p hay) = needle"

lemma occurs_at_nth:
  "occurs_at needle hay p \<longleftrightarrow>
     p + length needle \<le> length hay \<and> (\<forall>k < length needle. hay ! (p + k) = needle ! k)"
  by (auto simp: occurs_at_def list_eq_iff_nth_eq)

text \<open>A table of borders; it is complete if no border is longer than its entry.\<close>

definition border :: "u8 list \<Rightarrow> nat \<Rightarrow> nat \<Rightarrow> bool" where
  "border needle j k \<longleftrightarrow> k < j \<and> (\<forall>m<k. needle ! m = needle ! (j - k + m))"

definition borders :: "u8 list \<Rightarrow> nat list \<Rightarrow> bool" where
  "borders needle n \<longleftrightarrow>
     length n = length needle + 1 \<and> (\<forall>j. 0 < j \<and> j < length needle \<longrightarrow> border needle j (n ! j))"

definition longest_borders :: "u8 list \<Rightarrow> nat list \<Rightarrow> bool" where
  "longest_borders needle n \<longleftrightarrow>
     (\<forall>j k. 0 < j \<and> j < length needle \<and> border needle j k \<longrightarrow> k \<le> n ! j)"

text \<open>The specification of a search from position \<open>pos\<close>.\<close>

definition found :: "u8 list \<Rightarrow> u8 list \<Rightarrow> bool \<Rightarrow> nat \<Rightarrow> nat option \<Rightarrow> bool" where
  "found needle hay all pos r \<longleftrightarrow>
     (case r of Some p \<Rightarrow> pos \<le> p \<and> occurs_at needle hay p \<and> (all \<longrightarrow> (\<forall>q. pos \<le> q \<and> q < p \<longrightarrow> \<not> occurs_at needle hay q))
      | None \<Rightarrow> all \<longrightarrow> (\<forall>q \<ge> pos. \<not> occurs_at needle hay q))"

lemma found_mono:
  assumes "found needle hay all pos r" "pos' \<le> pos"
    and "all \<Longrightarrow> (\<forall>q. pos' \<le> q \<and> q < pos \<longrightarrow> \<not> occurs_at needle hay q)"
  shows "found needle hay all pos' r"
  using assms unfolding found_def by (cases r) (auto, (meson leI le_less_trans order_trans)+)

lemma kmp_loop_correct:
  assumes n: "borders needle n" "all \<longrightarrow> longest_borders needle n"
    and h: "\<And>k. k < length hay \<Longrightarrow> rd h k = Some (hay ! k)"
    and nd: "\<And>k. k < length needle \<Longrightarrow> rd d k = Some (needle ! k)"
  shows "\<lbrakk>\<forall>m<j. hay ! (i - j + m) = needle ! m; j < length needle; j \<le> i; i \<le> length hay\<rbrakk>
    \<Longrightarrow> \<exists>r. kmp_loop h d (length hay) (length needle) n i j = Some r \<and> found needle hay all (i - j) r"
proof (induction "2 * (length hay - i) + j" arbitrary: i j rule: less_induct)
  case less
  note [simp] = h nd
  show ?case
  proof (cases "i < length hay")
    case False
    with less.prems have "\<forall>q \<ge> i - j. \<not> occurs_at needle hay q" by (auto simp: occurs_at_def)
    with False show ?thesis by (subst kmp_loop.simps) (simp add: found_def)
  next
    case i: True
    show ?thesis
    proof (cases "hay ! i = needle ! j")
      case match: True
      have m: "\<forall>m<j + 1. hay ! (i + 1 - (j + 1) + m) = needle ! m"
        using less.prems match by (auto simp: less_Suc_eq)
      show ?thesis
      proof (cases "j + 1 = length needle")
        case True
        have "\<forall>m<length needle. hay ! (i - j + m) = needle ! m"
          using m True by (metis add_diff_cancel_right)
        then have "occurs_at needle hay (i - j)"
          using True i less.prems by (auto simp: occurs_at_nth less_Suc_eq)
        then have "found needle hay all (i - j) (Some (i + 1 - length needle))"
          using True diff_Suc_Suc [of i j] by (auto simp: found_def)
        then show ?thesis using i match True less.prems by (subst kmp_loop.simps) simp
      next
        case False
        have "\<exists>r. kmp_loop h d (length hay) (length needle) n (i + 1) (j + 1) = Some r
            \<and> found needle hay all (i + 1 - (j + 1)) r"
          by (rule less.hyps) (use m i False less.prems in auto)
        then show ?thesis using i match False less.prems by (subst kmp_loop.simps) simp
      qed
    next
      case differ: False
      then have no: "\<not> occurs_at needle hay (i - j)"
        using less.prems by (auto simp: occurs_at_nth)
      show ?thesis
      proof (cases "j = 0")
        case True
        have "\<exists>r. kmp_loop h d (length hay) (length needle) n (i + 1) 0 = Some r \<and> found needle hay all (i + 1 - 0) r"
          by (rule less.hyps) (use i True less.prems in auto)
        then obtain r where r: "kmp_loop h d (length hay) (length needle) n (i + 1) 0 = Some r"
          "found needle hay all (i + 1) r" by auto
        have "found needle hay all i r"
          by (rule found_mono [OF r(2)]) (use no True in \<open>auto simp: less_Suc_eq_le\<close>)
        then show ?thesis using r i differ True less.prems by (subst kmp_loop.simps) simp
      next
        case False
        let ?k = "n ! j"
        have k: "border needle j ?k" "rd n j = Some ?k" using n(1) less.prems False by (auto simp: borders_def rd_def)
        have m: "\<forall>m<?k. hay ! (i - ?k + m) = needle ! m"
        proof (intro allI impI)
          fix m assume "m < ?k"
          then have "j - ?k + m < j" "i - j + (j - ?k + m) = i - ?k + m"
            using less.prems(3) k(1) unfolding border_def by linarith+
          then have "hay ! (i - ?k + m) = needle ! (j - ?k + m)"
            using less.prems(1) by metis
          then show "hay ! (i - ?k + m) = needle ! m" using k \<open>m < ?k\<close> by (simp add: border_def)
        qed
        have "\<exists>r. kmp_loop h d (length hay) (length needle) n i ?k = Some r \<and> found needle hay all (i - ?k) r"
          by (rule less.hyps) (use m k less.prems in \<open>auto simp: border_def\<close>)
        then obtain r where r: "kmp_loop h d (length hay) (length needle) n i ?k = Some r"
          "found needle hay all (i - ?k) r" by auto
        have "found needle hay all (i - j) r"
        proof (rule found_mono [OF r(2)])
          show "i - j \<le> i - ?k" using k by (auto simp: border_def)
          assume "all"
          show "\<forall>q. i - j \<le> q \<and> q < i - ?k \<longrightarrow> \<not> occurs_at needle hay q"
          proof (intro allI impI notI)
            fix q assume q: "i - j \<le> q \<and> q < i - ?k" and occ: "occurs_at needle hay q"
            with no have "i - j < q" by (metis le_neq_implies_less)
            have "border needle j (i - q)"
              unfolding border_def
            proof (intro conjI allI impI)
              show "i - q < j" using \<open>i - j < q\<close> False less.prems(3) by linarith
              fix m assume "m < i - q"
              then have "m < length needle" "q + m = i - j + (j - (i - q) + m)" "j - (i - q) + m < j"
                using less.prems \<open>i - j < q\<close> q by auto
              then show "needle ! m = needle ! (j - (i - q) + m)"
                using occ less.prems(1) by (metis occurs_at_nth)
            qed
            then have "i - q \<le> ?k"
              using n(2) \<open>all\<close> less.prems False by (auto simp: longest_borders_def)
            then show False using q by linarith
          qed
        qed
        then show ?thesis using r k i differ False less.prems by (subst kmp_loop.simps) simp
      qed
    qed
  qed
qed

text \<open>
  The table of the code consists of borders; it is complete for needles whose first two
  characters do not come again (before the last character).
\<close>

definition plain_needle :: "u8 list \<Rightarrow> bool" where
  "plain_needle needle \<longleftrightarrow>
     (\<forall>i < length needle. 0 < i \<and> i + 2 < length needle \<longrightarrow> \<not> (needle ! i = needle ! 0 \<and> needle ! (i + 1) = needle ! 1))"

lemma prefix_table_borders:
  assumes "holds d needle"
  shows "borders needle (prefix_table d (length needle) (length needle))"
  unfolding borders_def
proof (intro conjI allI impI)
  fix j assume j: "0 < j \<and> j < length needle"
  then have "d ! (j - 1) = needle ! (j - 1)" "d ! 0 = needle ! 0"
    using j by (auto intro!: holds_nth [OF assms])
  then show "border needle j (prefix_table d (length needle) (length needle) ! j)"
    using j by (auto simp: prefix_table_nth prefix_entry_def border_def)
qed simp

lemma prefix_table_longest:
  assumes "holds d needle" "plain_needle needle"
  shows "longest_borders needle (prefix_table d (length needle) (length needle))"
  unfolding longest_borders_def
proof (intro allI impI)
  fix j k assume j: "0 < j \<and> j < length needle \<and> border needle j k"
  then have d: "d ! (j - 1) = needle ! (j - 1)" "d ! 0 = needle ! 0"
    using j by (auto intro!: holds_nth [OF assms(1)])
  from j have b: "k < j" "\<And>m. m < k \<Longrightarrow> needle ! m = needle ! (j - k + m)" by (auto simp: border_def)
  have "k < 2"
  proof (rule ccontr)
    assume "\<not> k < 2"
    with b(2) [of 0] b(2) [of 1] have "needle ! (j - k) = needle ! 0" "needle ! (j - k + 1) = needle ! 1" by simp_all
    moreover have "0 < j - k" "j - k + 2 < length needle" "j - k < length needle" using j b(1) \<open>\<not> k < 2\<close> by linarith+
    ultimately show False using assms(2) unfolding plain_needle_def by blast
  qed
  then consider "k = 0" | "k = 1" by linarith
  then show "k \<le> prefix_table d (length needle) (length needle) ! j"
  proof cases
    case 2
    then have "needle ! (j - 1) = needle ! 0" using b(2) [of 0] by simp
    then show ?thesis using 2 j b(1) d by (auto simp: prefix_table_nth prefix_entry_def)
  qed simp
qed

lemma holds_rd: "holds b xs \<Longrightarrow> k < length xs \<Longrightarrow> rd b k = Some (xs ! k)"
  using holds_nth [of b xs k] holds_length [of b xs] by (simp add: rd_def)

lemma kmp_find_correct:
  assumes "holds h hay" "holds d needle" "needle \<noteq> []" "hay \<noteq> []" "pos \<le> length hay"
  shows "\<exists>r. kmp_find h d (length hay) (length needle) (prefix_table d (length needle) (length needle)) pos = Some r
    \<and> found needle hay (plain_needle needle) pos r"
proof (cases "length needle \<le> length hay - pos")
  case True
  have "\<exists>r. kmp_loop h d (length hay) (length needle) (prefix_table d (length needle) (length needle)) pos 0 = Some r
      \<and> found needle hay (plain_needle needle) (pos - 0) r"
    by (rule kmp_loop_correct) (use assms prefix_table_borders prefix_table_longest holds_rd in auto)
  then show ?thesis using assms True by (simp add: kmp_find_def size_sub_def)
next
  case False
  then have "found needle hay (plain_needle needle) pos None" by (auto simp: found_def occurs_at_def)
  then show ?thesis using False assms by (auto simp: kmp_find_def size_sub_def)
qed

lemma found_all:
  "found needle hay True 0 r \<longleftrightarrow> r = find (occurs_at needle hay) [0..<length hay + 1]"
proof
  assume f: "found needle hay True 0 r"
  show "r = find (occurs_at needle hay) [0..<length hay + 1]"
  proof (cases r)
    case None
    then show ?thesis using f by (auto simp: found_def find_None_iff [of "occurs_at needle hay", symmetric] eq_commute [of None] find_None_iff)
  next
    case (Some p)
    then have "occurs_at needle hay p" "\<forall>q<p. \<not> occurs_at needle hay q" "p < length hay + 1"
      using f by (auto simp: found_def occurs_at_def)
    then have "find (occurs_at needle hay) [0..<length hay + 1] = Some p"
      by (subst find_Some_iff) (auto intro!: exI [of _ p] simp del: upt_Suc)
    then show ?thesis using Some by simp
  qed
next
  assume r: "r = find (occurs_at needle hay) [0..<length hay + 1]"
  show "found needle hay True 0 r"
  proof (cases r)
    case None
    then have "\<forall>q < length hay + 1. \<not> occurs_at needle hay q"
      using r by (auto simp: eq_commute [of None] find_None_iff simp del: upt_Suc)
    moreover have "\<not> occurs_at needle hay q" if "\<not> q < length hay + 1" for q
      using that by (auto simp: occurs_at_def)
    ultimately show ?thesis using None by (auto simp: found_def)
  next
    case (Some p)
    then have "p < length hay + 1" "occurs_at needle hay p" "\<forall>q<p. \<not> occurs_at needle hay q"
      using r by (auto simp: eq_commute [of "Some p"] find_Some_iff simp del: upt_Suc)
    then show ?thesis unfolding Some by (simp add: found_def)
  qed
qed

end
