(* ===== verification/StringTheorems.thy ===== *)
theory StringTheorems
  imports StringProps
begin

text \<open>
  What the string functions compute, and where they do not do what their documentation says.
\<close>

section \<open>Finding substrings\<close>

lemma found_equal: "found needle needle all 0 (Some 0)"
  by (auto simp: found_def occurs_at_def)

lemma no_occurrence: "length hay \<le> length needle \<Longrightarrow> hay \<noteq> needle \<Longrightarrow> \<not> occurs_at needle hay q"
  unfolding occurs_at_def by (cases "q = 0") (simp, linarith)

lemma str_compare_differs:
  assumes "holds h hay" "holds d needle" "same \<longrightarrow> h = d"
  shows "\<exists>c. str_compare same (Some h) (Some d) = Some c \<and> (c = 0 \<longleftrightarrow> hay = needle)"
  using str_compare_eq [OF assms] string_order_eq_0 [of hay needle] assms by (auto elim!: holdsE)

lemma str_find_ok:
  assumes "holds h hay" "holds d needle" "same \<longrightarrow> h = d"
  shows "\<exists>r. str_find same (Some h) (Some d) = Some r \<and> found needle hay (plain_needle needle) 0 r
    \<and> str_find_or_end same (Some h) (Some d) = Some (Some (case r of Some p \<Rightarrow> p | None \<Rightarrow> length hay))"
proof -
  let ?n = "prefix_table d (length needle) (length needle)"
  obtain c where c: "str_compare same (Some h) (Some d) = Some c" "c = 0 \<longleftrightarrow> hay = needle"
    using str_compare_differs [OF assms] by blast
  note l = str_len_eq [OF assms(1)] str_len_eq [OF assms(2)]
  consider "needle = []" | "needle \<noteq> []" "hay = needle" | "needle \<noteq> []" "length needle < length hay"
    | "needle \<noteq> []" "hay \<noteq> needle" "length hay \<le> length needle" by fastforce
  then show ?thesis
  proof cases
    case 1
    then have "found needle hay (plain_needle needle) 0 (Some 0)" by (simp add: found_def occurs_at_def)
    then show ?thesis using 1 l by (simp add: str_find_def str_find_or_end_def)
  next
    case 2
    then show ?thesis using l c found_equal by (simp add: str_find_def str_find_or_end_def)
  next
    case 3
    then have "str_prefix d (length needle) = Some ?n"
      using holds_length [OF assms(2)] by (intro str_prefix_eq) auto
    moreover obtain r where "kmp_find h d (length hay) (length needle) ?n 0 = Some r"
      "found needle hay (plain_needle needle) 0 r"
      using kmp_find_correct [OF assms(1,2), of 0] 3 by (metis length_0_conv not_less_zero zero_le)
    ultimately show ?thesis using 3 l c by (simp add: str_find_def str_find_or_end_def)
  next
    case 4
    then show ?thesis using l c no_occurrence [of hay needle] by (simp add: str_find_def str_find_or_end_def found_def)
  qed
qed

text \<open>The specification of a search for the last occurrence.\<close>

definition found_last :: "u8 list \<Rightarrow> u8 list \<Rightarrow> bool \<Rightarrow> nat option \<Rightarrow> bool" where
  "found_last needle hay all r \<longleftrightarrow>
     (case r of Some p \<Rightarrow> occurs_at needle hay p \<and> (all \<longrightarrow> (\<forall>q>p. \<not> occurs_at needle hay q))
      | None \<Rightarrow> all \<longrightarrow> (\<forall>q. \<not> occurs_at needle hay q))"

lemma find_last_loop_ok:
  assumes "holds h hay" "holds d needle" "needle \<noteq> []" "hay \<noteq> []"
  shows "\<lbrakk>pos \<le> length hay; \<forall>p. l = Some p \<longrightarrow> occurs_at needle hay p;
      plain_needle needle \<longrightarrow> (\<forall>q<pos. occurs_at needle hay q \<longrightarrow> (\<exists>p. l = Some p \<and> q \<le> p))\<rbrakk>
    \<Longrightarrow> \<exists>r. find_last_loop h d (length hay) (length needle) (prefix_table d (length needle) (length needle)) pos l = Some r
      \<and> found_last needle hay (plain_needle needle) r"
proof (induction "length hay - pos" arbitrary: pos l rule: less_induct)
  case less
  let ?n = "prefix_table d (length needle) (length needle)"
  obtain r where r: "kmp_find h d (length hay) (length needle) ?n pos = Some r"
    and f: "found needle hay (plain_needle needle) pos r"
    using kmp_find_correct [OF assms less.prems(1)] by blast
  show ?case
  proof (cases r)
    case None
    have "found_last needle hay (plain_needle needle) l"
    proof (cases l)
      case l: None
      then have "\<forall>q. \<not> occurs_at needle hay q" if "plain_needle needle"
        using that f less.prems(3) unfolding None found_def by (simp, metis leI)
      then show ?thesis using l by (simp add: found_last_def)
    next
      case (Some p)
      then have "\<forall>q>p. \<not> occurs_at needle hay q" if "plain_needle needle"
        using that f less.prems(3) unfolding None found_def by (simp, metis leI le_less_trans not_less)
      then show ?thesis using Some less.prems(2) by (simp add: found_last_def)
    qed
    then show ?thesis using r None by (subst find_last_loop.simps) simp
  next
    case (Some p)
    then have p: "pos \<le> p" "occurs_at needle hay p" using f by (auto simp: found_def)
    then have "p < length hay" using assms(3) by (cases needle) (auto simp: occurs_at_def)
    have "\<exists>r. find_last_loop h d (length hay) (length needle) ?n (p + 1) (Some p) = Some r
        \<and> found_last needle hay (plain_needle needle) r"
      by (rule less.hyps) (use p \<open>p < length hay\<close> in auto)
    then show ?thesis using r Some by (subst find_last_loop.simps) simp
  qed
qed

lemma str_find_last_ok:
  assumes "holds h hay" "holds d needle" "same \<longrightarrow> h = d" "needle \<noteq> []"
  shows "\<exists>r. str_find_last same (Some h) (Some d) = Some r \<and> found_last needle hay (plain_needle needle) r"
proof -
  let ?n = "prefix_table d (length needle) (length needle)"
  obtain c where c: "str_compare same (Some h) (Some d) = Some c" "c = 0 \<longleftrightarrow> hay = needle"
    using str_compare_differs [OF assms(1-3)] by blast
  note l = str_len_eq [OF assms(1)] str_len_eq [OF assms(2)]
  consider "hay = needle" | "length needle < length hay" | "hay \<noteq> needle" "length hay \<le> length needle" by fastforce
  then show ?thesis
  proof cases
    case 1
    then have "found_last needle hay (plain_needle needle) (Some 0)" by (auto simp: found_last_def occurs_at_def)
    then show ?thesis using 1 l c assms(4) by (simp add: str_find_last_def)
  next
    case 2
    then have "str_prefix d (length needle) = Some ?n"
      using holds_length [OF assms(2)] assms(4) by (intro str_prefix_eq) auto
    moreover obtain r where "find_last_loop h d (length hay) (length needle) ?n 0 None = Some r"
      "found_last needle hay (plain_needle needle) r"
      using find_last_loop_ok [OF assms(1,2,4), of 0 None] 2 by fastforce
    ultimately show ?thesis using 2 l c assms(4) by (simp add: str_find_last_def)
  next
    case 3
    then have "found_last needle hay (plain_needle needle) None"
      using no_occurrence [of hay needle] by (simp add: found_last_def)
    then show ?thesis using 3 l c assms(4) by (simp add: str_find_last_def)
  qed
qed

text \<open>
  C31.  \<open>find\<close>, \<open>find_or_end\<close> and \<open>find_last\<close> end without an access outside of the strings, and what
  they return is an occurrence of the needle.  If the first two characters of the needle do not
  come again in it (before its last character), it is the first occurrence (the last one), or there is none.
\<close>

theorem str_find_correct:
  assumes "holds h hay" "holds d needle" "same \<longrightarrow> h = d"
  shows "\<exists>r. str_find same (Some h) (Some d) = Some r
      \<and> str_find_or_end same (Some h) (Some d) = Some (Some (case r of Some p \<Rightarrow> p | None \<Rightarrow> length hay))
      \<and> (\<forall>p. r = Some p \<longrightarrow> occurs_at needle hay p)
      \<and> (plain_needle needle \<longrightarrow> r = find (occurs_at needle hay) [0..<length hay + 1])
      \<and> (needle \<noteq> [] \<longrightarrow> (\<exists>l. str_find_last same (Some h) (Some d) = Some l
          \<and> (\<forall>p. l = Some p \<longrightarrow> occurs_at needle hay p)
          \<and> (plain_needle needle \<longrightarrow> (\<forall>q. occurs_at needle hay q \<longrightarrow> (\<exists>p. l = Some p \<and> q \<le> p)))))"
proof -
  obtain r where r: "str_find same (Some h) (Some d) = Some r" "found needle hay (plain_needle needle) 0 r"
    "str_find_or_end same (Some h) (Some d) = Some (Some (case r of Some p \<Rightarrow> p | None \<Rightarrow> length hay))"
    using str_find_ok [OF assms] by blast
  have 1: "\<forall>p. r = Some p \<longrightarrow> occurs_at needle hay p" using r(2) by (simp add: found_def split: option.splits)
  have 2: "plain_needle needle \<longrightarrow> r = find (occurs_at needle hay) [0..<length hay + 1]"
    using r(2) found_all [of needle hay r] by auto
  have 3: "\<exists>l. str_find_last same (Some h) (Some d) = Some l
      \<and> (\<forall>p. l = Some p \<longrightarrow> occurs_at needle hay p)
      \<and> (plain_needle needle \<longrightarrow> (\<forall>q. occurs_at needle hay q \<longrightarrow> (\<exists>p. l = Some p \<and> q \<le> p)))" if n: "needle \<noteq> []"
  proof -
    obtain l where l: "str_find_last same (Some h) (Some d) = Some l" "found_last needle hay (plain_needle needle) l"
      using str_find_last_ok [OF assms n] by blast
    then show ?thesis by (cases l) (simp add: found_last_def, simp add: found_last_def, metis leI)
  qed
  show ?thesis by (rule exI [of _ r]) (use r(1,3) 1 2 3 in simp)
qed

definition example_haystack :: cstring where "example_haystack = [110, 97, 97, 98, 97, 98, 0, 7]"

theorem str_find_correct_witness:
  "str_find False (Some example_haystack) (Some [97, 98, 0]) = Some (Some 2)
    \<and> str_find_last False (Some example_haystack) (Some [97, 98, 0]) = Some (Some 4)"
proof -
  have h: "holds example_haystack [110, 97, 97, 98, 97, 98]" "holds [97, 98, 0] [97, 98]"
    by (simp_all add: holds_def example_haystack_def SIZE_MAX_def)
  have p: "plain_needle [97, 98]" by (simp add: plain_needle_def)
  have o: "occurs_at [97, 98] [110, 97, 97, 98, 97, 98] = (\<lambda>q. q = 2 \<or> q = 4)"
  proof
    fix q :: nat
    consider "q = 0" | "q = 1" | "q = 2" | "q = 3" | "q = 4" | "4 < q" by linarith
    then show "occurs_at [97, 98] [110, 97, 97, 98, 97, 98] q = (q = 2 \<or> q = 4)"
      by cases (simp_all add: occurs_at_def)
  qed
  have f: "find (\<lambda>q. q = 2 \<or> q = 4) [0..<length [110, 97, 97, 98, 97, 98 :: u8] + 1] = Some (2 :: nat)"
    by (simp add: upt_conv_Cons)
  have False: "False \<longrightarrow> example_haystack = [97, 98, 0]" by simp
  obtain r where r: "str_find False (Some example_haystack) (Some [97, 98, 0]) = Some r" "r = Some 2"
    and "\<exists>l. str_find_last False (Some example_haystack) (Some [97, 98, 0]) = Some l
      \<and> (\<forall>p. l = Some p \<longrightarrow> p = 2 \<or> p = 4) \<and> (\<forall>q. q = 2 \<or> q = 4 \<longrightarrow> (\<exists>p. l = Some p \<and> q \<le> p))"
    using str_find_correct [OF h False, unfolded o f] p by (elim exE conjE) simp
  then obtain l where l: "str_find_last False (Some example_haystack) (Some [97, 98, 0]) = Some l"
      "\<forall>p. l = Some p \<longrightarrow> p = 2 \<or> p = 4" "\<forall>q. q = 2 \<or> q = 4 \<longrightarrow> (\<exists>p. l = Some p \<and> q \<le> p)"
    by (elim exE conjE)
  from l(2,3) have "l = Some 4" by force
  with r l show ?thesis by simp
qed

lemma str_find_longer:
  assumes "holds h hay" "holds d needle" "needle \<noteq> []" "length needle < length hay" "\<not> same"
  shows "str_find same (Some h) (Some d) =
    kmp_loop h d (length hay) (length needle) (prefix_table d (length needle) (length needle)) 0 0"
proof -
  have "str_prefix d (length needle) = Some (prefix_table d (length needle) (length needle))"
    using holds_length [OF assms(2)] assms(3) by (intro str_prefix_eq) auto
  then show ?thesis
    using str_len_eq [OF assms(1)] str_len_eq [OF assms(2)] assms(3-5)
    by (cases "hay = []") (simp_all add: str_find_def kmp_find_def size_sub_def)
qed

text \<open>
  C32.  The table of the search is not the one of Knuth, Morris and Pratt: a needle of three or more equal
  characters and a different one is not found behind one more of these characters, although it is there.
\<close>

theorem str_find_misses:
  assumes "3 \<le> n" and "a \<noteq> b" "a \<noteq> 0" "b \<noteq> 0" and "n + 2 < SIZE_MAX"
  shows "str_find False (Some (replicate (n + 1) a @ [b, 0])) (Some (replicate n a @ [b, 0])) = Some None
    \<and> occurs_at (replicate n a @ [b]) (replicate (n + 1) a @ [b]) 1"
proof -
  let ?h = "replicate (n + 1) a @ [b, 0]" and ?d = "replicate n a @ [b, 0]"
  let ?t = "prefix_table ?d (n + 1) (n + 1)"
  have holds: "holds ?h (replicate (n + 1) a @ [b])" "holds ?d (replicate n a @ [b])"
    using assms by (auto simp: holds_def)
  have len: "length (replicate (n + 1) a @ [b]) = n + 2" "length (replicate n a @ [b]) = n + 1" by simp_all
  have h: "rd ?h k = Some (if k \<le> n then a else b)" if "k < n + 2" for k
    using that by (auto simp: rd_def nth_append nth_Cons split: nat.splits)
  have d: "rd ?d k = Some (if k < n then a else b)" if "k < n + 1" for k
    using that by (auto simp: rd_def nth_append)
  have "?d ! (k - 1) = (if k \<le> n then a else b)" if "1 \<le> k" "k \<le> n + 1" for k
    using that by (auto simp: nth_append)
  then have t: "rd ?t k = Some (if 2 \<le> k \<and> k \<le> n then 1 else 0)" if "k \<le> n + 1" for k
    using that assms by (auto simp: rd_def prefix_table_nth prefix_entry_def nth_append)
  let ?run = "kmp_loop ?h ?d (n + 2) (n + 1) ?t"
  have same: "?run k k = ?run 0 0" if "k \<le> n" for k
    using that
  proof (induction k)
    case (Suc k)
    then have "?run k k = ?run (Suc k) (Suc k)"
      using h [of k] d [of k] by (subst kmp_loop.simps) simp
    then show ?case using Suc by simp
  qed simp
  have 1: "?run n n = ?run n 1" using h [of n] d [of n] t [of n] assms by (subst kmp_loop.simps) simp
  have 2: "?run n 1 = ?run (n + 1) 2" using h [of n] d [of 1] assms by (subst kmp_loop.simps) (simp add: numeral_2_eq_2)
  have 3: "?run (n + 1) 2 = ?run (n + 1) 1" using h [of "n + 1"] d [of 2] t [of 2] assms by (subst kmp_loop.simps) simp
  have 4: "?run (n + 1) 1 = ?run (n + 1) 0" using h [of "n + 1"] d [of 1] t [of 1] assms by (subst kmp_loop.simps) simp
  have 5: "?run (n + 1) 0 = ?run (n + 2) 0" using h [of "n + 1"] d [of 0] assms by (subst kmp_loop.simps) simp
  have 6: "?run (n + 2) 0 = Some None" by (subst kmp_loop.simps) simp
  have "?run 0 0 = ?run n n" using same [of n] by simp
  also note 1 also note 2 also note 3 also note 4 also note 5 also note 6
  finally have run: "?run 0 0 = Some None" .
  have "str_find False (Some ?h) (Some ?d) = Some None"
    by (rule trans [OF str_find_longer [OF holds, unfolded len]]) (simp, simp, simp, rule run)
  moreover have "occurs_at (replicate n a @ [b]) (replicate (n + 1) a @ [b]) 1"
    by (simp add: occurs_at_def)
  ultimately show ?thesis by blast
qed

theorem str_find_misses_witness:
  "str_find False (Some [97, 97, 97, 97, 98, 0]) (Some [97, 97, 97, 98, 0]) = Some None"
proof -
  have r: "replicate (3 + 1) (97 :: u8) = [97, 97, 97, 97]" "replicate 3 (97 :: u8) = [97, 97, 97]"
    by (simp_all add: numeral_3_eq_3)
  show ?thesis using str_find_misses [of 3 97 98, unfolded r] by (simp add: SIZE_MAX_def)
qed

end
