(* ===== verification/StringEditProps.thy ===== *)
theory StringEditProps
  imports StringProps
begin

text \<open>
  Lemmas on the functions that copy, replace and split strings, and their reference definitions.
\<close>

section \<open>Copies\<close>

lemma concat_loop_part:
  "n \<le> length xs \<Longrightarrow> n \<le> length dest \<Longrightarrow> 0 \<notin> set (take n xs) \<Longrightarrow>
    concat_loop dest (xs @ r) n = Some (take n xs @ drop n dest, n)"
proof (induction n arbitrary: xs dest)
  case (Suc n)
  then obtain x xs' d dest' where "xs = x # xs'" "dest = d # dest'" by (cases xs; cases dest) auto
  then show ?case using Suc by simp
qed simp

lemma concat_loop_whole:
  "length xs < n \<Longrightarrow> length xs < length dest \<Longrightarrow> 0 \<notin> set xs \<Longrightarrow>
    concat_loop dest (xs @ 0 # r) n = Some (xs @ 0 # drop (length xs + 1) dest, length xs)"
proof (induction xs arbitrary: n dest)
  case Nil
  then obtain d dest' where "dest = d # dest'" by (cases dest) auto
  then show ?case using Nil by (cases n) auto
next
  case (Cons x xs)
  then obtain d dest' where "dest = d # dest'" by (cases dest) auto
  then show ?case using Cons by (cases n) auto
qed

lemma concat_loop_unterminated: "length xs < n \<Longrightarrow> 0 \<notin> set xs \<Longrightarrow> concat_loop dest xs n = None"
proof (induction xs arbitrary: n dest)
  case Nil
  then show ?case by (cases n) auto
next
  case (Cons x xs)
  then show ?case by (cases n; cases dest) auto
qed

lemma str_duplicate_n_eq:
  assumes "0 < n" "n \<le> length xs" "0 \<notin> set (take n xs)" "alloc (n + 1)"
  shows "str_duplicate_n alloc fresh (Some (xs @ r)) n = Some (Some (take n xs @ [0]))"
proof -
  have d: "drop n (map fresh [0..<n + 1]) = [fresh n]" by (simp add: drop_map)
  have "concat_loop (map fresh [0..<n + 1]) (xs @ r) n = Some (take n xs @ [fresh n], n)"
    using concat_loop_part [of n xs "map fresh [0..<n + 1]" r] assms unfolding d by (simp del: upt_Suc)
  then show ?thesis
    using assms by (simp add: str_duplicate_n_def new_block_def str_copy_n_def str_concat_def wr_def
        list_update_append del: upt_Suc)
qed

section \<open>The positions of a delimiter\<close>

text \<open>
  What the helper \<open>split\<close> returns: at most \<open>limit\<close> occurrences that do not overlap; with \<open>all\<close>, always
  the next one.
\<close>

fun parts_ok :: "bool \<Rightarrow> u8 list \<Rightarrow> u8 list \<Rightarrow> nat \<Rightarrow> nat \<Rightarrow> nat list \<Rightarrow> bool" where
  "parts_ok all needle hay limit pos [] \<longleftrightarrow> (limit = 0 \<or> found needle hay all pos None)"
| "parts_ok all needle hay limit pos (p # ps) \<longleftrightarrow>
     limit > 0 \<and> found needle hay all pos (Some p) \<and> parts_ok all needle hay (limit - 1) (p + length needle) ps"

lemma parts_loop_ok:
  assumes "holds h hay" "holds d needle" "needle \<noteq> []" "hay \<noteq> []"
    and "length hay div length needle \<le> room"
  shows "pos \<le> length hay \<Longrightarrow> length part * length needle \<le> pos \<Longrightarrow>
    \<exists>ps. parts_loop h d (length hay) (length needle) (prefix_table d (length needle) (length needle)) room pos limit part
        = Some (part @ ps) \<and> parts_ok (plain_needle needle) needle hay limit pos ps"
proof (induction "length hay - pos" arbitrary: pos limit part rule: less_induct)
  case less
  let ?n = "prefix_table d (length needle) (length needle)"
  show ?case
  proof (cases "limit > 0")
    case False
    then show ?thesis by (subst parts_loop.simps) (auto intro!: exI [of _ "[]"])
  next
    case True
    obtain r where r: "kmp_find h d (length hay) (length needle) ?n pos = Some r"
      and f: "found needle hay (plain_needle needle) pos r"
      using kmp_find_correct [OF assms(1-4) less.prems(1)] by blast
    show ?thesis
    proof (cases r)
      case None
      then show ?thesis using True r f by (subst parts_loop.simps) (auto intro!: exI [of _ "[]"])
    next
      case (Some p)
      then have p: "pos \<le> p" "p + length needle \<le> length hay" using f by (auto simp: found_def occurs_at_def)
      have m: "length (part @ [p]) * length needle \<le> p + length needle"
        using p less.prems(2) by simp
      then have "length (part @ [p]) * length needle \<le> length hay" using p by linarith
      then have "length (part @ [p]) \<le> length hay div length needle"
        using assms(3) by (subst less_eq_div_iff_mult_less_eq) auto
      then have room: "length part < room" using assms(5) by simp
      have "0 < length needle" using assms(3) by simp
      then have shorter: "length hay - (p + length needle) < length hay - pos" using p by linarith
      have "\<exists>ps. parts_loop h d (length hay) (length needle) ?n room (p + length needle) (limit - 1) (part @ [p])
          = Some ((part @ [p]) @ ps) \<and> parts_ok (plain_needle needle) needle hay (limit - 1) (p + length needle) ps"
        by (rule less.hyps) (use p m shorter in simp_all)
      then obtain ps where "parts_loop h d (length hay) (length needle) ?n room (p + length needle) (limit - 1) (part @ [p])
          = Some (part @ p # ps)" "parts_ok (plain_needle needle) needle hay (limit - 1) (p + length needle) ps"
        by auto
      then show ?thesis
        using True r f Some room by (subst parts_loop.simps) (auto intro!: exI [of _ "p # ps"])
    qed
  qed
qed

lemma split_parts_ok:
  assumes "holds h hay" "holds d needle" "needle \<noteq> []" "hay \<noteq> []"
    and "length hay div length needle \<le> room"
  shows "\<exists>ps. split_parts h d (length hay) (length needle) room limit = Some ps
    \<and> parts_ok (plain_needle needle) needle hay limit 0 ps"
proof (cases "length hay < length needle")
  case True
  then have "found needle hay all 0 None" for all by (auto simp: found_def occurs_at_def)
  then show ?thesis using True assms by (simp add: split_parts_def)
next
  case False
  have "str_prefix d (length needle) = Some (prefix_table d (length needle) (length needle))"
    using holds_length [OF assms(2)] assms(3) by (intro str_prefix_eq) auto
  then show ?thesis
    using parts_loop_ok [OF assms, of 0 "[]" limit] False assms(3,4) by (simp add: split_parts_def)
qed

section \<open>Combining the parts\<close>

text \<open>
  The reference: the text between the parts with the new text for each of them, and where the last
  part ends.
\<close>

fun pieces :: "u8 list \<Rightarrow> u8 list \<Rightarrow> nat \<Rightarrow> nat \<Rightarrow> nat list \<Rightarrow> u8 list" where
  "pieces xs ys len pos [] = []"
| "pieces xs ys len pos (p # ps) = take (p - pos) (drop pos xs) @ ys @ pieces xs ys len (p + len) ps"

fun parts_end :: "nat \<Rightarrow> nat \<Rightarrow> nat list \<Rightarrow> nat" where
  "parts_end len pos [] = pos"
| "parts_end len pos (p # ps) = parts_end len (p + len) ps"

definition replaced :: "u8 list \<Rightarrow> u8 list \<Rightarrow> nat \<Rightarrow> nat list \<Rightarrow> u8 list" where
  "replaced xs ys len ps = pieces xs ys len 0 ps @ drop (parts_end len 0 ps) xs"

lemma parts_end_le:
  "parts_ok all needle hay limit pos ps \<Longrightarrow> pos \<le> length hay \<Longrightarrow>
    pos \<le> parts_end (length needle) pos ps \<and> parts_end (length needle) pos ps \<le> length hay"
proof (induction ps arbitrary: pos limit)
  case (Cons p ps)
  then have p: "pos \<le> p" "p + length needle \<le> length hay" "parts_ok all needle hay (limit - 1) (p + length needle) ps"
    by (auto simp: found_def occurs_at_def)
  from Cons.IH [OF p(3,2)] p(1) show ?case by simp
qed simp

lemma length_pieces:
  "parts_ok all needle hay limit pos ps \<Longrightarrow> pos \<le> length hay \<Longrightarrow>
    int (length (pieces hay ys (length needle) pos ps)) =
      int (parts_end (length needle) pos ps) - int pos + int (length ps) * (int (length ys) - int (length needle))"
proof (induction ps arbitrary: pos limit)
  case (Cons p ps)
  then have p: "pos \<le> p" "p + length needle \<le> length hay" "parts_ok all needle hay (limit - 1) (p + length needle) ps"
    by (auto simp: found_def occurs_at_def)
  have "min (length hay - pos) (p - pos) = p - pos" using p by simp
  then show ?case using Cons.IH [OF p(3,2)] p(1,2) by (simp add: algebra_simps)
qed simp

lemma length_replaced:
  assumes "parts_ok all needle hay limit 0 ps"
  shows "int (length (replaced hay ys (length needle) ps)) =
    int (length hay) + int (length ps) * (int (length ys) - int (length needle))"
  using length_pieces [OF assms, of ys] parts_end_le [OF assms] by (simp add: replaced_def)

text \<open>The new text, which may be a null pointer.\<close>

definition text_of :: "cstring option \<Rightarrow> u8 list \<Rightarrow> bool" where
  "text_of s ys \<longleftrightarrow> (case s of None \<Rightarrow> ys = [] | Some b \<Rightarrow> holds b ys)"

lemma text_of_len: "text_of s ys \<Longrightarrow> str_len s SIZE_MAX = Some (length ys)"
  by (auto simp: text_of_def split: option.splits)

lemma concat_at_part:
  assumes "n \<le> length xs" "n \<le> length rest" "0 \<notin> set (take n xs)"
  shows "concat_at (w @ rest) (length w) (Some (xs @ r)) n = Some ((w @ take n xs) @ drop n rest, length w + n)"
  using concat_loop_part [OF assms] by (simp add: concat_at_def advance_def str_concat_def)

lemma concat_at_text:
  assumes "text_of s ys" "length ys \<le> length rest"
  shows "concat_at (w @ rest) (length w) s (length ys) = Some ((w @ ys) @ drop (length ys) rest, length w + length ys)"
proof (cases s)
  case None
  then show ?thesis using assms by (simp add: text_of_def concat_at_def advance_def str_concat_def)
next
  case (Some b)
  then obtain r where "b = ys @ r" "0 \<notin> set ys" using assms(1) by (auto simp: text_of_def elim!: holdsE)
  then show ?thesis using concat_at_part [of "length ys" ys rest w r] assms(2) Some by simp
qed

lemma combine_loop_ok:
  assumes "0 \<notin> set xs" "text_of s ys" "source = xs @ r"
  shows "parts_ok all needle xs limit pos ps \<Longrightarrow> pos \<le> length xs \<Longrightarrow> length xs \<le> SIZE_MAX \<Longrightarrow>
    length (pieces xs ys (length needle) pos ps) \<le> length rest \<Longrightarrow>
    combine_loop (w @ rest) (length w) source s (length needle) (length ys) pos ps =
      Some ((w @ pieces xs ys (length needle) pos ps) @ drop (length (pieces xs ys (length needle) pos ps)) rest,
        length w + length (pieces xs ys (length needle) pos ps), parts_end (length needle) pos ps)"
proof (induction ps arbitrary: pos limit w rest)
  case (Cons p ps)
  then have p: "pos \<le> p" "p + length needle \<le> length xs" "parts_ok all needle xs (limit - 1) (p + length needle) ps"
    by (auto simp: found_def occurs_at_def)
  let ?t = "take (p - pos) (drop pos xs)"
  have len: "length ?t = p - pos" using p by simp
  have a: "advance pos source = Some (drop pos xs @ r)" using Cons.prems(2) assms(3) by (simp add: advance_def)
  have 1: "concat_at (w @ rest) (length w) (Some (drop pos xs @ r)) (p - pos) =
      Some ((w @ ?t) @ drop (p - pos) rest, length w + (p - pos))"
    by (rule concat_at_part) (use p Cons.prems assms(1) in \<open>auto dest!: in_set_takeD in_set_dropD\<close>)
  have 2: "concat_at ((w @ ?t) @ drop (p - pos) rest) (length (w @ ?t)) s (length ys) =
      Some (((w @ ?t) @ ys) @ drop (length ys) (drop (p - pos) rest), length (w @ ?t) + length ys)"
    by (rule concat_at_text [OF assms(2)]) (use Cons.prems p in auto)
  have 3: "length (w @ ?t) = length w + (p - pos)" using len by simp
  have IH: "combine_loop ((w @ ?t @ ys) @ drop (p - pos + length ys) rest) (length (w @ ?t @ ys)) source s (length needle) (length ys)
      (p + length needle) ps = Some (((w @ ?t @ ys) @ pieces xs ys (length needle) (p + length needle) ps)
        @ drop (length (pieces xs ys (length needle) (p + length needle) ps)) (drop (p - pos + length ys) rest),
        length (w @ ?t @ ys) + length (pieces xs ys (length needle) (p + length needle) ps),
        parts_end (length needle) (p + length needle) ps)"
    by (rule Cons.IH [OF p(3,2)]) (use Cons.prems p in auto)
  have m: "min (length xs - pos) (p - pos) = p - pos" using p by simp
  have s: "size_sub p pos = p - pos" using p by (simp add: size_sub_def)
  show ?case
    using a 1 2 IH unfolding combine_loop.simps s 3 by (simp add: add_ac m)
qed simp

section \<open>Splitting\<close>

text \<open>
  The reference: the longest runs without a delimiter; when \<open>limit\<close> of them have been taken, the
  rest of the text (behind one delimiter) is the last field.
\<close>

fun fields :: "(u8 \<Rightarrow> bool) \<Rightarrow> nat \<Rightarrow> u8 list \<Rightarrow> u8 list list" where
  "fields d 0 xs = (if xs = [] then [] else [xs])"
| "fields d (Suc l) xs =
     (case dropWhile d xs of [] \<Rightarrow> []
      | ys \<Rightarrow> takeWhile (\<lambda>c. \<not> d c) ys # fields d l (tl (dropWhile (\<lambda>c. \<not> d c) ys)))"

lemma length_fields: "length (fields d l xs) \<le> l + 1"
  by (induction d l xs rule: fields.induct) (auto split: list.splits)

text \<open>The same with the field that has been begun as an argument.\<close>

fun fields_acc :: "(u8 \<Rightarrow> bool) \<Rightarrow> nat \<Rightarrow> u8 list \<Rightarrow> u8 list \<Rightarrow> u8 list list" where
  "fields_acc d l cur [] = (if cur = [] then [] else [cur])"
| "fields_acc d l cur (y # ys) =
     (if d y \<and> l > 0
      then if cur = [] then fields_acc d l [] ys else cur # fields_acc d (l - 1) [] ys
      else fields_acc d l (cur @ [y]) ys)"

lemma fields_acc_0: "fields_acc d 0 cur ys = (if cur @ ys = [] then [] else [cur @ ys])"
  by (induction ys arbitrary: cur) auto

lemma fields_acc_begun:
  "cur \<noteq> [] \<Longrightarrow> fields_acc d (Suc l) cur ys =
    (cur @ takeWhile (\<lambda>c. \<not> d c) ys) # fields_acc d l [] (tl (dropWhile (\<lambda>c. \<not> d c) ys))"
  by (induction ys arbitrary: cur) auto

lemma fields_acc_skip:
  "fields_acc d (Suc l) [] ys =
    (case dropWhile d ys of [] \<Rightarrow> []
      | zs \<Rightarrow> takeWhile (\<lambda>c. \<not> d c) zs # fields_acc d l [] (tl (dropWhile (\<lambda>c. \<not> d c) zs)))"
  by (induction ys) (auto simp: fields_acc_begun)

lemma fields_acc_eq: "fields_acc d l [] xs = fields d l xs"
proof (induction l arbitrary: xs)
  case 0
  then show ?case by (simp add: fields_acc_0)
next
  case (Suc l)
  then show ?case by (cases "dropWhile d xs") (simp_all only: fields_acc_skip fields.simps list.case)
qed

lemma push_part_eq:
  assumes "s < i" "i \<le> length xs" "0 \<notin> set xs" "alloc (i - s + 1)"
  shows "push_part alloc fresh (xs @ r) s (i - s) q = Some (q @ [drop s (take i xs) @ [0]], True)"
proof -
  have "str_duplicate_n alloc fresh (Some (drop s xs @ r)) (i - s) = Some (Some (take (i - s) (drop s xs) @ [0]))"
    by (rule str_duplicate_n_eq) (use assms in \<open>auto dest!: in_set_takeD in_set_dropD\<close>)
  then show ?thesis using assms by (simp add: push_part_def advance_def drop_take)
qed

lemma split_char_loop_ok:
  assumes "0 \<notin> set xs" "\<forall>n \<le> length xs + 1. alloc n" "\<forall>c \<in> set xs. delim c = Some (d c)"
  shows "i \<le> length xs \<Longrightarrow> s \<le> i \<Longrightarrow>
    \<exists>s' q'. split_char_loop alloc fresh delim (xs @ 0 # r) (drop i xs @ 0 # r) i s limit q = Some (length xs, s', q')
      \<and> s' \<le> length xs
      \<and> q' @ (if s' < length xs then [drop s' xs @ [0]] else []) =
        q @ map (\<lambda>t. t @ [0]) (fields_acc d limit (drop s (take i xs)) (drop i xs))"
proof (induction "length xs - i" arbitrary: i s limit q)
  case 0
  then show ?case by auto
next
  case (Suc k)
  then have i: "i < length xs" by simp
  have drop: "drop i xs = xs ! i # drop (i + 1) xs" using i by (simp add: Cons_nth_drop_Suc)
  have nz: "xs ! i \<noteq> 0" using i assms(1) by (metis nth_mem)
  have del: "delim (xs ! i) = Some (d (xs ! i))" using i assms(3) by simp
  have k: "k = length xs - (i + 1)" "i + 1 \<le> length xs" using Suc.hyps(2) i by simp_all
  show ?case
  proof (cases "d (xs ! i) \<and> limit > 0")
    case True
    show ?thesis
    proof (cases "s < i")
      case s: True
      have "push_part alloc fresh (xs @ 0 # r) s (i - s) q = Some (q @ [drop s (take i xs) @ [0]], True)"
        by (rule push_part_eq) (use s i assms in auto)
      then show ?thesis
        using Suc.hyps(1) [OF k order_refl, of "limit - 1" "q @ [drop s (take i xs) @ [0]]"] True s nz del Suc.prems
        unfolding drop by (simp add: take_Suc_conv_app_nth i)
    next
      case False
      then show ?thesis
        using Suc.hyps(1) [OF k order_refl, of limit q] True nz del Suc.prems
        unfolding drop by (simp add: take_Suc_conv_app_nth i)
    qed
  next
    case False
    have t: "drop s (take (i + 1) xs) = drop s (take i xs) @ [xs ! i]"
      using i Suc.prems by (simp add: take_Suc_conv_app_nth)
    have step: "split_char_loop alloc fresh delim (xs @ 0 # r) (drop i xs @ 0 # r) i s limit q =
        split_char_loop alloc fresh delim (xs @ 0 # r) (drop (i + 1) xs @ 0 # r) (i + 1) s limit q"
      using False nz del unfolding drop by auto
    have acc: "fields_acc d limit (drop s (take i xs)) (drop i xs) = fields_acc d limit (drop s (take (i + 1) xs)) (drop (i + 1) xs)"
      using False unfolding drop t by (cases "d (xs ! i)") simp_all
    show ?thesis
      unfolding step acc by (rule Suc.hyps(1) [OF k]) (use Suc.prems in simp)
  qed
qed

lemma split_chars_ok:
  assumes "0 \<notin> set xs" "\<forall>n \<le> length xs + 1. alloc n" "\<forall>c \<in> set xs. delim c = Some (d c)"
  shows "split_chars alloc fresh delim (xs @ 0 # r) limit = Some (map (\<lambda>t. t @ [0]) (fields d limit xs))"
proof -
  obtain s q where s: "split_char_loop alloc fresh delim (xs @ 0 # r) (xs @ 0 # r) 0 0 limit [] = Some (length xs, s, q)"
    "s \<le> length xs"
    and q: "q @ (if s < length xs then [drop s xs @ [0]] else []) = map (\<lambda>t. t @ [0]) (fields d limit xs)"
    using split_char_loop_ok [OF assms, of 0 0 fresh r limit "[]"] by (auto simp: fields_acc_eq)
  show ?thesis
  proof (cases "s < length xs")
    case True
    have "push_part alloc fresh (xs @ 0 # r) s (length xs - s) q = Some (q @ [drop s (take (length xs) xs) @ [0]], True)"
      by (rule push_part_eq) (use True assms in auto)
    then show ?thesis using s q True by (simp add: split_chars_def)
  next
    case False
    then show ?thesis using s q by (simp add: split_chars_def)
  qed
qed

text \<open>The string at an offset of a block.\<close>

definition text_at :: "cstring \<Rightarrow> nat \<Rightarrow> u8 list" where
  "text_at b o' = takeWhile (\<lambda>c. c \<noteq> 0) (drop o' b)"

lemma split_inplace_loop_ok:
  assumes "\<forall>c. c \<noteq> 0 \<longrightarrow> c \<in> S \<longrightarrow> delim c = Some (d c)"
  shows "set ys \<subseteq> S \<Longrightarrow> 0 \<notin> set ys \<Longrightarrow>
    \<exists>b os. split_inplace_loop delim (ys @ 0 # r) i limit push_next q = Some (b, q @ os) \<and> (\<forall>x\<in>set os. i \<le> x)
      \<and> (push_next \<longrightarrow> fields_acc d limit [] ys = map (\<lambda>x. text_at b (x - i)) os)
      \<and> (\<not> push_next \<longrightarrow> (\<forall>cur. cur \<noteq> [] \<longrightarrow>
          fields_acc d limit cur ys = (cur @ text_at b 0) # map (\<lambda>x. text_at b (x - i)) os))"
proof (induction ys arbitrary: i limit push_next q)
  case Nil
  then show ?case by (auto simp: text_at_def)
next
  case (Cons y ys)
  then have y: "y \<noteq> 0" "delim y = Some (d y)" and ys: "set ys \<subseteq> S" "0 \<notin> set ys" using assms by auto
  have shift: "map (\<lambda>x. text_at (c # b) (x - i)) os = map (\<lambda>x. text_at b (x - (i + 1))) os"
    if "\<forall>x\<in>set os. i + 1 \<le> x" for c b os
    using that by (auto simp: text_at_def drop_Cons' intro!: arg_cong [where f = "\<lambda>n. takeWhile _ (drop n b)"])
  show ?case
  proof (cases "d y \<and> limit > 0")
    case True
    let ?l = "if push_next then limit else limit - 1"
    obtain b os where b: "split_inplace_loop delim (ys @ 0 # r) (i + 1) ?l True q = Some (b, q @ os)"
      "\<forall>x\<in>set os. i + 1 \<le> x" "fields_acc d ?l [] ys = map (\<lambda>x. text_at b (x - (i + 1))) os"
      using Cons.IH [OF ys, of "i + 1" ?l True q] by auto
    then show ?thesis
      using True y shift [OF b(2), of 0 b] by (auto simp: text_at_def [of "0 # b" 0])
  next
    case False
    let ?q = "if push_next then q @ [i] else q"
    obtain b os where b: "split_inplace_loop delim (ys @ 0 # r) (i + 1) limit False ?q = Some (b, ?q @ os)"
      "\<forall>x\<in>set os. i + 1 \<le> x" "\<And>cur. cur \<noteq> [] \<Longrightarrow>
        fields_acc d limit cur ys = (cur @ text_at b 0) # map (\<lambda>x. text_at b (x - (i + 1))) os"
      using Cons.IH [OF ys, of "i + 1" limit False ?q] by auto
    have t: "text_at (y # b) 0 = y # text_at b 0" using y by (simp add: text_at_def)
    show ?thesis
    proof (cases push_next)
      case p: True
      then have "split_inplace_loop delim ((y # ys) @ 0 # r) i limit push_next q = Some (y # b, q @ (i # os))"
        using b(1) False y by auto
      moreover have "fields_acc d limit [] (y # ys) = map (\<lambda>x. text_at (y # b) (x - i)) (i # os)"
        using b(3) [of "[y]"] False shift [OF b(2), of y b] t by auto
      ultimately show ?thesis using p b(2) by (intro exI [of _ "y # b"] exI [of _ "i # os"]) auto
    next
      case p: False
      then have "split_inplace_loop delim ((y # ys) @ 0 # r) i limit push_next q = Some (y # b, q @ os)"
        using b(1) False y by auto
      moreover have "fields_acc d limit cur (y # ys) = (cur @ text_at (y # b) 0) # map (\<lambda>x. text_at (y # b) (x - i)) os"
        if "cur \<noteq> []" for cur
        using b(3) [of "cur @ [y]"] False shift [OF b(2), of y b] t by auto
      ultimately show ?thesis using p b(2) by (intro exI [of _ "y # b"] exI [of _ os]) auto
    qed
  qed
qed

lemma is_delimiter_ok: "0 \<notin> set ds \<Longrightarrow> is_delimiter (ds @ 0 # r) c = Some (c \<in> set ds)"
  by (induction ds) auto

end
