(* ===== verification/StringEditTheorems.thy ===== *)
theory StringEditTheorems
  imports StringEditProps
begin

text \<open>
  What replacing and splitting computes, and when the result of a replacement is not a string.
\<close>

section \<open>Replacing\<close>

lemma combine_ok:
  assumes "0 \<notin> set xs" "text_of s ys" "source = xs @ r" "length xs < SIZE_MAX"
    and "parts_ok all needle xs limit 0 ps" "length (pieces xs ys (length needle) 0 ps) \<le> length target"
  shows "str_combine target source s ps (length xs) (length needle) (length ys) =
    (let w = pieces xs ys (length needle) 0 ps; e = parts_end (length needle) 0 ps; rest = drop (length w) target in
     if e < length xs
     then do { src \<leftarrow> advance e source; (t, at) \<leftarrow> concat_at (w @ rest) (length w) (Some src) SIZE_MAX; Some t }
     else Some (w @ rest))"
  using combine_loop_ok [OF assms(1-3), of all needle limit 0 ps target "[]"] assms(4-6)
  by (simp add: str_combine_def Let_def)

lemma str_replace_ok:
  assumes "holds s xs" "xs \<noteq> []" "holds f needle" "needle \<noteq> []" "text_of t ys"
  shows "\<exists>ps. parts_ok (plain_needle needle) needle xs limit 0 ps
    \<and> (let res = replaced xs ys (length needle) ps in length res < SIZE_MAX \<longrightarrow>
        str_replace alloc fresh (Some s) (Some f) t limit = Some
          (if alloc (length res + 1)
           then Some (res @ [if parts_end (length needle) 0 ps = length xs then fresh (length res) else 0]) else None))"
proof -
  obtain ps where ps: "split_parts s f (length xs) (length needle) (length xs div length needle) limit = Some ps"
    and ok: "parts_ok (plain_needle needle) needle xs limit 0 ps"
    using split_parts_ok [OF assms(1,3,4,2) order_refl] by blast
  define res where "res = replaced xs ys (length needle) ps"
  let ?w = "pieces xs ys (length needle) 0 ps" and ?e = "parts_end (length needle) 0 ps"
  have e: "?e \<le> length xs" using parts_end_le [OF ok] by simp
  have res: "res = ?w @ drop ?e xs" by (simp add: res_def replaced_def)
  have "str_replace alloc fresh (Some s) (Some f) t limit = Some
      (if alloc (length res + 1) then Some (res @ [if ?e = length xs then fresh (length res) else 0]) else None)"
    if small: "length res < SIZE_MAX"
  proof -
    have len: "1 + int (length xs) + int (length ps) * (int (length ys) - int (length needle)) = int (length res + 1)"
      using length_replaced [OF ok, of ys] by (simp add: res_def)
    have size: "nat ((1 + int (length xs) + int (length ps) * (int (length ys) - int (length needle))) mod (int SIZE_MAX + 1))
        = length res + 1"
      unfolding len using small by (simp add: zmod_int [symmetric] flip: of_nat_Suc of_nat_add)
    obtain r where s: "s = xs @ 0 # r" and nz: "0 \<notin> set xs" and short: "length xs < SIZE_MAX"
      using assms(1) by (elim holdsE)
    let ?new = "map fresh [0..<length res + 1]"
    have "length ?w \<le> length ?new" by (simp add: res del: upt_Suc)
    note c = combine_ok [OF nz assms(5) s short ok this]
    have combine: "str_combine ?new s t ps (length xs) (length needle) (length ys) =
        Some (res @ [if ?e = length xs then fresh (length res) else 0])"
    proof (cases "?e = length xs")
      case True
      then have "res = ?w" by (simp add: res)
      moreover have "drop (length ?w) (map fresh [0..<length ?w + 1]) = [fresh (length ?w)]" by (simp add: drop_map)
      ultimately show ?thesis unfolding c by (simp add: Let_def True del: upt_Suc)
    next
      case False
      then have lt: "?e < length xs" using e by simp
      have adv: "advance ?e s = Some (drop ?e xs @ 0 # r)" using lt s by (simp add: advance_def)
      let ?rest = "drop (length ?w) ?new"
      have rest: "length ?rest = length (drop ?e xs) + 1" by (simp add: res del: upt_Suc)
      have "concat_loop ?rest (drop ?e xs @ 0 # r) SIZE_MAX = Some (drop ?e xs @ 0 # drop (length (drop ?e xs) + 1) ?rest, length (drop ?e xs))"
      proof (rule concat_loop_whole)
        show "length (drop ?e xs) < SIZE_MAX" using short by simp
        show "length (drop ?e xs) < length ?rest" using rest by linarith
        show "0 \<notin> set (drop ?e xs)" using nz by (auto dest: in_set_dropD)
      qed
      moreover have "drop (length (drop ?e xs) + 1) ?rest = []" using rest by simp
      ultimately have "concat_loop ?rest (drop ?e xs @ 0 # r) SIZE_MAX = Some (drop ?e xs @ [0], length (drop ?e xs))"
        by simp
      then have "concat_at (?w @ ?rest) (length ?w) (Some (drop ?e xs @ 0 # r)) SIZE_MAX
          = Some (?w @ drop ?e xs @ [0], length ?w + length (drop ?e xs))"
        by (simp add: concat_at_def advance_def str_concat_def)
      then show ?thesis unfolding c using lt adv by (simp add: Let_def res del: upt_Suc)
    qed
    show ?thesis
      using ps combine assms(1,3,4,5) text_of_len [OF assms(5)]
      unfolding str_replace_def
      by (simp add: size [simplified] new_block_def Let_def del: upt_Suc)
  qed
  with ok show ?thesis unfolding res_def Let_def by blast
qed

text \<open>
  C33.  \<open>replace(source, from, to, max)\<close> replaces at most \<open>max\<close> occurrences that do not overlap, from
  the left, and allocates exactly the memory for the result.  But when the last occurrence ends at
  the end of the source, the terminating zero is not written: the last byte is what the new memory
  held.  For an empty source the function stops with a failed assert.
\<close>

theorem str_replace_correct:
  assumes "holds s xs" "holds f needle" "needle \<noteq> []" "text_of t ys"
  shows "(xs = [] \<longrightarrow> str_replace alloc fresh (Some s) (Some f) t limit = None)
    \<and> (xs \<noteq> [] \<longrightarrow> (\<exists>ps. parts_ok (plain_needle needle) needle xs limit 0 ps
      \<and> (let res = replaced xs ys (length needle) ps in length res < SIZE_MAX \<longrightarrow>
          str_replace alloc fresh (Some s) (Some f) t limit = Some
            (if alloc (length res + 1)
             then Some (res @ [if parts_end (length needle) 0 ps = length xs then fresh (length res) else 0]) else None))))"
proof (cases "xs = []")
  case True
  then show ?thesis
    using assms text_of_len [OF assms(4)] by (simp add: str_replace_def split_parts_def)
next
  case False
  then show ?thesis using str_replace_ok [OF assms(1) False assms(2-4)] by blast
qed

lemma parts_ok_unique:
  "parts_ok True needle xs limit pos ps \<Longrightarrow> parts_ok True needle xs limit pos qs \<Longrightarrow> ps = qs"
proof (induction ps arbitrary: qs limit pos)
  case Nil
  then show ?case by (cases qs) (auto simp: found_def)
next
  case (Cons p ps)
  then obtain q qs' where q: "qs = q # qs'" by (cases qs) (auto simp: found_def)
  then have "p = q" using Cons.prems by (auto simp: found_def) (metis linorder_neqE_nat)
  then show ?case using Cons q by auto
qed

theorem str_replace_correct_witness:
  "str_replace (\<lambda>_. True) (\<lambda>_. 33) (Some [97, 98, 97, 99, 0]) (Some [97, 0]) (Some [120, 121, 0]) 9
      = Some (Some [120, 121, 98, 120, 121, 99, 0])
    \<and> str_replace (\<lambda>_. True) (\<lambda>_. 33) (Some [97, 98, 97, 0]) (Some [97, 0]) (Some [120, 0]) 9
      = Some (Some [120, 98, 120, 33])"
proof -
  have h: "holds [97, 98, 97, 99, 0] [97, 98, 97, 99]" "holds [97, 98, 97, 0] [97, 98, 97]" "holds [97, 0] [97]"
    "text_of (Some [120, 121, 0]) [120, 121]" "text_of (Some [120, 0]) [120]"
    by (simp_all add: holds_def text_of_def SIZE_MAX_def)
  have p: "plain_needle [97]" by (simp add: plain_needle_def)
  have o: "occurs_at [97] [97, 98, 97, 99] = (\<lambda>q. q = 0 \<or> q = 2)" "occurs_at [97] [97, 98, 97] = (\<lambda>q. q = 0 \<or> q = 2)"
    by (auto simp: occurs_at_nth fun_eq_iff nth_Cons less_Suc_eq_le numeral_eq_Suc split: nat.splits)
  have q: "parts_ok True [97] [97, 98, 97, 99] 9 0 [0, 2]" "parts_ok True [97] [97, 98, 97] 9 0 [0, 2]"
    by (simp_all add: found_def o)
  from str_replace_correct [OF h(1,3) _ h(4), of "\<lambda>_. True" "\<lambda>_. 33" 9] p
  obtain ps where ps: "parts_ok True [97] [97, 98, 97, 99] 9 0 ps" "let res = replaced [97, 98, 97, 99] [120, 121] (length [97 :: u8]) ps in
      length res < SIZE_MAX \<longrightarrow> str_replace (\<lambda>_. True) (\<lambda>_. 33) (Some [97, 98, 97, 99, 0]) (Some [97, 0]) (Some [120, 121, 0]) 9
        = Some (Some (res @ [if parts_end (length [97 :: u8]) 0 ps = length [97, 98, 97, 99 :: u8] then 33 else 0]))" by auto
  from str_replace_correct [OF h(2,3) _ h(5), of "\<lambda>_. True" "\<lambda>_. 33" 9] p
  obtain qs where qs: "parts_ok True [97] [97, 98, 97] 9 0 qs" "let res = replaced [97, 98, 97] [120] (length [97 :: u8]) qs in
      length res < SIZE_MAX \<longrightarrow> str_replace (\<lambda>_. True) (\<lambda>_. 33) (Some [97, 98, 97, 0]) (Some [97, 0]) (Some [120, 0]) 9
        = Some (Some (res @ [if parts_end (length [97 :: u8]) 0 qs = length [97, 98, 97 :: u8] then 33 else 0]))" by auto
  have "ps = [0, 2]" "qs = [0, 2]" using parts_ok_unique [OF ps(1) q(1)] parts_ok_unique [OF qs(1) q(2)] by simp_all
  then show ?thesis using ps(2) qs(2) by (simp add: replaced_def SIZE_MAX_def)
qed

text \<open>
  C34.  \<open>replace_inplace(target, from, to, max)\<close> works on a copy without terminating zero and reads
  behind it, unless the last replaced occurrence ends at the end of the string; then the shorter
  text is not terminated and the end of the old one stays behind it.
\<close>

theorem str_replace_inplace_fails:
  assumes "holds s xs" "holds f needle" "needle \<noteq> []" "text_of t ys" "length ys \<le> length needle"
  shows "\<exists>ps. parts_ok (plain_needle needle) needle xs limit 0 ps
    \<and> str_replace_inplace fresh (Some s) (Some f) t limit =
      (if xs \<noteq> [] \<and> parts_end (length needle) 0 ps = length xs
       then let w = pieces xs ys (length needle) 0 ps in Some (Some (w @ drop (length w) s)) else None)"
proof (cases "xs = []")
  case True
  then have "found needle xs all 0 None" for all using assms(3) by (auto simp: found_def occurs_at_def)
  then have "parts_ok (plain_needle needle) needle xs limit 0 []" by simp
  moreover have "str_replace_inplace fresh (Some s) (Some f) t limit = None"
    using assms True text_of_len [OF assms(4)]
    by (simp add: str_replace_inplace_def str_replace_inplace_n_def split_parts_def)
  ultimately show ?thesis using True by (intro exI [of _ "[]"]) simp
next
  case False
  obtain ps where ps: "split_parts s f (length xs) (length needle) (length xs div length needle) limit = Some ps"
    and ok: "parts_ok (plain_needle needle) needle xs limit 0 ps"
    using split_parts_ok [OF assms(1,2,3) False order_refl] by blast
  let ?w = "pieces xs ys (length needle) 0 ps" and ?e = "parts_end (length needle) 0 ps"
  obtain r where s: "s = xs @ 0 # r" and nz: "0 \<notin> set xs" and short: "length xs < SIZE_MAX"
    using assms(1) by (elim holdsE)
  have e: "?e \<le> length xs" using parts_end_le [OF ok] by simp
  have copy: "str_copy_n (map fresh [0..<length xs]) (Some s) (length xs) False = Some xs"
    using concat_loop_part [of "length xs" xs "map fresh [0..<length xs]" "0 # r"] nz s
    by (simp add: str_copy_n_def str_concat_def)
  have "int (length ?w) \<le> int ?e"
    using length_pieces [OF ok, of ys] assms(5) by (simp add: mult_nonneg_nonpos)
  then have "length ?w \<le> length s" using e s by simp
  then have c: "str_combine s xs t ps (length xs) (length needle) (length ys) =
    (let w = ?w; rest = drop (length w) s in
     if ?e < length xs
     then do { src \<leftarrow> advance ?e xs; (t, at) \<leftarrow> concat_at (w @ rest) (length w) (Some src) SIZE_MAX; Some t }
     else Some (w @ rest))"
    using combine_ok [OF nz assms(4) _ short ok, of xs "[]" s] by (simp add: Let_def)
  have none: "concat_at (?w @ drop (length ?w) s) (length ?w) (Some (drop ?e xs)) SIZE_MAX = None"
  proof -
    have "0 \<notin> set (drop ?e xs)" using nz by (auto dest: in_set_dropD)
    then have "concat_loop (drop (length ?w) s) (drop ?e xs) SIZE_MAX = None"
      using short by (intro concat_loop_unterminated) auto
    then show ?thesis by (simp add: concat_at_def advance_def str_concat_def)
  qed
  have "str_replace_inplace fresh (Some s) (Some f) t limit =
      map_option Some (str_combine s xs t ps (length xs) (length needle) (length ys))"
    using ps copy assms text_of_len [OF assms(4)]
    by (cases "str_combine s xs t ps (length xs) (length needle) (length ys)")
      (simp_all add: str_replace_inplace_def str_replace_inplace_n_def)
  moreover have "str_combine s xs t ps (length xs) (length needle) (length ys) =
      (if ?e = length xs then Some (?w @ drop (length ?w) s) else None)"
    unfolding c using e none by (auto simp: Let_def advance_def)
  ultimately show ?thesis using ok False by (intro exI [of _ ps]) (auto simp: Let_def)
qed

theorem str_replace_inplace_fails_witness:
  "str_replace_inplace (\<lambda>_. 33) (Some [97, 98, 97, 0]) (Some [98, 0]) (Some [120, 0]) 9 = None
    \<and> str_replace_inplace (\<lambda>_. 33) (Some [97, 98, 0]) (Some [98, 0]) None 9 = Some (Some [97, 98, 0])"
proof -
  have h: "holds [97, 98, 97, 0] [97, 98, 97]" "holds [97, 98, 0] [97, 98]" "holds [98, 0] [98]"
    "text_of (Some [120, 0]) [120]" "text_of None []"
    by (simp_all add: holds_def text_of_def SIZE_MAX_def)
  have p: "plain_needle [98]" by (simp add: plain_needle_def)
  have o: "occurs_at [98] [97, 98, 97] = (\<lambda>q. q = 1)" "occurs_at [98] [97, 98] = (\<lambda>q. q = 1)"
    by (auto simp: occurs_at_nth fun_eq_iff nth_Cons less_Suc_eq_le split: nat.splits)
  have q: "parts_ok True [98] [97, 98, 97] 9 0 [1]" "parts_ok True [98] [97, 98] 9 0 [1]"
    by (simp_all add: found_def o)
  from str_replace_inplace_fails [OF h(1,3) _ h(4), of 9 "\<lambda>_. 33"] p obtain ps where
    ps: "parts_ok True [98] [97, 98, 97] 9 0 ps" "str_replace_inplace (\<lambda>_. 33) (Some [97, 98, 97, 0]) (Some [98, 0]) (Some [120, 0]) 9 =
      (if parts_end (length [98 :: u8]) 0 ps = length [97, 98, 97 :: u8] then
       let w = pieces [97, 98, 97] [120] (length [98 :: u8]) 0 ps in Some (Some (w @ drop (length w) [97, 98, 97, 0])) else None)"
    by auto
  from str_replace_inplace_fails [OF h(2,3) _ h(5), of 9 "\<lambda>_. 33"] p obtain qs where
    qs: "parts_ok True [98] [97, 98] 9 0 qs" "str_replace_inplace (\<lambda>_. 33) (Some [97, 98, 0]) (Some [98, 0]) None 9 =
      (if parts_end (length [98 :: u8]) 0 qs = length [97, 98 :: u8] then
       let w = pieces [97, 98] [] (length [98 :: u8]) 0 qs in Some (Some (w @ drop (length w) [97, 98, 0])) else None)"
    by auto
  have "ps = [1]" "qs = [1]" using parts_ok_unique [OF ps(1) q(1)] parts_ok_unique [OF qs(1) q(2)] by simp_all
  then show ?thesis using ps(2) qs(2) by simp
qed

section \<open>Splitting\<close>

text \<open>
  C35.  Splitting at a character or at any of several characters returns the fields of the string
  (longest runs without a delimiter, at most \<open>max + 1\<close>), each in memory of its own; the functions
  that work in place put zeros into the string such that the pointers they return are these fields.
\<close>

theorem str_split_correct:
  assumes "holds s xs" "holds ds delims" "\<forall>n \<le> length xs + 1. alloc n"
  shows "str_split_char alloc fresh (Some s) c limit = Some (map (\<lambda>t. t @ [0]) (fields (\<lambda>b. sint b = c) limit xs))
    \<and> (\<exists>b os. str_split_char_inplace (Some s) c limit = Some (Some b, os)
        \<and> map (text_at b) os = fields (\<lambda>b. sint b = c) limit xs)
    \<and> str_split_any alloc fresh (Some s) (Some ds) limit = Some (map (\<lambda>t. t @ [0]) (fields (\<lambda>b. b \<in> set delims) limit xs))
    \<and> (\<exists>b os. str_split_any_inplace (Some s) (Some ds) limit = Some (Some b, os)
        \<and> map (text_at b) os = fields (\<lambda>b. b \<in> set delims) limit xs)
    \<and> length (fields d limit xs) \<le> limit + 1"
proof -
  obtain r where s: "s = xs @ 0 # r" and nz: "0 \<notin> set xs" using assms(1) by (elim holdsE)
  obtain q where ds: "ds = delims @ 0 # q" and nzd: "0 \<notin> set delims" using assms(2) by (elim holdsE)
  have del: "is_delimiter ds c = Some (c \<in> set delims)" for c unfolding ds by (rule is_delimiter_ok [OF nzd])
  have inplace: "\<exists>b os. split_inplace_loop delim s 0 limit True [] = Some (b, os) \<and> map (text_at b) os = fields e limit xs"
    if "\<And>c. delim c = Some (e c)" for delim e
    using split_inplace_loop_ok [of UNIV delim e xs r 0 limit True "[]"] that nz s by (auto simp: fields_acc_eq)
  obtain b os where 1: "split_inplace_loop (\<lambda>b. Some (sint b = c)) s 0 limit True [] = Some (b, os)"
    "map (text_at b) os = fields (\<lambda>b. sint b = c) limit xs"
    using inplace [of "\<lambda>b. Some (sint b = c)" "\<lambda>b. sint b = c", OF refl] by (elim exE conjE)
  obtain b' os' where 2: "split_inplace_loop (is_delimiter ds) s 0 limit True [] = Some (b', os')"
    "map (text_at b') os' = fields (\<lambda>b. b \<in> set delims) limit xs"
    using inplace [of "is_delimiter ds" "\<lambda>b. b \<in> set delims", OF del] by (elim exE conjE)
  have 3: "split_chars alloc fresh (\<lambda>b. Some (sint b = c)) s limit = Some (map (\<lambda>t. t @ [0]) (fields (\<lambda>b. sint b = c) limit xs))"
    unfolding s by (rule split_chars_ok [OF nz assms(3)]) simp
  have 4: "split_chars alloc fresh (is_delimiter ds) s limit = Some (map (\<lambda>t. t @ [0]) (fields (\<lambda>b. b \<in> set delims) limit xs))"
    unfolding s by (rule split_chars_ok [OF nz assms(3)]) (simp add: del)
  have 5: "str_split_char_inplace (Some s) c limit = Some (Some b, os)"
    "str_split_any_inplace (Some s) (Some ds) limit = Some (Some b', os')"
    using 1(1) 2(1) by (simp_all add: str_split_char_inplace_def str_split_any_inplace_def)
  show ?thesis
    unfolding str_split_char_def str_split_any_def option.case using 1(2) 2(2) 3 4 5 length_fields [of d limit xs] by blast
qed

theorem str_split_correct_witness:
  "str_split_char (\<lambda>_. True) (\<lambda>_. 33) (Some [44, 97, 44, 44, 98, 44, 99, 0]) 44 1 = Some [[97, 0], [44, 98, 44, 99, 0]]"
proof -
  have h: "holds [44, 97, 44, 44, 98, 44, 99, 0] [44, 97, 44, 44, 98, 44, 99]" "holds [0] []"
    by (simp_all add: holds_def SIZE_MAX_def)
  from str_split_correct [OF h, of "\<lambda>_. True" "\<lambda>_. 33" 44 1 "\<lambda>_. True"] show ?thesis by (simp add: numeral_eq_Suc)
qed

end
