(* ===== verification/ParseNumber.thy ===== *)
theory ParseNumber
  imports Strings
begin

text \<open>
  include/dlh/parser/string.hpp and src/parser/string.cpp: strings to numbers.

  The functions of \<open>Parser\<close> write to their first argument and return whether the text is a
  number: the models return both.  An argument that is left as it is on failure is passed in as
  \<open>target\<close>.  64 bit arithmetic wraps; the tests on signed values read the words with \<open>sint\<close>.
\<close>

section \<open>Unsigned numbers of 64 bits\<close>

fun skip_blanks :: "cstring \<Rightarrow> cstring option" where
  "skip_blanks [] = None"
| "skip_blanks (c # s) = (if c = 32 then skip_blanks s else Some (c # s))"

definition skip_plus :: "cstring \<Rightarrow> cstring option" where
  "skip_plus value =
     do { value \<leftarrow> skip_blanks value; c \<leftarrow> rd value 0;
          if c = 43 then skip_blanks (tl value) else Some value }"

text \<open>The base and the text behind its prefix; the inner \<open>None\<close> is an invalid format.\<close>

definition parse_base :: "cstring \<Rightarrow> (u64 \<times> cstring) option option" where
  "parse_base value =
     do { c \<leftarrow> rd value 0;
          if c \<noteq> 48 then Some (Some (10, value))
          else do { x \<leftarrow> rd value 1;
                    if x = 0 then Some (Some (10, value))
                    else if x = 120 \<or> x = 88 then Some (Some (16, drop 2 value))
                    else if x = 98 \<or> x = 66 then Some (Some (2, drop 2 value))
                    else if 49 \<le> sint x \<and> sint x \<le> 55 then Some (Some (8, drop 1 value))
                    else Some None } }"

definition digit_value :: "u8 \<Rightarrow> u64 option" where
  "digit_value c =
     (if 48 \<le> sint c \<and> sint c \<le> 57 then Some (word_of_int (sint c - 48))
      else if 97 \<le> sint c \<and> sint c \<le> 102 then Some (word_of_int (sint c - 97 + 10))
      else if 65 \<le> sint c \<and> sint c \<le> 70 then Some (word_of_int (sint c - 65 + 10))
      else None)"

fun digits_loop :: "cstring \<Rightarrow> u64 \<Rightarrow> u64 \<Rightarrow> u8 \<Rightarrow> u64 option option" where
  "digits_loop [] base n spacer = None"
| "digits_loop (c # s) base n spacer =
     (if c = 0 then Some (Some n)
      else if c = 32 \<or> c = 44 \<or> c = 39
      then if spacer \<noteq> 0 \<and> spacer \<noteq> c then Some None else digits_loop s base n c
      else case digit_value c of
        None \<Rightarrow> Some None
      | Some v \<Rightarrow> if v > base \<or> n * base + v < n then Some None
                  else digits_loop s base (n * base + v) spacer)"

definition parse_u64 :: "u64 \<Rightarrow> cstring option \<Rightarrow> (u64 \<times> bool) option" where
  "parse_u64 target value =
     (case value of None \<Rightarrow> Some (target, False)
      | Some value \<Rightarrow>
          do { value \<leftarrow> skip_plus value;
               format \<leftarrow> parse_base value;
               case format of None \<Rightarrow> Some (target, False)
               | Some (base, value) \<Rightarrow>
                   do { n \<leftarrow> digits_loop value base 0 0;
                        case n of None \<Rightarrow> Some (target, False) | Some n \<Rightarrow> Some (n, True) } })"

section \<open>Signed numbers of 64 bits\<close>

text \<open>The sign (whether it is negative) and the text behind it, or \<open>None\<close> for an invalid character.\<close>

fun sign_loop :: "cstring \<Rightarrow> (bool \<times> cstring) option option" where
  "sign_loop [] = None"
| "sign_loop (c # s) =
     (if c = 0 then Some (Some (False, c # s))
      else if c = 45 then Some (Some (True, s))
      else if c = 43 then Some (Some (False, s))
      else if 48 \<le> sint c \<and> sint c \<le> 57 then Some (Some (False, c # s))
      else if c \<noteq> 32 then Some None
      else sign_loop s)"

definition parse_i64 :: "u64 \<Rightarrow> cstring option \<Rightarrow> (u64 \<times> bool) option" where
  "parse_i64 target value =
     (case value of None \<Rightarrow> Some (target, False)
      | Some value \<Rightarrow>
          do { r \<leftarrow> sign_loop value;
               case r of None \<Rightarrow> Some (target, False)
               | Some (negative, value) \<Rightarrow>
                   do { (v, ok) \<leftarrow> parse_u64 0 (Some value);
                        if ok
                        then Some ((if negative then - 1 else 1) * v,
                                   negative \<and> v \<le> 0x7fffffffffffffff + 1 \<or> \<not> negative \<and> v \<le> 0x7fffffffffffffff)
                        else Some (target, False) } })"

section \<open>The other types\<close>

definition parse_ulong :: "cstring option \<Rightarrow> (u64 \<times> bool) option" where
  "parse_ulong value = do { (v, r) \<leftarrow> parse_u64 0 value; Some (v, if v > - 1 then False else r) }"

definition parse_long :: "cstring option \<Rightarrow> (u64 \<times> bool) option" where
  "parse_long value =
     do { (v, r) \<leftarrow> parse_i64 0 value;
          Some (v, if sint v > 9223372036854775807 \<or> sint v < - 9223372036854775807 - 1 then False else r) }"

definition parse_uint :: "cstring option \<Rightarrow> (u32 \<times> bool) option" where
  "parse_uint value = do { (v, r) \<leftarrow> parse_u64 0 value; Some (ucast v, if v > 4294967295 then False else r) }"

definition parse_int :: "cstring option \<Rightarrow> (u32 \<times> bool) option" where
  "parse_int value =
     do { (v, r) \<leftarrow> parse_i64 0 value;
          Some (ucast v, if sint v > 2147483647 \<or> sint v < - 2147483647 - 1 then False else r) }"

definition parse_ushort :: "cstring option \<Rightarrow> (u16 \<times> bool) option" where
  "parse_ushort value = do { (v, r) \<leftarrow> parse_u64 0 value; Some (ucast v, if v > 65535 then False else r) }"

definition parse_short :: "cstring option \<Rightarrow> (u16 \<times> bool) option" where
  "parse_short value =
     do { (v, r) \<leftarrow> parse_i64 0 value;
          Some (ucast v, if sint v > 32767 \<or> sint v < - 32767 - 1 then False else r) }"

definition parse_uchar :: "cstring option \<Rightarrow> (u8 \<times> bool) option" where
  "parse_uchar value = do { (v, r) \<leftarrow> parse_u64 0 value; Some (ucast v, if v > 255 then False else r) }"

definition parse_char :: "cstring option \<Rightarrow> (u8 \<times> bool) option" where
  "parse_char value =
     do { (v, r) \<leftarrow> parse_i64 0 value;
          Some (ucast v, if sint v > 127 \<or> sint v < - 127 - 1 then False else r) }"

definition parse_bool :: "bool \<Rightarrow> cstring option \<Rightarrow> (bool \<times> bool) option" where
  "parse_bool target value =
     (case value of None \<Rightarrow> Some (target, False)
      | Some value \<Rightarrow>
          do { c \<leftarrow> rd value 0;
               Some (c \<noteq> 0 \<and> c \<noteq> 48 \<and> c \<noteq> 110 \<and> c \<noteq> 78 \<and> c \<noteq> 102 \<and> c \<noteq> 70, True) })"

definition parse_text :: "cstring option \<Rightarrow> cstring option \<Rightarrow> cstring option \<times> bool" where
  "parse_text target value = (case value of None \<Rightarrow> (target, False) | Some value \<Rightarrow> (Some value, True))"

end
