(* ===== verification/ParseTheorems.thy ===== *)
theory ParseTheorems
  imports ParseNumber
begin

text \<open>
  Numbers that are printed and parsed again, and texts that are no numbers but parsed as such.
\<close>

section \<open>Digits\<close>

definition digit_char :: "nat \<Rightarrow> u8" where
  "digit_char d = (if d < 10 then of_nat (48 + d) else of_nat (87 + d))"

text \<open>The value of digits, most significant first, behind a number.\<close>

definition number :: "nat \<Rightarrow> nat \<Rightarrow> nat list \<Rightarrow> nat" where
  "number b n ds = foldl (\<lambda>n d. n * b + d) n ds"

lemma number_simps [simp]:
  "number b n [] = n"
  "number b n (d # ds) = number b (n * b + d) ds"
  "number b n (ds @ [d]) = number b n ds * b + d"
  by (simp_all add: number_def)

lemma number_ge: "1 \<le> b \<Longrightarrow> n \<le> number b n ds"
proof (induction ds arbitrary: n)
  case (Cons d ds)
  have "n \<le> n * b + d" using Cons.prems by (simp add: trans_le_add1)
  also have "\<dots> \<le> number b (n * b + d) ds" by (rule Cons.IH [OF Cons.prems])
  finally show ?case by simp
qed simp

lemma digit_cases:
  assumes "d < (16 :: nat)"
  shows "d \<in> {0, 1, 2, 3, 4, 5, 6, 7, 8, 9, 10, 11, 12, 13, 14, 15}"
  using assms by (simp only: insert_iff empty_iff, presburger)

lemma digit_value_char: "d < 16 \<Longrightarrow> digit_value (digit_char d) = Some (of_nat d)"
  by (drule digit_cases, elim insertE emptyE) (simp_all add: digit_char_def digit_value_def)

lemma digit_char_not: "d < 16 \<Longrightarrow> digit_char d \<notin> {0, 32, 44, 39, 43, 45, 120, 88, 66}"
  by (drule digit_cases, elim insertE emptyE) (simp_all add: digit_char_def)

lemma digit_char_48: "d < 16 \<Longrightarrow> digit_char d = 48 \<longleftrightarrow> d = 0"
  by (drule digit_cases, elim insertE emptyE) (simp_all add: digit_char_def)

lemma digit_char_range: "d < 10 \<Longrightarrow> sint (digit_char d) = 48 + int d"
  by (subgoal_tac "d < 16", drule digit_cases, elim insertE emptyE) (simp_all add: digit_char_def)

lemma unat_u64: "n < 2 ^ 64 \<Longrightarrow> unat (of_nat n :: u64) = n"
  unfolding unat_of_nat by simp

lemma digits_loop_number:
  assumes "1 \<le> b" "b \<le> 16" "\<forall>d\<in>set ds. d < b" "number b n ds < 2 ^ 64"
  shows "digits_loop (map digit_char ds @ 0 # r) (of_nat b) (of_nat n) spacer = Some (Some (of_nat (number b n ds)))"
  using assms(3,4)
proof (induction ds arbitrary: n)
  case (Cons d ds)
  have d: "d < b" "d < 16" using Cons.prems assms(2) by auto
  have small: "n * b + d < 2 ^ 64"
    using number_ge [OF assms(1), of "n * b + d" ds] Cons.prems(2) by simp
  have "n \<le> n * b + d" using assms(1) by (simp add: trans_le_add1)
  then have n: "n < 2 ^ 64" using small by linarith
  have sum: "(of_nat n * of_nat b + of_nat d :: u64) = of_nat (n * b + d)" by simp
  have "\<not> (of_nat n * of_nat b + of_nat d :: u64) < of_nat n"
    unfolding sum word_less_nat_alt unat_u64 [OF small] unat_u64 [OF n] using \<open>n \<le> n * b + d\<close> by simp
  moreover have "\<not> (of_nat d :: u64) > of_nat b"
    using d assms(2) by (simp add: word_less_nat_alt unat_u64)
  moreover have "digits_loop (map digit_char ds @ 0 # r) (of_nat b) (of_nat n * of_nat b + of_nat d) spacer
      = Some (Some (of_nat (number b (n * b + d) ds)))"
    unfolding sum using Cons.IH [of "n * b + d"] Cons.prems by simp
  moreover have "digit_char d \<noteq> 0" "digit_char d \<noteq> 32" "digit_char d \<noteq> 44" "digit_char d \<noteq> 39"
    using digit_char_not [OF d(2)] by simp_all
  ultimately show ?case
    using digit_value_char [OF d(2)] by simp
qed simp

section \<open>Printing\<close>

text \<open>The prefix of a base, and the digits that a printer writes.\<close>

definition base_prefix :: "nat \<Rightarrow> cstring" where
  "base_prefix b = (if b = 16 then [48, 120] else if b = 2 then [48, 98] else if b = 8 then [48] else [])"

definition digits_ok :: "nat \<Rightarrow> nat list \<Rightarrow> bool" where
  "digits_ok b ds \<longleftrightarrow> b \<in> {2, 8, 10, 16} \<and> ds \<noteq> [] \<and> (\<forall>d\<in>set ds. d < b)
     \<and> (b = 8 \<longrightarrow> hd ds \<noteq> 0) \<and> (b = 10 \<longrightarrow> hd ds \<noteq> 0 \<or> ds = [0])"

function decimal :: "nat \<Rightarrow> nat list" where
  "decimal n = (if n < 10 then [n] else decimal (n div 10) @ [n mod 10])"
  by auto
termination by (relation "measure id") auto

declare decimal.simps [simp del]

lemma decimal_ok: "number 10 0 (decimal n) = n \<and> digits_ok 10 (decimal n) \<and> (0 < n \<longrightarrow> hd (decimal n) \<noteq> 0)"
proof (induction n rule: decimal.induct)
  case (1 n)
  show ?case
  proof (cases "n < 10")
    case True
    then have "decimal n = [n]" by (simp add: decimal.simps [of n])
    then show ?thesis using True by (auto simp: digits_ok_def)
  next
    case False
    then have "0 < n div 10" by simp
    with 1 False show ?thesis by (auto simp: decimal.simps [of n] digits_ok_def hd_append)
  qed
qed

lemma parse_base_digits:
  assumes "digits_ok b ds"
  shows "parse_base (base_prefix b @ map digit_char ds @ 0 # r) = Some (Some (of_nat b, map digit_char ds @ 0 # r))"
proof -
  obtain d ds' where ds: "ds = d # ds'" using assms by (cases ds) (auto simp: digits_ok_def)
  have d: "d < b" "d < 16" "b \<in> {2, 8, 10, 16}" using assms ds by (auto simp: digits_ok_def)
  then consider "b = 16" | "b = 2" | "b = 8" | "b = 10" by auto
  then show ?thesis
  proof cases
    case 3
    then have "0 < d" "d < 8" using assms ds by (auto simp: digits_ok_def)
    then show ?thesis
      using 3 ds digit_char_range [of d] digit_char_not [of d]
      by (auto simp: parse_base_def base_prefix_def rd_def)
  next
    case 4
    show ?thesis
    proof (cases "d = 0")
      case True
      then have "ds = [0]" using assms ds 4 by (auto simp: digits_ok_def)
      then show ?thesis using 4 by (simp add: parse_base_def base_prefix_def rd_def digit_char_def)
    next
      case False
      then show ?thesis
        using 4 ds digit_char_48 [OF d(2)] by (simp add: parse_base_def base_prefix_def rd_def)
    qed
  qed (use ds in \<open>simp_all add: parse_base_def base_prefix_def rd_def\<close>)
qed

lemma first_char:
  assumes "digits_ok b ds"
  obtains c s where "base_prefix b @ map digit_char ds @ 0 # r = c # s" "48 \<le> sint c" "sint c \<le> 57" "c \<notin> {0, 32, 43, 45}"
proof (cases "b = 10")
  case True
  then obtain d ds' where ds: "ds = d # ds'" "d < 10" using assms by (cases ds) (auto simp: digits_ok_def)
  then show thesis
    using that [of "digit_char d" "map digit_char ds' @ 0 # r"] True digit_char_range [of d] digit_char_not [of d]
    by (auto simp: base_prefix_def)
next
  case False
  then have "b = 16 \<or> b = 2 \<or> b = 8" using assms by (auto simp: digits_ok_def)
  then show thesis
    using that [of 48 "tl (base_prefix b) @ map digit_char ds @ 0 # r"] by (auto simp: base_prefix_def)
qed

lemma parse_u64_digits:
  assumes "digits_ok b ds" "number b 0 ds < 2 ^ 64"
  shows "parse_u64 t (Some (base_prefix b @ map digit_char ds @ 0 # r)) = Some (of_nat (number b 0 ds), True)"
proof -
  let ?text = "base_prefix b @ map digit_char ds @ 0 # r"
  obtain c s where c: "?text = c # s" "c \<notin> {0, 32, 43, 45}" using first_char [OF assms(1)] by metis
  have "skip_plus ?text = Some ?text" using c by (simp add: skip_plus_def rd_def)
  moreover have "digits_loop (map digit_char ds @ 0 # r) (of_nat b) 0 0 = Some (Some (of_nat (number b 0 ds)))"
    using digits_loop_number [of b ds 0 r 0] assms by (auto simp: digits_ok_def)
  ultimately show ?thesis
    using parse_base_digits [OF assms(1), of r] by (simp add: parse_u64_def)
qed

lemma parse_i64_digits:
  assumes "digits_ok b ds" "number b 0 ds < 2 ^ 63"
  shows "parse_i64 t (Some (base_prefix b @ map digit_char ds @ 0 # r)) = Some (of_nat (number b 0 ds), True)"
proof -
  let ?text = "base_prefix b @ map digit_char ds @ 0 # r"
  obtain c s where c: "?text = c # s" "48 \<le> sint c" "sint c \<le> 57" "c \<notin> {0, 32, 43, 45}"
    using first_char [OF assms(1)] by metis
  have "sign_loop ?text = Some (Some (False, ?text))" unfolding c(1) using c(2-4) by simp
  moreover have "(of_nat (number b 0 ds) :: u64) \<le> 0x7fffffffffffffff"
    using assms(2) by (simp add: word_le_nat_alt unat_u64)
  ultimately show ?thesis
    using parse_u64_digits [OF assms(1), of 0 r] assms(2) by (simp add: parse_i64_def)
qed

lemma parse_i64_minus:
  assumes "digits_ok b ds" "number b 0 ds \<le> 2 ^ 63"
  shows "parse_i64 t (Some (45 # base_prefix b @ map digit_char ds @ 0 # r)) = Some (- of_nat (number b 0 ds), True)"
proof -
  have "(of_nat (number b 0 ds) :: u64) \<le> 0x8000000000000000"
    using assms(2) by (simp add: word_le_nat_alt unat_u64)
  then show ?thesis
    using parse_u64_digits [OF assms(1), of 0 r] assms(2) by (simp add: parse_i64_def)
qed

text \<open>
  A number printed with the prefix of its base (2, 8, 10 or 16) is parsed as that number:
  in decimal every 64 bit value, with and without sign every value that the signed type has.
\<close>

theorem parse_print:
  assumes "digits_ok b ds"
  shows "(number b 0 ds < 2 ^ 64 \<longrightarrow>
      parse_u64 t (Some (base_prefix b @ map digit_char ds @ 0 # r)) = Some (of_nat (number b 0 ds), True))
    \<and> (number b 0 ds < 2 ^ 63 \<longrightarrow>
      parse_i64 t (Some (base_prefix b @ map digit_char ds @ 0 # r)) = Some (of_nat (number b 0 ds), True))
    \<and> (number b 0 ds \<le> 2 ^ 63 \<longrightarrow>
      parse_i64 t (Some (45 # base_prefix b @ map digit_char ds @ 0 # r)) = Some (- of_nat (number b 0 ds), True))
    \<and> parse_u64 t (Some (map digit_char (decimal (unat v)) @ 0 # r)) = Some (v, True)"
proof -
  have "parse_u64 t (Some (map digit_char (decimal (unat v)) @ 0 # r)) = Some (v, True)"
    using parse_u64_digits [of 10 "decimal (unat v)" t r] decimal_ok [of "unat v"] unsigned_less [of v, where 'a = nat]
    by (simp add: base_prefix_def)
  then show ?thesis
    using parse_u64_digits [OF assms] parse_i64_digits [OF assms] parse_i64_minus [OF assms] by blast
qed

theorem parse_print_witness:
  "parse_u64 0 (Some [48, 120, 102, 48, 0]) = Some (240, True) \<and> parse_i64 0 (Some [45, 48, 120, 102, 48, 0]) = Some (- 240, True)"
proof -
  have "digits_ok 16 [15, 0]" "number 16 0 [15, 0] = 240" "base_prefix 16 = [48, 120]"
    by (simp_all add: digits_ok_def base_prefix_def)
  moreover have "map digit_char [15, 0] = [102, 48]" by (simp add: digit_char_def)
  ultimately show ?thesis using parse_print [of 16 "[15, 0]" 0 "[]" 0] by simp
qed

text \<open>
  Texts that are no numbers are parsed: a digit may be as large as the base, an overflow is only
  noticed when the wrapped result is smaller than the number before, and no digits at all are zero.
\<close>

theorem parse_accepts_invalid:
  "parse_u64 t (Some [48, 98, 50, 0]) = Some (2, True)
    \<and> parse_u64 t (Some [49, 97, 0]) = Some (20, True)
    \<and> parse_u64 t (Some [51, 48, 48, 48, 48, 48, 48, 48, 48, 48,
        48, 48, 48, 48, 48, 48, 48, 48, 48, 48, 0]) = Some (11553255926290448384, True)
    \<and> parse_u64 t (Some [0]) = Some (0, True)
    \<and> parse_u64 t (Some [48, 120, 0]) = Some (0, True)"
  by (simp add: parse_u64_def skip_plus_def parse_base_def rd_def digit_value_def)

end
