(* ===== verification/XXHash.thy ===== *)
theory XXHash
  imports Prelude
begin

text \<open>
  include/dlh/xxhash.hpp: \<open>XXHash64\<close>, a hash that takes its input in pieces.

  The buffer is a list of 32 bytes; writing behind it, or reading behind the input, is \<open>None\<close>.
  Multi-byte values are read in little endian order, as on the x86_64 machines the library is
  for.  Lengths are numbers below \<open>2 ^ 64\<close> with the wrap-around of \<open>uint64_t\<close> written out.
\<close>

definition Prime1 :: u64 where "Prime1 = 11400714785074694791"
definition Prime2 :: u64 where "Prime2 = 14029467366897019727"
definition Prime3 :: u64 where "Prime3 = 1609587929392839161"
definition Prime4 :: u64 where "Prime4 = 9650029242287828579"
definition Prime5 :: u64 where "Prime5 = 2870177450012600261"

type_synonym xxh_state = "u64 \<times> u64 \<times> u64 \<times> u64"

record xxhash =
  x_state :: xxh_state
  x_buffer :: "u8 list"
  x_size :: nat
  x_total :: u64

definition rotate_bits_left :: "u64 \<Rightarrow> nat \<Rightarrow> u64" where
  "rotate_bits_left x bits = (push_bit bits x OR drop_bit (64 - bits) x)"

definition process_single :: "u64 \<Rightarrow> u64 \<Rightarrow> u64" where
  "process_single previous input = rotate_bits_left (previous + input * Prime2) 31 * Prime1"

text \<open>A value of little endian bytes.\<close>

fun little_endian :: "u8 list \<Rightarrow> u64" where
  "little_endian [] = 0"
| "little_endian (b # bs) = ucast b OR push_bit 8 (little_endian bs)"

definition read64 :: "u8 list \<Rightarrow> nat \<Rightarrow> u64" where
  "read64 data i = little_endian (take 8 (drop (8 * i) data))"

definition process :: "u8 list \<Rightarrow> xxh_state \<Rightarrow> xxh_state" where
  "process data = (\<lambda>(s0, s1, s2, s3).
     (process_single s0 (read64 data 0), process_single s1 (read64 data 1),
      process_single s2 (read64 data 2), process_single s3 (read64 data 3)))"

definition xxh_new :: "u64 \<Rightarrow> xxhash" where
  "xxh_new seed = \<lparr>x_state = (seed + Prime1 + Prime2, seed + Prime2, seed, seed - Prime1),
     x_buffer = replicate 32 0, x_size = 0, x_total = 0\<rparr>"

text \<open>Filling the buffer from position \<open>n\<close> with the first \<open>todo\<close> bytes of the data.\<close>

fun fill_buffer :: "u8 list \<Rightarrow> nat \<Rightarrow> u8 list \<Rightarrow> nat \<Rightarrow> u8 list option" where
  "fill_buffer buf n data 0 = Some buf"
| "fill_buffer buf n [] (Suc todo) = None"
| "fill_buffer buf n (b # data) (Suc todo) =
     (if n < length buf then fill_buffer (buf[n := b]) (n + 1) data todo else None)"

section \<open>Adding zeros\<close>

fun zero_buffer :: "u8 list \<Rightarrow> nat \<Rightarrow> nat \<Rightarrow> u8 list option" where
  "zero_buffer buf n 0 = Some buf"
| "zero_buffer buf n (Suc todo) = (if n < length buf then zero_buffer (buf[n := 0]) (n + 1) todo else None)"

function zero_blocks :: "nat \<Rightarrow> xxh_state \<Rightarrow> nat \<times> xxh_state" where
  "zero_blocks len s =
     (if len \<ge> 32
      then zero_blocks (len - 32)
             (case s of (s0, s1, s2, s3) \<Rightarrow>
               (rotate_bits_left s0 31 * Prime1, rotate_bits_left s1 31 * Prime1,
                rotate_bits_left s2 31 * Prime1, rotate_bits_left s3 31 * Prime1))
      else (len, s))"
  by auto
termination by (relation "measure fst") auto

definition xxh_add_zeros :: "nat \<Rightarrow> xxhash \<Rightarrow> (xxhash \<times> bool) option" where
  "xxh_add_zeros len h =
     (if len = 0 then Some (h, False)
      else do {
        let h = h\<lparr>x_total := x_total h + of_nat len\<rparr>;
        if (x_size h + len) mod 2 ^ 64 < 32
        then do { b \<leftarrow> zero_buffer (x_buffer h) (x_size h) len;
                  Some (h\<lparr>x_buffer := b, x_size := x_size h + len\<rparr>, True) }
        else do {
          (b, len, s) \<leftarrow>
            (if x_size h > 0
             then do { b \<leftarrow> zero_buffer (x_buffer h) (x_size h) (32 - x_size h);
                       Some (b, len - (32 - x_size h), process b (x_state h)) }
             else Some (x_buffer h, len, x_state h));
          let (len, s) = zero_blocks len s;
          b \<leftarrow> zero_buffer b 0 len;
          Some (h\<lparr>x_state := s, x_buffer := b, x_size := len\<rparr>, True)
        } })"

section \<open>Adding bytes\<close>

text \<open>\<open>data\<close> is the input from the current position up to \<open>stop\<close>.\<close>

function data_blocks :: "u8 list \<Rightarrow> xxh_state \<Rightarrow> u8 list \<times> xxh_state" where
  "data_blocks data s = (if length data \<ge> 32 then data_blocks (drop 32 data) (process data s) else (data, s))"
  by auto
termination by (relation "measure (length \<circ> fst)") auto

definition xxh_add :: "u8 list option \<Rightarrow> nat \<Rightarrow> xxhash \<Rightarrow> (xxhash \<times> bool) option" where
  "xxh_add input len h =
     (if len = 0 then Some (h, False)
      else case input of None \<Rightarrow> xxh_add_zeros len h
      | Some input \<Rightarrow> do {
          assert_that (len \<le> length input);
          let data = take len input;
          let h = h\<lparr>x_total := x_total h + of_nat len\<rparr>;
          if (x_size h + len) mod 2 ^ 64 < 32
          then do { b \<leftarrow> fill_buffer (x_buffer h) (x_size h) data len;
                    Some (h\<lparr>x_buffer := b, x_size := x_size h + len\<rparr>, True) }
          else do {
            (b, data, s) \<leftarrow>
              (if x_size h > 0
               then do { b \<leftarrow> fill_buffer (x_buffer h) (x_size h) data (32 - x_size h);
                         Some (b, drop (32 - x_size h) data, process b (x_state h)) }
               else Some (x_buffer h, data, x_state h));
            let (data, s) = data_blocks data s;
            b \<leftarrow> fill_buffer b 0 data (length data);
            Some (h\<lparr>x_state := s, x_buffer := b, x_size := length data\<rparr>, True)
          } })"

section \<open>The hash\<close>

definition merge_round :: "u64 \<Rightarrow> u64 \<Rightarrow> u64" where
  "merge_round result s = (result XOR process_single 0 s) * Prime1 + Prime4"

text \<open>The rest of the input, eight bytes, then four bytes, then one byte at a time.\<close>

function eat_words :: "u64 \<Rightarrow> u8 list \<Rightarrow> u64 \<times> u8 list" where
  "eat_words result data =
     (if length data \<ge> 8
      then eat_words (rotate_bits_left (result XOR process_single 0 (little_endian (take 8 data))) 27 * Prime1 + Prime4) (drop 8 data)
      else (result, data))"
  by auto
termination by (relation "measure (length \<circ> snd)") auto

definition eat_half :: "u64 \<times> u8 list \<Rightarrow> u64 \<times> u8 list" where
  "eat_half = (\<lambda>(result, data).
     (if length data \<ge> 4
      then (rotate_bits_left (result XOR little_endian (take 4 data) * Prime1) 23 * Prime2 + Prime3, drop 4 data)
      else (result, data)))"

fun eat_bytes :: "u64 \<Rightarrow> u8 list \<Rightarrow> u64" where
  "eat_bytes result [] = result"
| "eat_bytes result (b # data) = eat_bytes (rotate_bits_left (result XOR ucast b * Prime5) 11 * Prime1) data"

definition mix_bits :: "u64 \<Rightarrow> u64" where
  "mix_bits result =
     (let result = result XOR drop_bit 33 result;
          result = result * Prime2;
          result = result XOR drop_bit 29 result;
          result = result * Prime3
      in result XOR drop_bit 32 result)"

definition xxh_hash :: "xxhash \<Rightarrow> u64" where
  "xxh_hash h =
     (let result =
        (if x_total h \<ge> 32
         then case x_state h of (s0, s1, s2, s3) \<Rightarrow>
           merge_round (merge_round (merge_round (merge_round
             (rotate_bits_left s0 1 + rotate_bits_left s1 7 + rotate_bits_left s2 12 + rotate_bits_left s3 18)
             s0) s1) s2) s3
         else fst (snd (snd (x_state h))) + Prime5);
        result = result + x_total h;
        (result, data) = eat_half (eat_words result (take (x_size h) (x_buffer h)))
      in mix_bits (eat_bytes result data))"

definition xxh_once :: "u8 list option \<Rightarrow> nat \<Rightarrow> u64 \<Rightarrow> u64 option" where
  "xxh_once input len seed = do { (h, _) \<leftarrow> xxh_add input len (xxh_new seed); Some (xxh_hash h) }"

text \<open>Adding a string: its length is counted first; nothing is counted for the null pointer.\<close>

fun text_length :: "u8 list \<Rightarrow> nat option" where
  "text_length [] = None"
| "text_length (c # s) = (if c = 0 then Some 0 else do { l \<leftarrow> text_length s; Some (l + 1) })"

definition xxh_add_text :: "u8 list option \<Rightarrow> xxhash \<Rightarrow> (xxhash \<times> bool) option" where
  "xxh_add_text input h =
     do { len \<leftarrow> (case input of None \<Rightarrow> Some 0 | Some s \<Rightarrow> text_length s); xxh_add input len h }"

end
