(* ===== verification/XXHashTheorems.thy ===== *)
theory XXHashTheorems
  imports XXHash
begin

text \<open>
  The hash does not depend on how the input is cut into pieces.
\<close>

section \<open>Buffers and blocks\<close>

lemma fill_buffer_eq:
  "n + todo \<le> length buf \<Longrightarrow> todo \<le> length data \<Longrightarrow>
    fill_buffer buf n data todo = Some (take n buf @ take todo data @ drop (n + todo) buf)"
proof (induction todo arbitrary: buf n data)
  case (Suc todo)
  then obtain b data' where d: "data = b # data'" by (cases data) auto
  have "fill_buffer (buf[n := b]) (n + 1) data' todo =
      Some (take (n + 1) (buf[n := b]) @ take todo data' @ drop (n + 1 + todo) (buf[n := b]))"
    using Suc.IH [of "n + 1" "buf[n := b]" data'] Suc.prems d by simp
  moreover have "take (n + 1) (buf[n := b]) = take n buf @ [b]" using Suc.prems by (simp add: take_Suc_conv_app_nth)
  ultimately show ?case using Suc.prems d by simp
qed simp

lemma zero_buffer_eq:
  "n + todo \<le> length buf \<Longrightarrow> zero_buffer buf n todo = Some (take n buf @ replicate todo 0 @ drop (n + todo) buf)"
proof (induction todo arbitrary: buf n)
  case (Suc todo)
  have "take (n + 1) (buf[n := 0]) = take n buf @ [0]" using Suc.prems by (simp add: take_Suc_conv_app_nth)
  then show ?case using Suc.IH [of "n + 1" "buf[n := 0]"] Suc.prems by simp
qed simp

declare data_blocks.simps [simp del] zero_blocks.simps [simp del]

lemma data_blocks_short: "length data < 32 \<Longrightarrow> data_blocks data s = (data, s)"
  by (simp add: data_blocks.simps)

lemma data_blocks_step: "32 \<le> length data \<Longrightarrow> data_blocks data s = data_blocks (drop 32 data) (process data s)"
  by (subst data_blocks.simps) simp

lemma data_blocks_rest: "length (fst (data_blocks data s)) < 32"
proof (induction data s rule: data_blocks.induct)
  case (1 data s)
  then show ?case by (subst data_blocks.simps) simp
qed

lemma read64_prefix: "i < 4 \<Longrightarrow> 32 \<le> length data \<Longrightarrow> read64 (data @ ys) i = read64 data i"
  by (simp add: read64_def)

lemma process_prefix: "32 \<le> length data \<Longrightarrow> process (data @ ys) s = process data s"
  by (cases s) (simp add: process_def read64_prefix)

lemma data_blocks_append:
  "data_blocks (data @ ys) s = data_blocks (fst (data_blocks data s) @ ys) (snd (data_blocks data s))"
proof (induction data s rule: data_blocks.induct)
  case (1 data s)
  show ?case
  proof (cases "32 \<le> length data")
    case True
    then show ?thesis using 1 by (simp add: data_blocks_step [of "data @ ys"] data_blocks_step [of data] process_prefix)
  next
    case False
    then show ?thesis by (simp add: data_blocks_short)
  qed
qed

text \<open>A full buffer is processed before the rest of the data.\<close>

lemma data_blocks_buffer:
  assumes "length t < 32" "32 \<le> length t + length ys"
  shows "data_blocks (t @ ys) s = data_blocks (drop (32 - length t) ys) (process (t @ take (32 - length t) ys) s)"
proof -
  have "t @ ys = (t @ take (32 - length t) ys) @ drop (32 - length t) ys" by simp
  then have "process (t @ ys) s = process (t @ take (32 - length t) ys) s"
    using assms by (metis process_prefix length_append length_take min_def le_add_diff_inverse less_imp_le diff_le_mono
        add_diff_cancel_left' order_refl add_le_imp_le_diff add.commute)
  then show ?thesis using assms by (simp add: data_blocks_step)
qed

lemma little_endian_zeros: "little_endian (replicate n 0) = 0"
  by (induction n) auto

lemma process_zeros: "process (replicate n 0) (s0, s1, s2, s3) =
    (rotate_bits_left s0 31 * Prime1, rotate_bits_left s1 31 * Prime1,
     rotate_bits_left s2 31 * Prime1, rotate_bits_left s3 31 * Prime1)"
  by (simp add: process_def read64_def little_endian_zeros process_single_def)

lemma zero_blocks_eq:
  "data_blocks (replicate len 0) s = (replicate (fst (zero_blocks len s)) 0, snd (zero_blocks len s))"
proof (induction len s rule: zero_blocks.induct)
  case (1 len s)
  obtain s0 s1 s2 s3 where s: "s = (s0, s1, s2, s3)" by (cases s) auto
  show ?case
  proof (cases "32 \<le> len")
    case True
    then show ?thesis
      using 1 by (simp add: data_blocks_step zero_blocks.simps [of len] process_zeros s)
  next
    case False
    then show ?thesis by (simp add: data_blocks_short zero_blocks.simps [of len])
  qed
qed

section \<open>What a state stands for\<close>

definition xxh_init :: "u64 \<Rightarrow> xxh_state" where
  "xxh_init seed = (seed + Prime1 + Prime2, seed + Prime2, seed, seed - Prime1)"

definition xxh_repr :: "u64 \<Rightarrow> xxhash \<Rightarrow> u8 list \<Rightarrow> bool" where
  "xxh_repr seed h xs \<longleftrightarrow> length (x_buffer h) = 32 \<and> x_size h < 32
     \<and> data_blocks xs (xxh_init seed) = (take (x_size h) (x_buffer h), x_state h) \<and> x_total h = of_nat (length xs)"

lemma xxh_new_repr: "xxh_repr seed (xxh_new seed) []"
  by (simp add: xxh_repr_def xxh_new_def xxh_init_def data_blocks_short)

lemma xxh_hash_unique: "xxh_repr seed h xs \<Longrightarrow> xxh_repr seed h' xs \<Longrightarrow> xxh_hash h = xxh_hash h'"
  by (simp add: xxh_repr_def xxh_hash_def)

lemma xxh_reprI:
  assumes "length b = 32" "data_blocks ys s = (take n b, s')" "n < 32" "data_blocks xs (xxh_init seed) = data_blocks ys s"
    and "t = of_nat (length xs)"
  shows "xxh_repr seed (h\<lparr>x_total := t, x_state := s', x_buffer := b, x_size := n\<rparr>) xs"
  using assms by (simp add: xxh_repr_def)

lemma xxh_add_bytes:
  assumes "xxh_repr seed h xs" "length ys + 31 < 2 ^ 64" "ys \<noteq> []"
  shows "\<exists>h'. xxh_add (Some (ys @ r)) (length ys) h = Some (h', True) \<and> xxh_repr seed h' (xs @ ys)"
proof -
  let ?t = "take (x_size h) (x_buffer h)"
  have h: "length (x_buffer h) = 32" "x_size h < 32" "data_blocks xs (xxh_init seed) = (?t, x_state h)"
    "x_total h = of_nat (length xs)" using assms(1) by (auto simp: xxh_repr_def)
  have len: "length ?t = x_size h" using h by simp
  have all: "data_blocks (xs @ ys) (xxh_init seed) = data_blocks (?t @ ys) (x_state h)"
    unfolding data_blocks_append [of xs] h(3) by simp
  have total: "x_total h + of_nat (length ys) = of_nat (length (xs @ ys))" using h(4) by simp
  have mod: "(x_size h + length ys) mod 2 ^ 64 = x_size h + length ys" using assms(2) h(2) by simp
  show ?thesis
  proof (cases "x_size h + length ys < 32")
    case True
    let ?b = "?t @ ys @ drop (x_size h + length ys) (x_buffer h)"
    have b: "fill_buffer (x_buffer h) (x_size h) ys (length ys) = Some ?b"
      using True h by (subst fill_buffer_eq) auto
    have "xxh_repr seed (h\<lparr>x_total := x_total h + of_nat (length ys), x_state := x_state h,
        x_buffer := ?b, x_size := x_size h + length ys\<rparr>) (xs @ ys)"
      by (rule xxh_reprI [OF _ _ _ all total]) (use True h in \<open>auto simp: data_blocks_short\<close>)
    then show ?thesis using True b mod assms(3) by (simp add: xxh_add_def)
  next
    case False
    define d where "d = drop (32 - x_size h) ys"
    define s where "s = process (?t @ take (32 - x_size h) ys) (x_state h)"
    define b where "b = (if x_size h > 0 then ?t @ take (32 - x_size h) ys else x_buffer h)"
    define start where "start = (if x_size h > 0 then (d, s) else (ys, x_state h))"
    have start: "data_blocks (?t @ ys) (x_state h) = data_blocks (fst start) (snd start)"
      using data_blocks_buffer [of ?t ys "x_state h"] False h unfolding len start_def d_def s_def by auto
    obtain rest s' where rest: "data_blocks (fst start) (snd start) = (rest, s')"
      by (cases "data_blocks (fst start) (snd start)")
    have short: "length rest < 32" using data_blocks_rest [of "fst start" "snd start"] rest by simp
    have b32: "length b = 32" using False h by (auto simp: b_def)
    let ?b = "rest @ drop (length rest) b"
    have fill: "fill_buffer b 0 rest (length rest) = Some ?b" using short b32 by (subst fill_buffer_eq) auto
    have "xxh_repr seed (h\<lparr>x_total := x_total h + of_nat (length ys), x_state := s', x_buffer := ?b,
        x_size := length rest\<rparr>) (xs @ ys)"
      by (rule xxh_reprI [OF _ _ short trans [OF all start] total]) (use short b32 rest in auto)
    moreover have "fill_buffer (x_buffer h) (x_size h) ys (32 - x_size h) = Some b" if "x_size h > 0"
      using that False h by (subst fill_buffer_eq) (auto simp: b_def)
    ultimately show ?thesis
      using False mod assms(3) rest fill
      by (auto simp: xxh_add_def start_def b_def d_def s_def Let_def)
  qed
qed

section \<open>Zeros\<close>

lemma zero_buffer_fill: "todo \<le> m \<Longrightarrow> fill_buffer buf n (replicate m 0) todo = zero_buffer buf n todo"
proof (induction todo arbitrary: buf n m)
  case (Suc todo)
  then obtain m' where "m = Suc m'" "todo \<le> m'" by (cases m) auto
  then show ?case using Suc.IH by simp
qed simp

lemma xxh_add_zeros_eq:
  assumes "x_size h < 32"
  shows "xxh_add_zeros n h = xxh_add (Some (replicate n 0)) n h"
proof (cases "(x_size h + n) mod 2 ^ 64 < 32")
  case True
  then show ?thesis by (simp add: xxh_add_zeros_def xxh_add_def zero_buffer_fill)
next
  case False
  then have large: "32 - x_size h \<le> n" by (metis add.commute le_diff_conv mod_less_eq_dividend not_le order_trans)
  have "(data_blocks (replicate m 0) s, fill_buffer b 0 (fst (data_blocks (replicate m 0) s)) (length (fst (data_blocks (replicate m 0) s)))) =
      ((replicate (fst (zero_blocks m s)) 0, snd (zero_blocks m s)), zero_buffer b 0 (fst (zero_blocks m s)))" for m s b
    by (simp add: zero_blocks_eq zero_buffer_fill)
  then show ?thesis
    using False large
    by (cases "x_size h > 0"; cases "zero_buffer (x_buffer h) (x_size h) (32 - x_size h)")
      (simp_all add: xxh_add_zeros_def xxh_add_def zero_buffer_fill Let_def split_beta)
qed

section \<open>Any pieces\<close>

text \<open>The pieces are added one after the other, each with bytes behind it that are not read.\<close>

fun add_pieces :: "(u8 list \<times> u8 list) list \<Rightarrow> xxhash \<Rightarrow> xxhash option" where
  "add_pieces [] h = Some h"
| "add_pieces ((ys, r) # ps) h = do { (h, _) \<leftarrow> xxh_add (Some (ys @ r)) (length ys) h; add_pieces ps h }"

lemma add_pieces_ok:
  "xxh_repr seed h xs \<Longrightarrow> \<forall>(ys, r)\<in>set ps. length ys + 31 < 2 ^ 64 \<Longrightarrow>
    \<exists>h'. add_pieces ps h = Some h' \<and> xxh_repr seed h' (xs @ concat (map fst ps))"
proof (induction ps arbitrary: h xs)
  case (Cons p ps)
  obtain ys r where p: "p = (ys, r)" by (cases p)
  obtain h' b where h': "xxh_add (Some (ys @ r)) (length ys) h = Some (h', b)" "xxh_repr seed h' (xs @ ys)"
  proof (cases "ys = []")
    case True
    then show thesis using that [of h False] Cons.prems(1) by (simp add: xxh_add_def)
  next
    case False
    then show thesis using that xxh_add_bytes [OF Cons.prems(1), of ys r] Cons.prems(2) p by auto
  qed
  then show ?case using Cons.IH [OF h'(2)] Cons.prems(2) p by simp
qed simp

text \<open>
  C38.  The hash of data that is added in pieces is the hash of the whole data in one call, however
  it is cut; adding the null pointer is adding zeros.
\<close>

theorem xxhash_streaming:
  assumes "\<forall>(ys, r)\<in>set ps. length ys + 31 < 2 ^ 64" "length (concat (map fst ps)) + 31 < 2 ^ 64"
  shows "(\<exists>h. add_pieces ps (xxh_new seed) = Some h
      \<and> xxh_once (Some (concat (map fst ps) @ r)) (length (concat (map fst ps))) seed = Some (xxh_hash h)
      \<and> (\<forall>n. xxh_add None n h = xxh_add (Some (replicate n 0)) n h))"
proof -
  let ?xs = "concat (map fst ps)"
  obtain h where h: "add_pieces ps (xxh_new seed) = Some h" "xxh_repr seed h ?xs"
    using add_pieces_ok [OF xxh_new_repr assms(1)] by auto
  obtain h' where h': "add_pieces [(?xs, r)] (xxh_new seed) = Some h'" "xxh_repr seed h' ?xs"
    using add_pieces_ok [OF xxh_new_repr, of "[(?xs, r)]"] assms(2) by auto
  have "xxh_once (Some (?xs @ r)) (length ?xs) seed = Some (xxh_hash h')"
    using h'(1) by (auto simp: xxh_once_def bind_eq_Some_conv split: prod.splits)
  moreover have "xxh_hash h' = xxh_hash h" by (rule xxh_hash_unique [OF h'(2) h(2)])
  moreover have "xxh_add None n h = xxh_add (Some (replicate n 0)) n h" for n
    using xxh_add_zeros_eq [of h n] h(2) by (cases "n = 0") (simp_all add: xxh_add_def xxh_repr_def)
  ultimately show ?thesis using h by auto
qed

theorem xxhash_streaming_witness:
  "\<exists>h. add_pieces [([97], [7]), ([], []), ([98, 99], [])] (xxh_new 1) = Some h
    \<and> xxh_once (Some [97, 98, 99]) 3 1 = Some (xxh_hash h)"
  using xxhash_streaming [of "[([97], [7]), ([], []), ([98, 99], [])]" 1 "[]"] by (simp add: numeral_3_eq_3) blast

text \<open>The published value for the empty input.\<close>

lemma xxhash_of_nothing: "xxh_hash (xxh_new 0) = 0xEF46DB3751D8E999"
  by (simp add: xxh_hash_def xxh_new_def eat_words.simps eat_half_def mix_bits_def Prime1_def Prime2_def Prime3_def
      Prime4_def Prime5_def Let_def)

end
