(* ===== verification/Endianness.thy ===== *)
theory Endianness
  imports Prelude
begin

text \<open>
  include/dlh/endian.hpp: swapping the bytes of a value, generically and for each width.

  The generic \<open>swap\<close> works on the bytes of the value, given as a list (the union of the code).
  Values of less than 32 bits are promoted to \<open>int\<close> before they are shifted; a right shift of a
  signed value keeps its sign.
\<close>

definition swap_bytes :: "u8 list \<Rightarrow> u8 list" where
  "swap_bytes s = map (\<lambda>i. s ! (length s - i - 1)) [0..<length s]"

definition swap_u16 :: "u16 \<Rightarrow> u16" where
  "swap_u16 v = (let v = (ucast v :: u32) in ucast (push_bit 8 v OR signed_drop_bit 8 v))"

definition swap_i16 :: "u16 \<Rightarrow> u16" where
  "swap_i16 v = (let v = (scast v :: u32) in ucast (push_bit 8 v OR (signed_drop_bit 8 v AND 0xFF)))"

definition swap_u32 :: "u32 \<Rightarrow> u32" where
  "swap_u32 v =
     (let v = (push_bit 8 v AND 0xFF00FF00) OR (drop_bit 8 v AND 0xFF00FF)
      in push_bit 16 v OR drop_bit 16 v)"

definition swap_i32 :: "u32 \<Rightarrow> u32" where
  "swap_i32 v =
     (let v = (push_bit 8 v AND 0xFF00FF00) OR (signed_drop_bit 8 v AND 0xFF00FF)
      in push_bit 16 v OR (signed_drop_bit 16 v AND 0xFFFF))"

definition swap_u64 :: "u64 \<Rightarrow> u64" where
  "swap_u64 v =
     (let v = (push_bit 8 v AND 0xFF00FF00FF00FF00) OR (drop_bit 8 v AND 0x00FF00FF00FF00FF);
          v = (push_bit 16 v AND 0xFFFF0000FFFF0000) OR (drop_bit 16 v AND 0x0000FFFF0000FFFF)
      in push_bit 32 v OR drop_bit 32 v)"

definition swap_i64 :: "u64 \<Rightarrow> u64" where
  "swap_i64 v =
     (let v = (push_bit 8 v AND 0xFF00FF00FF00FF00) OR (signed_drop_bit 8 v AND 0x00FF00FF00FF00FF);
          v = (push_bit 16 v AND 0xFFFF0000FFFF0000) OR (signed_drop_bit 16 v AND 0x0000FFFF0000FFFF)
      in push_bit 32 v OR (signed_drop_bit 32 v AND 0xFFFFFFFF))"

section \<open>Bytes of a value\<close>

definition bytes_of :: "nat \<Rightarrow> 'a::len word \<Rightarrow> u8 list" where
  "bytes_of n v = map (\<lambda>i. ucast (drop_bit (8 * i) v)) [0..<n]"

lemma length_bytes_of [simp]: "length (bytes_of n v) = n"
  by (simp add: bytes_of_def)

lemma bit_bytes_of: "i < n \<Longrightarrow> bit (bytes_of n v ! i) k \<longleftrightarrow> k < 8 \<and> bit v (8 * i + k)"
  by (simp add: bytes_of_def bit_ucast_iff bit_drop_bit_eq)

text \<open>A value whose bits are those of another with the bytes in the opposite order.\<close>

lemma swap_bytesI:
  assumes "\<And>i k. i < n \<Longrightarrow> k < 8 \<Longrightarrow> bit w (8 * i + k) \<longleftrightarrow> bit v (8 * (n - Suc i) + k)"
  shows "bytes_of n w = swap_bytes (bytes_of n v)"
proof (rule nth_equalityI)
  fix i assume "i < length (bytes_of n w)"
  then have i: "i < n" by simp
  show "bytes_of n w ! i = swap_bytes (bytes_of n v) ! i"
  proof (rule bit_word_eqI)
    fix k assume "k < LENGTH(8)"
    then show "bit (bytes_of n w ! i) k = bit (swap_bytes (bytes_of n v) ! i) k"
      using assms [OF i] i by (simp add: swap_bytes_def bit_bytes_of)
  qed
qed (simp add: swap_bytes_def)

lemma swap_bytes_twice: "swap_bytes (swap_bytes s) = s"
  by (rule nth_equalityI) (simp_all add: swap_bytes_def)

lemma bytes_of_inject: "LENGTH('a) = 8 * n \<Longrightarrow> bytes_of n v = bytes_of n w \<Longrightarrow> v = (w :: 'a::len word)"
proof (rule bit_word_eqI)
  fix k assume n: "LENGTH('a) = 8 * n" and eq: "bytes_of n v = bytes_of n w" and k: "k < LENGTH('a)"
  have "k div 8 < n" using n k by auto
  then have "bit v (8 * (k div 8) + k mod 8) = bit w (8 * (k div 8) + k mod 8)"
    using eq bit_bytes_of [of "k div 8" n v "k mod 8"] bit_bytes_of [of "k div 8" n w "k mod 8"] by simp
  then show "bit v k = bit w k" by simp
qed

lemma small_cases:
  assumes "i < (8 :: nat)"
  shows "i \<in> {0, 1, 2, 3, 4, 5, 6, 7}"
  using assms by (simp only: insert_iff empty_iff, presburger)

text \<open>The masks of the code: every second byte, every second pair, and so on.\<close>

lemma mask_bits:
  assumes "c < 8" "k < 8"
  shows "bit (0xFF00FF00 :: u32) (8 * c + k) \<longleftrightarrow> c = 1 \<or> c = 3"
    and "bit (0xFF00FF :: u32) (8 * c + k) \<longleftrightarrow> c = 0 \<or> c = 2"
    and "bit (0xFFFF :: u32) (8 * c + k) \<longleftrightarrow> c < 2"
    and "bit (0xFF :: u32) (8 * c + k) \<longleftrightarrow> c < 1"
    and "bit (0xFF00FF00FF00FF00 :: u64) (8 * c + k) \<longleftrightarrow> c = 1 \<or> c = 3 \<or> c = 5 \<or> c = 7"
    and "bit (0x00FF00FF00FF00FF :: u64) (8 * c + k) \<longleftrightarrow> c = 0 \<or> c = 2 \<or> c = 4 \<or> c = 6"
    and "bit (0xFFFF0000FFFF0000 :: u64) (8 * c + k) \<longleftrightarrow> c = 2 \<or> c = 3 \<or> c = 6 \<or> c = 7"
    and "bit (0x0000FFFF0000FFFF :: u64) (8 * c + k) \<longleftrightarrow> c = 0 \<or> c = 1 \<or> c = 4 \<or> c = 5"
    and "bit (0xFFFFFFFF :: u64) (8 * c + k) \<longleftrightarrow> c < 4"
proof -
  have byte: "bit (push_bit (8 * b) (mask 8) :: 'a::len word) (8 * c + k) \<longleftrightarrow> c = b \<and> 8 * c + k < LENGTH('a)" for b
    using assms by (auto simp: bit_push_bit_iff bit_mask_iff)
  note bytes = byte [of 0] byte [of 1] byte [of 2] byte [of 3] byte [of 4] byte [of 5] byte [of 6] byte [of 7]
  have masks:
    "(0xFF00FF00 :: u32) = push_bit (8 * 1) (mask 8) OR push_bit (8 * 3) (mask 8)"
    "(0xFF00FF :: u32) = push_bit (8 * 0) (mask 8) OR push_bit (8 * 2) (mask 8)"
    "(0xFFFF :: u32) = push_bit (8 * 0) (mask 8) OR push_bit (8 * 1) (mask 8)"
    "(0xFF :: u32) = push_bit (8 * 0) (mask 8)"
    "(0xFF00FF00FF00FF00 :: u64) = push_bit (8 * 1) (mask 8) OR push_bit (8 * 3) (mask 8) OR push_bit (8 * 5) (mask 8) OR push_bit (8 * 7) (mask 8)"
    "(0x00FF00FF00FF00FF :: u64) = push_bit (8 * 0) (mask 8) OR push_bit (8 * 2) (mask 8) OR push_bit (8 * 4) (mask 8) OR push_bit (8 * 6) (mask 8)"
    "(0xFFFF0000FFFF0000 :: u64) = push_bit (8 * 2) (mask 8) OR push_bit (8 * 3) (mask 8) OR push_bit (8 * 6) (mask 8) OR push_bit (8 * 7) (mask 8)"
    "(0x0000FFFF0000FFFF :: u64) = push_bit (8 * 0) (mask 8) OR push_bit (8 * 1) (mask 8) OR push_bit (8 * 4) (mask 8) OR push_bit (8 * 5) (mask 8)"
    "(0xFFFFFFFF :: u64) = push_bit (8 * 0) (mask 8) OR push_bit (8 * 1) (mask 8) OR push_bit (8 * 2) (mask 8) OR push_bit (8 * 3) (mask 8)"
    by (simp_all add: mask_eq_exp_minus_1)
  show "bit (0xFF00FF00 :: u32) (8 * c + k) \<longleftrightarrow> c = 1 \<or> c = 3"
    "bit (0xFF00FF :: u32) (8 * c + k) \<longleftrightarrow> c = 0 \<or> c = 2"
    "bit (0xFFFF :: u32) (8 * c + k) \<longleftrightarrow> c < 2"
    "bit (0xFF :: u32) (8 * c + k) \<longleftrightarrow> c < 1"
    "bit (0xFF00FF00FF00FF00 :: u64) (8 * c + k) \<longleftrightarrow> c = 1 \<or> c = 3 \<or> c = 5 \<or> c = 7"
    "bit (0x00FF00FF00FF00FF :: u64) (8 * c + k) \<longleftrightarrow> c = 0 \<or> c = 2 \<or> c = 4 \<or> c = 6"
    "bit (0xFFFF0000FFFF0000 :: u64) (8 * c + k) \<longleftrightarrow> c = 2 \<or> c = 3 \<or> c = 6 \<or> c = 7"
    "bit (0x0000FFFF0000FFFF :: u64) (8 * c + k) \<longleftrightarrow> c = 0 \<or> c = 1 \<or> c = 4 \<or> c = 5"
    "bit (0xFFFFFFFF :: u64) (8 * c + k) \<longleftrightarrow> c < 4"
    unfolding masks bit_or_iff byte using assms(2) by auto
qed

lemmas mask_at = mask_bits [of 0, simplified] mask_bits [of 1, simplified] mask_bits [of 2, simplified]
  mask_bits [of 3, simplified] mask_bits [of 4, simplified] mask_bits [of 5, simplified]
  mask_bits [of 6, simplified] mask_bits [of 7, simplified]

lemmas swap_bits = bit_and_iff bit_or_iff bit_push_bit_iff bit_drop_bit_eq o_apply bit_signed_drop_bit_iff
  bit_unsigned_iff bit_signed_iff

text \<open>Each of the functions moves the bytes like the generic one.\<close>

lemma swap_u16_bytes: "bytes_of 2 (swap_u16 v) = swap_bytes (bytes_of 2 v)"
proof (rule swap_bytesI)
  fix i k :: nat assume "i < 2" and k: "k < 8"
  then have "i \<in> {0, 1}" using small_cases [of i] by auto
  then show "bit (swap_u16 v) (8 * i + k) = bit v (8 * (2 - Suc i) + k)"
    using k unfolding swap_u16_def Let_def swap_bits by (elim insertE emptyE) (simp_all add: mask_at impossible_bit)
qed

lemma swap_i16_bytes: "bytes_of 2 (swap_i16 v) = swap_bytes (bytes_of 2 v)"
proof (rule swap_bytesI)
  fix i k :: nat assume "i < 2" and k: "k < 8"
  then have "i \<in> {0, 1}" using small_cases [of i] by auto
  then show "bit (swap_i16 v) (8 * i + k) = bit v (8 * (2 - Suc i) + k)"
    using k unfolding swap_i16_def Let_def swap_bits by (elim insertE emptyE) (simp_all add: mask_at impossible_bit)
qed

lemma swap_u32_bytes: "bytes_of 4 (swap_u32 v) = swap_bytes (bytes_of 4 v)"
proof (rule swap_bytesI)
  fix i k :: nat assume "i < 4" and k: "k < 8"
  then have "i \<in> {0, 1, 2, 3}" using small_cases [of i] by auto
  then show "bit (swap_u32 v) (8 * i + k) = bit v (8 * (4 - Suc i) + k)"
    using k unfolding swap_u32_def Let_def swap_bits by (elim insertE emptyE) (simp_all add: mask_at impossible_bit)
qed

lemma swap_i32_bytes: "bytes_of 4 (swap_i32 v) = swap_bytes (bytes_of 4 v)"
proof (rule swap_bytesI)
  fix i k :: nat assume "i < 4" and k: "k < 8"
  then have "i \<in> {0, 1, 2, 3}" using small_cases [of i] by auto
  then show "bit (swap_i32 v) (8 * i + k) = bit v (8 * (4 - Suc i) + k)"
    using k unfolding swap_i32_def Let_def swap_bits by (elim insertE emptyE) (simp_all add: mask_at impossible_bit)
qed

lemma swap_u64_bytes: "bytes_of 8 (swap_u64 v) = swap_bytes (bytes_of 8 v)"
proof (rule swap_bytesI)
  fix i k :: nat assume "i < 8" and k: "k < 8"
  then have "i \<in> {0, 1, 2, 3, 4, 5, 6, 7}" using small_cases [of i] by auto
  then show "bit (swap_u64 v) (8 * i + k) = bit v (8 * (8 - Suc i) + k)"
    using k unfolding swap_u64_def Let_def swap_bits by (elim insertE emptyE) (simp_all add: mask_at impossible_bit)
qed

lemma swap_i64_bytes: "bytes_of 8 (swap_i64 v) = swap_bytes (bytes_of 8 v)"
proof (rule swap_bytesI)
  fix i k :: nat assume "i < 8" and k: "k < 8"
  then have "i \<in> {0, 1, 2, 3, 4, 5, 6, 7}" using small_cases [of i] by auto
  then show "bit (swap_i64 v) (8 * i + k) = bit v (8 * (8 - Suc i) + k)"
    using k unfolding swap_i64_def Let_def swap_bits by (elim insertE emptyE) (simp_all add: mask_at impossible_bit)
qed

lemma swap_twice:
  assumes "LENGTH('a::len) = 8 * n" "\<And>v :: 'a word. bytes_of n (f v) = swap_bytes (bytes_of n v)"
  shows "f (f v) = v"
  by (rule bytes_of_inject [OF assms(1)]) (simp add: assms(2) swap_bytes_twice)

lemma swap_same:
  fixes f g :: "'a::len word \<Rightarrow> 'a word"
  assumes "LENGTH('a) = 8 * n" "\<And>v :: 'a word. bytes_of n (f v) = swap_bytes (bytes_of n v)"
    and "\<And>v :: 'a word. bytes_of n (g v) = swap_bytes (bytes_of n v)"
  shows "f v = g v"
  by (rule bytes_of_inject [OF assms(1)]) (simp add: assms(2,3))

text \<open>
  The functions for 16, 32 and 64 bit values, signed and unsigned, move the bytes like the
  generic \<open>swap\<close>; swapping twice gives the value back.
\<close>

theorem swap_correct:
  "bytes_of 2 (swap_u16 a) = swap_bytes (bytes_of 2 a) \<and> swap_u16 (swap_u16 a) = a \<and> swap_i16 a = swap_u16 a
    \<and> bytes_of 4 (swap_u32 b) = swap_bytes (bytes_of 4 b) \<and> swap_u32 (swap_u32 b) = b \<and> swap_i32 b = swap_u32 b
    \<and> bytes_of 8 (swap_u64 c) = swap_bytes (bytes_of 8 c) \<and> swap_u64 (swap_u64 c) = c \<and> swap_i64 c = swap_u64 c"
  by (intro conjI swap_u16_bytes swap_u32_bytes swap_u64_bytes
      swap_twice [of 2 swap_u16] swap_twice [of 4 swap_u32] swap_twice [of 8 swap_u64]
      swap_same [of 2 swap_i16 swap_u16] swap_same [of 4 swap_i32 swap_u32] swap_same [of 8 swap_i64 swap_u64]
      swap_i16_bytes swap_i32_bytes swap_i64_bytes) simp_all

end
