(* ===== verification/Locks.thy ===== *)
theory Locks
  imports Main
begin

text \<open>
  src/mutex.cpp: the futex mutex as a transition system.  Every atomic operation of the code is
  one step of one thread; the program counter of a thread says which operation it does next.
\<close>

section \<open>The mutex\<close>

datatype futex = FUTEX_UNLOCKED | FUTEX_LOCKED | FUTEX_LOCKED_WITH_WAITERS

text \<open>
  Not in a call, before the first compare-exchange of \<open>lock\<close>, before its exchange, before the
  futex call, asleep in it, between \<open>lock\<close> and \<open>unlock\<close>, and before the wake call of \<open>unlock\<close>.
\<close>

datatype mutex_pc = MIdle | MStart | MExchange | MWait | MAsleep | MHeld | MWake

record 't mutex =
  m_var :: futex
  m_pc :: "'t \<Rightarrow> mutex_pc"

definition mutex_init :: "'t mutex" where
  "mutex_init = \<lparr>m_var = FUTEX_UNLOCKED, m_pc = (\<lambda>_. MIdle)\<rparr>"

definition m_goto :: "'t \<Rightarrow> mutex_pc \<Rightarrow> 't mutex \<Rightarrow> 't mutex" where
  "m_goto t l s = s\<lparr>m_pc := (m_pc s)(t := l)\<rparr>"

definition m_set :: "futex \<Rightarrow> 't mutex \<Rightarrow> 't mutex" where
  "m_set v s = s\<lparr>m_var := v\<rparr>"

text \<open>
  The kernel puts a thread to sleep only while the variable has the expected value; a sleeping
  thread is woken, interrupted, or gives up when its time is over.
\<close>

inductive mutex_step :: "'t mutex \<Rightarrow> 't mutex \<Rightarrow> bool" where
  lock_call: "m_pc s t = MIdle \<Longrightarrow> mutex_step s (m_goto t MStart s)"
| lock_free: "m_pc s t = MStart \<Longrightarrow> m_var s = FUTEX_UNLOCKED \<Longrightarrow>
    mutex_step s (m_goto t MHeld (m_set FUTEX_LOCKED s))"
| lock_locked: "m_pc s t = MStart \<Longrightarrow> m_var s = FUTEX_LOCKED \<Longrightarrow> mutex_step s (m_goto t MExchange s)"
| lock_waiters: "m_pc s t = MStart \<Longrightarrow> m_var s = FUTEX_LOCKED_WITH_WAITERS \<Longrightarrow> mutex_step s (m_goto t MWait s)"
| exchange_free: "m_pc s t = MExchange \<Longrightarrow> m_var s = FUTEX_UNLOCKED \<Longrightarrow>
    mutex_step s (m_goto t MHeld (m_set FUTEX_LOCKED_WITH_WAITERS s))"
| exchange_busy: "m_pc s t = MExchange \<Longrightarrow> m_var s \<noteq> FUTEX_UNLOCKED \<Longrightarrow>
    mutex_step s (m_goto t MWait (m_set FUTEX_LOCKED_WITH_WAITERS s))"
| wait_sleep: "m_pc s t = MWait \<Longrightarrow> m_var s = FUTEX_LOCKED_WITH_WAITERS \<Longrightarrow> mutex_step s (m_goto t MAsleep s)"
| wait_again: "m_pc s t = MWait \<Longrightarrow> m_var s \<noteq> FUTEX_LOCKED_WITH_WAITERS \<Longrightarrow> mutex_step s (m_goto t MExchange s)"
| wait_interrupted: "m_pc s t = MAsleep \<Longrightarrow> mutex_step s (m_goto t MExchange s)"
| wait_timeout: "m_pc s t = MAsleep \<Longrightarrow> mutex_step s (m_goto t MIdle s)"
| trylock_free: "m_pc s t = MIdle \<Longrightarrow> m_var s = FUTEX_UNLOCKED \<Longrightarrow>
    mutex_step s (m_goto t MHeld (m_set FUTEX_LOCKED s))"
| trylock_busy: "m_pc s t = MIdle \<Longrightarrow> m_var s \<noteq> FUTEX_UNLOCKED \<Longrightarrow> mutex_step s s"
| unlock_quiet: "m_pc s t = MHeld \<Longrightarrow> m_var s = FUTEX_LOCKED \<Longrightarrow>
    mutex_step s (m_goto t MIdle (m_set FUTEX_UNLOCKED s))"
| unlock_waiters: "m_pc s t = MHeld \<Longrightarrow> m_var s \<noteq> FUTEX_LOCKED \<Longrightarrow>
    mutex_step s (m_goto t MWake (m_set FUTEX_UNLOCKED s))"
| wake_one: "m_pc s t = MWake \<Longrightarrow> m_pc s u = MAsleep \<Longrightarrow>
    mutex_step s (m_goto u MExchange (m_goto t MIdle s))"
| wake_none: "m_pc s t = MWake \<Longrightarrow> \<forall>u. m_pc s u \<noteq> MAsleep \<Longrightarrow> mutex_step s (m_goto t MIdle s)"

text \<open>
  A mutex has no owner: a thread that has taken it may leave it to another one, outside of the calls, to
  give it back (the readers of \<open>RWLock\<close> do).
\<close>

inductive mutex_reachable :: "'t mutex \<Rightarrow> bool" where
  start: "mutex_reachable mutex_init"
| step: "mutex_reachable s \<Longrightarrow> mutex_step s s' \<Longrightarrow> mutex_reachable s'"
| hand_over: "mutex_reachable s \<Longrightarrow> m_pc s t = MHeld \<Longrightarrow> m_pc s u = MIdle \<Longrightarrow>
    mutex_reachable (m_goto u MHeld (m_goto t MIdle s))"

text \<open>At most one thread holds the mutex, the variable says whether one does, and no wake-up is lost.\<close>

definition mutex_inv :: "'t mutex \<Rightarrow> bool" where
  "mutex_inv s \<longleftrightarrow>
     (\<forall>t u. m_pc s t = MHeld \<longrightarrow> m_pc s u = MHeld \<longrightarrow> t = u)
     \<and> (m_var s = FUTEX_UNLOCKED \<longleftrightarrow> (\<forall>t. m_pc s t \<noteq> MHeld))
     \<and> (\<forall>t. m_pc s t = MAsleep \<longrightarrow> m_var s = FUTEX_LOCKED_WITH_WAITERS \<or> (\<exists>u. m_pc s u = MExchange \<or> m_pc s u = MWake))"

lemma m_simps [simp]:
  "m_pc (m_goto t l s) = (m_pc s)(t := l)" "m_var (m_goto t l s) = m_var s"
  "m_pc (m_set v s) = m_pc s" "m_var (m_set v s) = v"
  by (simp_all add: m_goto_def m_set_def)

lemma mutex_inv_step: "mutex_step s s' \<Longrightarrow> mutex_inv s \<Longrightarrow> mutex_inv s'"
proof (induction rule: mutex_step.induct)
  case (wake_one s t u)
  let ?s = "m_goto u MExchange (m_goto t MIdle s)"
  have held: "m_pc ?s x = MHeld \<longleftrightarrow> m_pc s x = MHeld" for x using wake_one(1,2) by auto
  have var: "m_var ?s = m_var s" and awake: "m_pc ?s u = MExchange" by simp_all
  note i = wake_one(3) [unfolded mutex_inv_def]
  show ?case
    unfolding mutex_inv_def held var
    by (intro conjI conjunct1 [OF i] conjunct1 [OF conjunct2 [OF i]] allI impI disjI2 exI [of _ u] disjI1 awake)
qed (unfold mutex_inv_def, (auto; (metis mutex_pc.distinct)?)+)

lemma mutex_inv_hand_over:
  assumes "mutex_inv s" "m_pc s t = MHeld" "m_pc s u = MIdle"
  shows "mutex_inv (m_goto u MHeld (m_goto t MIdle s))"
proof -
  let ?s = "m_goto u MHeld (m_goto t MIdle s)"
  note i = assms(1) [unfolded mutex_inv_def]
  have held: "m_pc ?s x = MHeld \<longleftrightarrow> x = u" for x using i assms(2,3) by auto
  moreover have "m_var ?s \<noteq> FUTEX_UNLOCKED" using i assms(2) by auto
  moreover have "m_pc ?s x = l \<longleftrightarrow> m_pc s x = l" if "l \<notin> {MIdle, MHeld}" for x l using assms(2,3) that by auto
  ultimately show ?thesis using i unfolding mutex_inv_def by simp
qed

lemma mutex_reachable_inv: "mutex_reachable s \<Longrightarrow> mutex_inv s"
proof (induction rule: mutex_reachable.induct)
  case start
  then show ?case by (simp add: mutex_inv_def mutex_init_def)
next
  case (step s s')
  then show ?case by (blast intro: mutex_inv_step)
next
  case (hand_over s t u)
  then show ?case by (blast intro: mutex_inv_hand_over)
qed

text \<open>
  The mutex implements a flag: a step keeps it and its holder, or one thread takes it while it is free, or
  the one that holds it gives it back.
\<close>

lemma mutex_step_flag:
  assumes "mutex_reachable s" "mutex_step s s'"
  shows "(\<forall>t. m_pc s' t = MHeld \<longleftrightarrow> m_pc s t = MHeld)
    \<or> (\<exists>t. (\<forall>u. m_pc s u \<noteq> MHeld) \<and> (\<forall>u. m_pc s' u = MHeld \<longleftrightarrow> u = t))
    \<or> (\<exists>t. m_pc s t = MHeld \<and> (\<forall>u. m_pc s' u \<noteq> MHeld))"
proof -
  have one: "\<forall>t u. m_pc s t = MHeld \<longrightarrow> m_pc s u = MHeld \<longrightarrow> t = u"
    and free: "m_var s = FUTEX_UNLOCKED \<longrightarrow> (\<forall>t. m_pc s t \<noteq> MHeld)"
    using mutex_reachable_inv [OF assms(1)] by (simp_all add: mutex_inv_def)
  show ?thesis using assms(2) one free
  proof (induction rule: mutex_step.induct)
    case (lock_free s t)
    then show ?case by (intro disjI2 disjI1 exI [of _ t]) simp
  next
    case (exchange_free s t)
    then show ?case by (intro disjI2 disjI1 exI [of _ t]) simp
  next
    case (trylock_free s t)
    then show ?case by (intro disjI2 disjI1 exI [of _ t]) simp
  next
    case (unlock_quiet s t)
    then show ?case by (intro disjI2 exI [of _ t]) auto
  next
    case (unlock_waiters s t)
    then show ?case by (intro disjI2 exI [of _ t]) auto
  qed (rule disjI1, auto)+
qed

text \<open>
  C18.  In every state that threads can reach by interleaved \<open>lock\<close>, \<open>trylock\<close> and \<open>unlock\<close>, also when
  another thread than the one that took it gives the mutex back, at most one holds the mutex;
  \<open>trylock\<close> finds it free exactly when none does; and when a thread sleeps, the holder will wake one,
  or another thread is already awake that will take the mutex.
\<close>

theorem mutex_correct:
  assumes "mutex_reachable s"
  shows "(\<forall>t u. m_pc s t = MHeld \<longrightarrow> m_pc s u = MHeld \<longrightarrow> t = u)
    \<and> (m_var s = FUTEX_UNLOCKED \<longleftrightarrow> (\<forall>t. m_pc s t \<noteq> MHeld))
    \<and> (\<forall>t. m_pc s t = MAsleep \<longrightarrow>
        (\<exists>u. m_pc s u = MHeld \<and> m_var s = FUTEX_LOCKED_WITH_WAITERS) \<or> (\<exists>u. m_pc s u = MExchange \<or> m_pc s u = MWake))"
  using mutex_reachable_inv [OF assms] unfolding mutex_inv_def by (metis futex.distinct(3))

theorem mutex_correct_witness:
  "\<exists>s :: bool mutex. mutex_reachable s \<and> m_pc s True = MHeld \<and> m_pc s False = MAsleep \<and> m_var s = FUTEX_LOCKED_WITH_WAITERS"
proof -
  define s1 :: "bool mutex" where "s1 = m_goto True MHeld (m_set FUTEX_LOCKED mutex_init)"
  define s2 where "s2 = m_goto False MStart s1"
  define s3 where "s3 = m_goto False MExchange s2"
  define s4 where "s4 = m_goto False MWait (m_set FUTEX_LOCKED_WITH_WAITERS s3)"
  define s5 where "s5 = m_goto False MAsleep s4"
  note defs = s5_def s4_def s3_def s2_def s1_def mutex_init_def
  have "mutex_reachable s1" unfolding s1_def
    by (rule mutex_reachable.step [OF mutex_reachable.start]) (rule trylock_free, simp_all add: mutex_init_def)
  then have "mutex_reachable s2" unfolding s2_def
    by (rule mutex_reachable.step) (rule lock_call, simp add: defs)
  then have "mutex_reachable s3" unfolding s3_def
    by (rule mutex_reachable.step) (rule lock_locked, simp_all add: defs)
  then have "mutex_reachable s4" unfolding s4_def
    by (rule mutex_reachable.step) (rule exchange_busy, simp_all add: defs)
  then have r: "mutex_reachable s5" unfolding s5_def
    by (rule mutex_reachable.step) (rule wait_sleep, simp_all add: defs)
  from mutex_correct [OF r] have "\<exists>u. m_pc s5 u = MHeld" by (auto simp: defs)
  then have "m_pc s5 True = MHeld" by (auto simp: defs)
  with r show ?thesis by (intro exI [of _ s5]) (simp add: defs)
qed

end
