(* ===== verification/ReadersWriter.thy ===== *)
theory ReadersWriter
  imports "HOL-Library.Word"
begin

text \<open>
  include/dlh/rwlock.hpp: \<open>RWLock\<close> as a transition system on top of two mutexes.

  A mutex is whether it is held: a thread takes it in one step when it is free, and another thread may
  give it back, as the last reader does with the global mutex that the first one took; theory Locks shows
  of \<open>Mutex\<close> that it is such a flag, and that it may be handed over (\<open>mutex_step_flag\<close>, \<open>hand_over\<close>).  Each access
  to \<open>block\<close> and each call on a mutex is one step of one thread; the program counter of the thread says which
  is next.  \<open>block\<close> is an \<open>unsigned\<close> and wraps around; it counts right as long as there are fewer than \<open>2 ^ 32\<close>
  threads.
\<close>

text \<open>
  Outside, before \<open>++block\<close> of \<open>read_lock\<close> and of \<open>read_trylock\<close>, before taking the global mutex in
  each of them, before \<open>block--\<close> of a failed attempt, before releasing the reader mutex with and
  without success, reading, before \<open>--block\<close> of \<open>read_unlock\<close>, before releasing the global mutex, and
  writing.
\<close>

datatype rw_pc = Outside | Enter | EnterTry | Global | GlobalTry | Undo | Admit | Refuse
  | Reading | Leave | Release | Writing

record 't rwlock =
  rw_block :: "32 word"
  rw_reader :: bool
  rw_global :: bool
  rw_pc :: "'t \<Rightarrow> rw_pc"

definition rw_init :: "'t rwlock" where
  "rw_init = \<lparr>rw_block = 0, rw_reader = False, rw_global = False, rw_pc = (\<lambda>_. Outside)\<rparr>"

definition rw_goto :: "'t \<Rightarrow> rw_pc \<Rightarrow> 't rwlock \<Rightarrow> 't rwlock" where
  "rw_goto t l s = s\<lparr>rw_pc := (rw_pc s)(t := l)\<rparr>"

inductive rw_step :: "'t rwlock \<Rightarrow> 't rwlock \<Rightarrow> bool" where
  read_lock: "rw_pc s t = Outside \<Longrightarrow> \<not> rw_reader s \<Longrightarrow> rw_step s (rw_goto t Enter (s\<lparr>rw_reader := True\<rparr>))"
| read_trylock: "rw_pc s t = Outside \<Longrightarrow> \<not> rw_reader s \<Longrightarrow> rw_step s (rw_goto t EnterTry (s\<lparr>rw_reader := True\<rparr>))"
| read_trylock_busy: "rw_pc s t = Outside \<Longrightarrow> rw_reader s \<Longrightarrow> rw_step s s"
| enter: "rw_pc s t = Enter \<Longrightarrow>
    rw_step s (rw_goto t (if rw_block s + 1 = 1 then Global else Admit) (s\<lparr>rw_block := rw_block s + 1\<rparr>))"
| enter_try: "rw_pc s t = EnterTry \<Longrightarrow>
    rw_step s (rw_goto t (if rw_block s + 1 = 1 then GlobalTry else Admit) (s\<lparr>rw_block := rw_block s + 1\<rparr>))"
| global_lock: "rw_pc s t = Global \<Longrightarrow> \<not> rw_global s \<Longrightarrow> rw_step s (rw_goto t Admit (s\<lparr>rw_global := True\<rparr>))"
| global_trylock: "rw_pc s t = GlobalTry \<Longrightarrow> \<not> rw_global s \<Longrightarrow> rw_step s (rw_goto t Admit (s\<lparr>rw_global := True\<rparr>))"
| global_busy: "rw_pc s t = GlobalTry \<Longrightarrow> rw_global s \<Longrightarrow> rw_step s (rw_goto t Undo s)"
| undo: "rw_pc s t = Undo \<Longrightarrow> rw_step s (rw_goto t Refuse (s\<lparr>rw_block := rw_block s - 1\<rparr>))"
| admit: "rw_pc s t = Admit \<Longrightarrow> rw_step s (rw_goto t Reading (s\<lparr>rw_reader := False\<rparr>))"
| refuse: "rw_pc s t = Refuse \<Longrightarrow> rw_step s (rw_goto t Outside (s\<lparr>rw_reader := False\<rparr>))"
| read_unlock: "rw_pc s t = Reading \<Longrightarrow> \<not> rw_reader s \<Longrightarrow> rw_step s (rw_goto t Leave (s\<lparr>rw_reader := True\<rparr>))"
| leave: "rw_pc s t = Leave \<Longrightarrow>
    rw_step s (rw_goto t (if rw_block s - 1 = 0 then Release else Refuse) (s\<lparr>rw_block := rw_block s - 1\<rparr>))"
| global_unlock: "rw_pc s t = Release \<Longrightarrow> rw_step s (rw_goto t Refuse (s\<lparr>rw_global := False\<rparr>))"
| write_lock: "rw_pc s t = Outside \<Longrightarrow> \<not> rw_global s \<Longrightarrow> rw_step s (rw_goto t Writing (s\<lparr>rw_global := True\<rparr>))"
| write_trylock_busy: "rw_pc s t = Outside \<Longrightarrow> rw_global s \<Longrightarrow> rw_step s s"
| write_unlock: "rw_pc s t = Writing \<Longrightarrow> rw_step s (rw_goto t Outside (s\<lparr>rw_global := False\<rparr>))"

abbreviation rw_reachable :: "'t rwlock \<Rightarrow> bool" where
  "rw_reachable s \<equiv> rw_step\<^sup>*\<^sup>* rw_init s"

text \<open>The threads that \<open>block\<close> counts, that are inside of the reader mutex, and for which it is held.\<close>

definition counted :: "rw_pc \<Rightarrow> bool" where
  "counted l \<longleftrightarrow> l \<in> {Global, GlobalTry, Undo, Admit, Reading, Leave}"

definition inside :: "rw_pc \<Rightarrow> bool" where
  "inside l \<longleftrightarrow> l \<in> {Enter, EnterTry, Global, GlobalTry, Undo, Admit, Refuse, Leave, Release}"

definition sharing :: "rw_pc \<Rightarrow> bool" where
  "sharing l \<longleftrightarrow> l \<in> {Admit, Reading, Leave, Release}"

text \<open>\<open>block\<close> is the number of counted threads.\<close>

definition rw_count :: "'t rwlock \<Rightarrow> bool" where
  "rw_count s \<longleftrightarrow> finite {t. counted (rw_pc s t)} \<and> unat (rw_block s) = card {t. counted (rw_pc s t)}"

text \<open>
  One thread is inside of the reader mutex; while one takes or has just given back the global mutex for the
  readers, no other is counted; and the global mutex is held by one writer or shared by readers.
\<close>

definition rw_excl :: "'t rwlock \<Rightarrow> bool" where
  "rw_excl s \<longleftrightarrow>
     (\<forall>t. inside (rw_pc s t) \<longrightarrow> rw_reader s)
     \<and> (\<forall>t u. inside (rw_pc s t) \<longrightarrow> inside (rw_pc s u) \<longrightarrow> t = u)
     \<and> (\<forall>t. rw_pc s t = Writing \<or> sharing (rw_pc s t) \<longrightarrow> rw_global s)
     \<and> (\<forall>t u. rw_pc s t = Writing \<longrightarrow> rw_pc s u = Writing \<or> sharing (rw_pc s u) \<longrightarrow> t = u)
     \<and> (\<forall>t u. rw_pc s t \<in> {Global, GlobalTry, Undo, Release} \<longrightarrow> counted (rw_pc s u) \<longrightarrow> t = u)"

lemma rw_simps [simp]:
  "rw_pc (rw_goto t l s) = (rw_pc s)(t := l)" "rw_block (rw_goto t l s) = rw_block s"
  "rw_reader (rw_goto t l s) = rw_reader s" "rw_global (rw_goto t l s) = rw_global s"
  by (simp_all add: rw_goto_def)

lemma pcs [simp]:
  "\<not> counted Outside" "\<not> counted Enter" "\<not> counted EnterTry" "counted Global" "counted GlobalTry" "counted Undo"
  "counted Admit" "\<not> counted Refuse" "counted Reading" "counted Leave" "\<not> counted Release" "\<not> counted Writing"
  "\<not> inside Outside" "inside Enter" "inside EnterTry" "inside Global" "inside GlobalTry" "inside Undo"
  "inside Admit" "inside Refuse" "\<not> inside Reading" "inside Leave" "inside Release" "\<not> inside Writing"
  "\<not> sharing Outside" "\<not> sharing Enter" "\<not> sharing EnterTry" "\<not> sharing Global" "\<not> sharing GlobalTry" "\<not> sharing Undo"
  "sharing Admit" "\<not> sharing Refuse" "sharing Reading" "sharing Leave" "sharing Release" "\<not> sharing Writing"
  by (simp_all add: counted_def inside_def sharing_def)

lemma rw_count_goto:
  assumes "rw_count s" and "rw_pc s' = (rw_pc s)(t := l)"
    and "unat (rw_block s') = unat (rw_block s) + (if counted l then 1 else 0) - (if counted (rw_pc s t) then 1 else 0)"
  shows "rw_count s'"
proof -
  let ?C = "{u. counted (rw_pc s u)}"
  have "{u. counted (rw_pc s' u)} = (if counted l then insert t ?C else ?C - {t})"
    unfolding assms(2) by auto
  moreover have "finite ?C" "unat (rw_block s) = card ?C" using assms(1) by (simp_all add: rw_count_def)
  moreover have "t \<in> ?C \<longleftrightarrow> counted (rw_pc s t)" by simp
  ultimately show ?thesis
    using assms(3) unfolding rw_count_def by (cases "counted l"; cases "counted (rw_pc s t)") (simp_all add: insert_absorb)
qed

text \<open>Fewer threads than \<open>block\<close> can count.\<close>

definition few_threads :: "'t itself \<Rightarrow> bool" where
  "few_threads _ \<longleftrightarrow> finite (UNIV :: 't set) \<and> card (UNIV :: 't set) < 2 ^ 32"

lemma block_up:
  fixes s :: "'t rwlock"
  assumes "few_threads TYPE('t)" "rw_count s" "\<not> counted (rw_pc s t)"
  shows "unat (rw_block s + 1) = unat (rw_block s) + 1"
proof -
  let ?C = "{u. counted (rw_pc s u)}"
  have f: "finite (UNIV :: 't set)" "card (UNIV :: 't set) < 2 ^ 32" using assms(1) by (simp_all add: few_threads_def)
  have "card ?C < card (UNIV :: 't set)"
    using assms(3) by (intro psubset_card_mono f(1)) auto
  then have "unat (rw_block s) + 1 < 2 ^ 32" using f(2) assms(2) by (simp add: rw_count_def)
  then show ?thesis by (simp add: unat_word_ariths)
qed

lemma block_down:
  assumes "rw_count s" "counted (rw_pc s t)"
  shows "unat (rw_block s - 1) = unat (rw_block s) - 1" and "rw_block s \<noteq> 0"
proof -
  have "0 < unat (rw_block s)" using assms by (auto simp: rw_count_def card_gt_0_iff)
  then show "rw_block s \<noteq> 0" by auto
  then show "unat (rw_block s - 1) = unat (rw_block s) - 1" by (simp add: unat_sub word_le_nat_alt Suc_le_eq unat_gt_0)
qed

lemma rw_count_step:
  fixes s :: "'t rwlock"
  assumes few: "few_threads TYPE('t)"
  shows "rw_step s s' \<Longrightarrow> rw_count s \<Longrightarrow> rw_count s'"
proof (induction rule: rw_step.induct)
  case (enter s t)
  then show ?case using block_up [OF few enter(2), of t] by (intro rw_count_goto [OF enter(2)], simp) simp
next
  case (enter_try s t)
  then show ?case using block_up [OF few enter_try(2), of t] by (intro rw_count_goto [OF enter_try(2)], simp) simp
next
  case (undo s t)
  then show ?case using block_down [OF undo(2), of t] by (intro rw_count_goto [OF undo(2)], simp) simp
next
  case (leave s t)
  then show ?case using block_down [OF leave(2), of t] by (intro rw_count_goto [OF leave(2)], simp) simp
qed (assumption | erule rw_count_goto, simp, simp split: if_splits)+

text \<open>What a thread finds that looks at \<open>block\<close>.\<close>

lemma rw_block_others:
  assumes "rw_count s" "rw_excl s" "inside (rw_pc s t)"
  shows "unat (rw_block s) \<le> (if counted (rw_pc s t) then 1 else 0) \<Longrightarrow> counted (rw_pc s u) \<Longrightarrow> u = t"
    and "unat (rw_block s) > (if counted (rw_pc s t) then 1 else 0) \<Longrightarrow> \<exists>u. rw_pc s u = Reading"
proof -
  let ?C = "{u. counted (rw_pc s u)}"
  have C: "finite ?C" "unat (rw_block s) = card ?C" using assms(1) by (simp_all add: rw_count_def)
  show "u = t" if "unat (rw_block s) \<le> (if counted (rw_pc s t) then 1 else 0)" "counted (rw_pc s u)"
  proof (rule ccontr)
    assume "u \<noteq> t"
    show False
    proof (cases "counted (rw_pc s t)")
      case True
      then have "card {u, t} \<le> card ?C" using that(2) by (intro card_mono C) auto
      then show False using \<open>u \<noteq> t\<close> that(1) C True by simp
    next
      case False
      then show False using that C by simp
    qed
  qed
  show "\<exists>u. rw_pc s u = Reading" if "unat (rw_block s) > (if counted (rw_pc s t) then 1 else 0)"
  proof -
    have "\<not> ?C \<subseteq> {t}"
    proof
      assume sub: "?C \<subseteq> {t}"
      then have "card ?C \<le> (if counted (rw_pc s t) then 1 else 0)"
        using card_mono [OF _ sub] by (auto simp: card_eq_0_iff split: if_splits)
      then show False using that C by simp
    qed
    then obtain u where u: "counted (rw_pc s u)" "u \<noteq> t" by auto
    then have "\<not> inside (rw_pc s u)" using assms(2,3) by (auto simp: rw_excl_def)
    with u(1) show ?thesis by (intro exI [of _ u]) (cases "rw_pc s u"; simp)
  qed
qed

text \<open>What the invariant says of the other threads, and what they have to do with a new program counter.\<close>

lemma rw_others:
  assumes "rw_excl s"
  shows "inside (rw_pc s t) \<Longrightarrow> rw_reader s \<and> (\<forall>u. u \<noteq> t \<longrightarrow> \<not> inside (rw_pc s u))"
    and "sharing (rw_pc s t) \<Longrightarrow> rw_global s \<and> (\<forall>u. rw_pc s u \<noteq> Writing)"
    and "rw_pc s t = Writing \<Longrightarrow> rw_global s \<and> (\<forall>u. u \<noteq> t \<longrightarrow> rw_pc s u \<noteq> Writing \<and> \<not> sharing (rw_pc s u))"
    and "rw_pc s t \<in> {Global, GlobalTry, Undo, Release} \<Longrightarrow> \<forall>u. u \<noteq> t \<longrightarrow> \<not> counted (rw_pc s u)"
    and "\<not> rw_reader s \<Longrightarrow> \<forall>u. \<not> inside (rw_pc s u)"
    and "\<not> rw_global s \<Longrightarrow> \<forall>u. rw_pc s u \<noteq> Writing \<and> \<not> sharing (rw_pc s u)"
  using assms unfolding rw_excl_def by (blast, metis pcs(36), blast, blast, blast, blast)

lemma inside_special: "l \<in> {Global, GlobalTry, Undo, Release} \<Longrightarrow> inside l"
  by auto

lemma sharing_cases: "sharing l \<Longrightarrow> counted l \<or> inside l"
  by (cases l) simp_all

lemma rw_excl_goto:
  assumes "rw_excl s" "rw_pc s' = (rw_pc s)(t := l)"
    and "inside l \<Longrightarrow> rw_reader s' \<and> (\<forall>u. u \<noteq> t \<longrightarrow> \<not> inside (rw_pc s u))"
    and "rw_reader s \<Longrightarrow> \<not> rw_reader s' \<Longrightarrow> \<forall>u. u \<noteq> t \<longrightarrow> \<not> inside (rw_pc s u)"
    and "l = Writing \<or> sharing l \<Longrightarrow> rw_global s'"
    and "rw_global s \<Longrightarrow> \<not> rw_global s' \<Longrightarrow> \<forall>u. u \<noteq> t \<longrightarrow> rw_pc s u \<noteq> Writing \<and> \<not> sharing (rw_pc s u)"
    and "l = Writing \<Longrightarrow> \<forall>u. u \<noteq> t \<longrightarrow> rw_pc s u \<noteq> Writing \<and> \<not> sharing (rw_pc s u)"
    and "sharing l \<Longrightarrow> \<forall>u. u \<noteq> t \<longrightarrow> rw_pc s u \<noteq> Writing"
    and "l \<in> {Global, GlobalTry, Undo, Release} \<Longrightarrow> \<forall>u. u \<noteq> t \<longrightarrow> \<not> counted (rw_pc s u)"
    and "counted l \<Longrightarrow> \<forall>u. u \<noteq> t \<longrightarrow> rw_pc s u \<notin> {Global, GlobalTry, Undo, Release}"
  shows "rw_excl s'"
proof -
  have pc: "rw_pc s' x = (if x = t then l else rw_pc s x)" for x unfolding assms(2) by simp
  show ?thesis
    unfolding rw_excl_def
  proof (intro conjI allI impI)
    fix x assume x: "inside (rw_pc s' x)"
    show "rw_reader s'"
    proof (cases "x = t")
      case True
      then show ?thesis using x assms(3) unfolding pc by simp
    next
      case False
      then have "inside (rw_pc s x)" using x unfolding pc by simp
      then show ?thesis using rw_others(1) [OF assms(1)] assms(4) False by blast
    qed
    fix y assume y: "inside (rw_pc s' y)"
    show "x = y"
    proof (rule ccontr)
      assume xy: "x \<noteq> y"
      consider "x = t" | "y = t" | "x \<noteq> t" "y \<noteq> t" by blast
      then show False
      proof cases
        case 1
        then have "inside l" "inside (rw_pc s y)" using x y xy unfolding pc by simp_all
        then show False using assms(3) 1 xy by simp
      next
        case 2
        then have "inside l" "inside (rw_pc s x)" using x y xy unfolding pc by simp_all
        then show False using assms(3) 2 xy by simp
      next
        case 3
        then have "inside (rw_pc s x)" "inside (rw_pc s y)" using x y unfolding pc by simp_all
        then show False using rw_others(1) [OF assms(1), of x] xy by simp
      qed
    qed
  next
    fix x assume x: "rw_pc s' x = Writing \<or> sharing (rw_pc s' x)"
    show "rw_global s'"
    proof (cases "x = t")
      case True
      then show ?thesis using x assms(5) unfolding pc by simp
    next
      case False
      then have "rw_pc s x = Writing \<or> sharing (rw_pc s x)" using x unfolding pc by simp
      moreover from this have "rw_global s" using rw_others(2,3) [OF assms(1)] by blast
      ultimately show ?thesis using assms(6) False by blast
    qed
  next
    fix x y assume x: "rw_pc s' x = Writing" and y: "rw_pc s' y = Writing \<or> sharing (rw_pc s' y)"
    show "x = y"
    proof (rule ccontr)
      assume xy: "x \<noteq> y"
      consider "x = t" | "y = t" | "x \<noteq> t" "y \<noteq> t" by blast
      then show False
      proof cases
        case 1
        then have "l = Writing" "rw_pc s y = Writing \<or> sharing (rw_pc s y)" "y \<noteq> t" using x y xy unfolding pc by simp_all
        then show False using assms(7) by blast
      next
        case 2
        then have l: "l = Writing \<or> sharing l" and w: "rw_pc s x = Writing" using x y xy unfolding pc by simp_all
        have "x \<noteq> t" using 2 xy by simp
        from l show False
        proof
          assume "l = Writing"
          then show False using assms(7) w \<open>x \<noteq> t\<close> by blast
        next
          assume "sharing l"
          then show False using assms(8) w \<open>x \<noteq> t\<close> by blast
        qed
      next
        case 3
        then have "rw_pc s x = Writing" "rw_pc s y = Writing \<or> sharing (rw_pc s y)" using x y unfolding pc by simp_all
        note rw_others(3) [OF assms(1) this(1)]
        then have "rw_pc s y \<noteq> Writing \<and> \<not> sharing (rw_pc s y)" using xy by auto
        then show False using \<open>rw_pc s y = Writing \<or> sharing (rw_pc s y)\<close> by blast
      qed
    qed
  next
    fix x y assume x: "rw_pc s' x \<in> {Global, GlobalTry, Undo, Release}" and y: "counted (rw_pc s' y)"
    show "x = y"
    proof (rule ccontr)
      assume xy: "x \<noteq> y"
      consider "x = t" | "y = t" | "x \<noteq> t" "y \<noteq> t" by blast
      then show False
      proof cases
        case 1
        then have "l \<in> {Global, GlobalTry, Undo, Release}" "counted (rw_pc s y)" "y \<noteq> t" using x y xy unfolding pc by simp_all
        then show False using assms(9) by blast
      next
        case 2
        then have "counted l" "rw_pc s x \<in> {Global, GlobalTry, Undo, Release}" "x \<noteq> t" using x y xy unfolding pc by simp_all
        then show False using assms(10) by blast
      next
        case 3
        then have "rw_pc s x \<in> {Global, GlobalTry, Undo, Release}" "counted (rw_pc s y)" using x y unfolding pc by simp_all
        note rw_others(4) [OF assms(1) this(1)]
        then have "\<not> counted (rw_pc s y)" using xy by auto
        then show False using \<open>counted (rw_pc s y)\<close> by blast
      qed
    qed
  qed
qed

lemma rw_block_facts:
  assumes "rw_count s" "rw_excl s" "inside (rw_pc s t)"
  shows "rw_block s = (if counted (rw_pc s t) then 1 else 0) \<Longrightarrow> \<forall>u. u \<noteq> t \<longrightarrow> \<not> counted (rw_pc s u)"
    and "rw_block s \<noteq> (if counted (rw_pc s t) then 1 else 0) \<Longrightarrow> rw_global s \<and> (\<forall>u. rw_pc s u \<noteq> Writing)"
proof -
  have n: "unat (rw_block s) = (if counted (rw_pc s t) then 1 else 0) \<longleftrightarrow> rw_block s = (if counted (rw_pc s t) then 1 else 0)"
    by (simp add: word_unat_eq_iff)
  show "\<forall>u. u \<noteq> t \<longrightarrow> \<not> counted (rw_pc s u)" if "rw_block s = (if counted (rw_pc s t) then 1 else 0)"
    using rw_block_others(1) [OF assms] that n by auto
  assume "rw_block s \<noteq> (if counted (rw_pc s t) then 1 else 0)"
  moreover have "(if counted (rw_pc s t) then 1 else 0) \<le> unat (rw_block s)"
    using block_down(2) [OF assms(1), of t] by (simp add: Suc_le_eq unat_gt_0)
  ultimately have "unat (rw_block s) > (if counted (rw_pc s t) then 1 else 0)" using n by linarith
  then obtain u where "rw_pc s u = Reading" using rw_block_others(2) [OF assms] by blast
  then show "rw_global s \<and> (\<forall>u. rw_pc s u \<noteq> Writing)" using rw_others(2) [OF assms(2), of u] by simp
qed

lemma rw_excl_step: "rw_step s s' \<Longrightarrow> rw_count s \<Longrightarrow> rw_excl s \<Longrightarrow> rw_excl s'"
proof (induction rule: rw_step.induct)
  case (enter s t)
  then have i: "inside (rw_pc s t)" "\<not> counted (rw_pc s t)" by simp_all
  note o' = rw_others(1) [OF enter(3) i(1)] and b = rw_block_facts [OF enter(2,3) i(1)]
  show ?case
    by (rule rw_excl_goto [OF enter(3)], simp; cases "rw_block s = 0") (use o' b i(2) in \<open>auto dest: inside_special\<close>)
next
  case (enter_try s t)
  then have i: "inside (rw_pc s t)" "\<not> counted (rw_pc s t)" by simp_all
  note o' = rw_others(1) [OF enter_try(3) i(1)] and b = rw_block_facts [OF enter_try(2,3) i(1)]
  show ?case
    by (rule rw_excl_goto [OF enter_try(3)], simp; cases "rw_block s = 0") (use o' b i(2) in \<open>auto dest: inside_special\<close>)
next
  case (leave s t)
  then have i: "inside (rw_pc s t)" "counted (rw_pc s t)" "sharing (rw_pc s t)" by simp_all
  note o' = rw_others(1) [OF leave(3) i(1)] rw_others(2) [OF leave(3) i(3)] and b = rw_block_facts(1) [OF leave(2,3) i(1)]
  have "rw_block s - 1 = 0 \<longleftrightarrow> rw_block s = 1" by simp
  then show ?case
    using b i(2) by (intro rw_excl_goto [OF leave(3)], simp; cases "rw_block s = 1") (use o' in \<open>auto dest: inside_special\<close>)
next
  case (global_lock s t)
  then have i: "inside (rw_pc s t)" "rw_pc s t \<in> {Global, GlobalTry, Undo, Release}" by simp_all
  note o' = rw_others(1) [OF global_lock(4) i(1)] rw_others(6) [OF global_lock(4,2)] rw_others(4) [OF global_lock(4) i(2)]
  show ?case by (rule rw_excl_goto [OF global_lock(4)], simp) (use o' in \<open>auto dest: inside_special\<close>)
next
  case (global_trylock s t)
  then have i: "inside (rw_pc s t)" "rw_pc s t \<in> {Global, GlobalTry, Undo, Release}" by simp_all
  note o' = rw_others(1) [OF global_trylock(4) i(1)] rw_others(6) [OF global_trylock(4,2)] rw_others(4) [OF global_trylock(4) i(2)]
  show ?case by (rule rw_excl_goto [OF global_trylock(4)], simp) (use o' in \<open>auto dest: inside_special\<close>)
next
  case (global_busy s t)
  then have i: "inside (rw_pc s t)" "rw_pc s t \<in> {Global, GlobalTry, Undo, Release}" by simp_all
  note o' = rw_others(1) [OF global_busy(4) i(1)] rw_others(4) [OF global_busy(4) i(2)]
  show ?case by (rule rw_excl_goto [OF global_busy(4)], simp) (use o' in \<open>auto dest: inside_special\<close>)
next
  case (undo s t)
  then have i: "inside (rw_pc s t)" by simp
  note o' = rw_others(1) [OF undo(3) i]
  show ?case by (rule rw_excl_goto [OF undo(3)], simp) (use o' in auto)
next
  case (admit s t)
  then have i: "inside (rw_pc s t)" "sharing (rw_pc s t)" by simp_all
  note o' = rw_others(1) [OF admit(3) i(1)] rw_others(2) [OF admit(3) i(2)]
  show ?case by (rule rw_excl_goto [OF admit(3)], simp) (use o' in \<open>auto dest: inside_special\<close>)
next
  case (refuse s t)
  then have i: "inside (rw_pc s t)" by simp
  note o' = rw_others(1) [OF refuse(3) i]
  show ?case by (rule rw_excl_goto [OF refuse(3)], simp) (use o' in auto)
next
  case (global_unlock s t)
  then have i: "inside (rw_pc s t)" "sharing (rw_pc s t)" "rw_pc s t \<in> {Global, GlobalTry, Undo, Release}" by simp_all
  note o' = rw_others(1) [OF global_unlock(3) i(1)] rw_others(2) [OF global_unlock(3) i(2)] rw_others(4) [OF global_unlock(3) i(3)]
  show ?case by (rule rw_excl_goto [OF global_unlock(3)], simp) (use o' in \<open>auto dest: sharing_cases\<close>)
next
  case (read_lock s t)
  note o' = rw_others(5) [OF read_lock(4,2)]
  show ?case by (rule rw_excl_goto [OF read_lock(4)], simp) (use o' in auto)
next
  case (read_trylock s t)
  note o' = rw_others(5) [OF read_trylock(4,2)]
  show ?case by (rule rw_excl_goto [OF read_trylock(4)], simp) (use o' in auto)
next
  case (read_unlock s t)
  then have i: "sharing (rw_pc s t)" by simp
  note o' = rw_others(5) [OF read_unlock(4,2)] rw_others(2) [OF read_unlock(4) i]
  have "rw_pc s u \<notin> {Global, GlobalTry, Undo, Release}" for u using o'(1) inside_special by blast
  then show ?case by (intro rw_excl_goto [OF read_unlock(4)], simp) (use o' in auto)
next
  case (write_lock s t)
  note o' = rw_others(6) [OF write_lock(4,2)]
  show ?case by (rule rw_excl_goto [OF write_lock(4)], simp) (use o' in auto)
next
  case (write_unlock s t)
  note o' = rw_others(3) [OF write_unlock(3,1)]
  show ?case by (rule rw_excl_goto [OF write_unlock(3)], simp) (use o' in auto)
qed assumption+

lemma rw_reachable_inv:
  fixes s :: "'t rwlock"
  assumes "few_threads TYPE('t)"
  shows "rw_reachable s \<Longrightarrow> rw_count s \<and> rw_excl s"
proof (induction rule: rtranclp_induct)
  case base
  have "rw_excl rw_init" by (simp add: rw_excl_def rw_init_def)
  then show ?case by (simp add: rw_count_def rw_init_def)
next
  case (step s s')
  then show ?case using rw_count_step [OF assms] rw_excl_step by blast
qed

text \<open>
  C40.  In every state that interleaved readers and writers can reach, a writer is alone: no other
  thread writes or reads.  \<open>block\<close> counts the readers, so that it is their number when no thread is
  in between; and a reader that has been admitted always finds the global mutex held.  This is for fewer than
  \<open>2 ^ 32\<close> threads; with more, \<open>block\<close> can wrap around to 0.
\<close>

theorem rwlock_correct:
  fixes s :: "'t rwlock"
  assumes "rw_reachable s" and "finite (UNIV :: 't set)" and "card (UNIV :: 't set) < 2 ^ 32"
  shows "(\<forall>t u. rw_pc s t = Writing \<longrightarrow> rw_pc s u \<in> {Writing, Reading} \<longrightarrow> t = u)
    \<and> (\<forall>t. rw_pc s t \<in> {Writing, Reading} \<longrightarrow> rw_global s)
    \<and> finite {t. rw_pc s t = Reading}
    \<and> (\<not> rw_reader s \<longrightarrow> unat (rw_block s) = card {t. rw_pc s t = Reading})"
proof -
  have "few_threads TYPE('t)" using assms(2,3) by (simp add: few_threads_def)
  note inv = rw_reachable_inv [OF this assms(1)]
  have sub: "{t. rw_pc s t = Reading} \<subseteq> {t. counted (rw_pc s t)}" by auto
  have "finite {t. rw_pc s t = Reading}" using inv by (intro finite_subset [OF sub]) (simp add: rw_count_def)
  moreover have "unat (rw_block s) = card {t. rw_pc s t = Reading}" if "\<not> rw_reader s"
  proof -
    have out: "\<not> inside (rw_pc s u)" for u using rw_others(5) [of s] inv that by blast
    have "counted (rw_pc s u) \<longleftrightarrow> rw_pc s u = Reading" for u using out [of u] by (cases "rw_pc s u") simp_all
    then show ?thesis using inv by (simp add: rw_count_def)
  qed
  moreover have "t = u" if "rw_pc s t = Writing" "rw_pc s u \<in> {Writing, Reading}" for t u
  proof -
    have "rw_pc s u = Writing \<or> sharing (rw_pc s u)" using that(2) by auto
    moreover have "rw_excl s" using inv by blast
    note rw_others(3) [OF this that(1)]
    ultimately show ?thesis by (cases "u = t") auto
  qed
  moreover have "rw_global s" if "rw_pc s t \<in> {Writing, Reading}" for t
  proof -
    have "rw_pc s t = Writing \<or> sharing (rw_pc s t)" using that by auto
    then show ?thesis using rw_others(2,3) [of s t] inv by blast
  qed
  ultimately show ?thesis by blast
qed

theorem rwlock_correct_witness:
  "\<exists>s :: bool rwlock. rw_reachable s \<and> rw_pc s True = Reading \<and> rw_block s = 1 \<and> rw_global s"
proof -
  define s1 :: "bool rwlock" where "s1 = rw_goto True Enter (rw_init\<lparr>rw_reader := True\<rparr>)"
  define s2 where "s2 = rw_goto True Global (s1\<lparr>rw_block := 1\<rparr>)"
  define s3 where "s3 = rw_goto True Admit (s2\<lparr>rw_global := True\<rparr>)"
  define s4 where "s4 = rw_goto True Reading (s3\<lparr>rw_reader := False\<rparr>)"
  note defs = s4_def s3_def s2_def s1_def rw_init_def
  have "rw_step rw_init s1" unfolding s1_def by (rule read_lock) (simp_all add: rw_init_def)
  moreover have "rw_step s1 s2" using rw_step.enter [of s1 True] by (simp add: defs)
  moreover have "rw_step s2 s3" unfolding s3_def by (rule global_lock) (simp_all add: defs)
  moreover have "rw_step s3 s4" unfolding s4_def by (rule admit) (simp add: defs)
  ultimately have r: "rw_reachable s4" by (meson converse_rtranclp_into_rtranclp rtranclp.rtrancl_refl)
  from rwlock_correct [OF r] have "unat (rw_block s4) = card {t. rw_pc s4 t = Reading}" "rw_global s4"
    by (auto simp: defs)
  moreover have "{t. rw_pc s4 t = Reading} = {True}" by (auto simp: defs)
  ultimately show ?thesis using r by (intro exI [of _ s4]) (simp add: defs)
qed

end
