(* ===== verification/Dates.thy ===== *)
theory Dates
  imports "HOL-Library.Word" "HOL-Library.Signed_Division"
begin

text \<open>
  src/datetime.cpp and include/dlh/datetime.hpp: \<open>DateTime\<close>.

  \<open>time_t\<close> and \<open>long\<close> are integers with the C operators on them (\<open>sdiv\<close> and \<open>smod\<close> round towards
  zero); a value that does not fit into 64 bits and a read outside of the table \<open>days\<close> are None.  The
  fields of a date have the width of the code, so that an assignment to one keeps the low bits.
\<close>

record datetime =
  dt_year :: "16 word"
  dt_month :: "8 word"
  dt_day :: "8 word"
  dt_weekday :: "8 word"
  dt_hour :: "8 word"
  dt_minute :: "8 word"
  dt_second :: "8 word"
  dt_nanosecond :: int

record timespec =
  tv_sec :: int
  tv_nsec :: int

definition dt_default :: datetime where
  "dt_default = \<lparr>dt_year = 2000, dt_month = 1, dt_day = 1, dt_weekday = 7, dt_hour = 0,
    dt_minute = 0, dt_second = 0, dt_nanosecond = 0\<rparr>"

definition ns_limit :: int where
  "ns_limit = 1000000000"

definition days :: "int list list" where
  "days =
    [[0, 31, 59, 90, 120, 151, 181, 212, 243, 273, 304, 334],
     [365, 396, 424, 455, 485, 516, 547, 577, 608, 638, 669, 699],
     [730, 761, 790, 821, 851, 882, 912, 943, 974, 1004, 1035, 1065],
     [1096, 1127, 1155, 1186, 1216, 1247, 1277, 1308, 1339, 1369, 1400, 1430]]"

definition days4y :: int where
  "days4y = 365 * 4 + 1"

definition fits_long :: "int \<Rightarrow> bool" where
  "fits_long x \<longleftrightarrow> - (2 ^ 63) \<le> x \<and> x < 2 ^ 63"

section \<open>Operations\<close>

text \<open>The loops that look for the year in the four years and for the month in the year.\<close>

fun year_loop :: "int \<Rightarrow> nat \<Rightarrow> nat" where
  "year_loop epoch 0 = 0"
| "year_loop epoch (Suc y) = (if epoch < days ! Suc y ! 0 then year_loop epoch y else Suc y)"

fun month_loop :: "int \<Rightarrow> nat \<Rightarrow> nat \<Rightarrow> nat" where
  "month_loop epoch y 0 = 0"
| "month_loop epoch y (Suc m) = (if epoch < days ! y ! Suc m then month_loop epoch y m else Suc m)"

definition from_days :: "int \<Rightarrow> datetime \<Rightarrow> datetime" where
  "from_days epoch dt =
    (let y = 1970 + epoch sdiv days4y * 4; e = epoch smod days4y;
         year = year_loop e 3; month = month_loop e year 11
     in dt\<lparr>dt_weekday := word_of_int ((epoch + 4) smod 7 + 1),
           dt_day := word_of_int (e - days ! year ! month + 1),
           dt_month := word_of_nat month + 1,
           dt_year := word_of_nat year + word_of_int y\<rparr>)"

definition from_seconds :: "int \<Rightarrow> int \<Rightarrow> datetime" where
  "from_seconds epoch ns =
    (let minutes = epoch sdiv 60; hours = minutes sdiv 60
     in from_days (hours sdiv 24)
          (dt_default\<lparr>dt_nanosecond := ns, dt_second := word_of_int (epoch smod 60),
             dt_minute := word_of_int (minutes smod 60), dt_hour := word_of_int (hours smod 24)\<rparr>))"

definition from_timestamp :: "int \<Rightarrow> int \<Rightarrow> datetime option" where
  "from_timestamp epoch ns =
    (let e = epoch + ns sdiv ns_limit; n = ns smod ns_limit;
         e' = (if n < 0 then e - 1 else e); n' = (if n < 0 then n + ns_limit else n)
     in if fits_long e \<and> fits_long e' then Some (from_seconds e' n') else None)"

definition from_timespec :: "timespec \<Rightarrow> datetime option" where
  "from_timespec ts = from_timestamp (tv_sec ts) (tv_nsec ts)"

text \<open>All of this is computed with 32 bits; a month outside of the year reads outside of the table.\<close>

definition to_timestamp :: "datetime \<Rightarrow> int option" where
  "to_timestamp dt =
    (let y = ucast (dt_year dt) - 1970 :: 32 word; m = ucast (dt_month dt) - 1 :: 32 word
     in if m < 12 then
          let d = (y div 4) * word_of_int days4y + word_of_int (days ! unat (y mod 4) ! unat m) + ucast (dt_day dt) - 1
          in Some (uint (((d * 24 + ucast (dt_hour dt)) * 60 + ucast (dt_minute dt)) * 60 + ucast (dt_second dt) :: 32 word))
        else None)"

definition to_timespec :: "datetime \<Rightarrow> timespec option" where
  "to_timespec dt = map_option (\<lambda>t. \<lparr>tv_sec = t, tv_nsec = dt_nanosecond dt\<rparr>) (to_timestamp dt)"

definition dt_fix :: "datetime \<Rightarrow> datetime option" where
  "dt_fix dt = Option.bind (to_timespec dt) from_timespec"

definition dt_new :: "16 word \<Rightarrow> 8 word \<Rightarrow> 8 word \<Rightarrow> 8 word \<Rightarrow> 8 word \<Rightarrow> 8 word \<Rightarrow> int \<Rightarrow> datetime option" where
  "dt_new y m d h mi s ns = dt_fix \<lparr>dt_year = y, dt_month = m, dt_day = d, dt_weekday = 0,
    dt_hour = h, dt_minute = mi, dt_second = s, dt_nanosecond = ns\<rparr>"

definition dt_eq :: "datetime \<Rightarrow> datetime \<Rightarrow> bool" where
  "dt_eq a b \<longleftrightarrow> dt_nanosecond a = dt_nanosecond b \<and> dt_second a = dt_second b \<and> dt_minute a = dt_minute b
    \<and> dt_hour a = dt_hour b \<and> dt_weekday a = dt_weekday b \<and> dt_day a = dt_day b \<and> dt_month a = dt_month b
    \<and> dt_year a = dt_year b"

definition dt_valid :: "datetime \<Rightarrow> bool option" where
  "dt_valid dt = map_option (\<lambda>other. 2000 \<le> dt_year dt \<and> dt_year dt \<le> 2099 \<and> dt_eq dt other)
    (Option.bind (to_timespec dt) from_timespec)"

section \<open>Comparison\<close>

definition dt_eq_time :: "datetime \<Rightarrow> int \<Rightarrow> bool option" where
  "dt_eq_time dt t = (if dt_nanosecond dt = 0 then map_option (\<lambda>x. x = t) (to_timestamp dt) else Some False)"

definition dt_eq_timespec :: "datetime \<Rightarrow> timespec \<Rightarrow> bool option" where
  "dt_eq_timespec dt o' = map_option (\<lambda>ts. tv_sec ts = tv_sec o' \<and> tv_nsec ts = tv_nsec o') (to_timespec dt)"

definition ts_less :: "timespec \<Rightarrow> timespec \<Rightarrow> bool" where
  "ts_less a b \<longleftrightarrow> tv_sec a < tv_sec b \<or> (tv_sec a = tv_sec b \<and> tv_nsec a < tv_nsec b)"

definition dt_less_timespec :: "datetime \<Rightarrow> timespec \<Rightarrow> bool option" where
  "dt_less_timespec dt o' = map_option (\<lambda>ts. ts_less ts o') (to_timespec dt)"

definition dt_less_time :: "datetime \<Rightarrow> int \<Rightarrow> bool option" where
  "dt_less_time dt t = dt_less_timespec dt \<lparr>tv_sec = t, tv_nsec = 0\<rparr>"

definition dt_less :: "datetime \<Rightarrow> datetime \<Rightarrow> bool option" where
  "dt_less dt o' = Option.bind (to_timespec o') (dt_less_timespec dt)"

definition dt_le_timespec :: "datetime \<Rightarrow> timespec \<Rightarrow> bool option" where
  "dt_le_timespec dt o' = map_option (\<lambda>ts. tv_sec ts < tv_sec o' \<or> (tv_sec ts = tv_sec o' \<and> tv_nsec ts \<le> tv_nsec o'))
    (to_timespec dt)"

text \<open>These two call \<open>operator<\<close>.\<close>

definition dt_le_time :: "datetime \<Rightarrow> int \<Rightarrow> bool option" where
  "dt_le_time dt t = dt_less_timespec dt \<lparr>tv_sec = t, tv_nsec = 0\<rparr>"

definition dt_le :: "datetime \<Rightarrow> datetime \<Rightarrow> bool option" where
  "dt_le dt o' = Option.bind (to_timespec o') (dt_less_timespec dt)"

definition dt_gt :: "datetime \<Rightarrow> datetime \<Rightarrow> bool option" where
  "dt_gt dt o' = map_option Not (dt_le dt o')"

definition dt_ge :: "datetime \<Rightarrow> datetime \<Rightarrow> bool option" where
  "dt_ge dt o' = map_option Not (dt_less dt o')"

section \<open>Names\<close>

definition clamp :: "8 word \<Rightarrow> nat \<Rightarrow> nat \<Rightarrow> nat" where
  "clamp v lo hi = (let m = if unat v > lo then unat v else lo in if m > hi then hi else m)"

definition weekdays :: "(string \<times> string) list" where
  "weekdays = [(''Sun'', ''Sunday''), (''Mon'', ''Monday''), (''Tue'', ''Tuesday''), (''Wed'', ''Wednesday''),
    (''Thu'', ''Thursday''), (''Fri'', ''Friday''), (''Sat'', ''Saturday'')]"

definition months :: "(string \<times> string) list" where
  "months = [(''Jan'', ''January''), (''Feb'', ''February''), (''Mar'', ''March''), (''Apr'', ''April''),
    (''May'', ''May''), (''Jun'', ''June''), (''Jul'', ''July''), (''Aug'', ''August''),
    (''Sep'', ''September''), (''Oct'', ''October''), (''Nov'', ''November''), (''Dec'', ''December'')]"

definition weekday_name :: "bool \<Rightarrow> datetime \<Rightarrow> string" where
  "weekday_name abbrev dt = (if abbrev then fst else snd) (weekdays ! (clamp (dt_weekday dt) 1 7 - 1))"

definition month_name :: "bool \<Rightarrow> datetime \<Rightarrow> string" where
  "month_name abbrev dt = (if abbrev then fst else snd) (months ! (clamp (dt_month dt) 1 12 - 1))"

end
