(* ===== verification/WordFacts.thy ===== *)
theory WordFacts
  imports "HOL-Library.Word"
begin

text \<open>Natural numbers as words: widening, division and remainder without overflow.\<close>

lemma ucast_of_nat_small: "n < 2 ^ LENGTH('a) \<Longrightarrow> (ucast (of_nat n :: 'a::len word) :: 'b::len word) = of_nat n"
  by (simp add: unsigned_of_nat take_bit_nat_eq_self)

lemma of_nat_div_word: "a < 2 ^ LENGTH('a) \<Longrightarrow> b < 2 ^ LENGTH('a) \<Longrightarrow> (of_nat a :: 'a::len word) div of_nat b = of_nat (a div b)"
  by (rule word_unat_eq_iff [THEN iffD2])
    (simp add: unat_div_distrib unsigned_of_nat take_bit_nat_eq_self order_le_less_trans [OF div_le_dividend])

lemma of_nat_mod_word: "a < 2 ^ LENGTH('a) \<Longrightarrow> b < 2 ^ LENGTH('a) \<Longrightarrow> (of_nat a :: 'a::len word) mod of_nat b = of_nat (a mod b)"
  by (rule word_unat_eq_iff [THEN iffD2])
    (simp add: unat_mod_distrib unsigned_of_nat take_bit_nat_eq_self order_le_less_trans [OF mod_less_eq_dividend])

end
