(* ===== verification/DateTheorems.thy ===== *)
theory DateTheorems
  imports Dates WordFacts
begin

text \<open>
  What \<open>DateTime\<close> does between 1970 and 2106: dates against the Gregorian calendar, round trips, the
  dates it takes as valid, and its order.
\<close>

section \<open>The calendar\<close>

definition leap_year :: "nat \<Rightarrow> bool" where
  "leap_year y \<longleftrightarrow> 4 dvd y \<and> (\<not> 100 dvd y \<or> 400 dvd y)"

definition year_length :: "nat \<Rightarrow> nat" where
  "year_length y = (if leap_year y then 366 else 365)"

definition month_length :: "nat \<Rightarrow> nat \<Rightarrow> nat" where
  "month_length y m = (if m = 2 then if leap_year y then 29 else 28 else if m \<in> {4, 6, 9, 11} then 30 else 31)"

definition real_date :: "nat \<Rightarrow> nat \<Rightarrow> nat \<Rightarrow> bool" where
  "real_date y m d \<longleftrightarrow> 1 \<le> m \<and> m \<le> 12 \<and> 1 \<le> d \<and> d \<le> month_length y m"

definition days_before_year :: "nat \<Rightarrow> nat" where
  "days_before_year y = (\<Sum>x = 1970..<y. year_length x)"

definition days_before_month :: "nat \<Rightarrow> nat \<Rightarrow> nat" where
  "days_before_month y m = (\<Sum>x = 1..<m. month_length y x)"

text \<open>The days from the first of January 1970 to a date.\<close>

definition civil_days :: "nat \<Rightarrow> nat \<Rightarrow> nat \<Rightarrow> nat" where
  "civil_days y m d = days_before_year y + days_before_month y m + (d - 1)"

lemma leap_year_4: "1970 \<le> y \<Longrightarrow> y < 2100 \<Longrightarrow> leap_year y \<longleftrightarrow> 4 dvd y"
proof -
  assume y: "1970 \<le> y" "y < 2100"
  have "400 dvd y" if "100 dvd y"
  proof -
    from that obtain k where "y = 100 * k" by (elim dvdE)
    moreover from this have "k = 20" using y by linarith
    ultimately have "y = 2000" by simp
    then show ?thesis by simp
  qed
  then show ?thesis unfolding leap_year_def by blast
qed

lemma days_before_4_years:
  assumes "1970 \<le> y" "y + 4 \<le> 2100"
  shows "days_before_year (y + 4) = days_before_year y + 1461"
proof -
  have "{1970..<y + 4} = {1970..<y} \<union> {y, y + 1, y + 2, y + 3}" using assms by auto
  then have "days_before_year (y + 4) = days_before_year y + (\<Sum>x \<in> {y, y + 1, y + 2, y + 3}. year_length x)"
    unfolding days_before_year_def by (simp add: sum.union_disjoint)
  also have "(\<Sum>x \<in> {y, y + 1, y + 2, y + 3}. year_length x) = 1461"
  proof -
    have l: "leap_year (y + i) \<longleftrightarrow> 4 dvd (y + i)" if "i < 4" for i using assms that by (intro leap_year_4) auto
    consider "y mod 4 = 0" | "y mod 4 = 1" | "y mod 4 = 2" | "y mod 4 = 3" by linarith
    then show ?thesis using l [of 0] l [of 1] l [of 2] l [of 3]
      by cases (simp_all add: year_length_def, presburger+)
  qed
  finally show ?thesis .
qed

definition year_offset :: "nat \<Rightarrow> nat" where
  "year_offset r = [0, 365, 730, 1096] ! r"

lemma days_before_year_eq: "r < 4 \<Longrightarrow> 1970 + 4 * q + r < 2100 \<Longrightarrow> days_before_year (1970 + 4 * q + r) = 1461 * q + year_offset r"
proof (induction q)
  case 0
  then consider "r = 0" | "r = 1" | "r = 2" | "r = 3" by linarith
  then show ?case
    by cases (simp_all add: days_before_year_def year_offset_def year_length_def leap_year_4 atLeastLessThan_upt upt_rec)
next
  case (Suc q)
  have "days_before_year (1970 + 4 * q + r + 4) = days_before_year (1970 + 4 * q + r) + 1461"
    using Suc.prems by (intro days_before_4_years) auto
  then show ?case using Suc by (simp add: algebra_simps)
qed

definition month_offset :: "nat \<Rightarrow> nat \<Rightarrow> nat" where
  "month_offset r m = [0, 31, 59, 90, 120, 151, 181, 212, 243, 273, 304, 334] ! (m - 1) + (if r = 2 \<and> 2 < m then 1 else 0)"

lemma month_cases:
  assumes "1 \<le> m" "m \<le> (12::nat)"
  obtains "m = 1" | "m = 2" | "m = 3" | "m = 4" | "m = 5" | "m = 6" | "m = 7" | "m = 8" | "m = 9" | "m = 10" | "m = 11" | "m = 12"
proof -
  have "m = 1 \<or> m = 2 \<or> m = 3 \<or> m = 4 \<or> m = 5 \<or> m = 6 \<or> m = 7 \<or> m = 8 \<or> m = 9 \<or> m = 10 \<or> m = 11 \<or> m = 12"
    using assms by presburger
  then show thesis using that by blast
qed

lemma leap_year_third: "r < 4 \<Longrightarrow> 1970 + 4 * q + r < 2100 \<Longrightarrow> leap_year (1970 + 4 * q + r) \<longleftrightarrow> r = 2"
proof -
  assume r: "r < 4" and y: "1970 + 4 * q + r < 2100"
  have "4 dvd (1970 + 4 * q + r) \<longleftrightarrow> r = 2" using r by presburger
  then show ?thesis using leap_year_4 [of "1970 + 4 * q + r"] y by simp
qed

lemma days_before_month_eq:
  assumes "r < 4" "1970 + 4 * q + r < 2100" "1 \<le> m" "m \<le> 12"
  shows "days_before_month (1970 + 4 * q + r) m = month_offset r m"
proof -
  have l: "month_length (1970 + 4 * q + r) x = (if x = 2 then if r = 2 then 29 else 28 else if x \<in> {4, 6, 9, 11} then 30 else 31)" for x
    by (simp add: month_length_def leap_year_third [OF assms(1,2)])
  show ?thesis
    by (rule month_cases [OF assms(3,4)])
      (simp_all add: days_before_month_def l month_offset_def atLeastLessThan_upt upt_rec)
qed


section \<open>From seconds to a date\<close>

text \<open>The date that is shown for a real one: in July of three years after a leap year everything is a day late.\<close>

definition shown_date :: "nat \<Rightarrow> nat \<Rightarrow> nat \<Rightarrow> nat \<times> nat \<times> nat" where
  "shown_date y m d = (if y mod 4 = 3 \<and> m = 7 then if d = 1 then (y, 6, 31) else (y, 7, d - 1) else (y, m, d))"

definition shown :: "nat \<times> nat \<times> nat \<Rightarrow> nat \<Rightarrow> nat \<Rightarrow> nat \<Rightarrow> nat \<Rightarrow> int \<Rightarrow> datetime" where
  "shown date w h mi s ns = (case date of (y, m, d) \<Rightarrow>
    \<lparr>dt_year = of_nat y, dt_month = of_nat m, dt_day = of_nat d, dt_weekday = of_nat w, dt_hour = of_nat h,
      dt_minute = of_nat mi, dt_second = of_nat s, dt_nanosecond = ns\<rparr>)"

definition civil_seconds :: "nat \<Rightarrow> nat \<Rightarrow> nat \<Rightarrow> nat \<Rightarrow> nat \<Rightarrow> nat \<Rightarrow> nat" where
  "civil_seconds y m d h mi s = ((civil_days y m d * 24 + h) * 60 + mi) * 60 + s"

lemma loop_steps:
  "year_loop e 3 = (if e < 1096 then if e < 730 then if e < 365 then 0 else 1 else 2 else 3)"
  "month_loop e y 11 = (if e < days ! y ! 11 then if e < days ! y ! 10 then if e < days ! y ! 9 then if e < days ! y ! 8 then
    if e < days ! y ! 7 then if e < days ! y ! 6 then if e < days ! y ! 5 then if e < days ! y ! 4 then
    if e < days ! y ! 3 then if e < days ! y ! 2 then if e < days ! y ! 1 then 0 else 1 else 2 else 3 else 4
    else 5 else 6 else 7 else 8 else 9 else 10 else 11)"
  by (simp_all add: numeral_eq_Suc days_def)

lemma find_date:
  assumes "r < 4" "1 \<le> m" "m \<le> 12" "1 \<le> d" "d \<le> (if m = 2 then if r = 2 then 29 else 28 else if m \<in> {4, 6, 9, 11} then 30 else 31)"
  defines "e \<equiv> int (year_offset r + month_offset r m + (d - 1))"
    and "q \<equiv> (if r = 1 \<and> m = 7 then if d = 1 then (6, 31) else (7, d - 1) else (m, d))"
  shows "year_loop e 3 = r \<and> month_loop e r 11 + 1 = fst q \<and> e - days ! r ! month_loop e r 11 + 1 = int (snd q)"
proof -
  have "r = 0 \<or> r = 1 \<or> r = 2 \<or> r = 3" using assms(1) by linarith
  then show ?thesis
    using assms(4,5) unfolding e_def q_def
    by (elim disjE; cases rule: month_cases [OF assms(2,3)])
      (simp_all add: loop_steps year_offset_def month_offset_def days_def)
qed


lemma sdiv_nonneg: "0 \<le> a \<Longrightarrow> 0 < b \<Longrightarrow> (a :: int) sdiv b = a div b"
  by (cases "a = 0") (simp_all add: signed_divide_int_def)

lemma smod_nonneg: "0 \<le> a \<Longrightarrow> 0 < b \<Longrightarrow> (a :: int) smod b = a mod b"
  by (cases "a = 0") (simp_all add: signed_modulo_int_def)

lemma int_split: "s < n \<Longrightarrow> int (x * n + s) div int n = int x \<and> int (x * n + s) mod int n = int s"
  by (simp flip: zdiv_int zmod_int)

lemma from_timestamp_plain:
  assumes "0 \<le> t" "t < 2 ^ 63" "0 \<le> ns" "ns < 1000000000"
  shows "from_timestamp t ns = Some (from_seconds t ns)"
  using assms by (simp add: from_timestamp_def ns_limit_def sdiv_nonneg smod_nonneg fits_long_def)

lemma from_seconds_parts:
  assumes "h < 24" "mi < 60" "s < 60"
  shows "from_seconds (int (((d * 24 + h) * 60 + mi) * 60 + s)) ns = from_days (int d)
    (dt_default\<lparr>dt_nanosecond := ns, dt_second := of_nat s, dt_minute := of_nat mi, dt_hour := of_nat h\<rparr>)"
proof -
  note int_split [OF assms(3), of "(d * 24 + h) * 60 + mi"] int_split [OF assms(2), of "d * 24 + h"] int_split [OF assms(1), of d]
  then show ?thesis by (simp add: from_seconds_def Let_def sdiv_nonneg smod_nonneg del: of_nat_add of_nat_mult)
qed

lemma in_four_years: "r < 4 \<Longrightarrow> 1970 \<le> y \<Longrightarrow> y = 1970 + 4 * q + r \<Longrightarrow> real_date y m d \<Longrightarrow> y < 2100 \<Longrightarrow>
    year_offset r + month_offset r m + (d - 1) < 1461"
proof -
  assume a: "r < 4" "y = 1970 + 4 * q + r" "real_date y m d" "y < 2100"
  then have m: "1 \<le> m" "m \<le> 12" and d: "1 \<le> d" "d \<le> (if m = 2 then if r = 2 then 29 else 28 else if m \<in> {4, 6, 9, 11} then 30 else 31)"
    using leap_year_third [of r q] by (auto simp: real_date_def month_length_def split: if_splits)
  have "r = 0 \<or> r = 1 \<or> r = 2 \<or> r = 3" using a(1) by linarith
  then show ?thesis using d
    by (elim disjE; cases rule: month_cases [OF m]) (simp_all add: year_offset_def month_offset_def)
qed

lemma from_days_civil:
  assumes "1970 \<le> y" "y < 2100" "real_date y m d"
  shows "from_days (int (civil_days y m d)) dt = (case shown_date y m d of (y', m', d') \<Rightarrow>
    dt\<lparr>dt_weekday := of_nat ((civil_days y m d + 4) mod 7 + 1), dt_day := of_nat d', dt_month := of_nat m', dt_year := of_nat y'\<rparr>)"
proof -
  define r where "r = (y - 1970) mod 4"
  define q where "q = (y - 1970) div 4"
  define x where "x = year_offset r + month_offset r m + (d - 1)"
  have y: "y = 1970 + 4 * q + r" and r: "r < 4" using assms(1) by (simp_all add: r_def q_def)
  have y3: "y mod 4 = 3 \<longleftrightarrow> r = 1" using y r by presburger
  have m: "1 \<le> m" "m \<le> 12" and d: "1 \<le> d" "d \<le> (if m = 2 then if r = 2 then 29 else 28 else if m \<in> {4, 6, 9, 11} then 30 else 31)"
    using assms(2,3) leap_year_third [of r q] y r by (auto simp: real_date_def month_length_def split: if_splits)
  have x: "x < 1461" unfolding x_def by (rule in_four_years [OF r assms(1) y assms(3,2)])
  have c: "civil_days y m d = 1461 * q + x"
    using days_before_year_eq [OF r, of q] days_before_month_eq [OF r _ m, of q] assms(2) y by (simp add: civil_days_def x_def)
  have qx: "int (civil_days y m d) sdiv days4y = int q" "int (civil_days y m d) smod days4y = int x"
    using x unfolding c by (simp_all add: days4y_def sdiv_nonneg smod_nonneg) 
  have w: "(int (civil_days y m d) + 4) smod 7 + 1 = int ((civil_days y m d + 4) mod 7 + 1)"
    by (simp add: smod_nonneg zmod_int)
  note f = find_date [OF r m d, folded x_def]
  have "(of_nat r :: 16 word) + word_of_int (1970 + int q * 4) = of_nat y"
    unfolding y by (simp add: algebra_simps)
  then show ?thesis
    unfolding from_days_def Let_def qx w using f y3
    by (auto simp: shown_date_def of_nat_diff algebra_simps split: if_splits)
qed


section \<open>From a date to seconds\<close>

lemma found_date:
  assumes "0 \<le> x" "x < 1461"
  shows "year_loop x 3 < 4 \<and> month_loop x (year_loop x 3) 11 < 12
    \<and> 0 \<le> x - days ! year_loop x 3 ! month_loop x (year_loop x 3) 11 \<and> x - days ! year_loop x 3 ! month_loop x (year_loop x 3) 11 < 31"
  using assms by (simp add: loop_steps days_def)

lemma found_year: "0 \<le> x \<Longrightarrow> x < 1461 \<Longrightarrow> int (year_loop x 3) = (if x < 365 then 0 else if x < 730 then 1 else if x < 1096 then 2 else 3)"
  by (simp add: loop_steps)


lemma to_timestamp_parts:
  assumes r: "r < 4" and q: "q < 10000" and m: "m < 12" and day: "1 \<le> day" "day < 256" and k: "days ! r ! m = int k"
    and h: "h < 256" "mi < 256" "s < 256"
    and dt: "dt_year dt = of_nat (1970 + 4 * q + r)" "dt_month dt = of_nat (m + 1)" "dt_day dt = of_nat day"
      "dt_hour dt = of_nat h" "dt_minute dt = of_nat mi" "dt_second dt = of_nat s"
  shows "to_timestamp dt = Some (int ((((q * 1461 + k + (day - 1)) * 24 + h) * 60 + mi) * 60 + s) mod 2 ^ 32)"
proof -
  let ?t = "(((q * 1461 + k + (day - 1)) * 24 + h) * 60 + mi) * 60 + s"
  have "ucast (dt_year dt) = (of_nat (1970 + 4 * q + r) :: 32 word)"
    unfolding dt(1) by (rule ucast_of_nat_small) (use r q in simp)
  then have y: "ucast (dt_year dt) - 1970 = (of_nat (4 * q + r) :: 32 word)" by simp
  have y4: "(of_nat (4 * q + r) :: 32 word) div 4 = of_nat q" "(of_nat (4 * q + r) :: 32 word) mod 4 = of_nat r"
    using of_nat_div_word [of "4 * q + r" 4, where 'a = 32] of_nat_mod_word [of "4 * q + r" 4, where 'a = 32] r q by simp_all
  have "ucast (dt_month dt) = (of_nat (m + 1) :: 32 word)"
    unfolding dt(2) by (rule ucast_of_nat_small) (use m in simp)
  then have mo: "ucast (dt_month dt) - 1 = (of_nat m :: 32 word)" by simp
  have un: "unat (of_nat r :: 32 word) = r" "unat (of_nat m :: 32 word) = m" "(of_nat m :: 32 word) < 12"
    using r m by (simp_all add: unsigned_of_nat take_bit_nat_eq_self word_less_nat_alt)
  have u: "ucast (dt_day dt) = (of_nat day :: 32 word)" "ucast (dt_hour dt) = (of_nat h :: 32 word)"
    "ucast (dt_minute dt) = (of_nat mi :: 32 word)" "ucast (dt_second dt) = (of_nat s :: 32 word)"
    unfolding dt by (rule ucast_of_nat_small; use day h in simp)+
  obtain c where c: "day = Suc c" using day(1) by (cases day) auto
  have w: "(((of_nat q * 1461 + of_nat k + of_nat day - 1) * 24 + of_nat h) * 60 + of_nat mi) * 60 + of_nat s = (of_nat ?t :: 32 word)"
    unfolding c by (simp add: algebra_simps)
  have "uint (of_nat ?t :: 32 word) = int ?t mod 2 ^ 32"
    by (simp only: uint_word_of_int word_of_nat_eq_iff unsigned_of_nat take_bit_eq_mod of_nat_mod) simp
  moreover have "to_timestamp dt = Some (uint ((((of_nat q * 1461 + of_nat k + of_nat day - 1) * 24 + of_nat h) * 60 + of_nat mi) * 60 + of_nat s :: 32 word))"
    unfolding to_timestamp_def Let_def y y4 mo un u k days4y_def using un(3) by simp
  ultimately show ?thesis unfolding w by simp
qed


lemma from_seconds_to_timestamp:
  fixes ns :: int
  assumes "0 \<le> t" "t < 2 ^ 32"
  defines "dt \<equiv> from_seconds t ns"
  shows "to_timestamp dt = Some t"
    and "2000 \<le> dt_year dt \<and> dt_year dt \<le> 2099 \<longleftrightarrow> 946684800 \<le> t \<and> t < 4102444800"
    and "dt_nanosecond dt = ns"
    and "dt_month dt - 1 < 12"
proof -
  define s mi h d where "s = nat t mod 60" and "mi = nat t div 60 mod 60" and "h = nat t div 60 div 60 mod 24" and "d = nat t div 60 div 60 div 24"
  define q x where "q = d div 1461" and "x = int (d mod 1461)"
  define r where "r = year_loop x 3"
  define m where "m = month_loop x r 11"
  define k where "k = nat (days ! r ! m)"
  define day where "day = nat (x - days ! r ! m) + 1"
  have small: "s < 60" "mi < 60" "h < 24" by (simp_all add: s_def mi_def h_def)
  have "nat t = ((d * 24 + h) * 60 + mi) * 60 + s" unfolding d_def h_def mi_def s_def by (simp only: div_mult_mod_eq)
  then have t: "t = int (((d * 24 + h) * 60 + mi) * 60 + s)" using assms(1) by linarith
  have x: "0 \<le> x" "x < 1461" by (simp_all add: x_def)
  note f = found_date [OF x, folded r_def, folded m_def]
  have d: "d = q * 1461 + nat x" by (simp add: q_def x_def)
  have "int d * 86400 \<le> t" by (simp add: t)
  then have "d < 49711" using assms(2) by simp
  then have q: "q < 35" using d by linarith
  have row: "0 \<le> days ! r ! m" unfolding r_def m_def using x by (simp add: loop_steps days_def)
  then have k: "days ! r ! m = int k" by (simp add: k_def)
  have "nat x = k + (day - 1)" using f row x by (simp add: k_def day_def flip: nat_add_distrib)
  then have dd: "q * 1461 + k + (day - 1) = d" using d by simp
  have day: "1 \<le> day" "day < 256" using f unfolding day_def by linarith+
  have qx: "int d sdiv days4y = int q" "int d smod days4y = x"
    by (simp_all add: days4y_def sdiv_nonneg smod_nonneg q_def x_def zdiv_int zmod_int)
  have dt: "dt = from_days (int d) (dt_default\<lparr>dt_nanosecond := ns, dt_second := of_nat s, dt_minute := of_nat mi, dt_hour := of_nat h\<rparr>)"
    unfolding dt_def t by (rule from_seconds_parts [OF small(3,2,1)])
  have year: "dt_year dt = of_nat (1970 + 4 * q + r)"
    unfolding dt from_days_def Let_def qx by (simp add: r_def algebra_simps)
  have dday: "dt_day dt = of_nat day"
    unfolding dt from_days_def Let_def qx using f by (simp add: r_def m_def day_def)
  have month: "dt_month dt = of_nat (m + 1)"
    unfolding dt from_days_def Let_def qx by (simp add: r_def m_def)
  have "to_timestamp dt = Some (int ((((q * 1461 + k + (day - 1)) * 24 + h) * 60 + mi) * 60 + s) mod 2 ^ 32)"
    by (rule to_timestamp_parts [OF _ _ _ day k _ _ _ year month dday])
      (use f q small in \<open>simp_all add: dt from_days_def Let_def\<close>)
  then show "to_timestamp dt = Some t" unfolding dd t [symmetric] using assms(1,2) by simp
  show "dt_nanosecond dt = ns" by (simp add: dt from_days_def Let_def)
  show "dt_month dt - 1 < 12" unfolding month using f by (simp add: word_less_nat_alt unsigned_of_nat take_bit_nat_eq_self)
  have rr: "int r = (if x < 365 then 0 else if x < 730 then 1 else if x < 1096 then 2 else 3)"
    unfolding r_def by (rule found_year [OF x])
  have "t = int d * 86400 + int h * 3600 + int mi * 60 + int s" unfolding t by simp
  then have "946684800 \<le> t \<longleftrightarrow> 10957 \<le> d" "t < 4102444800 \<longleftrightarrow> d < 47482" using small by (intro iffI; linarith)+
  moreover have "10957 \<le> d \<longleftrightarrow> 2000 \<le> 1970 + 4 * q + r" "d < 47482 \<longleftrightarrow> 1970 + 4 * q + r \<le> 2099"
    using d x rr by (cases "x < 365"; cases "x < 730"; cases "x < 1096"; simp; linarith)+
  moreover have "unat (dt_year dt) = 1970 + 4 * q + r"
    unfolding year using q f by (simp only: unsigned_of_nat of_nat_id) (simp add: take_bit_nat_eq_self del: of_nat_add of_nat_mult)
  ultimately show "2000 \<le> dt_year dt \<and> dt_year dt \<le> 2099 \<longleftrightarrow> 946684800 \<le> t \<and> t < 4102444800"
    by (simp add: word_le_nat_alt)
qed


section \<open>Theorems\<close>

text \<open>
  C30.  A second between 1970 and the end of 2099 is shown as the date, time of day and day of the
  week of the Gregorian calendar, except in July of the years 1971, 1975, ..., 2099: because of the
  entry 547 instead of 546 in the table \<open>days\<close>, the first of July is shown as the 31st of June, and
  every later day of that July one too early.
\<close>

theorem datetime_calendar:
  assumes "1970 \<le> y" "y < 2100" "real_date y m d" "h < 24" "mi < 60" "s < 60" "0 \<le> ns" "ns < 1000000000"
  shows "from_timestamp (int (civil_seconds y m d h mi s)) ns
    = Some (shown (shown_date y m d) ((civil_days y m d + 4) mod 7 + 1) h mi s ns)"
proof -
  define r where "r = (y - 1970) mod 4"
  define q where "q = (y - 1970) div 4"
  have y: "y = 1970 + 4 * q + r" and r: "r < 4" using assms(1) by (simp_all add: r_def q_def)
  have m: "1 \<le> m" "m \<le> 12" using assms(3) by (simp_all add: real_date_def)
  have "civil_days y m d = 1461 * q + (year_offset r + month_offset r m + (d - 1))"
    using days_before_year_eq [OF r, of q] days_before_month_eq [OF r _ m, of q] assms(2) y by (simp add: civil_days_def)
  moreover have "q < 33" using assms(2) y by linarith
  moreover note in_four_years [OF r assms(1) y assms(3,2)]
  ultimately have "civil_days y m d < 1461 * 33" by linarith
  then have "civil_seconds y m d h mi s < 2 ^ 63" using assms(4-6) unfolding civil_seconds_def by simp
  then have "int (civil_seconds y m d h mi s) < 2 ^ 63" by simp
  from from_timestamp_plain [OF _ this assms(7,8)] show ?thesis
    unfolding civil_seconds_def from_seconds_parts [OF assms(4-6)] from_days_civil [OF assms(1-3)]
    by (cases "shown_date y m d") (simp add: shown_def dt_default_def)
qed

theorem datetime_calendar_witness:
  "from_timestamp 1688169600 0 = Some \<lparr>dt_year = 2023, dt_month = 6, dt_day = 31, dt_weekday = 7, dt_hour = 0,
    dt_minute = 0, dt_second = 0, dt_nanosecond = 0\<rparr>"
proof -
  have "civil_days 2023 7 1 = 19539"
    using days_before_year_eq [of 1 13] days_before_month_eq [of 1 13 7]
    by (simp add: civil_days_def year_offset_def month_offset_def)
  moreover have "real_date 2023 7 1" by (simp add: real_date_def month_length_def)
  ultimately show ?thesis
    using datetime_calendar [of 2023 7 1 0 0 0 0] by (simp add: shown_def shown_date_def civil_seconds_def)
qed

text \<open>
  C39.  Every time from 1970 to the 7th of February 2106 (where 32 bits of seconds end) makes the round
  trip through a date, even when the date is not in the calendar; and \<open>valid\<close> accepts of these exactly
  the ones from 2000 to 2099.
\<close>

theorem datetime_roundtrip:
  assumes "0 \<le> t" "t < 2 ^ 32" "0 \<le> ns" "ns < 1000000000"
  shows "\<exists>dt. from_timestamp t ns = Some dt \<and> to_timespec dt = Some \<lparr>tv_sec = t, tv_nsec = ns\<rparr> \<and> dt_fix dt = Some dt
    \<and> dt_valid dt = Some (946684800 \<le> t \<and> t < 4102444800)"
proof -
  have f: "from_timestamp t ns = Some (from_seconds t ns)"
    using assms by (intro from_timestamp_plain) simp_all
  note p = from_seconds_to_timestamp [OF assms(1,2), of ns]
  have ts: "to_timespec (from_seconds t ns) = Some \<lparr>tv_sec = t, tv_nsec = ns\<rparr>"
    using p(1,3) by (simp add: to_timespec_def)
  then have "Option.bind (to_timespec (from_seconds t ns)) from_timespec = Some (from_seconds t ns)"
    using f by (simp add: from_timespec_def)
  then show ?thesis using f ts p(2) by (simp add: dt_fix_def dt_valid_def dt_eq_def)
qed

theorem datetime_roundtrip_witness:
  "\<exists>dt. from_timestamp 951782399 7 = Some dt \<and> to_timespec dt = Some \<lparr>tv_sec = 951782399, tv_nsec = 7\<rparr>
    \<and> dt_fix dt = Some dt \<and> dt_valid dt = Some True"
  using datetime_roundtrip [of 951782399 7] by simp

section \<open>Validity and order\<close>

text \<open>
  \<open>valid\<close> reads outside of the table for a month that is none, and otherwise says whether the date is
  one that a time from 2000 to 2099 is shown as.
\<close>

lemma nanosecond_from_seconds: "dt_nanosecond (from_seconds t ns) = ns"
  by (simp add: from_seconds_def from_days_def Let_def)

lemma from_timestamp_range:
  assumes "fits_long ns" "0 \<le> t" "t < 2 ^ 32"
  obtains t' n where "from_timestamp t ns = Some (from_seconds t' n)" "0 \<le> n" "n < 1000000000"
proof -
  define s where "s = ns sdiv ns_limit"
  define n where "n = ns smod ns_limit"
  have "n \<in> {- \<bar>ns_limit\<bar> + 1..\<bar>ns_limit\<bar> - 1}" unfolding n_def by (rule smod_int_range) (simp add: ns_limit_def)
  then have n: "- 1000000000 < n" "n < 1000000000" by (simp_all add: ns_limit_def)
  have "s \<in> {- \<bar>ns\<bar>..\<bar>ns\<bar>}" unfolding s_def by (rule sdiv_int_range)
  moreover have "\<bar>s\<bar> * 1000000000 \<le> \<bar>ns\<bar>"
    by (auto simp: s_def ns_limit_def signed_divide_int_def abs_mult sgn_if; linarith)
  ultimately have "fits_long (t + s)" "fits_long (t + s - 1)" using assms by (auto simp: fits_long_def)
  then have "from_timestamp t ns = Some (from_seconds (if n < 0 then t + s - 1 else t + s) (if n < 0 then n + ns_limit else n))"
    by (simp add: from_timestamp_def Let_def flip: s_def n_def)
  then show thesis using n by (intro that [of "if n < 0 then t + s - 1 else t + s" "if n < 0 then n + ns_limit else n"]) (auto simp: ns_limit_def)
qed

lemma month_fits: "(ucast (w :: 8 word) - 1 :: 32 word) < 12 \<longleftrightarrow> w - 1 < 12"
proof (cases "w = 0")
  case False
  have u: "unat (ucast w :: 32 word) = unat w" 
    using unsigned_less [of w, where 'a = nat] by (simp add: unsigned_ucast_eq take_bit_nat_eq_self)
  then have "(ucast w :: 32 word) \<noteq> 0" using False by (metis unsigned_eq_0_iff)
  then show ?thesis using False u by (simp add: word_less_nat_alt unat_minus_one)
qed simp

theorem datetime_valid:
  assumes "fits_long (dt_nanosecond dt)"
  shows "dt_valid dt = (if dt_month dt - 1 < 12
    then Some (\<exists>t ns. 946684800 \<le> t \<and> t < 4102444800 \<and> 0 \<le> ns \<and> ns < 1000000000 \<and> dt = from_seconds t ns)
    else None)"
proof (cases "dt_month dt - 1 < 12")
  case False
  then show ?thesis by (simp add: dt_valid_def to_timespec_def to_timestamp_def month_fits)
next
  case True
  then obtain w :: "32 word" where w: "to_timestamp dt = Some (uint w)"
    unfolding to_timestamp_def Let_def month_fits by auto
  define t where "t = uint w"
  have t: "to_timestamp dt = Some t" "0 \<le> t" "t < 2 ^ 32"
    using w uint_bounded [of w] by (simp_all add: t_def)
  obtain t' n where f: "from_timestamp t (dt_nanosecond dt) = Some (from_seconds t' n)" and n: "0 \<le> n" "n < 1000000000"
    by (rule from_timestamp_range [OF assms t(2,3)])
  show ?thesis
  proof (cases "0 \<le> dt_nanosecond dt \<and> dt_nanosecond dt < 1000000000")
    case in_range: True
    then have f: "from_timestamp t (dt_nanosecond dt) = Some (from_seconds t (dt_nanosecond dt))"
      using t by (intro from_timestamp_plain) simp_all
    have eq: "dt_eq dt dt' \<longleftrightarrow> dt = dt'" for dt' by (cases dt; cases dt') (auto simp: dt_eq_def)
    have "dt_valid dt = Some (2000 \<le> dt_year dt \<and> dt_year dt \<le> 2099 \<and> dt = from_seconds t (dt_nanosecond dt))"
      using t f by (simp add: dt_valid_def to_timespec_def from_timespec_def eq)
    moreover have "2000 \<le> dt_year dt \<and> dt_year dt \<le> 2099 \<longleftrightarrow> 946684800 \<le> t \<and> t < 4102444800" if "dt = from_seconds t (dt_nanosecond dt)"
      using from_seconds_to_timestamp(2) [OF t(2,3), of "dt_nanosecond dt"] that by simp
    moreover have "t' = t" if "dt = from_seconds t' n'" "946684800 \<le> t'" "t' < 4102444800" for t' n'
      using from_seconds_to_timestamp(1) [of t' n'] that t(1) by simp
    ultimately show ?thesis using True in_range nanosecond_from_seconds by (smt (verit))
  next
    case out: False
    then have "\<not> dt_eq dt (from_seconds t' n)" using n by (auto simp: dt_eq_def nanosecond_from_seconds)
    then have "dt_valid dt = Some False" using t f by (simp add: dt_valid_def to_timespec_def from_timespec_def)
    moreover have "dt \<noteq> from_seconds t' n'" if "0 \<le> n'" "n' < 1000000000" for t' n'
      using out that nanosecond_from_seconds [of t' n'] by auto
    ultimately show ?thesis using True by auto
  qed
qed

text \<open>
  The order of two dates is the one of their times, but \<open>operator<=\<close> with a date or a \<open>time_t\<close> is
  \<open>operator<\<close>: a date is not less than or equal to itself, and greater than itself.
\<close>

theorem datetime_order:
  assumes "to_timespec a = Some x" "to_timespec b = Some y"
  shows "dt_less a b = Some (ts_less x y) \<and> dt_ge a b = Some (\<not> ts_less x y)
    \<and> dt_le_timespec a y = Some (\<not> ts_less y x)
    \<and> dt_le a b = Some (ts_less x y) \<and> dt_gt a b = Some (\<not> ts_less x y)
    \<and> dt_le a a = Some False \<and> dt_gt a a = Some True"
proof -
  have "tv_sec x < tv_sec y \<or> tv_sec x = tv_sec y \<and> tv_nsec x \<le> tv_nsec y \<longleftrightarrow> \<not> ts_less y x" unfolding ts_less_def by linarith
  then show ?thesis
    using assms by (simp add: dt_less_def dt_ge_def dt_le_timespec_def dt_le_def dt_gt_def dt_less_timespec_def ts_less_def)
qed

end
