(* ===== verification/BufferStream.thy ===== *)
theory BufferStream
  imports Strings
begin

text \<open>
  include/dlh/stream/buffer.hpp, src/stream/buffer.cpp, include/dlh/stream/output.hpp: output streams
  with a buffer, number formatting and format strings.

  \<open>b_buf\<close> is the memory that \<open>_bufptr\<close> points to (the empty block for a null pointer) and \<open>b_out\<close> what
  the stream has handed to its file descriptor.  The virtual method \<open>flush\<close> is the first argument of
  every function that calls it: \<open>flush_none\<close> for \<open>BufferStream\<close> and \<open>StringStream\<close>, \<open>flush_fd\<close> for
  \<open>OutputStream\<close>.
\<close>

datatype sign = MINUS_ONLY | PLUS | SPACE

record bstream =
  b_base :: u8
  b_width :: u8
  b_fill :: u8
  b_hexchar :: u8
  b_prefix :: bool
  b_left :: bool
  b_sign :: sign
  b_buf :: "u8 list"
  b_len :: nat
  b_pos :: nat
  b_out :: "u8 list"

type_synonym flush = "bstream \<Rightarrow> bstream option"

section \<open>State\<close>

definition b_reset :: "bstream \<Rightarrow> bstream" where
  "b_reset s = s\<lparr>b_base := 10, b_width := 0, b_fill := 32, b_hexchar := 97, b_prefix := False, b_left := True,
     b_sign := MINUS_ONLY\<rparr>"

definition b_clear :: "bstream \<Rightarrow> bstream option" where
  "b_clear s = (let s = (b_reset s)\<lparr>b_pos := 0\<rparr> in
     if b_len s > 0 then do { buf \<leftarrow> wr (b_buf s) (b_len s - 1) 0; Some (s\<lparr>b_buf := buf\<rparr>) } else Some s)"

definition b_new :: "u8 list option \<Rightarrow> nat \<Rightarrow> bstream option" where
  "b_new buffer len =
     b_clear \<lparr>b_base = 0, b_width = 0, b_fill = 0, b_hexchar = 0, b_prefix = False, b_left = False, b_sign = MINUS_ONLY,
       b_buf = (case buffer of None \<Rightarrow> [] | Some b \<Rightarrow> b), b_len = (if buffer = None then 0 else len), b_pos = 0, b_out = []\<rparr>"

text \<open>\<open>str()\<close> returns the buffer, whose text ends at the terminating zero it writes, and \<open>str(len)\<close> its length.\<close>

definition b_str :: "bstream \<Rightarrow> (u8 list option \<times> bstream) option" where
  "b_str s =
     (if b_len s < 1 then Some (None, s)
      else let s = (if b_pos s \<ge> b_len s then s\<lparr>b_pos := b_len s - 1\<rparr> else s)
           in do { buf \<leftarrow> wr (b_buf s) (b_pos s) 0; Some (Some buf, s\<lparr>b_buf := buf\<rparr>) })"

definition b_str_len :: "bstream \<Rightarrow> (u8 list option \<times> nat \<times> bstream) option" where
  "b_str_len s = do { (buf, s) \<leftarrow> b_str s; Some (buf, if b_len s < 1 then 0 else b_pos s, s) }"

definition flush_none :: flush where
  "flush_none s = Some s"

text \<open>
  \<open>sys out data\<close> is what the system call \<open>write\<close> returns for these bytes when \<open>out\<close> has been written
  before: the number of bytes that were taken, or None for an error.
\<close>

partial_function (option) flush_loop :: "(u8 list \<Rightarrow> u8 list \<Rightarrow> nat option) \<Rightarrow> u8 list \<Rightarrow> u8 list \<Rightarrow> nat \<Rightarrow> u8 list option" where
  "flush_loop sys out data l =
     (if l < length data
      then (case sys out (drop l data) of
              None \<Rightarrow> Some out
            | Some n \<Rightarrow> flush_loop sys (out @ take n (drop l data)) data (l + n))
      else Some out)"

definition flush_fd :: "(u8 list \<Rightarrow> u8 list \<Rightarrow> nat option) \<Rightarrow> flush" where
  "flush_fd sys s =
     (if b_pos s \<le> length (b_buf s)
      then do { out \<leftarrow> flush_loop sys (b_out s) (take (b_pos s) (b_buf s)) 0; Some (s\<lparr>b_out := out, b_pos := 0\<rparr>) }
      else None)"

section \<open>Characters\<close>

text \<open>The body of the loops of \<open>write\<close> and \<open>write_str\<close>.\<close>

definition put :: "flush \<Rightarrow> u8 \<Rightarrow> bstream \<Rightarrow> bstream option" where
  "put flush c s =
     (if b_pos s + 1 < b_len s
      then do { buf \<leftarrow> wr (b_buf s) (b_pos s) c;
                let s = s\<lparr>b_buf := buf, b_pos := b_pos s + 1\<rparr>;
                if b_pos s + 1 = b_len s then flush s else Some s }
      else Some s)"

fun write_str :: "flush \<Rightarrow> cstring \<Rightarrow> nat \<Rightarrow> bstream \<Rightarrow> bstream option" where
  "write_str flush [] limit s = (if limit = 0 then Some s else None)"
| "write_str flush (c # string) limit s =
     (if limit > 0 \<and> c \<noteq> 0 then do { s \<leftarrow> put flush c s; write_str flush string (limit - 1) s } else Some s)"

text \<open>A character behind the end of \<open>string\<close> is only read when there is room for it.\<close>

fun write_n :: "flush \<Rightarrow> u8 list \<Rightarrow> nat \<Rightarrow> bstream \<Rightarrow> bstream option" where
  "write_n flush [] num s = (if num > 0 \<and> b_pos s + 1 < b_len s then None else Some s)"
| "write_n flush (c # string) num s =
     (if num > 0 then do { s \<leftarrow> put flush c s; write_n flush string (num - 1) s } else Some s)"

fun write_fill :: "flush \<Rightarrow> u8 \<Rightarrow> nat \<Rightarrow> bstream \<Rightarrow> bstream option" where
  "write_fill flush c 0 s = Some s"
| "write_fill flush c (Suc num) s = do { s \<leftarrow> put flush c s; write_fill flush c num s }"

definition char_store :: "u8 \<Rightarrow> bstream \<Rightarrow> bstream option" where
  "char_store c s = (if b_pos s + 1 < b_len s
     then do { buf \<leftarrow> wr (b_buf s) (b_pos s) c; Some (s\<lparr>b_buf := buf, b_pos := b_pos s + 1\<rparr>) } else Some s)"

definition char_end :: "flush \<Rightarrow> bstream \<Rightarrow> bstream option" where
  "char_end flush s = (if b_pos s + 1 \<ge> b_len s then flush (s\<lparr>b_width := 0\<rparr>) else Some (s\<lparr>b_width := 0\<rparr>))"

definition put_char :: "flush \<Rightarrow> u8 \<Rightarrow> bstream \<Rightarrow> bstream option" where
  "put_char flush c s =
     do { s \<leftarrow> (if b_width s > 1 \<and> \<not> b_left s then write_fill flush (b_fill s) (unat (b_width s) - 1) s else Some s);
          s \<leftarrow> char_store c s;
          s \<leftarrow> (if b_width s > 1 \<and> b_left s then write_fill flush (b_fill s) (unat (b_width s) - 1) s else Some s);
          char_end flush s }"

definition writefill_str :: "flush \<Rightarrow> cstring \<Rightarrow> nat \<Rightarrow> bstream \<Rightarrow> bstream option" where
  "writefill_str flush string precision s =
     do { s \<leftarrow> (if \<not> b_left s \<and> unat (b_width s) > precision
                then write_fill flush (b_fill s) (unat (b_width s) - precision) s else Some s);
          s \<leftarrow> write_str flush string precision s;
          s \<leftarrow> (if b_left s \<and> unat (b_width s) > precision
                then write_fill flush (b_fill s) (unat (b_width s) - precision) s else Some s);
          Some (s\<lparr>b_width := 0\<rparr>) }"

definition put_str :: "flush \<Rightarrow> cstring option \<Rightarrow> bstream \<Rightarrow> bstream option" where
  "put_str flush string s =
     (case string of None \<Rightarrow> Some s
      | Some str \<Rightarrow>
          if b_width s > 0 then do { n \<leftarrow> str_len string SIZE_MAX; writefill_str flush str n s }
          else write_str flush str SIZE_MAX s)"

definition put_bool :: "flush \<Rightarrow> bool \<Rightarrow> bstream \<Rightarrow> bstream option" where
  "put_bool flush b s = (if b then writefill_str flush [116, 114, 117, 101, 0] 4 s
     else writefill_str flush [102, 97, 108, 115, 101, 0] 5 s)"

section \<open>Numbers\<close>

partial_function (option) div_loop :: "u64 \<Rightarrow> u64 \<Rightarrow> u64 \<Rightarrow> nat \<Rightarrow> (u64 \<times> nat) option" where
  "div_loop ival base d n =
     (if d = 0 then None
      else if ival div d \<ge> base then div_loop ival base (d * base) (n + 1)
      else Some (d, n))"

partial_function (option) digit_loop :: "flush \<Rightarrow> u64 \<Rightarrow> u64 \<Rightarrow> u64 \<Rightarrow> bstream \<Rightarrow> bstream option" where
  "digit_loop flush ival base d s =
     (if d > 0
      then do { let digit = ival div d;
                s \<leftarrow> (if digit < 10 then put_char flush (ucast (48 + digit)) s
                      else put_char flush (ucast (ucast (b_hexchar s) + digit - 10)) s);
                if base = 0 then None else digit_loop flush (ival mod d) base (d div base) s }
      else Some s)"

text \<open>The characters before the digits.\<close>

definition put_prefix :: "flush \<Rightarrow> bool \<Rightarrow> bool \<Rightarrow> bstream \<Rightarrow> bstream option" where
  "put_prefix flush neg ignore_oct_prefix s =
     (if b_base s = 2 then
        if b_prefix s then do { s \<leftarrow> put_char flush 48 s; put_char flush 98 s } else Some s
      else if b_base s = 8 then
        if b_prefix s \<and> \<not> ignore_oct_prefix then put_char flush 48 s else Some s
      else if b_base s = 16 then
        if b_prefix s then do { s \<leftarrow> put_char flush 48 s; put_char flush (if b_hexchar s = 65 then 88 else 120) s } else Some s
      else if neg then put_char flush 45 s
      else if b_sign s = PLUS then put_char flush 43 s
      else if b_sign s = SPACE then put_char flush 32 s
      else Some s)"

text \<open>The number of characters without padding, and \<open>ignore_oct_prefix\<close>.\<close>

definition number_width :: "bstream \<Rightarrow> u64 \<Rightarrow> bool \<Rightarrow> nat \<Rightarrow> nat \<Rightarrow> nat \<times> bool" where
  "number_width s ival neg precision ival_precision =
     (let n = (if precision \<noteq> SIZE_MAX \<and> ival_precision < precision then precision else ival_precision)
      in if b_base s = 10 \<and> (neg \<or> b_sign s \<noteq> MINUS_ONLY) then (n + 1, False)
         else if b_base s = 8 \<and> b_prefix s then if ival_precision \<noteq> n \<or> ival = 0 then (n, True) else (n + 1, False)
         else if (b_base s = 2 \<or> b_base s = 16) \<and> b_prefix s then (n + 2, False)
         else (n, False))"

definition writefill_uint :: "flush \<Rightarrow> u64 \<Rightarrow> bool \<Rightarrow> nat \<Rightarrow> bstream \<Rightarrow> bstream option" where
  "writefill_uint flush ival neg precision s =
     (if ival = 0 \<and> precision = 0 then write_fill flush (b_fill s) (unat (b_width s)) s
      else do {
        (d, ival_precision) \<leftarrow> div_loop ival (ucast (b_base s)) 1 1;
        let (n, ignore_oct_prefix) = number_width s ival neg precision ival_precision;
        let pad = (if unat (b_width s) > n then unat (b_width s) - n else 0);
        let s = s\<lparr>b_width := 0\<rparr>;
        let before = (pad \<noteq> 0 \<and> \<not> b_left s \<and> (b_fill s \<noteq> 48 \<or> (\<not> neg \<and> b_sign s \<noteq> PLUS \<and> b_base s = 10)));
        s \<leftarrow> (if before then write_fill flush (b_fill s) pad s else Some s);
        let pad = (if before then 0 else pad);
        s \<leftarrow> put_prefix flush neg ignore_oct_prefix s;
        s \<leftarrow> (if precision \<noteq> SIZE_MAX \<and> ival_precision < precision
              then write_fill flush 48 (precision - ival_precision) s else Some s);
        s \<leftarrow> (if pad \<noteq> 0 \<and> \<not> b_left s \<and> b_fill s = 48 \<and> (neg \<or> b_sign s = PLUS \<or> b_base s \<noteq> 10)
              then write_fill flush (b_fill s) pad s else Some s);
        s \<leftarrow> digit_loop flush ival (ucast (b_base s)) d s;
        if pad \<noteq> 0 \<and> b_left s then write_fill flush (b_fill s) pad s else Some s })"

text \<open>The negation of the smallest value overflows.\<close>

definition writefill_int :: "flush \<Rightarrow> u64 \<Rightarrow> nat \<Rightarrow> bstream \<Rightarrow> bstream option" where
  "writefill_int flush ival precision s =
     (if sint ival < 0 \<and> b_base s = 10
      then if ival = 0x8000000000000000 then None else writefill_uint flush (- ival) True precision s
      else writefill_uint flush ival False precision s)"

text \<open>\<open>operator<<\<close> for the integral types and for pointers.\<close>

definition put_i16 :: "flush \<Rightarrow> u16 \<Rightarrow> bstream \<Rightarrow> bstream option" where
  "put_i16 flush v = writefill_int flush (scast v) SIZE_MAX"

definition put_u16 :: "flush \<Rightarrow> u16 \<Rightarrow> bstream \<Rightarrow> bstream option" where
  "put_u16 flush v = writefill_uint flush (ucast v) False SIZE_MAX"

definition put_i32 :: "flush \<Rightarrow> u32 \<Rightarrow> bstream \<Rightarrow> bstream option" where
  "put_i32 flush v = writefill_int flush (scast v) SIZE_MAX"

definition put_u32 :: "flush \<Rightarrow> u32 \<Rightarrow> bstream \<Rightarrow> bstream option" where
  "put_u32 flush v = writefill_uint flush (ucast v) False SIZE_MAX"

definition put_i64 :: "flush \<Rightarrow> u64 \<Rightarrow> bstream \<Rightarrow> bstream option" where
  "put_i64 flush v = writefill_int flush v SIZE_MAX"

definition put_u64 :: "flush \<Rightarrow> u64 \<Rightarrow> bstream \<Rightarrow> bstream option" where
  "put_u64 flush v = writefill_uint flush v False SIZE_MAX"

definition put_ptr :: "flush \<Rightarrow> u64 \<Rightarrow> bstream \<Rightarrow> bstream option" where
  "put_ptr flush p s =
     do { let oldbase = b_base s;
          s \<leftarrow> writefill_uint flush p False SIZE_MAX (s\<lparr>b_base := 16\<rparr>);
          Some (s\<lparr>b_base := oldbase\<rparr>) }"

section \<open>Manipulators\<close>

definition set_base :: "u8 \<Rightarrow> bstream \<Rightarrow> bstream" where
  "set_base base s = s\<lparr>b_base := (if base = 2 \<or> base = 8 \<or> base = 10 \<or> base = 16 then base else 10)\<rparr>"

definition set_width :: "u8 \<Rightarrow> bstream \<Rightarrow> bstream" where
  "set_width n s = s\<lparr>b_width := n\<rparr>"

definition set_fill :: "u8 \<Rightarrow> bstream \<Rightarrow> bstream" where
  "set_fill c s = s\<lparr>b_fill := c\<rparr>"

definition b_align :: "bool \<Rightarrow> bstream \<Rightarrow> bstream" where
  "b_align right s = s\<lparr>b_left := \<not> right\<rparr>"

definition set_prefix :: "bool \<Rightarrow> bstream \<Rightarrow> bstream" where
  "set_prefix b s = s\<lparr>b_prefix := b\<rparr>"

definition put_endl :: "flush \<Rightarrow> bstream \<Rightarrow> bstream option" where
  "put_endl flush s = do { s \<leftarrow> put_char flush 10 s; flush s }"

text \<open>The text of another stream; both streams change.\<close>

definition put_stream :: "flush \<Rightarrow> bstream \<Rightarrow> bstream \<Rightarrow> (bstream \<times> bstream) option" where
  "put_stream flush bs s =
     do { (text, bs) \<leftarrow> b_str bs; s \<leftarrow> put_str flush text s; Some (bs, s) }"

section \<open>Format strings\<close>

text \<open>The arguments behind the format string: taking one as another type is undefined.\<close>

datatype arg = AInt u32 | ALong u64 | AStr "cstring option" | APtr u64 | AOut

datatype fmode = NONE | MARKER | FLAGS | WIDTHSTAR | WIDTH | PRECISIONDOT | PRECISIONSTAR | PRECISION | F_LENGTH

datatype flength = L_SHORT | L_INT | L_LONG | L_LONGLONG

text \<open>\<open>f_stored\<close> are the values that have been written through the pointers of the directive \<open>n\<close>.\<close>

record fstate =
  f_state :: fmode
  f_length :: flength
  f_precision :: nat
  f_start :: "nat option"
  f_args :: "arg list"
  f_stored :: "u32 list"
  f_stream :: bstream

definition va_int :: "fstate \<Rightarrow> (u32 \<times> fstate) option" where
  "va_int st = (case f_args st of AInt v # as \<Rightarrow> Some (v, st\<lparr>f_args := as\<rparr>) | _ \<Rightarrow> None)"

definition va_long :: "fstate \<Rightarrow> (u64 \<times> fstate) option" where
  "va_long st = (case f_args st of ALong v # as \<Rightarrow> Some (v, st\<lparr>f_args := as\<rparr>) | _ \<Rightarrow> None)"

definition va_str :: "fstate \<Rightarrow> (cstring option \<times> fstate) option" where
  "va_str st = (case f_args st of AStr v # as \<Rightarrow> Some (v, st\<lparr>f_args := as\<rparr>) | _ \<Rightarrow> None)"

definition va_ptr :: "fstate \<Rightarrow> (u64 \<times> fstate) option" where
  "va_ptr st = (case f_args st of APtr v # as \<Rightarrow> Some (v, st\<lparr>f_args := as\<rparr>) | _ \<Rightarrow> None)"

definition va_out :: "u32 \<Rightarrow> fstate \<Rightarrow> fstate option" where
  "va_out v st = (case f_args st of AOut # as \<Rightarrow> Some (st\<lparr>f_args := as, f_stored := f_stored st @ [v]\<rparr>) | _ \<Rightarrow> None)"

definition on_stream :: "(bstream \<Rightarrow> bstream option) \<Rightarrow> fstate \<Rightarrow> fstate option" where
  "on_stream f st = map_option (\<lambda>s. st\<lparr>f_stream := s\<rparr>) (f (f_stream st))"

definition set_stream :: "(bstream \<Rightarrow> bstream) \<Rightarrow> fstate \<Rightarrow> fstate" where
  "set_stream f st = st\<lparr>f_stream := f (f_stream st)\<rparr>"

text \<open>What every directive ends with.\<close>

definition f_done :: "fstate \<Rightarrow> fstate" where
  "f_done st = st\<lparr>f_start := None, f_state := NONE\<rparr>"

text \<open>The number behind a star: its sign and its amount.\<close>

definition star :: "fstate \<Rightarrow> (bool \<times> u32 \<times> fstate) option" where
  "star st = do { (tmp, st) \<leftarrow> va_int st;
     if sint tmp < 0 then if tmp = 0x80000000 then None else Some (True, - tmp, st) else Some (False, tmp, st) }"

definition signed_directive :: "flush \<Rightarrow> fstate \<Rightarrow> fstate option" where
  "signed_directive flush st =
     do { (v, st) \<leftarrow> (case f_length st of
            L_SHORT \<Rightarrow> do { (v, st) \<leftarrow> va_int st; Some (scast (ucast v :: u16), st) }
          | L_LONG \<Rightarrow> do { (v, st) \<leftarrow> va_int st; Some (scast v, st) }
          | L_LONGLONG \<Rightarrow> va_long st
          | L_INT \<Rightarrow> do { (v, st) \<leftarrow> va_int st; Some (scast v, st) });
          st \<leftarrow> on_stream (writefill_int flush v (f_precision st)) st;
          Some (f_done st) }"

definition unsigned_directive :: "flush \<Rightarrow> fstate \<Rightarrow> fstate option" where
  "unsigned_directive flush st =
     do { (v, st) \<leftarrow> (case f_length st of
            L_SHORT \<Rightarrow> do { (v, st) \<leftarrow> va_int st; Some (ucast (ucast v :: u16), st) }
          | L_LONG \<Rightarrow> va_long st
          | L_LONGLONG \<Rightarrow> va_long st
          | L_INT \<Rightarrow> do { (v, st) \<leftarrow> va_int st; Some (ucast v, st) });
          st \<leftarrow> on_stream (writefill_uint flush v False (f_precision st)) st;
          Some (f_done st) }"

definition case_specifier :: "flush \<Rightarrow> nat \<Rightarrow> u8 \<Rightarrow> fstate \<Rightarrow> fstate option" where
  "case_specifier flush start c st =
     (if c = 99 then
        do { (v, st) \<leftarrow> va_int st; st \<leftarrow> on_stream (put_char flush (ucast v)) st; Some (f_done st) }
      else if c = 115 then
        do { (v, st) \<leftarrow> va_str st;
             let str = (case v of None \<Rightarrow> [40, 110, 117, 108, 108, 41, 0] | Some s \<Rightarrow> s);
             st \<leftarrow> on_stream (if f_precision st \<noteq> SIZE_MAX then writefill_str flush str (f_precision st)
                               else put_str flush (Some str)) st;
             Some (f_done st) }
      else if c = 112 then
        do { (p, st) \<leftarrow> va_ptr st;
             st \<leftarrow> (if p \<noteq> 0
                    then on_stream (writefill_uint flush p False SIZE_MAX)
                           (set_stream (\<lambda>s. s\<lparr>b_prefix := True, b_base := 16\<rparr>) st)
                    else on_stream (put_str flush (Some [40, 110, 105, 108, 41, 0])) (set_stream (\<lambda>s. s\<lparr>b_fill := 32\<rparr>) st));
             Some (f_done st) }
      else if c = 110 then
        do { st \<leftarrow> va_out (word_of_int (int (b_pos (f_stream st)) - int start)) st; Some (f_done st) }
      else if c = 100 \<or> c = 105 then signed_directive flush st
      else if c = 98 then unsigned_directive flush (set_stream (\<lambda>s. s\<lparr>b_base := 2\<rparr>) st)
      else if c = 111 then unsigned_directive flush (set_stream (\<lambda>s. s\<lparr>b_base := 8\<rparr>) st)
      else if c = 120 then unsigned_directive flush (set_stream (\<lambda>s. s\<lparr>b_hexchar := 97, b_base := 16\<rparr>) st)
      else if c = 88 then unsigned_directive flush (set_stream (\<lambda>s. s\<lparr>b_hexchar := 65, b_base := 16\<rparr>) st)
      else if c = 117 then unsigned_directive flush (set_stream (\<lambda>s. s\<lparr>b_sign := MINUS_ONLY\<rparr>) st)
      else Some (st\<lparr>f_state := NONE\<rparr>))"

definition case_length :: "flush \<Rightarrow> nat \<Rightarrow> u8 \<Rightarrow> fstate \<Rightarrow> fstate option" where
  "case_length flush start c st =
     (if c = 104 then Some (st\<lparr>f_length := L_SHORT\<rparr>)
      else if c = 108 then Some (st\<lparr>f_length := (if f_length st \<noteq> L_LONG then L_LONG else L_LONGLONG)\<rparr>)
      else if c = 106 \<or> c = 122 \<or> c = 116 then Some (st\<lparr>f_length := L_LONG\<rparr>)
      else case_specifier flush start c st)"

definition case_precisiondot :: "flush \<Rightarrow> nat \<Rightarrow> u8 \<Rightarrow> fstate \<Rightarrow> fstate option" where
  "case_precisiondot flush start c st =
     (if c = 46 then Some (set_stream (\<lambda>s. s\<lparr>b_fill := 32\<rparr>) (st\<lparr>f_precision := 0, f_state := PRECISIONSTAR\<rparr>))
      else case_length flush start c (st\<lparr>f_state := F_LENGTH\<rparr>))"

definition is_digit :: "u8 \<Rightarrow> bool" where
  "is_digit c \<longleftrightarrow> 48 \<le> sint c \<and> sint c \<le> 57"

definition case_precision :: "flush \<Rightarrow> nat \<Rightarrow> u8 \<Rightarrow> fstate \<Rightarrow> fstate option" where
  "case_precision flush start c st =
     (if is_digit c then Some (st\<lparr>f_precision := (f_precision st * 10 + nat (sint c - 48)) mod (SIZE_MAX + 1)\<rparr>)
      else case_precisiondot flush start c st)"

definition case_precisionstar :: "flush \<Rightarrow> nat \<Rightarrow> u8 \<Rightarrow> fstate \<Rightarrow> fstate option" where
  "case_precisionstar flush start c st =
     (if c = 42 then do { (_, v, st) \<leftarrow> star st; Some (st\<lparr>f_precision := unat v, f_state := F_LENGTH\<rparr>) }
      else case_precision flush start c (st\<lparr>f_state := PRECISION\<rparr>))"

definition case_width :: "flush \<Rightarrow> nat \<Rightarrow> u8 \<Rightarrow> fstate \<Rightarrow> fstate option" where
  "case_width flush start c st =
     (if is_digit c then Some (set_stream (\<lambda>s. s\<lparr>b_width := b_width s * 10 + c - 48\<rparr>) st)
      else case_precisionstar flush start c st)"

definition case_widthstar :: "flush \<Rightarrow> nat \<Rightarrow> u8 \<Rightarrow> fstate \<Rightarrow> fstate option" where
  "case_widthstar flush start c st =
     (if c = 42 then
        do { (negative, v, st) \<leftarrow> star st;
             let st = set_stream (\<lambda>s. s\<lparr>b_width := ucast v, b_left := (if negative then True else b_left s)\<rparr>) st;
             Some (st\<lparr>f_state := PRECISIONDOT\<rparr>) }
      else case_width flush start c (st\<lparr>f_state := WIDTH\<rparr>))"

definition case_flags :: "flush \<Rightarrow> nat \<Rightarrow> u8 \<Rightarrow> fstate \<Rightarrow> fstate option" where
  "case_flags flush start c st =
     (if c = 43 then Some (set_stream (\<lambda>s. s\<lparr>b_sign := PLUS\<rparr>) st)
      else if c = 45 then Some (set_stream (\<lambda>s. s\<lparr>b_left := True\<rparr>) st)
      else if c = 32 then Some (set_stream (\<lambda>s. if b_sign s \<noteq> PLUS then s\<lparr>b_sign := SPACE\<rparr> else s) st)
      else if c = 48 then Some (set_stream (\<lambda>s. s\<lparr>b_fill := 48\<rparr>) st)
      else if c = 35 then Some (set_stream (\<lambda>s. s\<lparr>b_prefix := True\<rparr>) st)
      else if c = 73 then Some st
      else case_widthstar flush start c
             (set_stream (\<lambda>s. if b_left s then s\<lparr>b_fill := 32\<rparr> else s) (st\<lparr>f_state := WIDTHSTAR\<rparr>)))"

definition case_marker :: "flush \<Rightarrow> nat \<Rightarrow> u8 \<Rightarrow> fstate \<Rightarrow> fstate option" where
  "case_marker flush start c st =
     (if c = 37 then on_stream (put_char flush c) (f_done st)
      else case_flags flush start c (st\<lparr>f_state := FLAGS\<rparr>))"

text \<open>The characters from \<open>format_start\<close> up to the current one.\<close>

fun put_chars :: "flush \<Rightarrow> u8 list \<Rightarrow> bstream \<Rightarrow> bstream option" where
  "put_chars flush [] s = Some s"
| "put_chars flush (c # cs) s = do { s \<leftarrow> put_char flush c s; put_chars flush cs s }"

definition pending :: "cstring \<Rightarrow> nat \<Rightarrow> fstate \<Rightarrow> u8 list" where
  "pending fmt i st = (case f_start st of None \<Rightarrow> [] | Some j \<Rightarrow> take (i - j) (drop j fmt))"

definition case_none :: "flush \<Rightarrow> cstring \<Rightarrow> nat \<Rightarrow> u8 \<Rightarrow> fstate \<Rightarrow> fstate option" where
  "case_none flush fmt i c st =
     do { st \<leftarrow> on_stream (put_chars flush (pending fmt i st)) st;
          if c = 37
          then Some (set_stream (\<lambda>s. s\<lparr>b_base := 10, b_width := 0, b_fill := 32, b_hexchar := 97, b_prefix := False,
                   b_left := False, b_sign := MINUS_ONLY\<rparr>)
                 (st\<lparr>f_start := Some i, f_state := MARKER, f_precision := SIZE_MAX, f_length := L_INT\<rparr>))
          else map_option (\<lambda>st. st\<lparr>f_start := None\<rparr>) (on_stream (put_char flush c) st) }"

definition format_step :: "flush \<Rightarrow> nat \<Rightarrow> cstring \<Rightarrow> nat \<Rightarrow> u8 \<Rightarrow> fstate \<Rightarrow> fstate option" where
  "format_step flush start fmt i c st =
     (case f_state st of
        MARKER \<Rightarrow> case_marker flush start c st
      | FLAGS \<Rightarrow> case_flags flush start c st
      | WIDTHSTAR \<Rightarrow> case_widthstar flush start c st
      | WIDTH \<Rightarrow> case_width flush start c st
      | PRECISIONSTAR \<Rightarrow> case_precisionstar flush start c st
      | PRECISION \<Rightarrow> case_precision flush start c st
      | PRECISIONDOT \<Rightarrow> case_precisiondot flush start c st
      | F_LENGTH \<Rightarrow> case_length flush start c st
      | NONE \<Rightarrow> case_none flush fmt i c st)"

fun format_loop :: "flush \<Rightarrow> nat \<Rightarrow> cstring \<Rightarrow> nat \<Rightarrow> cstring \<Rightarrow> fstate \<Rightarrow> (nat \<times> fstate) option" where
  "format_loop flush start fmt i [] st = None"
| "format_loop flush start fmt i (c # rest) st =
     (if c \<noteq> 0 then do { st \<leftarrow> format_step flush start fmt i c st; format_loop flush start fmt (i + 1) rest st }
      else Some (i, st))"

text \<open>The number of bytes, the values stored by the directive \<open>n\<close>, and the stream.\<close>

definition format :: "flush \<Rightarrow> cstring \<Rightarrow> arg list \<Rightarrow> bstream \<Rightarrow> (nat \<times> u32 list \<times> bstream) option" where
  "format flush fmt args s =
     do { let start = b_pos s;
          (i, st) \<leftarrow> format_loop flush start fmt 0 fmt
            \<lparr>f_state = NONE, f_length = L_INT, f_precision = SIZE_MAX, f_start = None, f_args = args, f_stored = [], f_stream = s\<rparr>;
          st \<leftarrow> on_stream (put_chars flush (pending fmt i st)) st;
          let r = (f_stream st)\<lparr>b_base := b_base s, b_width := b_width s, b_fill := b_fill s, b_hexchar := b_hexchar s,
            b_prefix := b_prefix s, b_left := b_left s, b_sign := b_sign s\<rparr>;
          let n = size_sub (b_pos r) start;
          (_, r) \<leftarrow> b_str r;
          r \<leftarrow> flush r;
          Some (n, f_stored st, r) }"

declare flush_loop.simps [code] div_loop.simps [code] digit_loop.simps [code]

end
