(* ===== verification/StreamProps.thy ===== *)
theory StreamProps
  imports BufferStream
begin

text \<open>
  What a stream prints.  The locale \<open>stream_sink\<close> is the contract of \<open>flush\<close>: it keeps the text that has been
  written, and \<open>keep\<close> says how much of a text the stream takes (everything, or what fits into the buffer).
  In it every printing function is shown to append its text; the two kinds of streams are its
  interpretations.
\<close>

section \<open>The text of a stream\<close>

definition written :: "bstream \<Rightarrow> u8 list" where
  "written s = b_out s @ take (b_pos s) (b_buf s)"

text \<open>The same options and the same length of the buffer.\<close>

definition moved :: "bstream \<Rightarrow> bstream \<Rightarrow> bool" where
  "moved s s' \<longleftrightarrow> (\<exists>buf p out. s' = s\<lparr>b_buf := buf, b_pos := p, b_out := out\<rparr>)"

lemma moved_refl [simp]: "moved s s"
  unfolding moved_def by (intro exI [of _ "b_buf s"] exI [of _ "b_pos s"] exI [of _ "b_out s"]) simp

lemma moved_trans [trans]: "moved s s' \<Longrightarrow> moved s' s'' \<Longrightarrow> moved s s''"
  unfolding moved_def by fastforce

lemma movedD:
  assumes "moved s s'"
  shows "b_base s' = b_base s" "b_width s' = b_width s" "b_fill s' = b_fill s" "b_hexchar s' = b_hexchar s"
    "b_prefix s' = b_prefix s" "b_left s' = b_left s" "b_sign s' = b_sign s" "b_len s' = b_len s"
  using assms by (auto simp: moved_def)

lemma moved_width: "moved s s' \<Longrightarrow> moved (s\<lparr>b_width := w\<rparr>) (s'\<lparr>b_width := w\<rparr>)"
proof -
  assume "moved s s'"
  then obtain buf p out where "s' = s\<lparr>b_buf := buf, b_pos := p, b_out := out\<rparr>" unfolding moved_def by blast
  then have "s'\<lparr>b_width := w\<rparr> = s\<lparr>b_width := w\<rparr>\<lparr>b_buf := buf, b_pos := p, b_out := out\<rparr>" by simp
  then show ?thesis unfolding moved_def by blast
qed

text \<open>Two states that differ in options only.\<close>

definition same_data :: "bstream \<Rightarrow> bstream \<Rightarrow> bool" where
  "same_data s s' \<longleftrightarrow> b_buf s' = b_buf s \<and> b_len s' = b_len s \<and> b_pos s' = b_pos s \<and> b_out s' = b_out s"

definition stored :: "u8 \<Rightarrow> bstream \<Rightarrow> bstream" where
  "stored c s = s\<lparr>b_buf := (b_buf s)[b_pos s := c], b_pos := b_pos s + 1\<rparr>"

definition wf_stream :: "bstream \<Rightarrow> bool" where
  "wf_stream s \<longleftrightarrow> b_pos s < b_len s \<and> b_len s \<le> length (b_buf s)"

lemma written_stored: "b_pos s < length (b_buf s) \<Longrightarrow> written (stored c s) = written s @ [c]"
  by (simp add: written_def stored_def take_Suc_conv_app_nth)

lemma moved_stored: "moved s (stored c s)"
  unfolding moved_def stored_def
  by (intro exI [of _ "(b_buf s)[b_pos s := c]"] exI [of _ "b_pos s + 1"] exI [of _ "b_out s"]) simp

text \<open>A character in a field of the width.\<close>

definition char_text :: "bstream \<Rightarrow> u8 \<Rightarrow> u8 list" where
  "char_text s c = (if 1 < b_width s then if b_left s then c # replicate (unat (b_width s) - 1) (b_fill s)
     else replicate (unat (b_width s) - 1) (b_fill s) @ [c] else [c])"

locale stream_sink =
  fixes flush :: flush and ready :: "bstream \<Rightarrow> bool" and inv :: "bstream \<Rightarrow> bool"
    and keep :: "nat \<Rightarrow> u8 list \<Rightarrow> u8 list"
  assumes inv_ready: "inv s \<Longrightarrow> ready s"
    and ready_wf: "ready s \<Longrightarrow> wf_stream s"
    and flush_ok: "ready s \<Longrightarrow> \<exists>s'. flush s = Some s' \<and> inv s' \<and> moved s s' \<and> written s' = written s"
    and stored_ready: "inv s \<Longrightarrow> b_pos s + 1 < b_len s \<Longrightarrow> ready (stored c s)"
    and stored_inv: "inv s \<Longrightarrow> b_pos s + 2 < b_len s \<Longrightarrow> inv (stored c s)"
    and options: "inv s \<Longrightarrow> same_data s s' \<Longrightarrow> inv s'"
    and keep_room: "inv s \<Longrightarrow> b_pos s + 1 < b_len s \<Longrightarrow> keep (b_len s) (written s @ [c]) = written s @ [c]"
    and keep_full: "inv s \<Longrightarrow> \<not> b_pos s + 1 < b_len s \<Longrightarrow> keep (b_len s) (written s @ t) = written s"
    and keep_written: "inv s \<Longrightarrow> keep (b_len s) (written s) = written s"
    and keep_keep: "keep n (keep n t @ u) = keep n (t @ u)"
begin

text \<open>Printing the text \<open>t\<close> from \<open>s\<close> has ended in \<open>s'\<close>.\<close>

definition prints :: "u8 list \<Rightarrow> bstream \<Rightarrow> bstream \<Rightarrow> bool" where
  "prints t s s' \<longleftrightarrow> inv s' \<and> moved s s' \<and> written s' = keep (b_len s) (written s @ t)"

lemma printsD: "prints t s s' \<Longrightarrow> inv s'" "prints t s s' \<Longrightarrow> moved s s'"
  by (simp_all add: prints_def)

lemma prints_nothing: "inv s \<Longrightarrow> prints [] s s"
  by (simp add: prints_def keep_written)

lemma prints_append: "prints t s s' \<Longrightarrow> prints u s' s'' \<Longrightarrow> prints (t @ u) s s''"
  unfolding prints_def using movedD(8) by (auto intro: moved_trans simp: keep_keep)

lemma inv_width: "inv s \<Longrightarrow> inv (s\<lparr>b_width := w\<rparr>)"
  by (erule options) (simp add: same_data_def)

lemma prints_width: "prints t s s' \<Longrightarrow> prints t (s\<lparr>b_width := w\<rparr>) (s'\<lparr>b_width := w\<rparr>)"
  unfolding prints_def by (auto intro: inv_width moved_width simp: written_def)

lemma put_ok:
  assumes "inv s"
  shows "\<exists>s'. put flush c s = Some s' \<and> prints [c] s s'"
proof (cases "b_pos s + 1 < b_len s")
  case True
  note wf = ready_wf [OF inv_ready [OF assms], unfolded wf_stream_def]
  have p: "put flush c s = (if b_pos s + 2 = b_len s then flush (stored c s) else Some (stored c s))"
    using True wf by (simp add: put_def wr_def stored_def Let_def)
  note w = written_stored [of s c] keep_room [OF assms True, of c]
  show ?thesis
  proof (cases "b_pos s + 2 = b_len s")
    case full: True
    from flush_ok [OF stored_ready [OF assms True]] obtain s' where
      "flush (stored c s) = Some s'" "inv s'" "moved (stored c s) s'" "written s' = written (stored c s)" by blast
    then show ?thesis using p full w wf moved_stored [of s c] by (auto simp: prints_def intro: moved_trans)
  next
    case False
    then show ?thesis using p True w wf moved_stored [of s c] stored_inv [OF assms, of c] by (auto simp: prints_def)
  qed
next
  case False
  then show ?thesis using assms by (simp add: put_def prints_def keep_full)
qed

lemma write_fill_ok: "inv s \<Longrightarrow> \<exists>s'. write_fill flush c n s = Some s' \<and> prints (replicate n c) s s'"
proof (induction n arbitrary: s)
  case (Suc n)
  obtain s1 where s1: "put flush c s = Some s1" "prints [c] s s1" using put_ok [OF Suc.prems] by blast
  obtain s2 where "write_fill flush c n s1 = Some s2" "prints (replicate n c) s1 s2" using Suc.IH [OF printsD(1) [OF s1(2)]] by blast
  then show ?case using s1 prints_append [OF s1(2)] by fastforce
qed (simp add: prints_nothing)

text \<open>Of a terminated string, at most \<open>limit\<close> characters.\<close>

lemma write_str_ok: "inv s \<Longrightarrow> 0 \<notin> set t \<Longrightarrow> \<exists>s'. write_str flush (t @ 0 # r) limit s = Some s' \<and> prints (take limit t) s s'"
proof (induction t arbitrary: s limit)
  case (Cons c t)
  show ?case
  proof (cases limit)
    case (Suc l)
    obtain s1 where s1: "put flush c s = Some s1" "prints [c] s s1" using put_ok [OF Cons.prems(1)] by blast
    obtain s2 where "write_str flush (t @ 0 # r) l s1 = Some s2" "prints (take l t) s1 s2"
      using Cons.IH [OF printsD(1) [OF s1(2)]] Cons.prems(2) by auto
    then show ?thesis using s1 Suc Cons.prems(2) prints_append [OF s1(2)] by fastforce
  qed (use Cons.prems in \<open>simp add: prints_nothing\<close>)
qed (simp add: prints_nothing)

lemma write_n_ok: "inv s \<Longrightarrow> n \<le> length t \<Longrightarrow> \<exists>s'. write_n flush t n s = Some s' \<and> prints (take n t) s s'"
proof (induction t arbitrary: s n)
  case (Cons c t)
  show ?case
  proof (cases n)
    case (Suc l)
    obtain s1 where s1: "put flush c s = Some s1" "prints [c] s s1" using put_ok [OF Cons.prems(1)] by blast
    obtain s2 where "write_n flush t l s1 = Some s2" "prints (take l t) s1 s2"
      using Cons.IH [OF printsD(1) [OF s1(2)], of l] Cons.prems(2) Suc by auto
    then show ?thesis using s1 Suc prints_append [OF s1(2)] by fastforce
  qed (use Cons.prems in \<open>simp add: prints_nothing\<close>)
qed (simp add: prints_nothing)

lemma stored_width: "(stored c s)\<lparr>b_width := w\<rparr> = stored c (s\<lparr>b_width := w\<rparr>)"
  by (simp add: stored_def)

lemma char_store_eq: "wf_stream s \<Longrightarrow> char_store c s = Some (if b_pos s + 1 < b_len s then stored c s else s)"
  by (simp add: char_store_def wr_def stored_def wf_stream_def)

lemma char_tail_ok:
  assumes "inv s"
  shows "\<exists>s'. char_store c s \<bind> char_end flush = Some s' \<and> prints [c] (s\<lparr>b_width := 0\<rparr>) s'"
proof -
  note wf = ready_wf [OF inv_ready [OF assms]]
  let ?s = "s\<lparr>b_width := 0\<rparr>"
  have i: "inv ?s" by (rule inv_width [OF assms])
  show ?thesis
  proof (cases "b_pos s + 1 < b_len s")
    case True
    have "put flush c ?s = (if b_pos s + 2 = b_len s then flush (stored c ?s) else Some (stored c ?s))"
      using True wf by (simp add: put_def wr_def stored_def Let_def wf_stream_def)
    moreover have "b_len s \<le> b_pos s + 2 \<longleftrightarrow> b_pos s + 2 = b_len s" using True by linarith
    moreover have "b_pos (stored c s) = b_pos s + 1" "b_len (stored c s) = b_len s" by (simp_all add: stored_def)
    ultimately have "char_store c s \<bind> char_end flush = put flush c ?s"
      using True by (simp add: char_store_eq [OF wf] char_end_def stored_width)
    then show ?thesis using put_ok [OF i, of c] by simp
  next
    case False
    from flush_ok [OF inv_ready [OF i]] obtain s' where "flush ?s = Some s'" "inv s'" "moved ?s s'" "written s' = written ?s" by blast
    then show ?thesis using False i keep_full [OF i, of "[c]"] by (simp add: prints_def char_store_eq [OF wf] char_end_def)
  qed
qed

lemma put_char_ok:
  assumes "inv s" "b_left s \<Longrightarrow> 1 < b_width s \<Longrightarrow> b_pos s + 1 < b_len s \<Longrightarrow> inv (stored c s)"
  shows "\<exists>s'. put_char flush c s = Some s' \<and> prints (char_text s c) (s\<lparr>b_width := 0\<rparr>) s'"
proof (cases "1 < b_width s")
  case False
  then have "put_char flush c s = char_store c s \<bind> char_end flush"
    using ready_wf [OF inv_ready [OF assms(1)]] by (simp add: put_char_def char_store_eq stored_def)
  then show ?thesis using char_tail_ok [OF assms(1), of c] False by (simp add: char_text_def)
next
  case wide: True
  show ?thesis
  proof (cases "b_left s")
    case False
    obtain s1 where s1: "write_fill flush (b_fill s) (unat (b_width s) - 1) s = Some s1"
      "prints (replicate (unat (b_width s) - 1) (b_fill s)) s s1"
      using write_fill_ok [OF assms(1)] by blast
    have "\<not> b_left s1" using movedD(6) [OF printsD(2) [OF s1(2)]] False by simp
    then have "put_char flush c s = char_store c s1 \<bind> char_end flush"
      using wide False s1(1) ready_wf [OF inv_ready [OF printsD(1) [OF s1(2)]]] by (simp add: put_char_def char_store_eq stored_def)
    moreover obtain s2 where "char_store c s1 \<bind> char_end flush = Some s2" "prints [c] (s1\<lparr>b_width := 0\<rparr>) s2"
      using char_tail_ok [OF printsD(1) [OF s1(2)]] by blast
    ultimately show ?thesis
      using prints_append [OF prints_width [OF s1(2), of 0]] wide False by (auto simp: char_text_def)
  next
    case True
    note wf = ready_wf [OF inv_ready [OF assms(1)]]
    define s1 where "s1 = (if b_pos s + 1 < b_len s then stored c s else s)"
    have i1: "inv s1" using assms True wide by (simp add: s1_def)
    have p1: "prints [c] s s1"
      using i1 wf keep_room [OF assms(1), of c] keep_full [OF assms(1)] moved_stored [of s c] written_stored [of s c]
      by (auto simp: prints_def s1_def wf_stream_def)
    have o1: "b_width s1 = b_width s" "b_left s1" "b_fill s1 = b_fill s" using movedD [OF printsD(2) [OF p1]] True by simp_all
    obtain s2 where s2: "write_fill flush (b_fill s) (unat (b_width s) - 1) s1 = Some s2"
      "prints (replicate (unat (b_width s) - 1) (b_fill s)) s1 s2"
      using write_fill_ok [OF i1] by blast
    note p2 = prints_append [OF p1 s2(2), THEN prints_width, of 0]
    have i2: "inv (s2\<lparr>b_width := 0\<rparr>)" by (rule printsD(1) [OF p2])
    have "\<exists>s3. char_end flush s2 = Some s3 \<and> prints [] (s2\<lparr>b_width := 0\<rparr>) s3"
      using flush_ok [OF inv_ready [OF i2]] keep_written [OF i2] prints_nothing [OF i2] by (auto simp: prints_def char_end_def)
    then obtain s3 where s3: "char_end flush s2 = Some s3" "prints [] (s2\<lparr>b_width := 0\<rparr>) s3" by blast
    have "char_store c s = Some s1" by (simp add: char_store_eq [OF wf] s1_def)
    then have "put_char flush c s = Some s3"
      using s2(1) s3(1) wide True o1 by (simp add: put_char_def)
    then show ?thesis using prints_append [OF p2 s3(2)] wide True by (auto simp: char_text_def)
  qed
qed

end

end
