(* ===== verification/StreamNumbers.thy ===== *)
theory StreamNumbers
  imports StreamProps WordFacts
begin

text \<open>Numbers on streams: the digits that the loops print and the text around them.\<close>

section \<open>Digits\<close>

function radix :: "nat \<Rightarrow> nat \<Rightarrow> nat list" where
  "radix b n = (if b < 2 \<or> n < b then [n] else radix b (n div b) @ [n mod b])"
  by auto
termination by (relation "measure snd") auto

declare radix.simps [simp del]

lemma radix_small: "n < b \<Longrightarrow> radix b n = [n]"
  by (simp add: radix.simps [of b n])

lemma radix_large: "2 \<le> b \<Longrightarrow> b \<le> n \<Longrightarrow> radix b n = radix b (n div b) @ [n mod b]"
  by (simp add: radix.simps [of b n])

lemma radix_not_empty [simp]: "radix b n \<noteq> []"
  by (simp add: radix.simps [of b n])

text \<open>The digits from the most significant one, as the loop takes them off.\<close>

fun digits_down :: "nat \<Rightarrow> nat \<Rightarrow> nat \<Rightarrow> nat list" where
  "digits_down b 0 n = []"
| "digits_down b (Suc k) n = n div b ^ k # digits_down b k (n mod b ^ k)"

lemma digits_down_snoc: "2 \<le> b \<Longrightarrow> n < b ^ Suc k \<Longrightarrow> digits_down b (Suc k) n = digits_down b k (n div b) @ [n mod b]"
proof (induction k arbitrary: n)
  case (Suc k)
  have "n mod b ^ Suc k mod b = n mod b" by (simp add: mod_mod_cancel)
  moreover have "n mod b ^ Suc k div b = n div b mod b ^ k"
    using Suc.prems by (simp add: mod_mult2_eq)
  moreover have "n div b ^ Suc k = n div b div b ^ k" by (simp add: div_mult2_eq)
  ultimately show ?case using Suc.IH [of "n mod b ^ Suc k"] Suc.prems by simp
qed simp

lemma radix_length_bounds: "2 \<le> b \<Longrightarrow> n < b ^ length (radix b n) \<and> (0 < n \<longrightarrow> b ^ (length (radix b n) - 1) \<le> n)"
proof (induction b n rule: radix.induct)
  case (1 b n)
  show ?case
  proof (cases "n < b")
    case True
    then show ?thesis by (simp add: radix_small)
  next
    case False
    let ?l = "length (radix b (n div b))"
    have ih: "n div b < b ^ ?l" "b ^ (?l - 1) \<le> n div b" using 1 False by (auto simp: div_greater_zero_iff)
    have "n < b ^ ?l * b" using ih(1) 1(2) by (simp add: div_less_iff_less_mult)
    moreover have "b ^ (?l - 1) * b \<le> n" using ih(2) 1(2) by (simp add: less_eq_div_iff_mult_less_eq)
    moreover have "b ^ (?l - 1) * b = b ^ ?l" by (cases "radix b (n div b)") simp_all
    ultimately show ?thesis using False 1(2) by (simp add: radix_large mult.commute)
  qed
qed

lemma digits_down_radix: "2 \<le> b \<Longrightarrow> digits_down b (length (radix b n)) n = radix b n"
proof (induction b n rule: radix.induct)
  case (1 b n)
  show ?case
  proof (cases "n < b")
    case True
    then show ?thesis by (simp add: radix_small)
  next
    case False
    then show ?thesis using 1 digits_down_snoc [OF 1(2), of n "length (radix b (n div b))"]
        radix_length_bounds [OF 1(2), of n]
      by (simp add: radix_large)
  qed
qed

section \<open>The loops\<close>

lemma of_nat_le_word: "a < 2 ^ LENGTH('a) \<Longrightarrow> c < 2 ^ LENGTH('a) \<Longrightarrow> (of_nat a :: 'a::len word) \<le> of_nat c \<longleftrightarrow> a \<le> c"
  by (simp add: word_le_nat_alt unsigned_of_nat take_bit_nat_eq_self)

lemma of_nat_eq_0_word: "a < 2 ^ LENGTH('a) \<Longrightarrow> (of_nat a :: 'a::len word) = 0 \<longleftrightarrow> a = 0"
  by (simp add: word_unat_eq_iff unsigned_of_nat take_bit_nat_eq_self)

lemma div_loop_ok:
  assumes "2 \<le> b" "b \<le> 16" "n < 2 ^ 64"
  shows "q = n div b ^ k \<Longrightarrow> b ^ k \<le> max 1 n \<Longrightarrow>
    div_loop (of_nat n) (of_nat b) (of_nat (b ^ k)) (Suc k) = Some (of_nat (b ^ (k + length (radix b q) - 1)), k + length (radix b q))"
proof (induction q arbitrary: k rule: less_induct)
  case (less q)
  have k: "b ^ k < 2 ^ 64" "0 < b ^ k" using less.prems(2) assms by (auto simp: max_def split: if_splits)
  have q: "q < 2 ^ 64" using assms(3) less.prems(1) div_le_dividend order_le_less_trans by blast
  have nz: "(of_nat (b ^ k) :: u64) \<noteq> 0" using of_nat_eq_0_word [of "b ^ k", where 'a = 64] k by simp
  have "(of_nat n :: u64) div of_nat (b ^ k) = of_nat q"
    unfolding less.prems(1) by (rule of_nat_div_word) (use k assms in simp_all)
  then have cond: "of_nat b \<le> (of_nat n :: u64) div of_nat (b ^ k) \<longleftrightarrow> b \<le> q"
    using of_nat_le_word [of b q, where 'a = 64] q assms by simp
  show ?case
  proof (cases "b \<le> q")
    case False
    then show ?thesis using cond nz by (subst div_loop.simps) (simp add: radix_small)
  next
    case True
    have "b * b ^ k \<le> n" using True less.prems(1) k(2) by (simp add: less_eq_div_iff_mult_less_eq)
    moreover have "q div b = n div b ^ Suc k" unfolding less.prems(1) by (simp only: power_Suc2 div_mult2_eq)
    moreover have "q div b < q" using True assms(1) by simp
    ultimately have "div_loop (of_nat n) (of_nat b) (of_nat (b ^ Suc k)) (Suc (Suc k)) =
      Some (of_nat (b ^ (Suc k + length (radix b (q div b)) - 1)), Suc k + length (radix b (q div b)))"
      using less.IH [of "q div b" "Suc k"] by simp
    moreover have "(of_nat (b ^ k) * of_nat b :: u64) = of_nat (b ^ Suc k)" by (simp add: mult.commute)
    ultimately show ?thesis using cond nz True radix_large [OF assms(1) True] by (subst div_loop.simps) (simp add: mult.commute)
  qed
qed

lemma div_loop_start:
  assumes "2 \<le> b" "b \<le> 16" "n < 2 ^ 64"
  shows "div_loop (of_nat n) (of_nat b) 1 1 = Some (of_nat (b ^ (length (radix b n) - 1)), length (radix b n))"
  using div_loop_ok [OF assms, of n 0] by simp

definition digit_chr :: "u8 \<Rightarrow> nat \<Rightarrow> u8" where
  "digit_chr hexchar d = (if d < 10 then 48 + of_nat d else hexchar + of_nat d - 10)"

lemma ucast8_of_nat: "(ucast (of_nat n :: u64) :: u8) = of_nat n"
  by (simp add: word_unat_eq_iff unsigned_ucast_eq unsigned_of_nat take_bit_eq_mod mod_mod_cancel)

lemma ucast8_plus: "(ucast (a + b :: u64) :: u8) = ucast a + ucast b"
  unfolding word_arith_nat_add [of a b] ucast8_of_nat by (simp only: of_nat_add of_nat_unat)

lemma ucast8_minus: "(ucast (a - b :: u64) :: u8) = ucast a - ucast b"
  using ucast8_plus [of "a - b" b] by simp

lemma ucast8_ucast64: "(ucast (ucast (h :: u8) :: u64) :: u8) = h"
  by (rule bit_word_eqI) (auto simp: bit_simps)

lemma ucast8_digit: "d < 10 \<Longrightarrow> (ucast (48 + of_nat d :: u64) :: u8) = digit_chr h d"
  "\<not> d < 10 \<Longrightarrow> (ucast (ucast h + of_nat d - 10 :: u64) :: u8) = digit_chr h d"
  by (simp_all add: digit_chr_def ucast8_minus ucast8_plus ucast8_of_nat ucast8_ucast64)

context stream_sink
begin

lemma put_char_plain:
  assumes "inv s" "b_width s = 0"
  shows "\<exists>s'. put_char flush c s = Some s' \<and> prints [c] s s'"
proof -
  have e: "s\<lparr>b_width := 0\<rparr> = s" using assms(2) by (cases s) simp
  show ?thesis using put_char_ok [OF assms(1), of c] assms(2) unfolding e by (simp add: char_text_def)
qed

lemma digit_loop_step:
  assumes "inv s" "b_width s = 0" "0 < p" "p < 2 ^ 64" "n < 2 ^ 64" "n div p < 16" "2 \<le> b" "b \<le> 16"
  shows "\<exists>s'. prints [digit_chr (b_hexchar s) (n div p)] s s'
    \<and> digit_loop flush (of_nat n) (of_nat b) (of_nat p) s = digit_loop flush (of_nat (n mod p)) (of_nat b) (of_nat (p div b)) s'"
proof -
  have div: "(of_nat n :: u64) div of_nat p = of_nat (n div p)" "(of_nat n :: u64) mod of_nat p = of_nat (n mod p)"
    "(of_nat p :: u64) div of_nat b = of_nat (p div b)"
    using assms by (simp_all add: of_nat_div_word of_nat_mod_word)
  have nz: "(of_nat p :: u64) > 0" "(of_nat b :: u64) \<noteq> 0"
    using of_nat_eq_0_word [of p, where 'a = 64] of_nat_eq_0_word [of b, where 'a = 64] assms by (simp_all add: word_gt_0)
  have ten: "(of_nat (n div p) :: u64) < 10 \<longleftrightarrow> n div p < 10"
    using of_nat_le_word [of 10 "n div p", where 'a = 64] assms(6) by (simp add: not_le [symmetric] del: not_le)
  obtain s' where s': "put_char flush (digit_chr (b_hexchar s) (n div p)) s = Some s'" "prints [digit_chr (b_hexchar s) (n div p)] s s'"
    using put_char_plain [OF assms(1,2)] by blast
  have "digit_loop flush (of_nat n) (of_nat b) (of_nat p) s = digit_loop flush (of_nat (n mod p)) (of_nat b) (of_nat (p div b)) s'"
    using nz s'(1) by (subst digit_loop.simps) (simp add: Let_def div ten ucast8_digit [where h = "b_hexchar s"])
  then show ?thesis using s'(2) by blast
qed

lemma digit_loop_ok:
  assumes "2 \<le> b" "b \<le> 16"
  shows "inv s \<Longrightarrow> b_width s = 0 \<Longrightarrow> n < b ^ Suc k \<Longrightarrow> b ^ k < 2 ^ 64 \<Longrightarrow> n < 2 ^ 64 \<Longrightarrow>
    \<exists>s'. digit_loop flush (of_nat n) (of_nat b) (of_nat (b ^ k)) s = Some s'
      \<and> prints (map (digit_chr (b_hexchar s)) (digits_down b (Suc k) n)) s s'"
proof (induction k arbitrary: n s)
  case (0 n s)
  obtain s' where "prints [digit_chr (b_hexchar s) n] s s'" "digit_loop flush (of_nat n) (of_nat b) (of_nat 1) s = digit_loop flush 0 (of_nat b) 0 s'"
    using digit_loop_step [OF 0(1,2), of 1 n b] 0 assms by auto
  moreover have "digit_loop flush 0 (of_nat b) 0 s' = Some s'" by (subst digit_loop.simps) simp
  ultimately show ?case by simp
next
  case (Suc k)
  have b: "0 < b ^ Suc k" "b ^ Suc k div b = b ^ k" "b ^ k < 2 ^ 64"
    using assms Suc.prems(4) order_le_less_trans [of "b ^ k" "b ^ Suc k" "2 ^ 64"] by simp_all
  have "n div b ^ Suc k < b" using Suc.prems(3) by (intro less_mult_imp_div_less) simp
  then obtain s1 where s1: "prints [digit_chr (b_hexchar s) (n div b ^ Suc k)] s s1"
    "digit_loop flush (of_nat n) (of_nat b) (of_nat (b ^ Suc k)) s = digit_loop flush (of_nat (n mod b ^ Suc k)) (of_nat b) (of_nat (b ^ k)) s1"
    using digit_loop_step [OF Suc.prems(1,2) b(1) Suc.prems(4,5) _ assms] assms(2) unfolding b(2) by (meson order_less_le_trans)
  note o1 = movedD [OF printsD(2) [OF s1(1)]]
  have n: "n mod b ^ Suc k < b ^ Suc k" "n mod b ^ Suc k < 2 ^ 64"
    using b(1) Suc.prems(5) by (auto intro: order_le_less_trans [OF mod_less_eq_dividend])
  have "b_width s1 = 0" using o1 Suc.prems(2) by simp
  from Suc.IH [OF printsD(1) [OF s1(1)] this n(1) b(3) n(2)] obtain s2 where
    "digit_loop flush (of_nat (n mod b ^ Suc k)) (of_nat b) (of_nat (b ^ k)) s1 = Some s2"
    "prints (map (digit_chr (b_hexchar s1)) (digits_down b (Suc k) (n mod b ^ Suc k))) s1 s2" by blast
  then show ?case using s1 o1 prints_append [OF s1(1)] by auto
qed

text \<open>Both loops together print the digits of the number.\<close>

lemma print_digits_ok:
  assumes "2 \<le> b" "b \<le> 16" "n < 2 ^ 64" "inv s" "b_width s = 0"
  shows "\<exists>s'. digit_loop flush (of_nat n) (of_nat b) (of_nat (b ^ (length (radix b n) - 1))) s = Some s'
    \<and> prints (map (digit_chr (b_hexchar s)) (radix b n)) s s'"
proof -
  obtain k where k: "length (radix b n) = Suc k" by (cases "length (radix b n)") simp_all
  have "b ^ k \<le> n \<or> k = 0"
  proof (cases "n < b")
    case True
    then show ?thesis using k by (simp add: radix_small)
  next
    case False
    then show ?thesis using radix_length_bounds [OF assms(1), of n] k assms(1) by simp
  qed
  then have "b ^ k < 2 ^ 64" using assms(3) by auto
  moreover have "n < b ^ Suc k" using radix_length_bounds [OF assms(1), of n] k by simp
  moreover have "digits_down b (Suc k) n = radix b n" using digits_down_radix [OF assms(1), of n] k by simp
  ultimately show ?thesis using digit_loop_ok [OF assms(1,2,4,5), of n k] assms(3) k by simp
qed

end

section \<open>The text of a number\<close>

text \<open>
  What stands in front of the digits: a sign in decimal, otherwise the prefix of the base if it is switched on; in
  octal one zero is enough, whether it is the prefix, from the precision, or the number.
\<close>

definition sign_text :: "bstream \<Rightarrow> bool \<Rightarrow> bool \<Rightarrow> u8 list" where
  "sign_text s neg zero =
     (if b_base s = 10 then if neg then [45] else case b_sign s of PLUS \<Rightarrow> [43] | SPACE \<Rightarrow> [32] | MINUS_ONLY \<Rightarrow> []
      else if \<not> b_prefix s then []
      else if b_base s = 2 then [48, 98]
      else if b_base s = 16 then [48, if b_hexchar s = 65 then 88 else 120]
      else if zero then [] else [48])"

text \<open>The precision is the least number of digits; \<open>SIZE_MAX\<close> is none.\<close>

definition zeros :: "nat \<Rightarrow> nat \<Rightarrow> nat" where
  "zeros precision digits = (if precision = SIZE_MAX then 0 else precision - digits)"

definition number_text :: "bstream \<Rightarrow> nat \<Rightarrow> bool \<Rightarrow> nat \<Rightarrow> u8 list" where
  "number_text s n neg precision =
     (let ds = map (digit_chr (b_hexchar s)) (radix (unat (b_base s)) n);
          z = zeros precision (length ds);
          sgn = sign_text s neg (n = 0 \<or> z > 0);
          pad = unat (b_width s) - (length sgn + z + length ds)
      in if n = 0 \<and> precision = 0 then replicate (unat (b_width s)) (b_fill s)
         else if b_left s then sgn @ replicate z 48 @ ds @ replicate pad (b_fill s)
         else if b_fill s = 48 \<and> (neg \<or> b_sign s = PLUS \<or> b_base s \<noteq> 10)
         then sgn @ replicate z 48 @ replicate pad 48 @ ds
         else replicate pad (b_fill s) @ sgn @ replicate z 48 @ ds)"

context stream_sink
begin

lemma put_prefix_ok:
  assumes "inv s" "b_width s = 0" "b_base s \<in> {2, 8, 10, 16}" "b_base s \<noteq> 10 \<longrightarrow> \<not> neg"
  shows "\<exists>s'. put_prefix flush neg (b_base s = 8 \<and> b_prefix s \<and> zero) s = Some s' \<and> prints (sign_text s neg zero) s s'"
proof -
  note one = put_char_plain [OF assms(1,2)]
  have two: "\<exists>s'. do { s \<leftarrow> put_char flush c s; put_char flush d s } = Some s' \<and> prints [c, d] s s'" for c d
  proof -
    obtain s1 where s1: "put_char flush c s = Some s1" "prints [c] s s1" using one by blast
    then have "b_width s1 = 0" using movedD(2) [OF printsD(2)] assms(2) by simp
    then obtain s2 where "put_char flush d s1 = Some s2" "prints [d] s1 s2" using put_char_plain [OF printsD(1) [OF s1(2)]] by blast
    then show ?thesis using s1 prints_append [OF s1(2)] by fastforce
  qed
  have hex: "\<exists>s'. do { s' \<leftarrow> put_char flush c s; put_char flush (if b_hexchar s' = 65 then 88 else 120) s' } = Some s'
      \<and> prints [c, if b_hexchar s = 65 then 88 else 120] s s'" for c
  proof -
    have "b_hexchar s' = b_hexchar s" if "put_char flush c s = Some s'" for s'
      using one [of c] that movedD(4) [OF printsD(2)] by auto
    then have "do { s' \<leftarrow> put_char flush c s; put_char flush (if b_hexchar s' = 65 then 88 else 120) s' }
        = do { s' \<leftarrow> put_char flush c s; put_char flush (if b_hexchar s = 65 then 88 else 120) s' }"
      by (cases "put_char flush c s") simp_all
    then show ?thesis using two by simp
  qed
  show ?thesis
    using assms(3,4) one two hex prints_nothing [OF assms(1)]
    by (auto simp: put_prefix_def sign_text_def split: sign.splits)
qed

lemma fill_if_ok:
  assumes "inv s"
  shows "\<exists>s'. (if P then write_fill flush c n s else Some s) = Some s' \<and> prints (if P then replicate n c else []) s s'"
  using write_fill_ok [OF assms] prints_nothing [OF assms] by auto

text \<open>The steps of \<open>writefill_uint\<close>, one after the other.\<close>

lemma writefill_uint_steps:
  assumes "\<not> (ival = 0 \<and> precision = 0)" "div_loop ival (ucast (b_base s)) 1 1 = Some (d, l)"
    "number_width s ival neg precision l = (m, ign)" "t = s\<lparr>b_width := 0\<rparr>"
    "before = (unat (b_width s) - m \<noteq> 0 \<and> \<not> b_left t \<and> (b_fill t \<noteq> 48 \<or> (\<not> neg \<and> b_sign t \<noteq> PLUS \<and> b_base t = 10)))"
    "pad = (if before then 0 else unat (b_width s) - m)"
    "(if before then write_fill flush (b_fill t) (unat (b_width s) - m) t else Some t) = Some s1"
    "put_prefix flush neg ign s1 = Some s2"
    "(if precision \<noteq> SIZE_MAX \<and> l < precision then write_fill flush 48 (precision - l) s2 else Some s2) = Some s3"
    "(if pad \<noteq> 0 \<and> \<not> b_left s3 \<and> b_fill s3 = 48 \<and> (neg \<or> b_sign s3 = PLUS \<or> b_base s3 \<noteq> 10)
      then write_fill flush (b_fill s3) pad s3 else Some s3) = Some s4"
    "digit_loop flush ival (ucast (b_base s4)) d s4 = Some s5"
    "(if pad \<noteq> 0 \<and> b_left s5 then write_fill flush (b_fill s5) pad s5 else Some s5) = Some s6"
  shows "writefill_uint flush ival neg precision s = Some s6"
proof -
  have m: "(if unat (b_width s) > m then unat (b_width s) - m else 0) = unat (b_width s) - m" by simp
  show ?thesis
    unfolding writefill_uint_def if_not_P [OF assms(1)] assms(2) Option.bind.simps prod.case Let_def assms(3) m
      assms(4) [symmetric] assms(5) [symmetric] assms(6) [symmetric] assms(7-12) ..
qed

lemma writefill_uint_ok:
  assumes "inv s" "b_base s \<in> {2, 8, 10, 16}" "b_base s \<noteq> 10 \<longrightarrow> \<not> neg" "n < 2 ^ 64"
  shows "\<exists>s'. writefill_uint flush (of_nat n) neg precision s = Some s'
    \<and> prints (number_text s n neg precision) (if n = 0 \<and> precision = 0 then s else s\<lparr>b_width := 0\<rparr>) s'"
proof (cases "n = 0 \<and> precision = 0")
  case True
  then show ?thesis using write_fill_ok [OF assms(1), of "b_fill s" "unat (b_width s)"]
    by (simp add: writefill_uint_def number_text_def)
next
  case False
  define b where "b = unat (b_base s)"
  have b: "2 \<le> b" "b \<le> 16" "ucast (b_base s) = (of_nat b :: u64)" using assms(2) by (auto simp: b_def)
  define l where "l = length (radix b n)"
  define z where "z = zeros precision l"
  define zero where "zero = (n = 0 \<or> z > 0)"
  define sg where "sg = sign_text s neg zero"
  define pad where "pad = unat (b_width s) - (length sg + z + l)"
  define before where "before = (pad \<noteq> 0 \<and> \<not> b_left s \<and> (b_fill s \<noteq> 48 \<or> (\<not> neg \<and> b_sign s \<noteq> PLUS \<and> b_base s = 10)))"
  define between where "between = (\<not> before \<and> pad \<noteq> 0 \<and> \<not> b_left s \<and> b_fill s = 48 \<and> (neg \<or> b_sign s = PLUS \<or> b_base s \<noteq> 10))"
  define after where "after = (\<not> before \<and> pad \<noteq> 0 \<and> b_left s)"
  define t where "t = s\<lparr>b_width := 0\<rparr>"
  have n0: "(of_nat n :: u64) = 0 \<longleftrightarrow> n = 0" by (rule of_nat_eq_0_word) (use assms(4) in simp)
  have it: "inv t" "b_width t = 0" using inv_width [OF assms(1)] by (simp_all add: t_def)
  have z: "precision \<noteq> SIZE_MAX \<and> l < precision \<longleftrightarrow> z > 0" "z > 0 \<Longrightarrow> precision - l = z"
    by (auto simp: z_def zeros_def)
  have w: "number_width s (of_nat n) neg precision l = (length sg + z + l, b_base s = 8 \<and> b_prefix s \<and> zero)"
    using assms(2,3) n0 z by (auto simp: number_width_def Let_def sg_def sign_text_def zero_def split: sign.splits)
  obtain s1 where s1: "(if before then write_fill flush (b_fill s) pad t else Some t) = Some s1"
    "prints (if before then replicate pad (b_fill s) else []) t s1"
    using fill_if_ok [OF it(1)] by blast
  note o1 = movedD [OF printsD(2) [OF s1(2)]]
  have opt: "sign_text s1 neg zero = sg" "b_base s1 = b_base s" "b_prefix s1 = b_prefix s" "b_width s1 = 0"
    using o1 by (simp_all add: t_def sg_def sign_text_def)
  obtain s2 where s2: "put_prefix flush neg (b_base s = 8 \<and> b_prefix s \<and> zero) s1 = Some s2" "prints sg s1 s2"
    using put_prefix_ok [OF printsD(1) [OF s1(2)] opt(4), of neg zero] assms(2,3) unfolding opt by blast
  note o2 = movedD [OF printsD(2) [OF s2(2)]]
  obtain s3 where s3: "(if z > 0 then write_fill flush 48 z s2 else Some s2) = Some s3"
    "prints (if z > 0 then replicate z 48 else []) s2 s3"
    using fill_if_ok [OF printsD(1) [OF s2(2)]] by blast
  note o3 = movedD [OF printsD(2) [OF s3(2)]]
  obtain s4 where s4: "(if between then write_fill flush (b_fill s) pad s3 else Some s3) = Some s4"
    "prints (if between then replicate pad (b_fill s) else []) s3 s4"
    using fill_if_ok [OF printsD(1) [OF s3(2)]] by blast
  note o4 = movedD [OF printsD(2) [OF s4(2)]]
  have "b_width s4 = 0" using o1 o2 o3 o4 by (simp add: t_def)
  from print_digits_ok [OF b(1,2) assms(4) printsD(1) [OF s4(2)] this] obtain s5 where
    s5: "digit_loop flush (of_nat n) (of_nat b) (of_nat (b ^ (l - 1))) s4 = Some s5" "prints (map (digit_chr (b_hexchar s4)) (radix b n)) s4 s5"
    unfolding l_def by blast
  note o5 = movedD [OF printsD(2) [OF s5(2)]]
  obtain s6 where s6: "(if after then write_fill flush (b_fill s) pad s5 else Some s5) = Some s6"
    "prints (if after then replicate pad (b_fill s) else []) s5 s6"
    using fill_if_ok [OF printsD(1) [OF s5(2)]] by blast
  note prints_append [OF prints_append [OF prints_append [OF prints_append [OF prints_append [OF s1(2) s2(2)] s3(2)] s4(2)] s5(2)] s6(2)]
  moreover have hex: "b_hexchar s4 = b_hexchar s" using o1 o2 o3 o4 by (simp add: t_def)
  moreover have "number_text s n neg precision = (if before then replicate pad (b_fill s) else []) @ sg @ (if z > 0 then replicate z 48 else [])
      @ (if between then replicate pad (b_fill s) else []) @ map (digit_chr (b_hexchar s4)) (radix b n)
      @ (if after then replicate pad (b_fill s) else [])"
  proof -
    have nt: "number_text s n neg precision =
      (let ds = map (digit_chr (b_hexchar s4)) (radix b n)
       in if b_left s then sg @ replicate z 48 @ ds @ replicate pad (b_fill s)
          else if b_fill s = 48 \<and> (neg \<or> b_sign s = PLUS \<or> b_base s \<noteq> 10) then sg @ replicate z 48 @ replicate pad 48 @ ds
          else replicate pad (b_fill s) @ sg @ replicate z 48 @ ds)"
      unfolding number_text_def Let_def if_not_P [OF False] hex length_map
      unfolding b_def [symmetric] l_def [symmetric] z_def [symmetric] zero_def [symmetric] sg_def [symmetric] pad_def [symmetric] ..
    show ?thesis
      unfolding nt Let_def before_def between_def after_def
      by (cases "pad = 0"; cases "b_left s"; cases "b_fill s = 48 \<and> (neg \<or> b_sign s = PLUS \<or> b_base s \<noteq> 10)") auto
  qed
  moreover have "writefill_uint flush (of_nat n) neg precision s = Some s6"
  proof -
    have opts: "b_left s3 = b_left s" "b_fill s3 = b_fill s" "b_sign s3 = b_sign s" "b_base s3 = b_base s"
      "b_left s5 = b_left s" "b_fill s5 = b_fill s" "b_base s4 = b_base s"
      using o1 o2 o3 o4 o5 by (simp_all add: t_def)
    have d: "div_loop (of_nat n) (ucast (b_base s)) 1 1 = Some (of_nat (b ^ (l - 1)), l)"
      unfolding b(3) l_def by (rule div_loop_start [OF b(1,2) assms(4)])
    have p: "(if before then 0 else unat (b_width s) - (length sg + z + l)) = (if before then 0 else pad)" by (simp add: pad_def)
    have "b_fill t = b_fill s" by (simp add: t_def)
    show ?thesis
    proof (rule writefill_uint_steps [OF _ d w t_def _ p [symmetric] _ s2(1)])
      show "(if before then write_fill flush (b_fill t) (unat (b_width s) - (length sg + z + l)) t else Some t) = Some s1"
        using s1(1) unfolding pad_def \<open>b_fill t = b_fill s\<close> .
      show "(if precision \<noteq> SIZE_MAX \<and> l < precision then write_fill flush 48 (precision - l) s2 else Some s2) = Some s3"
        unfolding z(1) using s3(1) z(2) by auto
      show "(if (if before then 0 else pad) \<noteq> 0 \<and> \<not> b_left s3 \<and> b_fill s3 = 48 \<and> (neg \<or> b_sign s3 = PLUS \<or> b_base s3 \<noteq> 10)
          then write_fill flush (b_fill s3) (if before then 0 else pad) s3 else Some s3) = Some s4"
        using s4(1) unfolding opts between_def by (cases before) auto
      show "digit_loop flush (of_nat n) (ucast (b_base s4)) (of_nat (b ^ (l - 1))) s4 = Some s5"
        using s5(1) unfolding opts b(3) .
      show "(if (if before then 0 else pad) \<noteq> 0 \<and> b_left s5 then write_fill flush (b_fill s5) (if before then 0 else pad) s5 else Some s5) = Some s6"
        using s6(1) unfolding opts after_def by (cases before) auto
    qed (use False n0 in \<open>auto simp: before_def pad_def t_def\<close>)
  qed
  ultimately show ?thesis using False by (auto simp: t_def)
qed

end

end
