(* ===== verification/StreamSinks.thy ===== *)
theory StreamSinks
  imports StreamNumbers
begin

text \<open>
  Strings and signed numbers, and the two kinds of streams as interpretations of \<open>stream_sink\<close>:
  \<open>BufferStream\<close> keeps what fits into its buffer, \<open>OutputStream\<close> loses nothing as long as the
  system calls take at least one byte.
\<close>

section \<open>Strings and signed numbers\<close>

definition string_text :: "bstream \<Rightarrow> u8 list \<Rightarrow> nat \<Rightarrow> u8 list" where
  "string_text s t precision =
     (let pad = replicate (unat (b_width s) - precision) (b_fill s)
      in if b_left s then take precision t @ pad else pad @ take precision t)"

text \<open>The text of a signed number: its amount in decimal, its 64 bits in the other bases.\<close>

definition int_text :: "bstream \<Rightarrow> u64 \<Rightarrow> nat \<Rightarrow> u8 list" where
  "int_text s v precision =
     (if b_base s = 10 then number_text s (nat \<bar>sint v\<bar>) (sint v < 0) precision
      else number_text s (unat v) False precision)"

lemma neg_word_of_nat: "sint (v :: u64) < 0 \<Longrightarrow> - v = of_nat (nat (- sint v)) \<and> nat (- sint v) < 2 ^ 64"
proof -
  assume "sint v < 0"
  then have "(of_nat (nat (- sint v)) :: u64) = of_int (- sint v)" by (intro of_nat_nat) simp
  moreover have "(of_int (- sint v) :: u64) = - v" by simp
  moreover have "- (2 ^ 63) \<le> sint v" using sint_ge [of v] by simp
  ultimately show ?thesis by (auto simp: nat_less_iff)
qed

lemma unat_sint: "0 \<le> sint (v :: u64) \<Longrightarrow> nat \<bar>sint v\<bar> = unat v"
proof -
  assume s: "0 \<le> sint v"
  have "uint v = uint (word_of_int (sint v) :: u64)" by simp
  also have "\<dots> = sint v" unfolding uint_word_of_int using s sint_less [of v] by simp
  finally have "nat (uint v) = nat (sint v)" by simp
  then show ?thesis using s by simp
qed

context stream_sink
begin

lemma writefill_str_ok:
  assumes "inv s" "0 \<notin> set t"
  shows "\<exists>s'. writefill_str flush (t @ 0 # r) precision s = Some s' \<and> prints (string_text s t precision) (s\<lparr>b_width := 0\<rparr>) s'"
proof -
  define pad where "pad = replicate (unat (b_width s) - precision) (b_fill s)"
  obtain s1 where s1: "(if \<not> b_left s \<and> unat (b_width s) > precision
      then write_fill flush (b_fill s) (unat (b_width s) - precision) s else Some s) = Some s1"
    "prints (if \<not> b_left s \<and> unat (b_width s) > precision then pad else []) s s1"
    using fill_if_ok [OF assms(1)] unfolding pad_def by blast
  obtain s2 where s2: "write_str flush (t @ 0 # r) precision s1 = Some s2" "prints (take precision t) s1 s2"
    using write_str_ok [OF printsD(1) [OF s1(2)] assms(2)] by blast
  note o2 = movedD [OF printsD(2) [OF s1(2)]] movedD [OF printsD(2) [OF s2(2)]]
  obtain s3 where s3: "(if b_left s2 \<and> unat (b_width s2) > precision
      then write_fill flush (b_fill s2) (unat (b_width s2) - precision) s2 else Some s2) = Some s3"
    "prints (if b_left s2 \<and> unat (b_width s2) > precision then replicate (unat (b_width s2) - precision) (b_fill s2) else []) s2 s3"
    using fill_if_ok [OF printsD(1) [OF s2(2)]] by blast
  have "writefill_str flush (t @ 0 # r) precision s = Some (s3\<lparr>b_width := 0\<rparr>)"
    unfolding writefill_str_def s1(1) Option.bind.simps s2(1) s3(1) ..
  moreover have "(if \<not> b_left s \<and> unat (b_width s) > precision then pad else []) @ take precision t
      @ (if b_left s2 \<and> unat (b_width s2) > precision then replicate (unat (b_width s2) - precision) (b_fill s2) else [])
    = string_text s t precision"
    unfolding o2 by (auto simp: string_text_def pad_def)
  ultimately show ?thesis
    using prints_append [OF prints_append [OF s1(2) s2(2)] s3(2), THEN prints_width, of 0] by auto
qed

lemma put_str_ok:
  assumes "inv s" "0 \<notin> set t" "length t < SIZE_MAX"
  shows "\<exists>s'. put_str flush (Some (t @ 0 # r)) s = Some s' \<and> prints (string_text s t (length t)) (s\<lparr>b_width := 0\<rparr>) s'"
proof (cases "b_width s > 0")
  case True
  have "str_len (Some (t @ 0 # r)) n = Some (length t)" if "length t < n" for n
    using assms(2) that by (induction t arbitrary: n) (auto simp: str_len_def)
  then show ?thesis using True writefill_str_ok [OF assms(1,2), of r "length t"] assms(3) by (simp add: put_str_def)
next
  case False
  then have w: "b_width s = 0" by (simp add: word_gt_0)
  have e: "s\<lparr>b_width := 0\<rparr> = s" using w by (cases s) simp
  show ?thesis unfolding e using write_str_ok [OF assms(1,2), of r SIZE_MAX] w assms(3)
    by (simp add: put_str_def string_text_def)
qed

lemma writefill_int_ok:
  assumes "inv s" "b_base s \<in> {2, 8, 10, 16}" "b_base s = 10 \<longrightarrow> v \<noteq> 0x8000000000000000"
  shows "\<exists>s'. writefill_int flush v precision s = Some s'
    \<and> prints (int_text s v precision) (if v = 0 \<and> precision = 0 then s else s\<lparr>b_width := 0\<rparr>) s'"
proof -
  have v: "v = of_nat (unat v)" "unat v < 2 ^ 64" using unsigned_less [of v, where 'a = nat] by simp_all
  have z: "unat v = 0 \<longleftrightarrow> v = 0" by (rule unsigned_eq_0_iff)
  show ?thesis
  proof (cases "sint v < 0 \<and> b_base s = 10")
    case True
    then have n: "- v = of_nat (nat (- sint v))" "nat (- sint v) < 2 ^ 64" using neg_word_of_nat by blast+
    moreover have "nat (- sint v) \<noteq> 0" "v \<noteq> 0" using True by auto
    ultimately show ?thesis
      using writefill_uint_ok [OF assms(1,2) _ n(2), of True precision] True assms(3)
      by (simp add: writefill_int_def int_text_def)
  next
    case False
    have "nat \<bar>sint v\<bar> = unat v" if "\<not> sint v < 0" using that unat_sint by simp
    then show ?thesis
      using False writefill_uint_ok [OF assms(1,2) _ v(2), of False precision] z
      by (auto simp: writefill_int_def int_text_def)
  qed
qed

end

section \<open>The streams\<close>

definition buffer_inv :: "bstream \<Rightarrow> bool" where
  "buffer_inv s \<longleftrightarrow> wf_stream s \<and> b_out s = []"

definition output_ready :: "bstream \<Rightarrow> bool" where
  "output_ready s \<longleftrightarrow> wf_stream s \<and> 2 \<le> b_len s"

definition output_inv :: "bstream \<Rightarrow> bool" where
  "output_inv s \<longleftrightarrow> output_ready s \<and> b_pos s + 1 < b_len s"

lemma buffer_keep:
  assumes "buffer_inv s"
  shows "length (written s) = b_pos s" "b_pos s \<le> b_len s - 1"
  using assms by (auto simp: buffer_inv_def wf_stream_def written_def)

lemma take_take_append: "take n (take n t @ u) = take n (t @ u)"
  by (cases "n \<le> length t") simp_all

interpretation buffer: stream_sink flush_none buffer_inv buffer_inv "\<lambda>n t. take (n - 1) t"
proof
  fix s c t assume s: "buffer_inv s"
  show "\<not> b_pos s + 1 < b_len s \<Longrightarrow> take (b_len s - 1) (written s @ t) = written s"
    using buffer_keep [OF s] s by (simp add: buffer_inv_def wf_stream_def)
  show "take (b_len s - 1) (written s) = written s" using buffer_keep [OF s] by simp
  show "b_pos s + 1 < b_len s \<Longrightarrow> take (b_len s - 1) (written s @ [c]) = written s @ [c]"
    using buffer_keep [OF s] by simp
qed (auto simp: buffer_inv_def wf_stream_def flush_none_def same_data_def stored_def take_take_append simp del: take_append)

text \<open>The system call takes at least one byte, and not more than there are.\<close>

definition takes_bytes :: "(u8 list \<Rightarrow> u8 list \<Rightarrow> nat option) \<Rightarrow> bool" where
  "takes_bytes sys \<longleftrightarrow> (\<forall>out data. data \<noteq> [] \<longrightarrow> (\<exists>n. sys out data = Some n \<and> 0 < n \<and> n \<le> length data))"

lemma flush_loop_ok:
  assumes "takes_bytes sys"
  shows "l \<le> length data \<Longrightarrow> flush_loop sys out data l = Some (out @ drop l data)"
proof (induction "length data - l" arbitrary: l out rule: less_induct)
  case less
  show ?case
  proof (cases "l < length data")
    case True
    then have "drop l data \<noteq> []" by simp
    then obtain n where n: "sys out (drop l data) = Some n" "0 < n" "n \<le> length data - l"
      using assms unfolding takes_bytes_def by (metis length_drop)
    then have "flush_loop sys (out @ take n (drop l data)) data (l + n) = Some ((out @ take n (drop l data)) @ drop (l + n) data)"
      using True by (intro less.hyps) auto
    moreover have "take n (drop l data) @ drop (l + n) data = drop l data"
      using append_take_drop_id [of n "drop l data"] by (simp add: add.commute)
    ultimately show ?thesis using True n(1) by (subst flush_loop.simps) simp
  qed (use less.prems in \<open>subst flush_loop.simps, simp\<close>)
qed

lemma flush_fd_ok:
  assumes "takes_bytes sys" "wf_stream s"
  shows "flush_fd sys s = Some (s\<lparr>b_out := written s, b_pos := 0\<rparr>)"
  using assms(2) flush_loop_ok [OF assms(1), of 0 "take (b_pos s) (b_buf s)" "b_out s"]
  by (simp add: flush_fd_def wf_stream_def written_def)

lemma output_sink:
  assumes "takes_bytes sys"
  shows "stream_sink (flush_fd sys) output_ready output_inv (\<lambda>n t. t)"
proof
  fix s c t assume s: "output_ready s"
  have "moved s (s\<lparr>b_out := written s, b_pos := 0\<rparr>)"
    unfolding moved_def by (intro exI [of _ "b_buf s"] exI [of _ 0] exI [of _ "written s"]) simp
  then show "\<exists>s'. flush_fd sys s = Some s' \<and> output_inv s' \<and> moved s s' \<and> written s' = written s"
    using s flush_fd_ok [OF assms, of s] by (auto simp: output_inv_def output_ready_def wf_stream_def written_def)
qed (auto simp: output_inv_def output_ready_def wf_stream_def same_data_def stored_def)

end
