(* ===== verification/StreamTheorems.thy ===== *)
theory StreamTheorems
  imports StreamSinks ParseTheorems
begin

text \<open>What the streams print, and that the parser reads it again.\<close>

section \<open>Printing\<close>

lemma put_u64_eq: "put_u64 flush v s = writefill_uint flush (of_nat (unat v)) False SIZE_MAX s"
  by (simp add: put_u64_def)

lemma width_kept: "moved (s\<lparr>b_width := 0\<rparr>) s' \<Longrightarrow> b_width s' = 0"
  using movedD(2) by fastforce

context stream_sink
begin

lemma printed:
  assumes "f s = Some s'" "prints t (s\<lparr>b_width := 0\<rparr>) s'"
  shows "\<exists>s'. f s = Some s' \<and> inv s' \<and> b_width s' = 0 \<and> written s' = keep (b_len s) (written s @ t)"
  using assms width_kept [of s s'] by (simp add: prints_def written_def)

lemma put_u64_text:
  assumes "inv s" "b_base s \<in> {2, 8, 10, 16}"
  shows "\<exists>s'. put_u64 flush v s = Some s' \<and> inv s' \<and> b_width s' = 0
    \<and> written s' = keep (b_len s) (written s @ number_text s (unat v) False SIZE_MAX)"
proof -
  have "unat v < 2 ^ 64" using unsigned_less [of v, where 'a = nat] by simp
  from writefill_uint_ok [OF assms _ this, of False SIZE_MAX] show ?thesis
    by (auto simp: put_u64_eq SIZE_MAX_def intro: printed)
qed

lemma put_i64_text:
  assumes "inv s" "b_base s = 10" "v \<noteq> 0x8000000000000000"
  shows "\<exists>s'. put_i64 flush v s = Some s' \<and> inv s' \<and> b_width s' = 0
    \<and> written s' = keep (b_len s) (written s @ number_text s (nat \<bar>sint v\<bar>) (sint v < 0) SIZE_MAX)"
  using writefill_int_ok [OF assms(1), of v SIZE_MAX] assms(2,3)
  by (auto simp: put_i64_def int_text_def SIZE_MAX_def intro: printed)

lemma put_i64_any:
  assumes "inv s" "b_base s \<in> {2, 8, 10, 16}" "b_base s = 10 \<longrightarrow> v \<noteq> 0x8000000000000000"
  shows "\<exists>s'. put_i64 flush v s = Some s' \<and> inv s' \<and> b_width s' = 0
    \<and> written s' = keep (b_len s) (written s @ int_text s v SIZE_MAX)"
  using writefill_int_ok [OF assms, of SIZE_MAX]
  by (auto simp: put_i64_def SIZE_MAX_def intro: printed)

lemma put_str_text:
  assumes "inv s" "0 \<notin> set t" "length t < SIZE_MAX"
  shows "\<exists>s'. put_str flush (Some (t @ 0 # r)) s = Some s' \<and> inv s' \<and> b_width s' = 0
    \<and> written s' = keep (b_len s) (written s @ string_text s t (length t))"
  using put_str_ok [OF assms, of r] by (auto intro: printed)

end

lemma flush_fd_fails:
  assumes "wf_stream s" "\<forall>data. sys (b_out s) data = None"
  shows "flush_fd sys s = Some (s\<lparr>b_pos := 0\<rparr>)"
proof -
  have "flush_loop sys (b_out s) data 0 = Some (b_out s)" for data
    using assms(2) by (subst flush_loop.simps) simp
  then show ?thesis using assms(1) by (simp add: flush_fd_def wf_stream_def)
qed

text \<open>
  C37.  Numbers and strings are printed as text with sign, prefix, digits and padding as the options say, and
  the width is 0 afterwards.  A \<open>BufferStream\<close> takes of it what leaves room for the terminating zero and never
  writes outside of its buffer.  An \<open>OutputStream\<close> loses nothing as long as every system call takes at least
  one byte (\<open>takes_bytes\<close>): what it has handed over, with what is in its buffer, grows by the text, and the next
  \<open>flush\<close> hands over the rest; whether that holds in parts of one byte or at once makes no difference.
  When the system call fails, \<open>flush\<close> drops what is in the buffer.
\<close>

theorem stream_prints:
  assumes "b_base s \<in> {2, 8, 10, 16}" and "0 \<notin> set t" and "length t < SIZE_MAX"
  shows "(buffer_inv s \<longrightarrow>
      (\<exists>s'. put_u64 flush_none v s = Some s' \<and> buffer_inv s' \<and> b_width s' = 0
        \<and> written s' = take (b_len s - 1) (written s @ number_text s (unat v) False SIZE_MAX))
      \<and> (b_base s = 10 \<longrightarrow> v \<noteq> 0x8000000000000000 \<longrightarrow> (\<exists>s'. put_i64 flush_none v s = Some s' \<and> buffer_inv s' \<and> b_width s' = 0
        \<and> written s' = take (b_len s - 1) (written s @ number_text s (nat \<bar>sint v\<bar>) (sint v < 0) SIZE_MAX)))
      \<and> (\<exists>s'. put_str flush_none (Some (t @ 0 # r)) s = Some s' \<and> buffer_inv s' \<and> b_width s' = 0
        \<and> written s' = take (b_len s - 1) (written s @ string_text s t (length t))))
    \<and> (takes_bytes sys \<longrightarrow> output_inv s \<longrightarrow>
      (\<exists>s'. put_u64 (flush_fd sys) v s = Some s' \<and> output_inv s' \<and> b_width s' = 0
        \<and> written s' = written s @ number_text s (unat v) False SIZE_MAX)
      \<and> (b_base s = 10 \<longrightarrow> v \<noteq> 0x8000000000000000 \<longrightarrow> (\<exists>s'. put_i64 (flush_fd sys) v s = Some s' \<and> output_inv s' \<and> b_width s' = 0
        \<and> written s' = written s @ number_text s (nat \<bar>sint v\<bar>) (sint v < 0) SIZE_MAX))
      \<and> (\<exists>s'. put_str (flush_fd sys) (Some (t @ 0 # r)) s = Some s' \<and> output_inv s' \<and> b_width s' = 0
        \<and> written s' = written s @ string_text s t (length t))
      \<and> (\<exists>s'. flush_fd sys s = Some s' \<and> b_out s' = written s \<and> b_pos s' = 0))
    \<and> (wf_stream s \<longrightarrow> (\<forall>data. sys (b_out s) data = None) \<longrightarrow> flush_fd sys s = Some (s\<lparr>b_pos := 0\<rparr>))"
proof -
  note sink = output_sink [of sys]
  note o = stream_sink.put_u64_text [OF sink _ assms(1)] stream_sink.put_i64_text [OF sink] stream_sink.put_str_text [OF sink _ assms(2,3)]
  note b = buffer.put_u64_text [OF _ assms(1)] buffer.put_i64_text buffer.put_str_text [OF _ assms(2,3)]
  have f: "\<exists>s'. flush_fd sys s = Some s' \<and> b_out s' = written s \<and> b_pos s' = 0" if "takes_bytes sys" "output_inv s"
    using flush_fd_ok [OF that(1), of s] that(2) by (simp add: output_inv_def output_ready_def)
  show ?thesis
    by (rule conjI [OF _ conjI]; intro impI conjI; rule b o f flush_fd_fails; assumption)
qed

section \<open>Printing and parsing\<close>

lemma digit_chr_lower: "d < 16 \<Longrightarrow> digit_chr 97 d = digit_char d"
  by (simp add: digit_chr_def digit_char_def)

lemma radix_digits: "2 \<le> b \<Longrightarrow> number b 0 (radix b n) = n \<and> (\<forall>d \<in> set (radix b n). d < b) \<and> (0 < n \<longrightarrow> hd (radix b n) \<noteq> 0)"
proof (induction b n rule: radix.induct)
  case (1 b n)
  show ?case
  proof (cases "n < b")
    case False
    then have "0 < n div b" using 1(2) by (simp add: div_greater_zero_iff)
    moreover have "number b 0 (radix b (n div b)) = n div b" "\<forall>d \<in> set (radix b (n div b)). d < b"
      "0 < n div b \<longrightarrow> hd (radix b (n div b)) \<noteq> 0" using 1 False by simp_all
    moreover have "radix b n = radix b (n div b) @ [n mod b]" using False 1(2) by (simp add: radix_large)
    ultimately show ?thesis using 1(2) by simp
  qed (use 1(2) in \<open>simp add: radix_small\<close>)
qed

lemma radix_length: "2 \<le> b \<Longrightarrow> n < 2 ^ 64 \<Longrightarrow> length (radix b n) \<le> 64"
proof -
  assume b: "2 \<le> b" and n: "n < 2 ^ 64"
  show ?thesis
  proof (cases "n = 0")
    case True
    then show ?thesis using b by (simp add: radix_small)
  next
    case False
    have "(2::nat) ^ (length (radix b n) - 1) \<le> b ^ (length (radix b n) - 1)" using b by (rule power_mono) simp
    also have "\<dots> \<le> n" using radix_length_bounds [OF b, of n] False by simp
    finally have "(2::nat) ^ (length (radix b n) - 1) < 2 ^ 64" using n by linarith
    then have "length (radix b n) - 1 < 64" by (rule power_less_imp_less_exp [rotated]) simp
    then show ?thesis by linarith
  qed
qed

lemma number_text_plain:
  assumes "b_width s = 0"
  shows "number_text s n neg SIZE_MAX = sign_text s neg (n = 0) @ map (digit_chr (b_hexchar s)) (radix (unat (b_base s)) n)"
  using assms by (simp add: number_text_def zeros_def Let_def SIZE_MAX_def)

lemma radix_text:
  assumes "b \<in> {2, 8, 10, 16}" "n < 2 ^ 64"
  shows "map (digit_chr 97) (radix b n) = map digit_char (radix b n)"
    and "\<not> (b = 8 \<and> n = 0) \<Longrightarrow> digits_ok b (radix b n)" and "number b 0 (radix b n) = n"
proof -
  have b: "2 \<le> b" "b \<le> 16" using assms(1) by auto
  note r = radix_digits [OF b(1), of n]
  show "map (digit_chr 97) (radix b n) = map digit_char (radix b n)"
    using r b(2) by (auto intro!: digit_chr_lower)
  show "number b 0 (radix b n) = n" using r by simp
  show "digits_ok b (radix b n)" if "\<not> (b = 8 \<and> n = 0)"
    using r that assms(1) by (cases "n = 0") (auto simp: digits_ok_def radix_small)
qed

text \<open>A sign that is not a minus does not change what is parsed.\<close>

lemma parse_u64_sign:
  assumes "digits_ok b ds" "sg \<in> {[], [32], [43]}"
  shows "parse_u64 t (Some (sg @ base_prefix b @ map digit_char ds @ 0 # r)) = parse_u64 t (Some (base_prefix b @ map digit_char ds @ 0 # r))"
proof -
  obtain c x where c: "base_prefix b @ map digit_char ds @ 0 # r = c # x" "c \<notin> {0, 32, 43, 45}"
    using first_char [OF assms(1)] by metis
  show ?thesis unfolding c(1) using c(2) assms(2) by (auto simp: parse_u64_def skip_plus_def rd_def)
qed

lemma parse_i64_sign:
  assumes "digits_ok b ds" "sg \<in> {[], [32], [43]}"
  shows "parse_i64 t (Some (sg @ base_prefix b @ map digit_char ds @ 0 # r)) = parse_i64 t (Some (base_prefix b @ map digit_char ds @ 0 # r))"
proof -
  obtain c x where c: "base_prefix b @ map digit_char ds @ 0 # r = c # x" "48 \<le> sint c" "sint c \<le> 57" "c \<notin> {0, 32, 43, 45}"
    using first_char [OF assms(1)] by metis
  show ?thesis unfolding c(1) using c(2-4) assms(2) by (auto simp: parse_i64_def)
qed

text \<open>What \<open>str\<close> returns after a text that fits.\<close>

lemma str_of_written:
  assumes "buffer_inv s'"
  obtains r s'' where "b_str s' = Some (Some (written s' @ 0 # r), s'')"
proof -
  have "b_pos s' < length (b_buf s')" using assms by (simp add: buffer_inv_def wf_stream_def)
  then have "(b_buf s')[b_pos s' := 0] = written s' @ 0 # drop (Suc (b_pos s')) (b_buf s')"
    using assms by (simp add: upd_conv_take_nth_drop buffer_inv_def written_def)
  then show thesis using that assms by (simp add: b_str_def wr_def buffer_inv_def wf_stream_def)
qed

lemma parse_number_text:
  assumes "b_base s \<in> {2, 8, 10, 16}" "b_base s \<noteq> 10 \<longrightarrow> b_prefix s" "b_width s = 0" "b_hexchar s = 97" "n < 2 ^ 64"
  shows "parse_u64 t (Some (number_text s n False SIZE_MAX @ 0 # r)) = Some (of_nat n, True)"
    and "n < 2 ^ 63 \<Longrightarrow> parse_i64 t (Some (number_text s n False SIZE_MAX @ 0 # r)) = Some (of_nat n, True)"
    and "b_base s = 10 \<Longrightarrow> n \<le> 2 ^ 63 \<Longrightarrow> parse_i64 t (Some (number_text s n True SIZE_MAX @ 0 # r)) = Some (- of_nat n, True)"
proof -
  define b where "b = unat (b_base s)"
  have b: "b \<in> {2, 8, 10, 16}" using assms(1) by (auto simp: b_def)
  note r = radix_text [OF b assms(5)]
  have ten: "b_base s = 10 \<longleftrightarrow> b = 10" "b_base s = 8 \<longleftrightarrow> b = 8" using assms(1) by (auto simp: b_def)
  have nt: "number_text s n neg SIZE_MAX = sign_text s neg (n = 0) @ map digit_char (radix b n)" for neg
    unfolding number_text_plain [OF assms(3)] assms(4) b_def [symmetric] r(1) ..
  have sign10: "sign_text s False (n = 0) \<in> {[], [32], [43]} \<and> base_prefix b = []" if "b = 10"
    using that ten by (auto simp: sign_text_def base_prefix_def split: sign.splits)
  have prefix: "sign_text s False (n = 0) = base_prefix b" if "b \<noteq> 10" "\<not> (b = 8 \<and> n = 0)"
    using that assms(1,2,4) ten by (auto simp: sign_text_def base_prefix_def b_def)
  have zero: "number_text s n False SIZE_MAX = base_prefix 10 @ map digit_char [0]" if "b = 8 \<and> n = 0"
    unfolding nt using that ten assms(1,2) by (simp add: sign_text_def base_prefix_def radix_small)
  have ok0: "digits_ok 10 [0]" by (simp add: digits_ok_def)
  have both: "parse_u64 t (Some (number_text s n False SIZE_MAX @ 0 # r)) = Some (of_nat n, True)
    \<and> (n < 2 ^ 63 \<longrightarrow> parse_i64 t (Some (number_text s n False SIZE_MAX @ 0 # r)) = Some (of_nat n, True))"
  proof (cases "b = 8 \<and> n = 0")
    case True
    then show ?thesis using parse_u64_digits [OF ok0, of t r] parse_i64_digits [OF ok0, of t r] zero by simp
  next
    case False
    note d = r(2) [OF False]
    show ?thesis
    proof (cases "b = 10")
      case True
      then show ?thesis using parse_u64_sign [OF d, of "sign_text s False (n = 0)" t r] parse_u64_digits [OF d, unfolded r(3), of t r]
          parse_i64_sign [OF d, of "sign_text s False (n = 0)" t r] parse_i64_digits [OF d, unfolded r(3), of t r]
          sign10 assms(5) by (simp add: nt)
    next
      case ne: False
      then show ?thesis using parse_u64_digits [OF d, unfolded r(3), of t r] parse_i64_digits [OF d, unfolded r(3), of t r]
          prefix False assms(5) by (simp add: nt)
    qed
  qed
  then show "parse_u64 t (Some (number_text s n False SIZE_MAX @ 0 # r)) = Some (of_nat n, True)" by simp
  show "n < 2 ^ 63 \<Longrightarrow> parse_i64 t (Some (number_text s n False SIZE_MAX @ 0 # r)) = Some (of_nat n, True)"
    using both by simp
  assume "b_base s = 10"
  then have b10: "b = 10" "\<not> (b = 8 \<and> n = 0)" using ten by simp_all
  note d = r(2) [OF b10(2)]
  have "sign_text s True (n = 0) = [45]" using \<open>b_base s = 10\<close> by (simp add: sign_text_def)
  then show "n \<le> 2 ^ 63 \<Longrightarrow> parse_i64 t (Some (number_text s n True SIZE_MAX @ 0 # r)) = Some (- of_nat n, True)"
    using parse_i64_minus [OF d, unfolded r(3), of t r] sign10 b10 by (simp add: nt)
qed

lemma number_text_length:
  assumes "b_base s \<in> {2, 8, 10, 16}" "b_width s = 0" "n < 2 ^ 64"
  shows "length (number_text s n neg SIZE_MAX) \<le> 66"
proof -
  have "2 \<le> unat (b_base s)" using assms(1) by auto
  then have "length (radix (unat (b_base s)) n) \<le> 64" using assms(3) by (rule radix_length)
  moreover have "length (sign_text s neg (n = 0)) \<le> 2" by (simp add: sign_text_def split: sign.splits)
  ultimately show ?thesis by (simp add: number_text_plain [OF assms(2)])
qed

text \<open>
  C36.  A number that is printed to a fresh buffer of at least 67 characters, without a width, in lower case and
  in any of the four bases with the prefix of the base, is read back by the parser, whatever sign the
  stream shows: every unsigned value of 64 bits; every signed value that is not negative; and in decimal
  every negative one except the smallest, whose negation overflows.  In the other bases a negative
  value is printed as the unsigned number of its 64 bits.
\<close>

theorem stream_parse:
  assumes "buffer_inv s" and "b_pos s = 0" and "b_width s = 0" and "b_hexchar s = 97" and "67 \<le> b_len s"
    and "b_base s \<in> {2, 8, 10, 16}" and "b_base s \<noteq> 10 \<longrightarrow> b_prefix s"
  shows "(\<exists>s' text s''. put_u64 flush_none v s = Some s' \<and> b_str s' = Some (Some text, s'') \<and> parse_u64 t (Some text) = Some (v, True))
    \<and> (b_base s = 10 \<and> v \<noteq> 0x8000000000000000 \<or> 0 \<le> sint v \<longrightarrow>
      (\<exists>s' text s''. put_i64 flush_none v s = Some s' \<and> b_str s' = Some (Some text, s'') \<and> parse_i64 t (Some text) = Some (v, True)))
    \<and> (b_base s \<noteq> 10 \<longrightarrow> put_i64 flush_none v s = put_u64 flush_none v s)
    \<and> (b_base s = 10 \<longrightarrow> put_i64 flush_none 0x8000000000000000 s = None)"
proof -
  have empty: "written s = []" using assms(1,2) by (simp add: written_def buffer_inv_def)
  have v: "unat v < 2 ^ 64" using unsigned_less [of v, where 'a = nat] by simp
  have fits: "take (b_len s - 1) (number_text s n neg SIZE_MAX) = number_text s n neg SIZE_MAX" if "n < 2 ^ 64" for n neg
    using number_text_length [OF assms(6,3) that, of neg] assms(5) by simp
  have "\<exists>s' text s''. put_u64 flush_none v s = Some s' \<and> b_str s' = Some (Some text, s'') \<and> parse_u64 t (Some text) = Some (v, True)"
  proof -
    obtain s' where s': "put_u64 flush_none v s = Some s'" "buffer_inv s'" "written s' = number_text s (unat v) False SIZE_MAX"
      using buffer.put_u64_text [OF assms(1,6), of v] empty fits [OF v] by auto
    obtain r s'' where "b_str s' = Some (Some (written s' @ 0 # r), s'')" by (rule str_of_written [OF s'(2)])
    then show ?thesis using s' parse_number_text(1) [OF assms(6,7,3,4) v, of t r] by auto
  qed
  moreover have "\<exists>s' text s''. put_i64 flush_none v s = Some s' \<and> b_str s' = Some (Some text, s'') \<and> parse_i64 t (Some text) = Some (v, True)"
    if ok: "b_base s = 10 \<and> v \<noteq> 0x8000000000000000 \<or> 0 \<le> sint v"
  proof -
    have t: "int_text s v SIZE_MAX = number_text s (nat \<bar>sint v\<bar>) (sint v < 0) SIZE_MAX"
      using ok unat_sint [of v] by (auto simp: int_text_def)
    have ne: "b_base s = 10 \<longrightarrow> v \<noteq> 0x8000000000000000" using ok by auto
    have i: "- (2 ^ 63) \<le> sint v" "sint v < 2 ^ 63" using sint_ge [of v] sint_lt [of v] by simp_all
    then have n: "nat \<bar>sint v\<bar> < 2 ^ 64" "nat \<bar>sint v\<bar> \<le> 2 ^ 63" "\<not> sint v < 0 \<longrightarrow> nat \<bar>sint v\<bar> < 2 ^ 63" by auto
    obtain s' where s': "put_i64 flush_none v s = Some s'" "buffer_inv s'"
      "written s' = number_text s (nat \<bar>sint v\<bar>) (sint v < 0) SIZE_MAX"
      using buffer.put_i64_any [OF assms(1,6) ne] empty fits [OF n(1)] unfolding t by auto
    obtain r s'' where "b_str s' = Some (Some (written s' @ 0 # r), s'')" by (rule str_of_written [OF s'(2)])
    moreover have "parse_i64 t (Some (written s' @ 0 # r)) = Some (v, True)"
    proof (cases "sint v < 0")
      case True
      have "- (of_nat (nat \<bar>sint v\<bar>) :: u64) = v" using neg_word_of_nat [OF True] True by (metis abs_of_neg minus_minus)
      then show ?thesis using parse_number_text(3) [OF assms(6,7,3,4) n(1) _ n(2), of t r] True s'(3) ok by simp
    next
      case False
      have "(of_nat (nat \<bar>sint v\<bar>) :: u64) = v" using False by simp
      then show ?thesis using parse_number_text(2) [OF assms(6,7,3,4) n(1), of t r] False n(3) s'(3) by simp
    qed
    ultimately show ?thesis using s' by blast
  qed
  moreover have "put_i64 flush_none 0x8000000000000000 s = None" if "b_base s = 10"
    using that by (simp add: put_i64_def writefill_int_def)
  moreover have "put_i64 flush_none v s = put_u64 flush_none v s" if "b_base s \<noteq> 10"
    using that by (simp add: put_i64_def put_u64_def writefill_int_def)
  ultimately show ?thesis by blast
qed

definition example_stream :: bstream where
  "example_stream = \<lparr>b_base = 16, b_width = 0, b_fill = 32, b_hexchar = 97, b_prefix = True, b_left = True,
    b_sign = MINUS_ONLY, b_buf = replicate 80 0, b_len = 80, b_pos = 0, b_out = []\<rparr>"

theorem stream_parse_witness:
  "\<exists>s' text s''. put_u64 flush_none 48879 example_stream = Some s' \<and> b_str s' = Some (Some text, s'')
    \<and> parse_u64 0 (Some text) = Some (48879, True)"
  by (rule stream_parse [THEN conjunct1]) (simp_all add: example_stream_def buffer_inv_def wf_stream_def)

text \<open>A system call that takes one byte at a time.\<close>

definition one_byte :: "u8 list \<Rightarrow> u8 list \<Rightarrow> nat option" where
  "one_byte out data = Some 1"

theorem stream_prints_witness:
  "(\<exists>s'. put_u64 flush_none 255 example_stream = Some s' \<and> written s' = [48, 120, 102, 102])
   \<and> (\<exists>s'. put_u64 (flush_fd one_byte) 255 (example_stream\<lparr>b_len := 3\<rparr>) = Some s' \<and> written s' = [48, 120, 102, 102])"
proof -
  let ?s = "example_stream\<lparr>b_len := 3\<rparr>"
  have inv: "buffer_inv example_stream" "output_inv ?s"
    by (simp_all add: example_stream_def buffer_inv_def wf_stream_def output_inv_def output_ready_def)
  have sys: "takes_bytes one_byte" by (auto simp: takes_bytes_def one_byte_def Suc_le_eq)
  obtain s1 where s1: "put_u64 flush_none 255 example_stream = Some s1"
    "written s1 = take 79 (written example_stream @ number_text example_stream 255 False SIZE_MAX)"
    using stream_prints [of example_stream "[]" 255 "[]" one_byte, THEN conjunct1] inv by (auto simp: example_stream_def SIZE_MAX_def)
  obtain s2 where s2: "put_u64 (flush_fd one_byte) 255 ?s = Some s2"
    "written s2 = written ?s @ number_text ?s 255 False SIZE_MAX"
    using stream_prints [of ?s "[]" 255 "[]" one_byte, THEN conjunct2, THEN conjunct1] inv sys by (auto simp: example_stream_def SIZE_MAX_def)
  have "radix 16 255 = [15, 15]" by (simp add: radix_large radix_small)
  then have "number_text example_stream 255 False SIZE_MAX = [48, 120, 102, 102]" "number_text ?s 255 False SIZE_MAX = [48, 120, 102, 102]"
    by (simp_all add: example_stream_def number_text_plain sign_text_def digit_chr_def)
  moreover have "written example_stream = []" "written ?s = []" by (simp_all add: example_stream_def written_def)
  ultimately show ?thesis using s1 s2 by auto
qed

end
