(* ===== verification/FormatTheorems.thy ===== *)
theory FormatTheorems
  imports StreamTheorems
begin

text \<open>
  Format strings as a list of parts: what the state machine of \<open>format\<close> does with the characters of a
  part is what the part says.
\<close>

section \<open>Parts of a format string\<close>

text \<open>A width or a precision is left out, a list of digits, or a star.\<close>

datatype field = Absent | Digits "nat list" | Star

record conv =
  c_flags :: "u8 list"
  c_width :: field
  c_precision :: field
  c_length :: "u8 list"
  c_char :: u8

datatype part = Literal u8 | Percent | Conv conv

definition flag_chars :: "u8 list" where
  "flag_chars = [43, 45, 32, 48, 35, 73]"

definition length_chars :: "u8 list" where
  "length_chars = [104, 108, 106, 122, 116]"

definition conv_chars :: "u8 list" where
  "conv_chars = [99, 115, 112, 110, 100, 105, 98, 111, 120, 88, 117]"

fun width_text :: "field \<Rightarrow> u8 list" where
  "width_text Absent = []"
| "width_text (Digits ds) = map digit_char ds"
| "width_text Star = [42]"

fun precision_text :: "field \<Rightarrow> u8 list" where
  "precision_text Absent = []"
| "precision_text (Digits ds) = 46 # map digit_char ds"
| "precision_text Star = [46, 42]"

definition conv_text :: "conv \<Rightarrow> u8 list" where
  "conv_text c = 37 # c_flags c @ width_text (c_width c) @ precision_text (c_precision c) @ c_length c @ [c_char c]"

fun part_text :: "part \<Rightarrow> u8 list" where
  "part_text (Literal c) = [c]"
| "part_text Percent = [37, 37]"
| "part_text (Conv c) = conv_text c"

fun field_ok :: "field \<Rightarrow> bool" where
  "field_ok (Digits ds) \<longleftrightarrow> (\<forall>d \<in> set ds. d < 10)"
| "field_ok _ \<longleftrightarrow> True"

text \<open>A width does not start with a zero, which is a flag.\<close>

definition conv_ok :: "conv \<Rightarrow> bool" where
  "conv_ok c \<longleftrightarrow> set (c_flags c) \<subseteq> set flag_chars \<and> field_ok (c_width c) \<and> field_ok (c_precision c)
    \<and> (\<forall>ds. c_width c = Digits ds \<longrightarrow> ds \<noteq> [] \<and> hd ds \<noteq> 0)
    \<and> set (c_length c) \<subseteq> set length_chars \<and> c_char c \<in> set conv_chars"

fun part_ok :: "part \<Rightarrow> bool" where
  "part_ok (Literal c) \<longleftrightarrow> c \<noteq> 0 \<and> c \<noteq> 37"
| "part_ok Percent \<longleftrightarrow> True"
| "part_ok (Conv c) \<longleftrightarrow> conv_ok c"

section \<open>What the parts mean\<close>

definition plain_options :: "bstream \<Rightarrow> bstream" where
  "plain_options s = s\<lparr>b_base := 10, b_width := 0, b_fill := 32, b_hexchar := 97, b_prefix := False,
     b_left := False, b_sign := MINUS_ONLY\<rparr>"

text \<open>The flags in any order: a plus wins over a space, a minus over a zero.\<close>

definition flag_options :: "u8 list \<Rightarrow> bstream \<Rightarrow> bstream" where
  "flag_options fs s = s\<lparr>b_sign := (if 43 \<in> set fs then PLUS else if 32 \<in> set fs then SPACE else b_sign s),
     b_left := (45 \<in> set fs), b_fill := (if 48 \<in> set fs \<and> 45 \<notin> set fs then 48 else 32), b_prefix := (35 \<in> set fs)\<rparr>"

fun width_options :: "field \<Rightarrow> fstate \<Rightarrow> fstate option" where
  "width_options Absent st = Some st"
| "width_options (Digits ds) st = Some (set_stream (\<lambda>s. s\<lparr>b_width := of_nat (number 10 0 ds)\<rparr>) st)"
| "width_options Star st = do { (negative, v, st) \<leftarrow> star st;
     Some (set_stream (\<lambda>s. s\<lparr>b_width := ucast v, b_left := (if negative then True else b_left s)\<rparr>) st) }"

fun precision_options :: "field \<Rightarrow> fstate \<Rightarrow> fstate option" where
  "precision_options Absent st = Some st"
| "precision_options (Digits ds) st = Some (set_stream (\<lambda>s. s\<lparr>b_fill := 32\<rparr>) (st\<lparr>f_precision := number 10 0 ds mod (SIZE_MAX + 1)\<rparr>))"
| "precision_options Star st = do { (_, v, st) \<leftarrow> star (set_stream (\<lambda>s. s\<lparr>b_fill := 32\<rparr>) (st\<lparr>f_precision := 0\<rparr>));
     Some (st\<lparr>f_precision := unat v\<rparr>) }"

text \<open>Two \<open>l\<close> are a \<open>long long\<close>, three a \<open>long\<close> again.\<close>

definition length_option :: "u8 list \<Rightarrow> flength \<Rightarrow> flength" where
  "length_option ls = fold (\<lambda>c l. if c = 104 then L_SHORT else if c = 108 then if l \<noteq> L_LONG then L_LONG else L_LONGLONG
     else L_LONG) ls"

definition run_conv :: "flush \<Rightarrow> nat \<Rightarrow> conv \<Rightarrow> fstate \<Rightarrow> fstate option" where
  "run_conv flush start c st =
     do { let st = set_stream (\<lambda>s. flag_options (c_flags c) (plain_options s)) (st\<lparr>f_precision := SIZE_MAX, f_length := L_INT\<rparr>);
          st \<leftarrow> width_options (c_width c) st;
          st \<leftarrow> precision_options (c_precision c) st;
          map_option f_done (case_specifier flush start (c_char c) (st\<lparr>f_length := length_option (c_length c) (f_length st)\<rparr>)) }"

fun run_part :: "flush \<Rightarrow> nat \<Rightarrow> part \<Rightarrow> fstate \<Rightarrow> fstate option" where
  "run_part flush start (Literal c) st = on_stream (put_char flush c) st"
| "run_part flush start Percent st = on_stream (put_char flush 37) (set_stream plain_options (st\<lparr>f_precision := SIZE_MAX, f_length := L_INT\<rparr>))"
| "run_part flush start (Conv c) st = run_conv flush start c st"

fun run_parts :: "flush \<Rightarrow> nat \<Rightarrow> part list \<Rightarrow> fstate \<Rightarrow> fstate option" where
  "run_parts flush start [] st = Some st"
| "run_parts flush start (p # ps) st = do { st \<leftarrow> run_part flush start p st; run_parts flush start ps st }"

section \<open>The state machine\<close>

text \<open>The control part of the state: the next case and the start of the part.\<close>

definition ctl :: "fmode \<Rightarrow> nat option \<Rightarrow> fstate \<Rightarrow> fstate" where
  "ctl m j st = st\<lparr>f_state := m, f_start := j\<rparr>"

lemma ctl_simps [simp]:
  "f_state (ctl m j st) = m" "f_start (ctl m j st) = j" "f_args (ctl m j st) = f_args st" "f_stored (ctl m j st) = f_stored st"
  "f_stream (ctl m j st) = f_stream st" "f_precision (ctl m j st) = f_precision st" "f_length (ctl m j st) = f_length st"
  "(ctl m j st)\<lparr>f_state := m'\<rparr> = ctl m' j st" "set_stream f (ctl m j st) = ctl m j (set_stream f st)"
  "(ctl m j st)\<lparr>f_precision := p\<rparr> = ctl m j (st\<lparr>f_precision := p\<rparr>)" "(ctl m j st)\<lparr>f_length := l\<rparr> = ctl m j (st\<lparr>f_length := l\<rparr>)"
  "(ctl m j st)\<lparr>f_args := as\<rparr> = ctl m j (st\<lparr>f_args := as\<rparr>)" "(ctl m j st)\<lparr>f_stored := vs\<rparr> = ctl m j (st\<lparr>f_stored := vs\<rparr>)"
  "(ctl m j st)\<lparr>f_stream := s\<rparr> = ctl m j (st\<lparr>f_stream := s\<rparr>)"
  "f_done (ctl m j st) = f_done st" "f_done (f_done st) = f_done st" "ctl m j (f_done st) = ctl m j st"
  by (simp_all add: ctl_def set_stream_def f_done_def)

lemma f_done_ctl: "f_done st = ctl NONE None st"
  by (simp add: ctl_def f_done_def)

lemma ctl_args [simp]:
  "va_int (ctl m j st) = map_option (\<lambda>(v, st). (v, ctl m j st)) (va_int st)"
  "va_long (ctl m j st) = map_option (\<lambda>(v, st). (v, ctl m j st)) (va_long st)"
  "va_str (ctl m j st) = map_option (\<lambda>(v, st). (v, ctl m j st)) (va_str st)"
  "va_ptr (ctl m j st) = map_option (\<lambda>(v, st). (v, ctl m j st)) (va_ptr st)"
  "va_out w (ctl m j st) = map_option (ctl m j) (va_out w st)"
  "on_stream f (ctl m j st) = map_option (ctl m j) (on_stream f st)"
  by (simp_all add: va_int_def va_long_def va_str_def va_ptr_def va_out_def on_stream_def option.map_comp comp_def
      split: list.splits arg.splits)

lemma ctl_star [simp]: "star (ctl m j st) = map_option (\<lambda>(b, v, st). (b, v, ctl m j st)) (star st)"
  by (auto simp: star_def split: Option.bind_splits)

lemma map_bind: "Option.bind (map_option g x) h = Option.bind x (\<lambda>y. h (g y))"
  by (cases x) simp_all

lemma directive_ctl:
  "signed_directive flush (ctl m j st) = signed_directive flush st"
  "unsigned_directive flush (ctl m j st) = unsigned_directive flush st"
  by (cases "va_int st"; cases "va_long st"; cases "f_length st";
      auto simp: signed_directive_def unsigned_directive_def map_bind)+

lemma case_specifier_ctl:
  assumes "c \<in> set conv_chars"
  shows "case_specifier flush start c (ctl m j st) = case_specifier flush start c st"
  unfolding case_specifier_def directive_ctl
  using assms
  by (cases "va_int st"; cases "va_str st"; cases "va_ptr st")
    (auto simp: conv_chars_def map_bind Let_def directive_ctl)

lemma case_specifier_done:
  assumes "c \<in> set conv_chars" "case_specifier flush start c st = Some st'"
  shows "f_state st' = NONE \<and> f_start st' = None"
  using assms
  by (auto simp: conv_chars_def case_specifier_def signed_directive_def unsigned_directive_def f_done_def Let_def
      split: if_splits Option.bind_splits)

text \<open>A character that a case does not take is seen by the next case.\<close>

lemma to_flags: "c \<noteq> 0 \<Longrightarrow> c \<noteq> 37 \<Longrightarrow> format_loop flush start fmt i (c # rest) (ctl MARKER j st) = format_loop flush start fmt i (c # rest) (ctl FLAGS j st)"
  by (simp add: format_step_def case_marker_def)

definition left_fix :: "bstream \<Rightarrow> bstream" where
  "left_fix s = (if b_left s then s\<lparr>b_fill := 32\<rparr> else s)"

lemma to_widthstar: "c \<noteq> 0 \<Longrightarrow> c \<notin> set flag_chars \<Longrightarrow> format_loop flush start fmt i (c # rest) (ctl FLAGS j st)
    = format_loop flush start fmt i (c # rest) (ctl WIDTHSTAR j (set_stream left_fix st))"
  by (simp add: format_step_def case_flags_def flag_chars_def left_fix_def [abs_def])

lemma to_width: "c \<noteq> 0 \<Longrightarrow> c \<noteq> 42 \<Longrightarrow> format_loop flush start fmt i (c # rest) (ctl WIDTHSTAR j st) = format_loop flush start fmt i (c # rest) (ctl WIDTH j st)"
  by (simp add: format_step_def case_widthstar_def)

lemma case_precision_star_mode: "case_precisionstar flush start c (ctl m j st) = case_precisionstar flush start c (ctl m' j st)"
  by (simp add: case_precisionstar_def map_bind case_prod_beta)

lemma case_precisiondot_mode: "case_precisiondot flush start c (ctl m j st) = case_precisiondot flush start c (ctl m' j st)"
  by (simp add: case_precisiondot_def)

lemma to_precisiondot:
  assumes "\<not> is_digit c" "c \<noteq> 42" "c \<noteq> 0"
  shows "format_loop flush start fmt i (c # rest) (ctl WIDTH j st) = format_loop flush start fmt i (c # rest) (ctl PRECISIONDOT j st)"
    and "format_loop flush start fmt i (c # rest) (ctl PRECISION j st) = format_loop flush start fmt i (c # rest) (ctl PRECISIONDOT j st)"
  using assms case_precisiondot_mode [of flush start c PRECISION j st PRECISIONDOT]
  by (simp_all add: format_step_def case_width_def case_precisionstar_def case_precision_def)

lemma to_precision: "c \<noteq> 0 \<Longrightarrow> c \<noteq> 42 \<Longrightarrow> format_loop flush start fmt i (c # rest) (ctl PRECISIONSTAR j st) = format_loop flush start fmt i (c # rest) (ctl PRECISION j st)"
  by (simp add: format_step_def case_precisionstar_def)

lemma to_length: "c \<noteq> 0 \<Longrightarrow> c \<noteq> 46 \<Longrightarrow> format_loop flush start fmt i (c # rest) (ctl PRECISIONDOT j st) = format_loop flush start fmt i (c # rest) (ctl F_LENGTH j st)"
  by (simp add: format_step_def case_precisiondot_def)

text \<open>The cases that take characters.\<close>

definition flag_effect :: "u8 \<Rightarrow> bstream \<Rightarrow> bstream" where
  "flag_effect c s = (if c = 43 then s\<lparr>b_sign := PLUS\<rparr> else if c = 45 then s\<lparr>b_left := True\<rparr>
     else if c = 32 then if b_sign s \<noteq> PLUS then s\<lparr>b_sign := SPACE\<rparr> else s
     else if c = 48 then s\<lparr>b_fill := 48\<rparr> else if c = 35 then s\<lparr>b_prefix := True\<rparr> else s)"

lemma set_stream_simps [simp]: "set_stream f (set_stream g st) = set_stream (\<lambda>s. f (g s)) st" "set_stream (\<lambda>s. s) st = st" "set_stream id st = st"
  by (simp_all add: set_stream_def)

lemma run_flags: "set fs \<subseteq> set flag_chars \<Longrightarrow> format_loop flush start fmt i (fs @ rest) (ctl FLAGS j st)
    = format_loop flush start fmt (i + length fs) rest (ctl FLAGS j (set_stream (fold flag_effect fs) st))"
proof (induction fs arbitrary: i st)
  case (Cons c fs)
  have c: "c \<in> set flag_chars" using Cons.prems by simp
  then have "case_flags flush start c (ctl FLAGS j st) = Some (ctl FLAGS j (set_stream (flag_effect c) st))"
    by (auto simp: flag_chars_def case_flags_def flag_effect_def [abs_def])
  moreover have "c \<noteq> 0" using c by (auto simp: flag_chars_def)
  ultimately have "format_loop flush start fmt i ((c # fs) @ rest) (ctl FLAGS j st)
      = format_loop flush start fmt (i + 1) (fs @ rest) (ctl FLAGS j (set_stream (flag_effect c) st))"
    by (simp add: format_step_def)
  then show ?case using Cons.IH [of "i + 1"] Cons.prems by (simp add: comp_def)
qed simp

lemma fold_flags:
  "fold flag_effect fs s = s\<lparr>b_sign := (if 43 \<in> set fs then PLUS else if 32 \<in> set fs \<and> b_sign s \<noteq> PLUS then SPACE else b_sign s),
     b_left := (b_left s \<or> 45 \<in> set fs), b_fill := (if 48 \<in> set fs then 48 else b_fill s), b_prefix := (b_prefix s \<or> 35 \<in> set fs)\<rparr>"
  by (induction fs arbitrary: s) (auto simp: flag_effect_def)

lemma flags_meaning: "left_fix (fold flag_effect fs (plain_options s)) = flag_options fs (plain_options s)"
  by (simp add: fold_flags left_fix_def flag_options_def plain_options_def)

lemma digit_char_facts: "d < 10 \<Longrightarrow> is_digit (digit_char d) \<and> digit_char d \<noteq> 0 \<and> digit_char d \<noteq> 42 \<and> digit_char d \<noteq> 46
    \<and> digit_char d = 48 + of_nat d \<and> sint (digit_char d) = 48 + int d"
proof -
  assume d: "d < 10"
  note r = digit_char_range [OF d]
  have "digit_char d \<noteq> c" if "sint c < 48" for c using r that by auto
  from this [of 0] this [of 42] this [of 46] show ?thesis using r d by (simp add: is_digit_def digit_char_def)
qed

lemma run_width: "\<forall>d \<in> set ds. d < 10 \<Longrightarrow> format_loop flush start fmt i (map digit_char ds @ rest) (ctl WIDTH j st)
    = format_loop flush start fmt (i + length ds) rest
        (ctl WIDTH j (set_stream (\<lambda>s. s\<lparr>b_width := fold (\<lambda>d w. w * 10 + of_nat d) ds (b_width s)\<rparr>) st))"
proof (induction ds arbitrary: i st)
  case (Cons d ds)
  then have d: "is_digit (digit_char d)" "digit_char d \<noteq> 0" "digit_char d = 48 + of_nat d" using digit_char_facts [of d] by auto
  have eq: "(\<lambda>s. s\<lparr>b_width := b_width s * 10 + digit_char d - 48\<rparr>) = (\<lambda>s. s\<lparr>b_width := b_width s * 10 + of_nat d\<rparr>)"
    unfolding d(3) by (simp add: algebra_simps)
  have "case_width flush start (digit_char d) (ctl WIDTH j st) = Some (ctl WIDTH j (set_stream (\<lambda>s. s\<lparr>b_width := b_width s * 10 + of_nat d\<rparr>) st))"
    by (simp only: case_width_def d(1) if_True ctl_simps eq)
  then have "format_loop flush start fmt i (map digit_char (d # ds) @ rest) (ctl WIDTH j st)
      = format_loop flush start fmt (i + 1) (map digit_char ds @ rest) (ctl WIDTH j (set_stream (\<lambda>s. s\<lparr>b_width := b_width s * 10 + of_nat d\<rparr>) st))"
    using d(2) by (simp add: format_step_def)
  then show ?case using Cons.IH [of "i + 1"] Cons.prems by simp
qed simp

lemma run_precision: "\<forall>d \<in> set ds. d < 10 \<Longrightarrow> format_loop flush start fmt i (map digit_char ds @ rest) (ctl PRECISION j st)
    = format_loop flush start fmt (i + length ds) rest
        (ctl PRECISION j (st\<lparr>f_precision := fold (\<lambda>d p. (p * 10 + d) mod (SIZE_MAX + 1)) ds (f_precision st)\<rparr>))"
proof (induction ds arbitrary: i st)
  case (Cons d ds)
  then have d: "is_digit (digit_char d)" "digit_char d \<noteq> 0" "sint (digit_char d) = 48 + int d" using digit_char_facts [of d] by auto
  have "format_loop flush start fmt i (map digit_char (d # ds) @ rest) (ctl PRECISION j st)
      = format_loop flush start fmt (i + 1) (map digit_char ds @ rest) (ctl PRECISION j (st\<lparr>f_precision := (f_precision st * 10 + d) mod (SIZE_MAX + 1)\<rparr>))"
    using d by (simp add: format_step_def case_precision_def)
  then show ?case using Cons.IH [of "i + 1"] Cons.prems by simp
qed simp

lemma fold_precision: "fold (\<lambda>d p. (p * 10 + d) mod m) ds (p mod m) = number 10 p ds mod (m :: nat)"
proof (induction ds arbitrary: p)
  case (Cons d ds)
  have "(p mod m * 10 + d) mod m = (p * 10 + d) mod m" by (metis mod_add_left_eq mod_mult_left_eq)
  then show ?case using Cons [of "p * 10 + d"] by simp
qed simp

lemma fold_width: "fold (\<lambda>d w. w * 10 + of_nat d) ds (of_nat w) = (of_nat (number 10 w ds) :: u8)"
proof (induction ds arbitrary: w)
  case (Cons d ds)
  have "(of_nat w * 10 + of_nat d :: u8) = of_nat (w * 10 + d)" by simp
  then show ?case using Cons [of "w * 10 + d"] by (simp only: fold_simps number_simps)
qed simp

lemma run_length: "set ls \<subseteq> set length_chars \<Longrightarrow> format_loop flush start fmt i (ls @ rest) (ctl F_LENGTH j st)
    = format_loop flush start fmt (i + length ls) rest (ctl F_LENGTH j (st\<lparr>f_length := length_option ls (f_length st)\<rparr>))"
proof (induction ls arbitrary: i st)
  case (Cons c ls)
  have c: "c \<in> set length_chars" using Cons.prems by simp
  have "length_option [c] (f_length st) = (if c = 104 then L_SHORT else if c = 108 then if f_length st \<noteq> L_LONG then L_LONG else L_LONGLONG else L_LONG)"
    by (simp add: length_option_def)
  then have "case_length flush start c (ctl F_LENGTH j st) = Some (ctl F_LENGTH j (st\<lparr>f_length := length_option [c] (f_length st)\<rparr>))"
    using c by (auto simp: length_chars_def case_length_def)
  moreover have "c \<noteq> 0" using c by (auto simp: length_chars_def)
  ultimately have "format_loop flush start fmt i ((c # ls) @ rest) (ctl F_LENGTH j st)
      = format_loop flush start fmt (i + 1) (ls @ rest) (ctl F_LENGTH j (st\<lparr>f_length := length_option [c] (f_length st)\<rparr>))"
    by (simp add: format_step_def)
  then show ?case using Cons.IH [of "i + 1"] Cons.prems by (simp add: length_option_def)
qed (simp add: length_option_def)

section \<open>Directives\<close>

lemma width_part:
  assumes "\<not> is_digit z" "z \<noteq> 42" "z \<noteq> 0" "field_ok w" "b_width (f_stream st) = 0" "\<forall>ds. w = Digits ds \<longrightarrow> ds \<noteq> []"
  shows "format_loop flush start fmt i (width_text w @ z # zs) (ctl WIDTHSTAR j st)
    = Option.bind (width_options w st) (\<lambda>st. format_loop flush start fmt (i + length (width_text w)) (z # zs) (ctl PRECISIONDOT j st))"
proof (cases w)
  case Absent
  then show ?thesis using to_width to_precisiondot(1) assms(1-3) by simp
next
  case (Digits ds)
  then obtain d ds' where ds: "ds = d # ds'" using assms(6) by (cases ds) auto
  have ok: "\<forall>d \<in> set ds. d < 10" using assms(4) Digits by simp
  then have d: "digit_char d \<noteq> 42" "digit_char d \<noteq> 0" using digit_char_facts [of d] ds by auto
  have st: "set_stream (\<lambda>s. s\<lparr>b_width := fold (\<lambda>d w. w * 10 + of_nat d) ds (b_width s)\<rparr>) st = set_stream (\<lambda>s. s\<lparr>b_width := of_nat (number 10 0 ds)\<rparr>) st"
    using assms(5) fold_width [of ds 0] by (simp add: set_stream_def)
  have "format_loop flush start fmt i (map digit_char ds @ z # zs) (ctl WIDTHSTAR j st) = format_loop flush start fmt i (map digit_char ds @ z # zs) (ctl WIDTH j st)"
    using to_width [OF d(2,1)] by (simp add: ds)
  also have "\<dots> = format_loop flush start fmt (i + length ds) (z # zs) (ctl PRECISIONDOT j (set_stream (\<lambda>s. s\<lparr>b_width := of_nat (number 10 0 ds)\<rparr>) st))"
    unfolding run_width [OF ok] st by (rule to_precisiondot(1) [OF assms(1-3)])
  finally show ?thesis using Digits by simp
next
  case Star
  then show ?thesis
    by (simp add: format_step_def case_widthstar_def map_bind case_prod_beta Option.bind_assoc Let_def)
qed

lemma precision_part:
  assumes "\<not> is_digit z" "z \<noteq> 42" "z \<noteq> 46" "z \<noteq> 0" "field_ok p"
  shows "format_loop flush start fmt i (precision_text p @ z # zs) (ctl PRECISIONDOT j st)
    = Option.bind (precision_options p st) (\<lambda>st. format_loop flush start fmt (i + length (precision_text p)) (z # zs) (ctl F_LENGTH j st))"
proof (cases p)
  case Absent
  then show ?thesis using to_length assms by simp
next
  case (Digits ds)
  define st1 where "st1 = set_stream (\<lambda>s. s\<lparr>b_fill := 32\<rparr>) (st\<lparr>f_precision := 0\<rparr>)"
  have ok: "\<forall>d \<in> set ds. d < 10" using assms(5) Digits by simp
  have dot: "format_loop flush start fmt i (46 # x) (ctl PRECISIONDOT j st) = format_loop flush start fmt (i + 1) x (ctl PRECISIONSTAR j st1)" for x
    by (simp add: format_step_def case_precisiondot_def st1_def)
  have "format_loop flush start fmt (i + 1) (map digit_char ds @ z # zs) (ctl PRECISIONSTAR j st1)
      = format_loop flush start fmt (i + 1) (map digit_char ds @ z # zs) (ctl PRECISION j st1)"
  proof (cases ds)
    case Nil
    then show ?thesis using to_precision [OF assms(4,2)] by simp
  next
    case (Cons d ds')
    then have "digit_char d \<noteq> 42" "digit_char d \<noteq> 0" using digit_char_facts [of d] ok by auto
    then show ?thesis using to_precision Cons by simp
  qed
  also have "\<dots> = format_loop flush start fmt (i + 1 + length ds) (z # zs)
      (ctl F_LENGTH j (st1\<lparr>f_precision := fold (\<lambda>d p. (p * 10 + d) mod (SIZE_MAX + 1)) ds (f_precision st1)\<rparr>))"
    unfolding run_precision [OF ok] to_precisiondot(2) [OF assms(1,2,4)] by (rule to_length [OF assms(4,3)])
  also have "st1\<lparr>f_precision := fold (\<lambda>d p. (p * 10 + d) mod (SIZE_MAX + 1)) ds (f_precision st1)\<rparr>
      = set_stream (\<lambda>s. s\<lparr>b_fill := 32\<rparr>) (st\<lparr>f_precision := number 10 0 ds mod (SIZE_MAX + 1)\<rparr>)"
    using fold_precision [of "SIZE_MAX + 1" ds 0] by (simp add: st1_def set_stream_def)
  finally show ?thesis using Digits by (simp add: dot add.assoc del: format_loop.simps)
next
  case Star
  then show ?thesis
    by (simp add: format_step_def case_precisiondot_def case_precisionstar_def map_bind case_prod_beta Option.bind_assoc)
qed

lemma conv_char_facts:
  assumes "c \<in> set conv_chars \<union> set length_chars"
  shows "c \<noteq> 0" "c \<noteq> 37" "c \<noteq> 42" "c \<noteq> 46" "\<not> is_digit c" "c \<notin> set flag_chars"
  using assms by (auto simp: conv_chars_def length_chars_def flag_chars_def is_digit_def)

lemma specifier_part:
  assumes "c \<in> set conv_chars"
  shows "format_loop flush start fmt i (c # rest) (ctl F_LENGTH j st)
    = Option.bind (map_option f_done (case_specifier flush start c st)) (\<lambda>st. format_loop flush start fmt (i + 1) rest (ctl NONE None st))"
proof -
  have "c \<notin> set length_chars" using assms by (auto simp: conv_chars_def length_chars_def)
  then have "case_length flush start c (ctl F_LENGTH j st) = case_specifier flush start c st"
    using case_specifier_ctl [OF assms] by (simp add: case_length_def length_chars_def)
  moreover have "ctl NONE None st' = st'" if "case_specifier flush start c st = Some st'" for st'
    using case_specifier_done [OF assms that] by (cases st') (simp add: ctl_def)
  ultimately show ?thesis
    using conv_char_facts(1) [of c] assms by (cases "case_specifier flush start c st") (simp_all add: format_step_def)
qed

lemma conv_part:
  assumes "conv_ok c"
  shows "format_loop flush start fmt i (conv_text c @ rest) (ctl NONE None st)
    = Option.bind (run_conv flush start c st) (\<lambda>st. format_loop flush start fmt (i + length (conv_text c)) rest (ctl NONE None st))"
proof -
  note ok = assms [unfolded conv_ok_def]
  let ?F = "c_flags c" and ?W = "width_text (c_width c)" and ?P = "precision_text (c_precision c)" and ?L = "c_length c @ c_char c # rest"
  define st1 where "st1 = set_stream plain_options (st\<lparr>f_precision := SIZE_MAX, f_length := L_INT\<rparr>)"
  define st2 where "st2 = set_stream (\<lambda>s. flag_options ?F (plain_options s)) (st\<lparr>f_precision := SIZE_MAX, f_length := L_INT\<rparr>)"
  obtain z zs where z: "?L = z # zs" "z \<in> set conv_chars \<union> set length_chars" using ok by (cases "c_length c") auto
  note zf = conv_char_facts [OF z(2)]
  obtain y ys where y: "?P @ ?L = y # ys" "y \<noteq> 0" "y \<noteq> 37" "y \<noteq> 42" "\<not> is_digit y" "y \<notin> set flag_chars"
  proof (cases "c_precision c")
    case Absent
    then show ?thesis using that z zf by simp
  qed (use that in \<open>simp_all add: is_digit_def flag_chars_def\<close>)
  obtain x xs where x: "?W @ ?P @ ?L = x # xs" "x \<noteq> 0" "x \<noteq> 37" "x \<notin> set flag_chars"
  proof (cases "c_width c")
    case Absent
    then show ?thesis using that y by simp
  next
    case (Digits ds)
    then obtain d ds' where "ds = d # ds'" "d < 10" "d \<noteq> 0" using ok by (cases ds) auto
    moreover have "digit_char d \<notin> set flag_chars \<union> {0, 37}"
    proof -
      have "sint (digit_char d) = 48 + int d" by (rule digit_char_range) fact
      then have "digit_char d \<noteq> k" if "sint k \<le> 48 \<or> 58 \<le> sint k" for k using that \<open>d < 10\<close> \<open>d \<noteq> 0\<close> by auto
      then show ?thesis by (simp add: flag_chars_def)
    qed
    ultimately show ?thesis using that Digits by simp
  qed (use that in \<open>simp_all add: flag_chars_def\<close>)
  obtain v vs where v: "?F @ ?W @ ?P @ ?L = v # vs" "v \<noteq> 0" "v \<noteq> 37"
    using x ok by (cases "c_flags c") (auto simp: flag_chars_def)
  have "format_loop flush start fmt i (conv_text c @ rest) (ctl NONE None st)
      = format_loop flush start fmt (i + 1) (?F @ ?W @ ?P @ ?L) (ctl MARKER (Some i) st1)"
  proof -
    have "format_step flush start fmt i 37 (ctl NONE None st) = Some (ctl MARKER (Some i) st1)"
      by (simp add: format_step_def case_none_def pending_def on_stream_def st1_def set_stream_def plain_options_def ctl_def)
    then show ?thesis by (simp add: conv_text_def)
  qed
  also have "\<dots> = format_loop flush start fmt (i + 1) (?F @ ?W @ ?P @ ?L) (ctl FLAGS (Some i) st1)"
    unfolding v(1) by (rule to_flags [OF v(2,3)])
  also have "\<dots> = format_loop flush start fmt (i + 1 + length ?F) (?W @ ?P @ ?L) (ctl FLAGS (Some i) (set_stream (fold flag_effect ?F) st1))"
    by (rule run_flags) (use ok in simp)
  also have "\<dots> = format_loop flush start fmt (i + 1 + length ?F) (?W @ ?P @ ?L) (ctl WIDTHSTAR (Some i) st2)"
    unfolding x(1) to_widthstar [OF x(2,4)] by (simp add: st1_def st2_def flags_meaning del: format_loop.simps)
  also have "\<dots> = Option.bind (width_options (c_width c) st2) (\<lambda>st. format_loop flush start fmt (i + 1 + length ?F + length ?W) (?P @ ?L) (ctl PRECISIONDOT (Some i) st))"
    unfolding y(1) by (rule width_part [OF y(5,4,2)])
      (use ok in \<open>simp_all add: st2_def set_stream_def flag_options_def plain_options_def\<close>)
  also have "\<dots> = Option.bind (width_options (c_width c) st2) (\<lambda>st. Option.bind (precision_options (c_precision c) st)
      (\<lambda>st. format_loop flush start fmt (i + 1 + length ?F + length ?W + length ?P) ?L (ctl F_LENGTH (Some i) st)))"
    unfolding z(1) by (subst precision_part [OF zf(5,3,4,1)]) (use ok in simp_all)
  also have "\<dots> = Option.bind (width_options (c_width c) st2) (\<lambda>st. Option.bind (precision_options (c_precision c) st)
      (\<lambda>st. format_loop flush start fmt (i + 1 + length ?F + length ?W + length ?P + length (c_length c)) (c_char c # rest)
        (ctl F_LENGTH (Some i) (st\<lparr>f_length := length_option (c_length c) (f_length st)\<rparr>))))"
    by (subst run_length) (use ok in simp_all)
  also have "\<dots> = Option.bind (run_conv flush start c st) (\<lambda>st. format_loop flush start fmt (i + length (conv_text c)) rest (ctl NONE None st))"
    using ok by (simp add: specifier_part run_conv_def Let_def st2_def [symmetric] Option.bind_assoc conv_text_def add.assoc del: format_loop.simps)
  finally show ?thesis .
qed

lemma on_stream_ctl: "f_state st = NONE \<Longrightarrow> f_start st = None \<Longrightarrow> ctl NONE None st = st"
  by (cases st) (simp add: ctl_def)

lemma one_part:
  assumes "part_ok p"
  shows "format_loop flush start fmt i (part_text p @ rest) (ctl NONE None st)
    = Option.bind (run_part flush start p st) (\<lambda>st. format_loop flush start fmt (i + length (part_text p)) rest (ctl NONE None st))"
proof (cases p)
  case (Literal c)
  have "map_option (\<lambda>st. st\<lparr>f_start := None\<rparr>) (on_stream f (ctl NONE None st)) = map_option (ctl NONE None) (on_stream f st)" for f
    by (simp add: option.map_comp comp_def) (simp add: ctl_def [abs_def])
  moreover have "on_stream (put_chars flush []) st' = Some st'" for st' by (simp add: on_stream_def)
  ultimately show ?thesis using Literal assms
    by (simp add: format_step_def case_none_def pending_def map_bind del: ctl_args)
next
  case Percent
  have "format_step flush start fmt i 37 (ctl NONE None st)
      = Some (ctl MARKER (Some i) (set_stream plain_options (st\<lparr>f_precision := SIZE_MAX, f_length := L_INT\<rparr>)))"
    by (simp add: format_step_def case_none_def pending_def on_stream_def set_stream_def plain_options_def ctl_def)
  then show ?thesis using Percent
    by (simp add: format_step_def [where c = 37 and st = "ctl MARKER _ _"] case_marker_def f_done_ctl map_bind)
      (simp add: ctl_def map_bind)
next
  case (Conv c)
  then show ?thesis using conv_part assms by simp
qed

lemma all_parts:
  "\<forall>p \<in> set ps. part_ok p \<Longrightarrow> format_loop flush start fmt i (concat (map part_text ps) @ 0 # r) (ctl NONE None st)
    = map_option (\<lambda>st. (i + length (concat (map part_text ps)), ctl NONE None st)) (run_parts flush start ps st)"
proof (induction ps arbitrary: i st)
  case (Cons p ps)
  then show ?case
    by (cases "run_part flush start p st") (simp_all add: one_part add.assoc del: format_loop.simps)
qed simp

text \<open>
  On any stream, the state machine of \<open>format\<close> runs the parts of the format string in their order: flags,
  width, precision and length of each directive are those of its letters, and the options are the ones
  from before.
\<close>

theorem format_parts:
  assumes "\<forall>p \<in> set ps. part_ok p"
  shows "format flush (concat (map part_text ps) @ 0 # r) args s =
    do { st \<leftarrow> run_parts flush (b_pos s) ps
           \<lparr>f_state = NONE, f_length = L_INT, f_precision = SIZE_MAX, f_start = None, f_args = args, f_stored = [], f_stream = s\<rparr>;
         let t = (f_stream st)\<lparr>b_base := b_base s, b_width := b_width s, b_fill := b_fill s, b_hexchar := b_hexchar s,
           b_prefix := b_prefix s, b_left := b_left s, b_sign := b_sign s\<rparr>;
         (_, t') \<leftarrow> b_str t;
         t' \<leftarrow> flush t';
         Some (size_sub (b_pos t) (b_pos s), f_stored st, t') }"
proof -
  define st0 where "st0 = \<lparr>f_state = NONE, f_length = L_INT, f_precision = SIZE_MAX, f_start = None, f_args = args, f_stored = [], f_stream = s\<rparr>"
  have st0: "ctl NONE None st0 = st0" by (simp add: st0_def ctl_def)
  note l = all_parts [OF assms, of flush "b_pos s" "concat (map part_text ps) @ 0 # r" 0 r st0, unfolded st0]
  have p: "on_stream (put_chars flush (pending fmt i (ctl NONE None st))) (ctl NONE None st) = Some (ctl NONE None st)" for fmt i st
    by (simp add: pending_def on_stream_def ctl_def)
  show ?thesis
    unfolding format_def Let_def st0_def [symmetric] l map_bind prod.case p Option.bind.simps ctl_simps ..
qed

definition small_stream :: bstream where
  "small_stream = \<lparr>b_base = 10, b_width = 0, b_fill = 32, b_hexchar = 97, b_prefix = False, b_left = True,
    b_sign = MINUS_ONLY, b_buf = [0, 0, 0, 0, 0, 0, 0, 0], b_len = 8, b_pos = 0, b_out = []\<rparr>"

text \<open>The string \<open>hi\<close> in a field of four characters, behind the letter \<open>a\<close>.\<close>

theorem format_parts_witness:
  "\<exists>s'. format flush_none [97, 37, 52, 115, 0] [AStr (Some [104, 105, 0])] small_stream = Some (5, [], s')
    \<and> written s' = [97, 32, 32, 104, 105]"
proof -
  define c where "c = \<lparr>c_flags = [], c_width = Digits [4], c_precision = Absent, c_length = [], c_char = 115\<rparr>"
  have "\<forall>p \<in> set [Literal 97, Conv c]. part_ok p" by (simp add: c_def conv_ok_def conv_chars_def)
  moreover have "write_fill f x 0 = Some" for f x by (rule ext) simp
  then have "write_fill f x (Suc 0) = put f x" for f x by (intro ext) simp
  then have two: "write_fill f x 2 s = put f x s \<bind> put f x" for f x s by (simp add: numeral_2_eq_2)
  ultimately show ?thesis
    using format_parts [of "[Literal 97, Conv c]" flush_none "[]" "[AStr (Some [104, 105, 0])]" small_stream]
    by (simp add: c_def conv_text_def digit_char_def run_conv_def flag_options_def plain_options_def set_stream_def
        case_specifier_def va_str_def on_stream_def f_done_def put_char_def char_store_def char_end_def wr_def flush_none_def
        small_stream_def put_str_def str_len_def SIZE_MAX_def writefill_str_def put_def b_str_def size_sub_def
        written_def length_option_def Let_def two)
qed

text \<open>\<open>ld\<close> takes an \<open>int\<close> from the arguments: with the \<open>long\<close> that it is written for, the behaviour is undefined.\<close>

lemma format_long_int: "format flush [37, 108, 100, 0] [ALong v] s = None"
proof -
  define c where "c = \<lparr>c_flags = [], c_width = Absent, c_precision = Absent, c_length = [108], c_char = 100\<rparr>"
  have "\<forall>p \<in> set [Conv c]. part_ok p" by (simp add: c_def conv_ok_def conv_chars_def length_chars_def)
  from format_parts [OF this, of flush "[]" "[ALong v]" s] show ?thesis
    by (simp add: c_def conv_text_def run_conv_def case_specifier_def signed_directive_def set_stream_def length_option_def va_int_def)
qed

end
