(* ===== verification/FormatText.thy ===== *)
theory FormatText
  imports FormatTheorems
begin

text \<open>
  What \<open>format\<close> prints, as a function from the parts of the format string and the arguments to the text,
  without the state machine and without a stream.
\<close>

section \<open>The text of a directive\<close>

text \<open>The options of a stream, without its contents.\<close>

definition options :: "bstream \<Rightarrow> bstream" where
  "options s = s\<lparr>b_buf := [], b_len := 0, b_pos := 0, b_out := []\<rparr>"

text \<open>A width or a precision: left out, the number of its digits, or the argument of a star.\<close>

fun field_int :: "field \<Rightarrow> arg list \<Rightarrow> (int option \<times> arg list) option" where
  "field_int Absent args = Some (None, args)"
| "field_int (Digits ds) args = Some (Some (int (number 10 0 ds)), args)"
| "field_int Star (AInt v # args) = (if v = 0x80000000 then None else Some (Some (sint v), args))"
| "field_int Star _ = None"

text \<open>A negative width is a flag for left alignment and a width; it comes too late to change the filling.\<close>

fun with_width :: "int option \<Rightarrow> bstream \<Rightarrow> bstream" where
  "with_width None s = s"
| "with_width (Some w) s = s\<lparr>b_width := of_int \<bar>w\<bar>, b_left := (w < 0 \<or> b_left s)\<rparr>"

fun with_precision :: "int option \<Rightarrow> bstream \<Rightarrow> bstream \<times> nat" where
  "with_precision None s = (s, SIZE_MAX)"
| "with_precision (Some p) s = (s\<lparr>b_fill := 32\<rparr>, nat \<bar>p\<bar> mod 2 ^ 64)"

fun int_arg :: "flength \<Rightarrow> arg list \<Rightarrow> (int \<times> arg list) option" where
  "int_arg L_SHORT (AInt v # args) = Some (sint (ucast v :: u16), args)"
| "int_arg L_INT (AInt v # args) = Some (sint v, args)"
| "int_arg L_LONG (AInt v # args) = Some (sint v, args)"
| "int_arg L_LONGLONG (ALong v # args) = Some (sint v, args)"
| "int_arg _ _ = None"

fun nat_arg :: "flength \<Rightarrow> arg list \<Rightarrow> (nat \<times> arg list) option" where
  "nat_arg L_SHORT (AInt v # args) = Some (unat (ucast v :: u16), args)"
| "nat_arg L_INT (AInt v # args) = Some (unat v, args)"
| "nat_arg L_LONG (ALong v # args) = Some (unat v, args)"
| "nat_arg L_LONGLONG (ALong v # args) = Some (unat v, args)"
| "nat_arg _ _ = None"

text \<open>What is left of the options: a number 0 with the precision 0 does not use up the width.\<close>

definition spent :: "nat \<Rightarrow> nat \<Rightarrow> bstream \<Rightarrow> bstream" where
  "spent n precision s = (if n = 0 \<and> precision = 0 then s else s\<lparr>b_width := 0\<rparr>)"

definition signed_text :: "flength \<Rightarrow> nat \<Rightarrow> arg list \<Rightarrow> bstream \<Rightarrow> (u8 list \<times> bstream \<times> arg list) option" where
  "signed_text l precision args s = do {
     (n, args) \<leftarrow> int_arg l args;
     if n = - (2 ^ 63) then None
     else Some (number_text s (nat \<bar>n\<bar>) (n < 0) precision, spent (nat \<bar>n\<bar>) precision s, args) }"

definition unsigned_text :: "flength \<Rightarrow> nat \<Rightarrow> arg list \<Rightarrow> bstream \<Rightarrow> (u8 list \<times> bstream \<times> arg list) option" where
  "unsigned_text l precision args s = do {
     (n, args) \<leftarrow> nat_arg l args;
     Some (number_text s n False precision, spent n precision s, args) }"

fun printed_char :: "arg list \<Rightarrow> bstream \<Rightarrow> (u8 list \<times> bstream \<times> arg list) option" where
  "printed_char (AInt v # args) s = Some (char_text s (ucast v), s\<lparr>b_width := 0\<rparr>, args)"
| "printed_char _ s = None"

text \<open>A null pointer is shown as \<open>(null)\<close>; any other string has to be terminated.\<close>

fun string_arg :: "arg list \<Rightarrow> (u8 list \<times> arg list) option" where
  "string_arg (AStr None # args) = Some ([40, 110, 117, 108, 108, 41], args)"
| "string_arg (AStr (Some b) # args) = (let t = takeWhile (\<lambda>c. c \<noteq> 0) b in
     if 0 \<in> set b \<and> length t < SIZE_MAX then Some (t, args) else None)"
| "string_arg _ = None"

definition printed_str :: "nat \<Rightarrow> arg list \<Rightarrow> bstream \<Rightarrow> (u8 list \<times> bstream \<times> arg list) option" where
  "printed_str precision args s = do {
     (t, args) \<leftarrow> string_arg args;
     Some (string_text s t (if precision = SIZE_MAX then length t else precision), s\<lparr>b_width := 0\<rparr>, args) }"

fun printed_ptr :: "arg list \<Rightarrow> bstream \<Rightarrow> (u8 list \<times> bstream \<times> arg list) option" where
  "printed_ptr (APtr p # args) s =
     (if p = 0 then Some (string_text (s\<lparr>b_fill := 32\<rparr>) [40, 110, 105, 108, 41] 5, s\<lparr>b_fill := 32, b_width := 0\<rparr>, args)
      else Some (number_text (s\<lparr>b_prefix := True, b_base := 16\<rparr>) (unat p) False SIZE_MAX,
        s\<lparr>b_prefix := True, b_base := 16, b_width := 0\<rparr>, args))"
| "printed_ptr _ s = None"

text \<open>The letters of the directives: c, s, p, d and i, b, o, x, X and u.\<close>

definition printed_value :: "u8 \<Rightarrow> flength \<Rightarrow> nat \<Rightarrow> arg list \<Rightarrow> bstream \<Rightarrow> (u8 list \<times> bstream \<times> arg list) option" where
  "printed_value c l precision args s =
     (if c = 99 then printed_char args s
      else if c = 115 then printed_str precision args s
      else if c = 112 then printed_ptr args s
      else if c = 100 \<or> c = 105 then signed_text l precision args s
      else if c = 98 then unsigned_text l precision args (s\<lparr>b_base := 2\<rparr>)
      else if c = 111 then unsigned_text l precision args (s\<lparr>b_base := 8\<rparr>)
      else if c = 120 then unsigned_text l precision args (s\<lparr>b_hexchar := 97, b_base := 16\<rparr>)
      else if c = 88 then unsigned_text l precision args (s\<lparr>b_hexchar := 65, b_base := 16\<rparr>)
      else if c = 117 then unsigned_text l precision args (s\<lparr>b_sign := MINUS_ONLY\<rparr>)
      else None)"

definition printed_conv :: "conv \<Rightarrow> arg list \<Rightarrow> bstream \<Rightarrow> (u8 list \<times> bstream \<times> arg list) option" where
  "printed_conv c args s = do {
     (w, args) \<leftarrow> field_int (c_width c) args;
     (p, args) \<leftarrow> field_int (c_precision c) args;
     let (s, precision) = with_precision p (with_width w (flag_options (c_flags c) (plain_options s)));
     printed_value (c_char c) (length_option (c_length c) L_INT) precision args s }"

fun printed_part :: "part \<Rightarrow> arg list \<Rightarrow> bstream \<Rightarrow> (u8 list \<times> bstream \<times> arg list) option" where
  "printed_part (Literal c) args s = Some (char_text s c, s\<lparr>b_width := 0\<rparr>, args)"
| "printed_part Percent args s = Some ([37], plain_options s, args)"
| "printed_part (Conv c) args s = printed_conv c args s"

fun printed_parts :: "part list \<Rightarrow> arg list \<Rightarrow> bstream \<Rightarrow> (u8 list \<times> bstream \<times> arg list) option" where
  "printed_parts [] args s = Some ([], s, args)"
| "printed_parts (p # ps) args s = do {
     (t, s, args) \<leftarrow> printed_part p args s;
     (u, s, args) \<leftarrow> printed_parts ps args s;
     Some (t @ u, s, args) }"

section \<open>The parts print their text\<close>

lemma options_simps [simp]:
  "b_base (options s) = b_base s" "b_width (options s) = b_width s" "b_fill (options s) = b_fill s"
  "b_hexchar (options s) = b_hexchar s" "b_prefix (options s) = b_prefix s" "b_left (options s) = b_left s"
  "b_sign (options s) = b_sign s"
  "options (s\<lparr>b_base := x1\<rparr>) = (options s)\<lparr>b_base := x1\<rparr>" "options (s\<lparr>b_width := x2\<rparr>) = (options s)\<lparr>b_width := x2\<rparr>"
  "options (s\<lparr>b_fill := x2\<rparr>) = (options s)\<lparr>b_fill := x2\<rparr>" "options (s\<lparr>b_hexchar := x2\<rparr>) = (options s)\<lparr>b_hexchar := x2\<rparr>"
  "options (s\<lparr>b_prefix := x3\<rparr>) = (options s)\<lparr>b_prefix := x3\<rparr>" "options (s\<lparr>b_left := x3\<rparr>) = (options s)\<lparr>b_left := x3\<rparr>"
  "options (s\<lparr>b_sign := x4\<rparr>) = (options s)\<lparr>b_sign := x4\<rparr>" "options (options s) = options s"
  by (simp_all add: options_def)

lemma options_moved: "moved s s' \<Longrightarrow> options s' = options s"
  by (auto simp: moved_def options_def)

lemma sign_text_options: "sign_text (options s) = sign_text s"
  by (intro ext) (simp add: sign_text_def)

lemma texts_options [simp]:
  "number_text (options s) = number_text s" "string_text (options s) = string_text s" "char_text (options s) = char_text s"
  by (intro ext, simp only: number_text_def string_text_def char_text_def sign_text_options options_simps)+

text \<open>The stream after a text, whatever its options are.\<close>

definition grows :: "u8 list \<Rightarrow> bstream \<Rightarrow> bstream \<Rightarrow> bool" where
  "grows t s s' \<longleftrightarrow> buffer_inv s' \<and> b_len s' = b_len s \<and> written s' = take (b_len s - 1) (written s @ t)"

lemma grows_nothing: "buffer_inv s \<Longrightarrow> grows [] s s"
  using buffer.keep_written [of s] by (simp add: grows_def)

lemma grows_append: "grows t s s1 \<Longrightarrow> grows u s1 s2 \<Longrightarrow> grows (t @ u) s s2"
  unfolding grows_def using take_take_append [of "b_len s - 1" "written s @ t" u] by simp

lemma prints_grows:
  assumes "buffer.prints t x s'" "same_data s x"
  shows "grows t s s' \<and> options s' = options x"
proof -
  have p: "buffer_inv s'" "moved x s'" "written s' = take (b_len x - 1) (written x @ t)"
    using assms(1) unfolding buffer.prints_def by simp_all
  moreover have "written x = written s" "b_len x = b_len s" using assms(2) by (simp_all add: same_data_def written_def)
  ultimately show ?thesis using options_moved [OF p(2)] movedD(8) [OF p(2)] by (simp add: grows_def)
qed

lemma buffer_stored: "buffer_inv s \<Longrightarrow> b_pos s + 1 < b_len s \<Longrightarrow> buffer_inv (stored c s)"
  by (simp add: buffer_inv_def wf_stream_def stored_def)

lemma char_grows:
  assumes "buffer_inv s"
  shows "\<exists>s'. put_char flush_none c s = Some s' \<and> grows (char_text s c) s s' \<and> options s' = (options s)\<lparr>b_width := 0\<rparr>"
  using buffer.put_char_ok [OF assms buffer_stored [OF assms]] prints_grows [of _ "s\<lparr>b_width := 0\<rparr>" _ s]
  by (fastforce simp: same_data_def)

lemma string_grows:
  assumes "buffer_inv s" "0 \<notin> set t"
  shows "\<exists>s'. writefill_str flush_none (t @ 0 # r) n s = Some s' \<and> grows (string_text s t n) s s'
      \<and> options s' = (options s)\<lparr>b_width := 0\<rparr>"
    and "length t < SIZE_MAX \<Longrightarrow> \<exists>s'. put_str flush_none (Some (t @ 0 # r)) s = Some s'
      \<and> grows (string_text s t (length t)) s s' \<and> options s' = (options s)\<lparr>b_width := 0\<rparr>"
  using buffer.writefill_str_ok [OF assms, of r n] buffer.put_str_ok [OF assms, of r] prints_grows [of _ "s\<lparr>b_width := 0\<rparr>" _ s]
  by (fastforce simp: same_data_def)+

lemma unsigned_grows:
  assumes "buffer_inv s" "b_base s \<in> {2, 8, 10, 16}"
  shows "\<exists>s'. writefill_uint flush_none v False p s = Some s' \<and> grows (number_text s (unat v) False p) s s'
    \<and> options s' = spent (unat v) p (options s)"
proof -
  have "unat v < 2 ^ 64" using unsigned_less [of v, where 'a = nat] by simp
  from buffer.writefill_uint_ok [OF assms _ this, of False p] obtain s' where
    s': "writefill_uint flush_none v False p s = Some s'"
    "buffer.prints (number_text s (unat v) False p) (if unat v = 0 \<and> p = 0 then s else s\<lparr>b_width := 0\<rparr>) s'"
    by auto
  from prints_grows [OF s'(2), of s] s'(1) show ?thesis by (auto simp: same_data_def spent_def)
qed

lemma signed_grows:
  assumes "buffer_inv s" "b_base s = 10" "sint v \<noteq> - (2 ^ 63)"
  shows "\<exists>s'. writefill_int flush_none v p s = Some s' \<and> grows (number_text s (nat \<bar>sint v\<bar>) (sint v < 0) p) s s'
    \<and> options s' = spent (nat \<bar>sint v\<bar>) p (options s)"
proof -
  have "v \<noteq> 0x8000000000000000" using assms(3) by auto
  then obtain s' where s': "writefill_int flush_none v p s = Some s'"
    "buffer.prints (int_text s v p) (if v = 0 \<and> p = 0 then s else s\<lparr>b_width := 0\<rparr>) s'"
    using buffer.writefill_int_ok [OF assms(1), of v p] assms(2) by auto
  have "nat \<bar>sint v\<bar> = 0 \<longleftrightarrow> v = 0" by (simp add: signed_eq_0_iff)
  with prints_grows [OF s'(2), of s] s'(1) assms(2) show ?thesis by (auto simp: same_data_def spent_def int_text_def)
qed

section \<open>The directives\<close>

text \<open>A directive has taken its argument, and its text is on the stream.\<close>

definition does :: "fstate \<Rightarrow> fstate option \<Rightarrow> u8 list \<times> bstream \<times> arg list \<Rightarrow> bool" where
  "does st r x \<longleftrightarrow> (\<exists>st'. r = Some st' \<and> f_stored st' = f_stored st \<and> f_args st' = snd (snd x)
     \<and> grows (fst x) (f_stream st) (f_stream st') \<and> options (f_stream st') = fst (snd x))"

text \<open>The stream changes its options first, and what is printed is printed with them.\<close>

lemma does_step:
  assumes "f x = Some s'" "grows t x s'" "same_data (f_stream st) x" "options s' = s1"
  shows "does st (map_option f_done (on_stream f (st\<lparr>f_args := args, f_stream := x\<rparr>))) (t, s1, args)"
  using assms by (simp add: does_def on_stream_def f_done_def grows_def same_data_def written_def)

lemma does_char:
  assumes "buffer_inv (f_stream st)" "printed_char (f_args st) (options (f_stream st)) = Some x"
  shows "does st (case_specifier flush_none start 99 st) x"
proof -
  obtain v args where a: "f_args st = AInt v # args"
    using assms(2) by (cases "(f_args st, options (f_stream st))" rule: printed_char.cases) auto
  then show ?thesis using char_grows [OF assms(1), of "ucast v"] assms(2)
    by (auto simp: case_specifier_def va_int_def does_def on_stream_def f_done_def)
qed

lemma terminated: "0 \<in> set b \<Longrightarrow> \<exists>r. b = takeWhile (\<lambda>c. c \<noteq> 0) b @ (0 :: u8) # r"
proof (induction b)
  case (Cons a b)
  then show ?case by (cases "a = 0") auto
qed simp

lemma string_argE:
  assumes "string_arg args = Some (t, args')"
  obtains v r where "args = AStr v # args'" "(case v of None \<Rightarrow> [40, 110, 117, 108, 108, 41, 0] | Some s \<Rightarrow> s) = t @ 0 # r"
    "0 \<notin> set t" "length t < SIZE_MAX"
proof (cases args rule: string_arg.cases)
  case (1 as)
  then show ?thesis using that [of None "[]"] assms by (auto simp: SIZE_MAX_def)
next
  case (2 b as)
  then have b: "0 \<in> set b" "t = takeWhile (\<lambda>c. c \<noteq> 0) b" "args' = as" "length t < SIZE_MAX"
    using assms by (auto simp: Let_def split: if_splits)
  then obtain r where "b = t @ 0 # r" using terminated by blast
  moreover have "0 \<notin> set t" unfolding b(2) by (auto dest: set_takeWhileD)
  ultimately show ?thesis using that [of "Some b" r] 2 b by simp
qed (use assms in auto)

lemma does_str:
  assumes "buffer_inv (f_stream st)" "printed_str (f_precision st) (f_args st) (options (f_stream st)) = Some x"
  shows "does st (case_specifier flush_none start 115 st) x"
proof -
  obtain t args where s: "string_arg (f_args st) = Some (t, args)"
    "x = (string_text (f_stream st) t (if f_precision st = SIZE_MAX then length t else f_precision st),
      (options (f_stream st))\<lparr>b_width := 0\<rparr>, args)"
    using assms(2) by (auto simp: printed_str_def split: Option.bind_splits)
  obtain v r where v: "f_args st = AStr v # args" "(case v of None \<Rightarrow> [40, 110, 117, 108, 108, 41, 0] | Some s \<Rightarrow> s) = t @ 0 # r"
    "0 \<notin> set t" "length t < SIZE_MAX"
    by (rule string_argE [OF s(1)])
  note g = string_grows(1) [OF assms(1) v(3), of r "f_precision st"] string_grows(2) [OF assms(1) v(3,4), of r]
  show ?thesis
    using g v(1) s(2) by (auto simp: case_specifier_def va_str_def v(2) Let_def does_def on_stream_def f_done_def)
qed

lemma same_options: "same_data s (s\<lparr>b_base := x1\<rparr>)" "same_data s (s\<lparr>b_fill := x2\<rparr>)" "same_data s (s\<lparr>b_prefix := x3, b_base := x1\<rparr>)"
  "same_data s (s\<lparr>b_hexchar := x2, b_base := x1\<rparr>)" "same_data s (s\<lparr>b_sign := x4\<rparr>)" "same_data s s"
  by (simp_all add: same_data_def)

lemma bind_done: "Option.bind x (\<lambda>st. Some (f st)) = map_option f x"
  by (cases x) simp_all

lemma five: "length [40, 110, 105, 108, 41 :: u8] = 5"
  by simp

lemma sint_wide: "sint (scast (v :: u16) :: u64) = sint v" "sint (scast (w :: u32) :: u64) = sint w"
  by (simp_all add: sint_up_scast is_up)

lemma unat_wide: "unat (ucast (v :: u16) :: u64) = unat v" "unat (ucast (w :: u32) :: u64) = unat w"
  using unsigned_less [of v, where 'a = nat] unsigned_less [of w, where 'a = nat]
  by (simp_all add: unsigned_ucast_eq take_bit_nat_eq_self_iff)

lemma args_stream: "st\<lparr>f_stream := y, f_args := args\<rparr> = st\<lparr>f_args := args, f_stream := y\<rparr>"
  by simp

lemma does_ptr:
  assumes "buffer_inv (f_stream st)" "printed_ptr (f_args st) (options (f_stream st)) = Some x"
  shows "does st (case_specifier flush_none start 112 st) x"
proof -
  let ?s = "f_stream st"
  obtain p args where a: "f_args st = APtr p # args"
    using assms(2) by (cases "(f_args st, options (f_stream st))" rule: printed_ptr.cases) auto
  show ?thesis
  proof (cases "p = 0")
    case True
    let ?x = "?s\<lparr>b_fill := 32\<rparr>"
    have i: "buffer_inv ?x" by (rule buffer.options [OF assms(1) same_options(2)])
    have "x = (string_text ?x [40, 110, 105, 108, 41] 5, (options ?x)\<lparr>b_width := 0\<rparr>, args)"
      using assms(2) a True texts_options(2) [of ?x] by auto
    moreover obtain s' where "put_str flush_none (Some [40, 110, 105, 108, 41, 0]) ?x = Some s'"
      "grows (string_text ?x [40, 110, 105, 108, 41] 5) ?x s'" "options s' = (options ?x)\<lparr>b_width := 0\<rparr>"
      using string_grows(2) [OF i, of "[40, 110, 105, 108, 41]" "[]", unfolded five] by (auto simp: SIZE_MAX_def)
    ultimately have "does st (map_option f_done (on_stream (put_str flush_none (Some [40, 110, 105, 108, 41, 0]))
        (st\<lparr>f_args := args, f_stream := ?x\<rparr>))) x"
      using does_step [OF _ _ same_options(2)] by blast
    then show ?thesis using a True by (simp add: case_specifier_def va_ptr_def set_stream_def bind_done)
  next
    case False
    let ?x = "?s\<lparr>b_prefix := True, b_base := 16\<rparr>"
    have i: "buffer_inv ?x" by (rule buffer.options [OF assms(1) same_options(3)])
    have "x = (number_text ?x (unat p) False SIZE_MAX, spent (unat p) SIZE_MAX (options ?x), args)"
      using assms(2) a False texts_options(1) [of ?x] by (auto simp: spent_def SIZE_MAX_def)
    moreover obtain s' where "writefill_uint flush_none p False SIZE_MAX ?x = Some s'"
      "grows (number_text ?x (unat p) False SIZE_MAX) ?x s'" "options s' = spent (unat p) SIZE_MAX (options ?x)"
      using unsigned_grows [OF i, of p SIZE_MAX] by auto
    ultimately have "does st (map_option f_done (on_stream (writefill_uint flush_none p False SIZE_MAX)
        (st\<lparr>f_args := args, f_stream := ?x\<rparr>))) x"
      using does_step [OF _ _ same_options(3)] by blast
    then show ?thesis using a False by (simp add: case_specifier_def va_ptr_def set_stream_def bind_done)
  qed
qed

lemma does_signed:
  assumes "buffer_inv (f_stream st)" "b_base (f_stream st) = 10"
    "signed_text (f_length st) (f_precision st) (f_args st) (options (f_stream st)) = Some x"
  shows "does st (signed_directive flush_none st) x"
proof -
  let ?s = "f_stream st" and ?p = "f_precision st"
  obtain n args where n: "int_arg (f_length st) (f_args st) = Some (n, args)" "n \<noteq> - (2 ^ 63)"
    "x = (number_text ?s (nat \<bar>n\<bar>) (n < 0) ?p, spent (nat \<bar>n\<bar>) ?p (options ?s), args)"
    using assms(3) by (auto simp: signed_text_def split: Option.bind_splits if_splits)
  obtain v where v: "sint (v :: u64) = n" "signed_directive flush_none st =
      map_option f_done (on_stream (writefill_int flush_none v ?p) (st\<lparr>f_args := args, f_stream := ?s\<rparr>))"
  proof (cases "(f_length st, f_args st)" rule: int_arg.cases)
    case (1 w as)
    then show ?thesis using n(1) by (intro that [of "scast (ucast w :: u16)"])
      (auto simp: signed_directive_def va_int_def on_stream_def sint_wide option.map_comp comp_def split: Option.bind_splits)
  next
    case (2 w as)
    then show ?thesis using n(1) by (intro that [of "scast w"])
      (auto simp: signed_directive_def va_int_def on_stream_def sint_wide split: Option.bind_splits)
  next
    case (3 w as)
    then show ?thesis using n(1) by (intro that [of "scast w"])
      (auto simp: signed_directive_def va_int_def on_stream_def sint_wide split: Option.bind_splits)
  next
    case (4 w as)
    then show ?thesis using n(1) by (intro that [of w])
      (auto simp: signed_directive_def va_long_def on_stream_def split: Option.bind_splits)
  qed (use n(1) in auto)
  obtain s' where s': "writefill_int flush_none v ?p ?s = Some s'" "grows (number_text ?s (nat \<bar>n\<bar>) (n < 0) ?p) ?s s'"
    "options s' = spent (nat \<bar>n\<bar>) ?p (options ?s)"
    using signed_grows [OF assms(1,2), of v ?p] n(2) v(1) by auto
  show ?thesis unfolding v(2) n(3) by (rule does_step [where f = "writefill_int flush_none v ?p" and x = ?s and st = st, OF s'(1,2) same_options(6) s'(3)])
qed

lemma does_unsigned:
  assumes "buffer_inv (f_stream st)" "same_data (f_stream st) y" "b_base y \<in> {2, 8, 10, 16}"
    "unsigned_text (f_length st) (f_precision st) (f_args st) (options y) = Some x"
  shows "does st (unsigned_directive flush_none (set_stream (\<lambda>_. y) st)) x"
proof -
  let ?p = "f_precision st"
  have i: "buffer_inv y" by (rule buffer.options [OF assms(1,2)])
  obtain n args where n: "nat_arg (f_length st) (f_args st) = Some (n, args)"
    "x = (number_text y n False ?p, spent n ?p (options y), args)"
    using assms(4) by (auto simp: unsigned_text_def split: Option.bind_splits if_splits)
  obtain v where v: "unat (v :: u64) = n" "unsigned_directive flush_none (set_stream (\<lambda>_. y) st) =
      map_option f_done (on_stream (writefill_uint flush_none v False ?p) (st\<lparr>f_args := args, f_stream := y\<rparr>))"
  proof (cases "(f_length st, f_args st)" rule: nat_arg.cases)
    case (1 w as)
    then show ?thesis using n(1) by (intro that [of "ucast (ucast w :: u16)"])
      (auto simp: unsigned_directive_def va_int_def set_stream_def bind_done unat_wide args_stream)
  next
    case (2 w as)
    then show ?thesis using n(1) by (intro that [of "ucast w"])
      (auto simp: unsigned_directive_def va_int_def set_stream_def bind_done unat_wide args_stream)
  next
    case (3 w as)
    then show ?thesis using n(1) by (intro that [of w])
      (auto simp: unsigned_directive_def va_long_def set_stream_def bind_done args_stream)
  next
    case (4 w as)
    then show ?thesis using n(1) by (intro that [of w])
      (auto simp: unsigned_directive_def va_long_def set_stream_def bind_done args_stream)
  qed (use n(1) in auto)
  obtain s' where s': "writefill_uint flush_none v False ?p y = Some s'" "grows (number_text y n False ?p) y s'"
    "options s' = spent n ?p (options y)"
    using unsigned_grows [OF i assms(3), of v ?p] v(1) by auto
  show ?thesis unfolding v(2) n(2)
    by (rule does_step [where f = "writefill_uint flush_none v False ?p" and x = y and st = st, OF s'(1,2) assms(2) s'(3)])
qed

lemma set_stream_const: "set_stream f st = set_stream (\<lambda>_. f (f_stream st)) st"
  by (simp add: set_stream_def)

lemma does_value:
  assumes "buffer_inv (f_stream st)" "b_base (f_stream st) = 10"
    "printed_value c (f_length st) (f_precision st) (f_args st) (options (f_stream st)) = Some x"
  shows "does st (case_specifier flush_none start c st) x"
proof -
  let ?s = "f_stream st" and ?l = "f_length st" and ?p = "f_precision st" and ?as = "f_args st"
  have u: "does st (unsigned_directive flush_none (set_stream f st)) x"
    if "same_data ?s (f ?s)" "b_base (f ?s) \<in> {2, 8, 10, 16}" "unsigned_text ?l ?p ?as (options (f ?s)) = Some x" for f
    by (subst set_stream_const) (rule does_unsigned [OF assms(1) that])
  consider "c = 99" | "c = 115" | "c = 112" | "c = 100 \<or> c = 105" | "c = 98" | "c = 111" | "c = 120" | "c = 88" | "c = 117"
    using assms(3) by (auto simp: printed_value_def split: if_splits)
  then show ?thesis
  proof cases
    case 1
    then show ?thesis using does_char [OF assms(1)] assms(3) by (simp add: printed_value_def)
  next
    case 2
    then show ?thesis using does_str [OF assms(1)] assms(3) by (simp add: printed_value_def)
  next
    case 3
    then show ?thesis using does_ptr [OF assms(1)] assms(3) by (simp add: printed_value_def)
  next
    case 4
    then show ?thesis using does_signed [OF assms(1,2), of x] assms(3)
      by (cases "c = 100") (simp_all add: printed_value_def case_specifier_def)
  qed (use u [of "\<lambda>s. s\<lparr>b_base := 2\<rparr>"] u [of "\<lambda>s. s\<lparr>b_base := 8\<rparr>"] u [of "\<lambda>s. s\<lparr>b_hexchar := 97, b_base := 16\<rparr>"]
      u [of "\<lambda>s. s\<lparr>b_hexchar := 65, b_base := 16\<rparr>"] u [of "\<lambda>s. s\<lparr>b_sign := MINUS_ONLY\<rparr>"] assms(2,3) same_options in
      \<open>simp_all add: printed_value_def case_specifier_def\<close>)
qed

section \<open>Width and precision\<close>

lemma of_int_ucast: "(of_int k :: u8) = ucast (of_int k :: u32)"
  by (rule bit_word_eqI) (simp add: bit_ucast_iff bit_of_int_iff)

lemma star_int:
  assumes "field_int Star (f_args st) = Some (w, args)"
  obtains v u where "w = Some (sint (v :: u32))" "star st = Some (sint v < 0, u, st\<lparr>f_args := args\<rparr>)"
    "unat u = nat \<bar>sint v\<bar>" "(ucast u :: u8) = of_int \<bar>sint v\<bar>"
proof -
  obtain v where v: "f_args st = AInt v # args" "v \<noteq> 0x80000000" "w = Some (sint v)"
    using assms by (cases "(Star, f_args st)" rule: field_int.cases) (auto split: if_splits)
  define u where "u = (if sint v < 0 then - v else v)"
  have r: "- (2 ^ 31) \<le> sint v" "sint v < 2 ^ 31" using sint_ge [of v] sint_lt [of v] by simp_all
  have u: "u = of_int \<bar>sint v\<bar>" by (simp add: u_def)
  then have "unat u = nat \<bar>sint v\<bar>" using r by (simp add: unsigned_of_int take_bit_int_eq_self)
  moreover have "star st = Some (sint v < 0, u, st\<lparr>f_args := args\<rparr>)"
    using v by (simp add: star_def va_int_def u_def)
  ultimately show thesis using that v(3) u of_int_ucast by metis
qed

lemma width_spec:
  assumes "field_int f (f_args st) = Some (w, args)"
  shows "width_options f st = Some (st\<lparr>f_args := args, f_stream := with_width w (f_stream st)\<rparr>)"
proof (cases f)
  case Star
  note a = assms [unfolded Star]
  obtain v u where "w = Some (sint (v :: u32))" "star st = Some (sint v < 0, u, st\<lparr>f_args := args\<rparr>)"
    "(ucast u :: u8) = of_int \<bar>sint v\<bar>"
    using star_int [OF a] by metis
  then show ?thesis using Star by (simp add: set_stream_def)
qed (use assms in \<open>auto simp: set_stream_def\<close>)

lemma precision_spec:
  assumes "field_int f (f_args st) = Some (p, args)" "f_precision st = SIZE_MAX"
  shows "precision_options f st = Some (st\<lparr>f_args := args, f_precision := snd (with_precision p (f_stream st)),
    f_stream := fst (with_precision p (f_stream st))\<rparr>)"
proof (cases f)
  case Star
  note a = assms(1) [unfolded Star]
  let ?st = "set_stream (\<lambda>s. s\<lparr>b_fill := 32\<rparr>) (st\<lparr>f_precision := 0\<rparr>)"
  have "field_int Star (f_args ?st) = Some (p, args)" using a by (simp add: set_stream_def)
  then obtain v u where v: "p = Some (sint (v :: u32))" "star ?st = Some (sint v < 0, u, ?st\<lparr>f_args := args\<rparr>)"
    "unat u = nat \<bar>sint v\<bar>"
    using star_int [of ?st p args] by metis
  have "unat u mod 2 ^ 64 = unat u" using unsigned_less [of u, where 'a = nat] by simp
  then show ?thesis using Star v by (simp add: set_stream_def)
qed (use assms in \<open>auto simp: set_stream_def SIZE_MAX_def\<close>)

lemma options_width: "options (with_width w s) = with_width w (options s)"
  by (cases w) simp_all

lemma options_precision: "(options (fst (with_precision p s)), snd (with_precision p s)) = with_precision p (options s)"
  by (cases p) simp_all

lemma options_flags: "options (flag_options fs (plain_options s)) = flag_options fs (plain_options (options s))"
  by (simp add: flag_options_def plain_options_def)

lemma same_trans: "same_data s s1 \<Longrightarrow> same_data s1 s2 \<Longrightarrow> same_data s s2"
  by (simp add: same_data_def)

lemma same_fields:
  "same_data s (flag_options fs (plain_options s))" "same_data s (with_width w s)" "same_data s (fst (with_precision p s))"
  by (cases w; cases p; simp add: same_data_def flag_options_def plain_options_def)+

lemma base_fields: "b_base (fst (with_precision p (with_width w (flag_options fs (plain_options s))))) = 10"
  by (cases w; cases p; simp add: flag_options_def plain_options_def)

lemma grows_same: "grows t x s' \<Longrightarrow> same_data s x \<Longrightarrow> grows t s s'"
  by (simp add: grows_def same_data_def written_def)

section \<open>Whole format strings\<close>

lemma reorder_fields:
  "st\<lparr>f_args := as, f_stream := s, f_precision := q, f_length := l\<rparr> = st\<lparr>f_precision := q, f_length := l, f_args := as, f_stream := s\<rparr>"
  by simp

lemma does_conv:
  assumes "buffer_inv (f_stream st)" "printed_conv c (f_args st) (options (f_stream st)) = Some x"
  shows "does st (run_conv flush_none start c st) x"
proof -
  let ?s = "f_stream st"
  obtain w p as1 as2 where f: "field_int (c_width c) (f_args st) = Some (w, as1)" "field_int (c_precision c) as1 = Some (p, as2)"
    "(let (s, precision) = with_precision p (with_width w (flag_options (c_flags c) (plain_options (options ?s)))) in
       printed_value (c_char c) (length_option (c_length c) L_INT) precision as2 s) = Some x"
    using assms(2) by (auto simp: printed_conv_def split: Option.bind_splits)
  define s1 where "s1 = with_width w (flag_options (c_flags c) (plain_options ?s))"
  define s2 where "s2 = fst (with_precision p s1)"
  define q where "q = snd (with_precision p s1)"
  define l where "l = length_option (c_length c) L_INT"
  define st2 where "st2 = st\<lparr>f_precision := q, f_length := l, f_args := as2, f_stream := s2\<rparr>"
  have same: "same_data ?s s2" unfolding s1_def s2_def by (intro same_trans [OF _ same_fields(3)] same_trans [OF _ same_fields(2)] same_fields(1))
  have "with_precision p (with_width w (flag_options (c_flags c) (plain_options (options ?s)))) = (options s2, q)"
    unfolding s1_def s2_def q_def options_flags [symmetric] options_width [symmetric] options_precision ..
  then have v: "printed_value (c_char c) (f_length st2) (f_precision st2) (f_args st2) (options (f_stream st2)) = Some x"
    using f(3) by (simp add: st2_def l_def)
  have i: "buffer_inv (f_stream st2)" using buffer.options [OF assms(1) same] by (simp add: st2_def)
  have b: "b_base (f_stream st2) = 10" by (simp add: st2_def s1_def s2_def base_fields)
  have "run_conv flush_none start c st = map_option f_done (case_specifier flush_none start (c_char c) st2)"
  proof -
    define st0 where "st0 = set_stream (\<lambda>s. flag_options (c_flags c) (plain_options s)) (st\<lparr>f_precision := SIZE_MAX, f_length := L_INT\<rparr>)"
    have "width_options (c_width c) st0 = Some (st0\<lparr>f_args := as1, f_stream := s1\<rparr>)"
      using width_spec [of "c_width c" st0] f(1) by (simp add: st0_def set_stream_def s1_def)
    moreover have "precision_options (c_precision c) (st0\<lparr>f_args := as1, f_stream := s1\<rparr>)
        = Some (st0\<lparr>f_args := as2, f_stream := s2, f_precision := q\<rparr>)"
      using precision_spec [of "c_precision c" "st0\<lparr>f_args := as1, f_stream := s1\<rparr>"] f(2)
      by (simp add: st0_def set_stream_def s2_def q_def)
    ultimately show ?thesis by (simp add: run_conv_def st0_def [symmetric]) (simp add: st0_def set_stream_def st2_def l_def reorder_fields)
  qed
  moreover obtain st' where "case_specifier flush_none start (c_char c) st2 = Some st'" "f_stored st' = f_stored st"
    "f_args st' = snd (snd x)" "grows (fst x) s2 (f_stream st')" "options (f_stream st') = fst (snd x)"
    using does_value [OF i b v, of start] by (auto simp: does_def st2_def)
  ultimately show ?thesis using grows_same [OF _ same] by (simp add: does_def f_done_def)
qed

lemma does_part:
  assumes "buffer_inv (f_stream st)" "printed_part p (f_args st) (options (f_stream st)) = Some x"
  shows "does st (run_part flush_none start p st) x"
proof (cases p)
  case (Literal c)
  then show ?thesis using char_grows [OF assms(1), of c] assms(2) by (auto simp: does_def on_stream_def)
next
  case Percent
  let ?s = "plain_options (f_stream st)"
  have same: "same_data (f_stream st) ?s" by (simp add: same_data_def plain_options_def)
  have "char_text ?s 37 = [37]" "(options ?s)\<lparr>b_width := 0\<rparr> = plain_options (options (f_stream st))"
    by (simp_all add: char_text_def plain_options_def)
  moreover obtain s' where "put_char flush_none 37 ?s = Some s'" "grows (char_text ?s 37) ?s s'" "options s' = (options ?s)\<lparr>b_width := 0\<rparr>"
    using char_grows [OF buffer.options [OF assms(1) same]] by blast
  ultimately show ?thesis
    using Percent assms(2) grows_same [OF _ same] by (auto simp: does_def on_stream_def set_stream_def)
next
  case (Conv c)
  then show ?thesis using does_conv [OF assms(1)] assms(2) by simp
qed

lemma does_parts:
  "buffer_inv (f_stream st) \<Longrightarrow> printed_parts ps (f_args st) (options (f_stream st)) = Some x \<Longrightarrow>
    does st (run_parts flush_none start ps st) x"
proof (induction ps arbitrary: st x)
  case Nil
  then show ?case by (auto simp: does_def grows_nothing)
next
  case (Cons p ps)
  obtain t o1 as1 u o2 as2 where x: "printed_part p (f_args st) (options (f_stream st)) = Some (t, o1, as1)"
    "printed_parts ps as1 o1 = Some (u, o2, as2)" "x = (t @ u, o2, as2)"
    using Cons.prems(2) by (auto split: Option.bind_splits)
  obtain st1 where s1: "run_part flush_none start p st = Some st1" "f_stored st1 = f_stored st" "f_args st1 = as1"
    "grows t (f_stream st) (f_stream st1)" "options (f_stream st1) = o1"
    using does_part [OF Cons.prems(1) x(1), of start] by (auto simp: does_def)
  have "buffer_inv (f_stream st1)" using s1(4) by (simp add: grows_def)
  from Cons.IH [OF this, of "(u, o2, as2)"] s1 x(2) have "does st1 (run_parts flush_none start ps st1) (u, o2, as2)" by simp
  then show ?case using s1 x(3) grows_append [OF s1(4)] by (auto simp: does_def)
qed

text \<open>
  C12.  A format string is printed as the text that its parts and the arguments say: characters stand for
  themselves; a directive takes a star from the arguments, then its value, as a character, string, pointer
  or number in the base of its letter and the size of its length letters (but \<open>ld\<close> and \<open>li\<close> take an \<open>int\<close>), and
  shows it with the sign, prefix, digits and padding that its flags, width and precision ask for.  A \<open>BufferStream\<close> takes of that text what
  fits, returns the number of bytes it took and has the options from before.  (The text does not cover
  the directive \<open>n\<close>; \<open>printed_parts\<close> is \<open>None\<close> where an argument has another type than its directive.)
\<close>

theorem format_text:
  assumes "\<forall>p \<in> set ps. part_ok p" and "buffer_inv s" and "printed_parts ps args (options s) = Some (t, o', rest)"
  shows "\<exists>s'. format flush_none (concat (map part_text ps) @ 0 # r) args s = Some (length (written s') - length (written s), [], s')
    \<and> buffer_inv s' \<and> options s' = options s \<and> written s' = take (b_len s - 1) (written s @ t)"
proof -
  define st where "st = \<lparr>f_state = NONE, f_length = L_INT, f_precision = SIZE_MAX, f_start = None, f_args = args, f_stored = [], f_stream = s\<rparr>"
  obtain st' where st': "run_parts flush_none (b_pos s) ps st = Some st'" "f_stored st' = []" "grows t s (f_stream st')"
    using does_parts [of st ps _ "b_pos s"] assms(2,3) by (auto simp: st_def does_def)
  define u where "u = (f_stream st')\<lparr>b_base := b_base s, b_width := b_width s, b_fill := b_fill s, b_hexchar := b_hexchar s,
    b_prefix := b_prefix s, b_left := b_left s, b_sign := b_sign s\<rparr>"
  have u: "buffer_inv u" "options u = options s" "written u = take (b_len s - 1) (written s @ t)" "b_len u = b_len s"
    using st'(3) by (auto simp: u_def grows_def buffer_inv_def wf_stream_def options_def written_def)
  define v where "v = u\<lparr>b_buf := (b_buf u)[b_pos u := 0]\<rparr>"
  have v: "buffer_inv v" "options v = options s" "written v = written u"
    using u(1,2) by (auto simp: v_def buffer_inv_def wf_stream_def options_def written_def)
  have "b_str u = Some (Some (b_buf v), v)"
    using u(1) by (simp add: b_str_def wr_def v_def buffer_inv_def wf_stream_def)
  moreover have "b_pos u = b_pos (f_stream st')" by (simp add: u_def)
  ultimately have "format flush_none (concat (map part_text ps) @ 0 # r) args s = Some (size_sub (b_pos u) (b_pos s), [], v)"
    using format_parts [OF assms(1), of flush_none r args s] st'(1,2)
    by (simp add: st_def [symmetric] u_def [symmetric] flush_none_def)
  moreover have "b_pos u = length (written u)" "b_pos s = length (written s)"
    using buffer_keep(1) u(1) assms(2) by simp_all
  moreover have "length (written s) \<le> length (written u)"
    using buffer_keep [OF assms(2)] unfolding u(3) by simp
  ultimately show ?thesis using v u(3) by (intro exI [of _ v]) (simp add: size_sub_def)
qed

definition short_stream :: bstream where
  "short_stream = \<lparr>b_base = 10, b_width = 0, b_fill = 32, b_hexchar = 97, b_prefix = False, b_left = True,
    b_sign = MINUS_ONLY, b_buf = replicate 16 0, b_len = 16, b_pos = 0, b_out = []\<rparr>"

text \<open>The format \<open>a%#06x%-*d\<close> with the arguments 255, 5 and -42, and \<open>a0x00ff-42\<close> with two spaces behind it.\<close>

theorem format_text_witness:
  "\<exists>s'. format flush_none [97, 37, 35, 48, 54, 120, 37, 45, 42, 100, 0] [AInt 255, AInt 5, AInt (- 42)] short_stream = Some (12, [], s')
    \<and> written s' = [97, 48, 120, 48, 48, 102, 102, 45, 52, 50, 32, 32]"
proof -
  define c where "c = \<lparr>c_flags = [35, 48], c_width = Digits [6], c_precision = Absent, c_length = [], c_char = 120\<rparr>"
  define d where "d = \<lparr>c_flags = [45], c_width = Star, c_precision = Absent, c_length = [], c_char = 100\<rparr>"
  have ok: "\<forall>p \<in> set [Literal 97, Conv c, Conv d]. part_ok p"
    by (simp add: c_def d_def conv_ok_def conv_chars_def flag_chars_def)
  have inv: "buffer_inv short_stream" by (simp add: short_stream_def buffer_inv_def wf_stream_def)
  have radix: "radix 16 255 = [15, 15]" "radix 10 42 = [4, 2]" by (simp_all add: radix_large radix_small)
  let ?t = "[97, 48, 120, 48, 48, 102, 102, 45, 52, 50, 32, 32] :: u8 list"
  have two: "replicate 2 x = [x, x]" for x :: u8 by (simp add: numeral_2_eq_2)
  let ?o = "options short_stream"
  have o: "char_text ?o 97 = [97]" by (simp add: char_text_def short_stream_def)
  define o1 where "o1 = (with_width (Some 6) (flag_options [35, 48] (plain_options (?o\<lparr>b_width := 0\<rparr>))))\<lparr>b_hexchar := 97, b_base := 16\<rparr>"
  define o2 where "o2 = with_width (Some 5) (flag_options [45] (plain_options (o1\<lparr>b_width := 0\<rparr>)))"
  have n1: "number_text o1 255 False SIZE_MAX = [48, 120, 48, 48, 102, 102]"
    by (simp add: o1_def plain_options_def flag_options_def number_text_def sign_text_def zeros_def radix digit_chr_def two)
  have n2: "number_text o2 42 True SIZE_MAX = [45, 52, 50, 32, 32]"
    by (simp add: o2_def plain_options_def flag_options_def number_text_def sign_text_def zeros_def radix digit_chr_def two)
  have p1: "printed_conv c [AInt 255, AInt 5, AInt (- 42)] (?o\<lparr>b_width := 0\<rparr>)
      = Some ([48, 120, 48, 48, 102, 102], o1\<lparr>b_width := 0\<rparr>, [AInt 5, AInt (- 42)])"
    unfolding n1 [symmetric] o1_def
    by (simp add: c_def printed_conv_def printed_value_def unsigned_text_def length_option_def spent_def)
  have p2: "printed_conv d [AInt 5, AInt (- 42)] (o1\<lparr>b_width := 0\<rparr>) = Some ([45, 52, 50, 32, 32], o2\<lparr>b_width := 0\<rparr>, [])"
    unfolding n2 [symmetric] o2_def
    by (simp add: d_def printed_conv_def printed_value_def signed_text_def length_option_def spent_def)
  have p: "printed_parts [Literal 97, Conv c, Conv d] [AInt 255, AInt 5, AInt (- 42)] ?o = Some (?t, o2\<lparr>b_width := 0\<rparr>, [])"
    using o p1 p2 by simp
  have "concat (map part_text [Literal 97, Conv c, Conv d]) @ 0 # [] = [97, 37, 35, 48, 54, 120, 37, 45, 42, 100, 0]"
    by (simp add: c_def d_def conv_text_def digit_char_def)
  then obtain s' where "format flush_none [97, 37, 35, 48, 54, 120, 37, 45, 42, 100, 0] [AInt 255, AInt 5, AInt (- 42)] short_stream
      = Some (length (written s') - length (written short_stream), [], s')"
    "written s' = take (b_len short_stream - 1) (written short_stream @ ?t)"
    using format_text [OF ok inv p, of "[]"] by auto
  moreover have "written short_stream = []" "b_len short_stream = 16" by (simp_all add: short_stream_def written_def)
  ultimately show ?thesis by simp
qed

end
