(* ===== verification/Buddy.thy ===== *)
theory Buddy
  imports Prelude
begin

text \<open>
  src/alloc_buddy.hpp: the buddy allocator, and \<open>reserve_mmap\<close> of src/mem.cpp, its callback for memory.

  The reserved memory is a function from addresses to words of 8 bytes: the links of the free lists,
  the bucket heads and the headers of the blocks are such words.  A word is accessed at a multiple of
  8 within the reserved memory; any other access is \<open>None\<close>.  Addresses and indices are natural
  numbers, requested sizes are \<open>size_t\<close> and wrap around.  The kernel behind the callback has a state
  of its own, so that the same call can fail once and succeed later.
\<close>

section \<open>The allocator and its memory\<close>

text \<open>The template parameters.\<close>

record buddy_config =
  min_log2 :: nat
  max_log2 :: nat

record 'k buddy =
  cells :: "nat \<Rightarrow> nat"
  buckets :: nat
  bucket_limit :: nat
  node_is_split :: "u8 list"
  base_ptr :: nat
  max_ptr :: nat
  kernel :: 'k

type_synonym 'k reserve = "'k \<Rightarrow> nat \<Rightarrow> nat \<Rightarrow> (nat \<times> nat \<times> 'k) option"

definition HEADER_SIZE :: nat where
  "HEADER_SIZE = 8"

definition LIST_SIZE :: nat where
  "LIST_SIZE = 16"

definition MAX_ALLOC :: "buddy_config \<Rightarrow> nat" where
  "MAX_ALLOC c = 2 ^ max_log2 c"

definition BUCKET_COUNT :: "buddy_config \<Rightarrow> nat" where
  "BUCKET_COUNT c = max_log2 c - min_log2 c + 1"

text \<open>A static object is all zero.\<close>

definition buddy_init :: "buddy_config \<Rightarrow> 'k \<Rightarrow> 'k buddy" where
  "buddy_init c k = \<lparr>cells = (\<lambda>_. 0), buckets = 0, bucket_limit = 0,
     node_is_split = replicate (2 ^ (BUCKET_COUNT c - 1) div 8) 0, base_ptr = 0, max_ptr = 0, kernel = k\<rparr>"

definition mem_ok :: "nat \<Rightarrow> 'k buddy \<Rightarrow> bool" where
  "mem_ok a h \<longleftrightarrow> 8 dvd a \<and> buckets h \<le> a \<and> a + 8 \<le> max_ptr h"

definition ld :: "nat \<Rightarrow> 'k buddy \<Rightarrow> nat option" where
  "ld a h = (if mem_ok a h then Some (cells h a) else None)"

definition st :: "nat \<Rightarrow> nat \<Rightarrow> 'k buddy \<Rightarrow> 'k buddy option" where
  "st a v h = (if mem_ok a h then Some (h\<lparr>cells := (cells h)(a := v)\<rparr>) else None)"

section \<open>Free lists\<close>

text \<open>\<open>List\<close>: the link to the previous item at its address, the one to the next item behind it.\<close>

definition blist_clear :: "nat \<Rightarrow> 'k buddy \<Rightarrow> 'k buddy option" where
  "blist_clear l h = do { h \<leftarrow> st (l + 8) l h; st l l h }"

definition blist_push :: "nat \<Rightarrow> nat \<Rightarrow> 'k buddy \<Rightarrow> 'k buddy option" where
  "blist_push l entry h = do {
     prev \<leftarrow> ld l h;
     h \<leftarrow> st entry prev h;
     h \<leftarrow> st (entry + 8) l h;
     prev \<leftarrow> ld l h;
     h \<leftarrow> st (prev + 8) entry h;
     st l entry h
   }"

definition blist_remove :: "nat \<Rightarrow> 'k buddy \<Rightarrow> 'k buddy option" where
  "blist_remove l h = do {
     prev \<leftarrow> ld l h;
     next \<leftarrow> ld (l + 8) h;
     h \<leftarrow> st (prev + 8) next h;
     next \<leftarrow> ld (l + 8) h;
     prev \<leftarrow> ld l h;
     st next prev h
   }"

definition blist_pop :: "nat \<Rightarrow> 'k buddy \<Rightarrow> ('k buddy \<times> nat) option" where
  "blist_pop l h = do {
     prev \<leftarrow> ld l h;
     if prev = l then Some (h, 0)
     else do { h \<leftarrow> blist_remove prev h; Some (h, prev) }
   }"

definition bucket_at :: "nat \<Rightarrow> 'k buddy \<Rightarrow> nat" where
  "bucket_at b h = buckets h + LIST_SIZE * b"

section \<open>The tree of split flags\<close>

definition update_max_ptr :: "buddy_config \<Rightarrow> 'k reserve \<Rightarrow> nat \<Rightarrow> 'k buddy \<Rightarrow> ('k buddy \<times> bool) option" where
  "update_max_ptr c reserve new_value h =
     (if new_value \<le> max_ptr h then Some (h, True)
      else if new_value - base_ptr h < MAX_ALLOC c then do {
        (p, m, k) \<leftarrow> reserve (kernel h) (new_value - max_ptr h) (max_ptr h);
        Some (h\<lparr>max_ptr := m, kernel := k\<rparr>, p \<noteq> 0)
      }
      else Some (h, False))"

definition ptr_for_node :: "buddy_config \<Rightarrow> nat \<Rightarrow> nat \<Rightarrow> 'k buddy \<Rightarrow> nat" where
  "ptr_for_node c index bucket h = base_ptr h + push_bit (max_log2 c - bucket) (index + 1 - push_bit bucket 1)"

definition node_for_ptr :: "buddy_config \<Rightarrow> nat \<Rightarrow> nat \<Rightarrow> 'k buddy \<Rightarrow> nat" where
  "node_for_ptr c p bucket h = drop_bit (max_log2 c - bucket) (p - base_ptr h) + push_bit bucket 1 - 1"

text \<open>The root has no parent: its index wraps around and is far outside of the array.\<close>

definition parent_is_split :: "nat \<Rightarrow> 'k buddy \<Rightarrow> bool option" where
  "parent_is_split index h = (let i = (index - 1) div 2 in
     if index \<noteq> 0 \<and> i div 8 < length (node_is_split h)
     then Some (drop_bit (i mod 8) (node_is_split h ! (i div 8)) AND 1 \<noteq> 0) else None)"

definition flip_parent_is_split :: "nat \<Rightarrow> 'k buddy \<Rightarrow> 'k buddy option" where
  "flip_parent_is_split index h = (let i = (index - 1) div 2; s = node_is_split h in
     if index \<noteq> 0 \<and> i div 8 < length s
     then Some (h\<lparr>node_is_split := s[i div 8 := s ! (i div 8) XOR push_bit (i mod 8) 1]\<rparr>) else None)"

text \<open>The loop does not end if the size wraps around to 0 before it reaches the request.\<close>

partial_function (option) request_loop :: "u64 \<Rightarrow> u64 \<Rightarrow> u64 \<Rightarrow> u64 option" where
  "request_loop sz bucket request =
     (if sz < request then request_loop (sz * 2) (bucket - 1) request else Some bucket)"

declare request_loop.simps [code]

definition bucket_for_request :: "buddy_config \<Rightarrow> u64 \<Rightarrow> u64 option" where
  "bucket_for_request c request = request_loop (push_bit (min_log2 c) 1) (of_nat (BUCKET_COUNT c) - 1) request"

partial_function (option) lower_bucket_limit ::
  "buddy_config \<Rightarrow> 'k reserve \<Rightarrow> nat \<Rightarrow> 'k buddy \<Rightarrow> ('k buddy \<times> bool) option" where
  "lower_bucket_limit c reserve bucket h =
     (if bucket < bucket_limit h then do {
        let limit = bucket_limit h;
        let root = node_for_ptr c (base_ptr h) limit h;
        split \<leftarrow> parent_is_split root h;
        if \<not> split then do {
          h \<leftarrow> blist_remove (base_ptr h) h;
          let h = h\<lparr>bucket_limit := limit - 1\<rparr>;
          h \<leftarrow> blist_clear (bucket_at (limit - 1) h) h;
          h \<leftarrow> blist_push (bucket_at (limit - 1) h) (base_ptr h) h;
          lower_bucket_limit c reserve bucket h
        } else do {
          let right_child = ptr_for_node c (root + 1) limit h;
          (h, reserved) \<leftarrow> update_max_ptr c reserve (right_child + LIST_SIZE) h;
          if \<not> reserved then Some (h, False)
          else do {
            h \<leftarrow> blist_push (bucket_at limit h) right_child h;
            let h = h\<lparr>bucket_limit := limit - 1\<rparr>;
            h \<leftarrow> blist_clear (bucket_at (limit - 1) h) h;
            let root = (root - 1) div 2;
            h \<leftarrow> (if root \<noteq> 0 then flip_parent_is_split root h else Some h);
            lower_bucket_limit c reserve bucket h
          }
        }
      } else Some (h, True))"

declare lower_bucket_limit.simps [code]

section \<open>Allocation\<close>

text \<open>The loop that splits the block down to the size that is needed.\<close>

partial_function (option) split_loop ::
  "buddy_config \<Rightarrow> nat \<Rightarrow> nat \<Rightarrow> nat \<Rightarrow> 'k buddy \<Rightarrow> 'k buddy option" where
  "split_loop c original bucket i h =
     (if bucket < original then do {
        h \<leftarrow> flip_parent_is_split (i * 2 + 1) h;
        h \<leftarrow> blist_push (bucket_at (bucket + 1) h) (ptr_for_node c (i * 2 + 1 + 1) (bucket + 1) h) h;
        split_loop c original (bucket + 1) (i * 2 + 1) h
      } else Some h)"

declare split_loop.simps [code]

text \<open>What follows once a block of a bucket has been taken off its list.\<close>

definition take_block ::
  "buddy_config \<Rightarrow> 'k reserve \<Rightarrow> u64 \<Rightarrow> nat \<Rightarrow> nat \<Rightarrow> nat \<Rightarrow> 'k buddy \<Rightarrow> ('k buddy \<times> nat) option" where
  "take_block c reserve request original bucket p h = do {
     let block = 2 ^ (max_log2 c - bucket);
     let bytes_needed = (if bucket < original then block div 2 + LIST_SIZE else block);
     (h, reserved) \<leftarrow> update_max_ptr c reserve (p + bytes_needed) h;
     if \<not> reserved then do { h \<leftarrow> blist_push (bucket_at bucket h) p h; Some (h, 0) }
     else do {
       let i = node_for_ptr c p bucket h;
       h \<leftarrow> (if i \<noteq> 0 then flip_parent_is_split i h else Some h);
       h \<leftarrow> split_loop c original bucket i h;
       h \<leftarrow> st p (unat request) h;
       Some (h, p + HEADER_SIZE)
     }
   }"

text \<open>The loop over the buckets; bucket 0 is the last one, and then \<open>bucket + 1\<close> is 0.\<close>

partial_function (option) malloc_loop ::
  "buddy_config \<Rightarrow> 'k reserve \<Rightarrow> u64 \<Rightarrow> nat \<Rightarrow> nat \<Rightarrow> 'k buddy \<Rightarrow> ('k buddy \<times> nat) option" where
  "malloc_loop c reserve request original bucket h = do {
     (h, lowered) \<leftarrow> lower_bucket_limit c reserve bucket h;
     if \<not> lowered then Some (h, 0)
     else do {
       (h, p) \<leftarrow> blist_pop (bucket_at bucket h) h;
       if p \<noteq> 0 then take_block c reserve request original bucket p h
       else if bucket \<noteq> bucket_limit h \<or> bucket = 0 then
         (if bucket = 0 then Some (h, 0) else malloc_loop c reserve request original (bucket - 1) h)
       else do {
         (h, lowered) \<leftarrow> lower_bucket_limit c reserve (bucket - 1) h;
         if \<not> lowered then Some (h, 0)
         else do {
           (h, p) \<leftarrow> blist_pop (bucket_at bucket h) h;
           take_block c reserve request original bucket p h
         }
       }
     }
   }"

declare malloc_loop.simps [code]

text \<open>\<open>Math::align_up\<close> for the powers of two it is called with.\<close>

definition align_up :: "nat \<Rightarrow> nat \<Rightarrow> nat" where
  "align_up v b = (if b > 1 then (v + b - 1) div b * b else v)"

definition align_size :: nat where
  "align_size = 16"

text \<open>The first call: the heads of the free lists, and one block of the smallest size.\<close>

definition buddy_setup :: "buddy_config \<Rightarrow> 'k reserve \<Rightarrow> 'k buddy \<Rightarrow> ('k buddy \<times> bool) option" where
  "buddy_setup c reserve h =
     (if base_ptr h = 0 then do {
        (p, m, k) \<leftarrow> reserve (kernel h) ((BUCKET_COUNT c + 1) * LIST_SIZE + 2 * align_size) (max_ptr h);
        let h = h\<lparr>buckets := p, max_ptr := m, kernel := k\<rparr>;
        if p = 0 then Some (h, False)
        else do {
          let h = h\<lparr>base_ptr := align_up (bucket_at (BUCKET_COUNT c) h) align_size + align_size - HEADER_SIZE,
                    bucket_limit := BUCKET_COUNT c - 1\<rparr>;
          h \<leftarrow> blist_clear (bucket_at (BUCKET_COUNT c - 1) h) h;
          h \<leftarrow> blist_push (bucket_at (BUCKET_COUNT c - 1) h) (base_ptr h) h;
          Some (h, True)
        }
      } else Some (h, True))"

definition buddy_malloc :: "buddy_config \<Rightarrow> 'k reserve \<Rightarrow> u64 \<Rightarrow> 'k buddy \<Rightarrow> ('k buddy \<times> nat) option" where
  "buddy_malloc c reserve request h =
     (if request + of_nat HEADER_SIZE > push_bit (max_log2 c) 1 then Some (h, 0)
      else do {
        (h, ready) \<leftarrow> buddy_setup c reserve h;
        if \<not> ready then Some (h, 0)
        else do {
          bucket \<leftarrow> bucket_for_request c (request + of_nat HEADER_SIZE);
          malloc_loop c reserve request (unat bucket) (unat bucket) h
        }
      })"

section \<open>Resizing and freeing\<close>

definition buddy_resize :: "buddy_config \<Rightarrow> nat \<Rightarrow> u64 \<Rightarrow> 'k buddy \<Rightarrow> ('k buddy \<times> bool) option" where
  "buddy_resize c p request h =
     (if p \<noteq> 0 \<and> p \<ge> base_ptr h \<and> p \<le> max_ptr h then do {
        current_size \<leftarrow> ld (p - HEADER_SIZE) h;
        b \<leftarrow> bucket_for_request c (of_nat current_size + of_nat HEADER_SIZE);
        b' \<leftarrow> bucket_for_request c (request + of_nat HEADER_SIZE);
        if b = b' then do { h \<leftarrow> st (p - HEADER_SIZE) (unat request) h; Some (h, True) }
        else Some (h, False)
      } else Some (h, False))"

text \<open>The way up to the root, with the buddies that are merged.\<close>

partial_function (option) free_loop ::
  "buddy_config \<Rightarrow> nat \<Rightarrow> nat \<Rightarrow> 'k buddy \<Rightarrow> ('k buddy \<times> nat \<times> nat) option" where
  "free_loop c bucket i h =
     (if i \<noteq> 0 then do {
        h \<leftarrow> flip_parent_is_split i h;
        split \<leftarrow> parent_is_split i h;
        if split \<or> bucket = bucket_limit h then Some (h, bucket, i)
        else do {
          h \<leftarrow> blist_remove (ptr_for_node c (((i - 1) XOR 1) + 1) bucket h) h;
          free_loop c (bucket - 1) ((i - 1) div 2) h
        }
      } else Some (h, bucket, i))"

declare free_loop.simps [code]

definition buddy_free :: "buddy_config \<Rightarrow> nat \<Rightarrow> 'k buddy \<Rightarrow> 'k buddy option" where
  "buddy_free c p h =
     (if p \<noteq> 0 \<and> p \<ge> base_ptr h \<and> p \<le> max_ptr h then do {
        n \<leftarrow> ld (p - HEADER_SIZE) h;
        b \<leftarrow> bucket_for_request c (of_nat n + of_nat HEADER_SIZE);
        (h, bucket, i) \<leftarrow> free_loop c (unat b) (node_for_ptr c (p - HEADER_SIZE) (unat b) h) h;
        blist_push (bucket_at bucket h) (ptr_for_node c i bucket h) h
      } else Some h)"

definition buddy_size :: "nat \<Rightarrow> 'k buddy \<Rightarrow> nat option" where
  "buddy_size p h = (if p = 0 \<or> p < base_ptr h \<or> p > max_ptr h then Some 0 else ld (p - HEADER_SIZE) h)"

section \<open>The memory behind it\<close>

text \<open>
  \<open>reserve_mmap\<close>: one mapping that only grows.  The calls of the kernel are parameters: \<open>mmap\<close> answers
  with the number of the page it maps (pages are counted from the second one, the first is never
  mapped) or with an error, \<open>mremap\<close>, which must not move the mapping, with whether it has extended it.
\<close>

definition PAGE_SIZE :: nat where
  "PAGE_SIZE = 0x1000"

record 'o mapping =
  mmap_addr :: nat
  os :: 'o

definition mapping_init :: "'o \<Rightarrow> 'o mapping" where
  "mapping_init k = \<lparr>mmap_addr = 0x700000000000, os = k\<rparr>"

definition block_size :: nat where
  "block_size = 256 * PAGE_SIZE"

definition reserve_mmap ::
  "('o \<Rightarrow> nat \<Rightarrow> nat \<Rightarrow> nat option \<times> 'o) \<Rightarrow> ('o \<Rightarrow> nat \<Rightarrow> nat \<Rightarrow> nat \<Rightarrow> bool \<times> 'o) \<Rightarrow> 'o mapping reserve" where
  "reserve_mmap mmap mremap k n m = (let bytes = align_up n block_size in
     if m = 0 then
       (case mmap (os k) (mmap_addr k) bytes of
          (None, s) \<Rightarrow> Some (0, m, k\<lparr>os := s\<rparr>)
        | (Some page, s) \<Rightarrow> (let a = (page + 1) * PAGE_SIZE in Some (a, a + bytes, \<lparr>mmap_addr = a, os = s\<rparr>)))
     else do {
       let old_size = m - mmap_addr k;
       assert_that (old_size mod block_size = 0);
       let (extended, s) = mremap (os k) (mmap_addr k) old_size (old_size + bytes);
       Some (if extended then (m, m + bytes, k\<lparr>os := s\<rparr>) else (0, m, k\<lparr>os := s\<rparr>))
     })"

end
