(* ===== verification/BuddyLists.thy ===== *)
theory BuddyLists
  imports Buddy
begin

text \<open>
  The free lists of the buddy allocator as lists of addresses: the circular lists in memory
  (\<open>ring\<close>), all lists together (\<open>free_lists\<close>), and what inserting and removing a block does to them.
\<close>

named_theorems buddy_simps "fields of the allocator after an update"

section \<open>Circular lists\<close>

fun links :: "(nat \<Rightarrow> nat) \<Rightarrow> nat list \<Rightarrow> bool" where
  "links m (x # y # zs) \<longleftrightarrow> m (x + 8) = y \<and> m y = x \<and> links m (y # zs)"
| "links m _ \<longleftrightarrow> True"

definition ring :: "(nat \<Rightarrow> nat) \<Rightarrow> nat \<Rightarrow> nat list \<Rightarrow> bool" where
  "ring m l xs \<longleftrightarrow> links m (l # xs @ [l])"

text \<open>No link to the next item is where another item begins.\<close>

definition apart :: "nat set \<Rightarrow> bool" where
  "apart N \<longleftrightarrow> (\<forall>x\<in>N. \<forall>y\<in>N. x + 8 \<noteq> y)"

definition words_of :: "nat set \<Rightarrow> nat set" where
  "words_of N = N \<union> (\<lambda>x. x + 8) ` N"

lemma apart_mono: "apart M \<Longrightarrow> N \<subseteq> M \<Longrightarrow> apart N"
  by (auto simp: apart_def)

lemma apartD: "apart N \<Longrightarrow> x \<in> N \<Longrightarrow> y \<in> N \<Longrightarrow> x + 8 \<noteq> y \<and> y + 8 \<noteq> x"
  by (auto simp: apart_def)

lemma words_of_mono: "N \<subseteq> M \<Longrightarrow> words_of N \<subseteq> words_of M"
  by (auto simp: words_of_def)

lemma links_append: "links m (us @ x # vs) \<longleftrightarrow> links m (us @ [x]) \<and> links m (x # vs)"
  by (induction us rule: induct_list012) auto

lemma links_cong:
  assumes "\<forall>x\<in>set (butlast xs). m' (x + 8) = m (x + 8)" and "\<forall>x\<in>set (tl xs). m' x = m x"
  shows "links m' xs = links m xs"
  using assms by (induction xs rule: induct_list012) auto

text \<open>The two ends of a circular list, and the links across its head.\<close>

lemma ring_ends:
  assumes "ring m l xs"
  obtains us where "l # xs = us @ [m l]" and "links m (us @ [m l])"
proof -
  obtain us p where us: "l # xs = us @ [p]" by (cases "l # xs" rule: rev_cases) auto
  have "links m ((l # xs) @ [l])" using assms by (simp add: ring_def)
  then have "links m (us @ p # [l])" unfolding us by simp
  then have "links m (us @ [p])" "m l = p" by (subst (asm) links_append, simp)+
  then show ?thesis using us that by simp
qed

lemma ring_last: "ring m l xs \<Longrightarrow> m l = last (l # xs)"
  by (metis ring_ends last_snoc)

lemma ring_frame:
  assumes "ring m l xs" and "\<forall>a. m' a \<noteq> m a \<longrightarrow> a \<in> words_of N"
    and "apart (N \<union> set (l # xs))" and "N \<inter> set (l # xs) = {}"
  shows "ring m' l xs"
proof -
  have "m' a = m a \<and> m' (a + 8) = m (a + 8)" if "a \<in> set (l # xs)" for a
  proof -
    have "a \<notin> words_of N" "a + 8 \<notin> words_of N"
      using that assms(3,4) unfolding words_of_def apart_def by (fastforce)+
    then show ?thesis using assms(2) by blast
  qed
  then have "links m' (l # xs @ [l]) = links m (l # xs @ [l])"
    by (intro links_cong) (auto simp: butlast_append)
  then show ?thesis using assms(1) by (simp add: ring_def)
qed

lemma ring_push:
  assumes r: "ring m l xs" and d: "distinct (l # xs)" and e: "e \<notin> set (l # xs)"
    and a: "apart (set (e # l # xs))" and p: "p = m l"
  shows "ring (m(e := p, e + 8 := l, p + 8 := e, l := e)) l (xs @ [e])"
proof -
  let ?m = "m(e := p, e + 8 := l, p + 8 := e, l := e)"
  obtain us where us: "l # xs = us @ [p]" and "links m (us @ [p])"
    using ring_ends[OF r] p by metis
  have p_in: "p \<in> set (l # xs)" by (simp only: us set_append) simp
  note \<open>links m (us @ [p])\<close>
  moreover have "links ?m (us @ [p]) = links m (us @ [p])"
  proof (rule links_cong)
    show "\<forall>x\<in>set (butlast (us @ [p])). ?m (x + 8) = m (x + 8)"
    proof
      fix x assume "x \<in> set (butlast (us @ [p]))"
      then have "x \<in> set us" by simp
      moreover have "distinct (us @ [p])" using d by (simp only: us)
      ultimately have "x \<noteq> p" "x \<in> set (l # xs)" unfolding us by auto
      then show "?m (x + 8) = m (x + 8)"
        using apartD[OF a, of x e] apartD[OF a, of x l] e by auto
    qed
    show "\<forall>x\<in>set (tl (us @ [p])). ?m x = m x"
    proof
      fix x assume "x \<in> set (tl (us @ [p]))"
      then have "x \<in> set xs" by (simp flip: us)
      then show "?m x = m x"
        using apartD[OF a, of x e] apartD[OF a, of x p] e d p_in by auto
    qed
  qed
  moreover have "?m (p + 8) = e" "?m e = p" "?m (e + 8) = l" "?m l = e"
    using e p_in apartD[OF a, of p e] apartD[OF a, of p l] apartD[OF a, of e l] apartD[OF a, of e e]
    by auto
  ultimately have "links ?m (us @ p # e # [l])"
    by (subst links_append) (simp del: fun_upd_apply)
  then have "links ?m ((l # xs) @ [e, l])"
    unfolding us by (simp del: fun_upd_apply)
  then show ?thesis
    by (simp add: ring_def del: fun_upd_apply)
qed

lemma ring_remove:
  assumes r: "ring m l (us @ x # vs)" and d: "distinct (l # us @ x # vs)"
    and a: "apart (set (l # us @ x # vs))" and p: "p = m x" and n: "n = m (x + 8)"
  shows "ring (m(p + 8 := n, n := p)) l (us @ vs)"
    and "p \<in> set (l # us)" and "n \<in> set (l # vs)"
proof -
  let ?m = "m(p + 8 := n, n := p)"
  have "links m ((l # us) @ x # (vs @ [l]))" using r by (simp add: ring_def)
  then have l1: "links m ((l # us) @ [x])" and l2: "links m (x # vs @ [l])"
    by (subst (asm) links_append, simp)+
  obtain as q where "l # us = as @ [q]" by (cases "l # us" rule: rev_cases) auto
  then have as: "l # us = as @ [p]"
    using l1 p links_append[of m as q "[x]"] by simp
  obtain bs where bs: "vs @ [l] = n # bs" using l2 n by (cases vs) auto
  show pin: "p \<in> set (l # us)" by (simp only: as) simp
  have "n \<in> set (vs @ [l])" by (simp only: bs) simp
  then show nin: "n \<in> set (l # vs)" by auto
  have "links m (as @ [p])"
    using l1 links_append[of m as p "[x]"] by (simp add: as)
  moreover have "links ?m (as @ [p]) = links m (as @ [p])"
  proof (rule links_cong)
    show "\<forall>y\<in>set (butlast (as @ [p])). ?m (y + 8) = m (y + 8)"
    proof
      fix y assume "y \<in> set (butlast (as @ [p]))"
      then have y: "y \<in> set as" by simp
      have "distinct (as @ [p])" using d by (simp flip: as)
      then have "y \<in> set (l # us)" "y \<noteq> p" using y unfolding as by auto
      then show "?m (y + 8) = m (y + 8)"
        using apartD[OF a, of y n] nin by auto
    qed
    show "\<forall>y\<in>set (tl (as @ [p])). ?m y = m y"
    proof
      fix y assume "y \<in> set (tl (as @ [p]))"
      then have "y \<in> set us" by (simp flip: as)
      then show "?m y = m y"
        using apartD[OF a, of p y] pin nin d by auto
    qed
  qed
  moreover have "links m (n # bs)"
    using l2 bs by simp
  moreover have "links ?m (n # bs) = links m (n # bs)"
  proof (rule links_cong)
    have lv: "butlast (n # bs) = vs" using bs by (metis butlast_snoc)
    show "\<forall>y\<in>set (butlast (n # bs)). ?m (y + 8) = m (y + 8)"
      unfolding lv
    proof
      fix y assume y: "y \<in> set vs"
      then have "y \<noteq> p" using d pin by auto
      then show "?m (y + 8) = m (y + 8)"
        using apartD[OF a, of y n] nin y by auto
    qed
    show "\<forall>y\<in>set (tl (n # bs)). ?m y = m y"
    proof
      fix y assume y: "y \<in> set (tl (n # bs))"
      then have "y \<noteq> n" using bs d by (cases vs) auto
      moreover have "y \<in> set (vs @ [l])" unfolding bs using y by simp
      then have "y \<in> set (l # vs)" by auto
      ultimately show "?m y = m y"
        using apartD[OF a, of p y] pin by auto
    qed
  qed
  moreover have "?m (p + 8) = n" "?m n = p"
    using apartD[OF a, of p n] pin nin by auto
  ultimately have "links ?m (as @ p # n # bs)"
    by (subst links_append) (simp del: fun_upd_apply)
  then have "links ?m ((l # us) @ (vs @ [l]))"
    unfolding as bs by (simp del: fun_upd_apply)
  then show "ring ?m l (us @ vs)"
    by (simp add: ring_def del: fun_upd_apply)
qed

section \<open>All free lists\<close>

definition free_nodes :: "'k buddy \<Rightarrow> nat set \<Rightarrow> (nat \<Rightarrow> nat list) \<Rightarrow> nat set" where
  "free_nodes h R fl = (\<lambda>b. bucket_at b h) ` R \<union> (\<Union>b\<in>R. set (fl b))"

definition node_ok :: "'k buddy \<Rightarrow> nat \<Rightarrow> bool" where
  "node_ok h x \<longleftrightarrow> mem_ok x h \<and> mem_ok (x + 8) h"

definition free_lists :: "'k buddy \<Rightarrow> nat set \<Rightarrow> (nat \<Rightarrow> nat list) \<Rightarrow> bool" where
  "free_lists h R fl \<longleftrightarrow>
     (\<forall>b\<in>R. ring (cells h) (bucket_at b h) (fl b) \<and> distinct (fl b)) \<and>
     (\<forall>b\<in>R. \<forall>b'\<in>R. bucket_at b h \<notin> set (fl b') \<and> (b \<noteq> b' \<longrightarrow> set (fl b) \<inter> set (fl b') = {})) \<and>
     apart (free_nodes h R fl) \<and> (\<forall>x\<in>free_nodes h R fl. node_ok h x)"

lemma buddy_cells [buddy_simps]:
  "bucket_at b (h\<lparr>cells := m\<rparr>) = bucket_at b h" "mem_ok a (h\<lparr>cells := m\<rparr>) = mem_ok a h"
  "node_ok (h\<lparr>cells := m\<rparr>) x = node_ok h x" "free_nodes (h\<lparr>cells := m\<rparr>) R fl = free_nodes h R fl"
  by (simp_all add: bucket_at_def mem_ok_def node_ok_def free_nodes_def)

lemma bucket_at_eq [simp]: "bucket_at b h = bucket_at b' h \<longleftrightarrow> b = b'"
  by (simp add: bucket_at_def LIST_SIZE_def)

lemma free_nodes_upd:
  "free_nodes h R (fl(b := xs)) \<subseteq> free_nodes h R fl \<union> set xs"
  by (auto simp: free_nodes_def split: if_splits)

lemma free_nodesI: "b \<in> R \<Longrightarrow> x \<in> set (bucket_at b h # fl b) \<Longrightarrow> x \<in> free_nodes h R fl"
  by (auto simp: free_nodes_def)

text \<open>One list is changed, within its own items and a new one.\<close>

lemma free_lists_change:
  assumes fl: "free_lists h R fl" and b: "b \<in> R" and ring: "ring m (bucket_at b h) xs" and d: "distinct xs"
    and N: "N = set xs \<union> set (bucket_at b h # fl b)" and ap: "apart (free_nodes h R fl \<union> set xs)"
    and new: "set xs \<inter> free_nodes h R fl \<subseteq> set (fl b)" and ok: "\<forall>x\<in>set xs. node_ok h x"
    and m: "\<forall>a. m a \<noteq> cells h a \<longrightarrow> a \<in> words_of N"
  shows "free_lists (h\<lparr>cells := m\<rparr>) R (fl(b := xs))"
    and "\<forall>a. a \<notin> words_of (free_nodes h R fl \<union> set xs) \<longrightarrow> m a = cells h a"
proof -
  have sub: "N \<subseteq> free_nodes h R fl \<union> set xs"
    using b unfolding N by (auto simp: free_nodes_def)
  then show "\<forall>a. a \<notin> words_of (free_nodes h R fl \<union> set xs) \<longrightarrow> m a = cells h a"
    using m words_of_mono[OF sub] by blast
  have r: "ring m (bucket_at c h) ((fl(b := xs)) c) \<and> distinct ((fl(b := xs)) c)" if c: "c \<in> R" for c
  proof (cases "c = b")
    case False
    have "ring (cells h) (bucket_at c h) (fl c)" "distinct (fl c)"
      using fl c by (auto simp: free_lists_def)
    moreover have "apart (N \<union> set (bucket_at c h # fl c))"
      using sub free_nodesI[OF c] by (intro apart_mono[OF ap]) blast
    moreover have "N \<inter> set (bucket_at c h # fl c) = {}"
    proof -
      have "set (bucket_at b h # fl b) \<inter> set (bucket_at c h # fl c) = {}"
        using fl b c False by (auto simp: free_lists_def)
      moreover have "set (bucket_at c h # fl c) \<subseteq> free_nodes h R fl"
        using free_nodesI[OF c] by blast
      ultimately show ?thesis using new unfolding N by auto
    qed
    ultimately show ?thesis using ring_frame[OF _ m] False by auto
  qed (use ring d in auto)
  have "bucket_at c h \<notin> set xs" if "c \<in> R" for c
    using new fl b that free_nodesI[OF that, of "bucket_at c h" h fl] by (auto simp: free_lists_def)
  moreover have "set xs \<inter> set (fl c) = {}" if "c \<in> R" "c \<noteq> b" for c
  proof -
    have "set (fl c) \<subseteq> free_nodes h R fl" "set (fl b) \<inter> set (fl c) = {}"
      using fl b that by (auto simp: free_lists_def free_nodes_def)
    then show ?thesis using new by blast
  qed
  moreover have "apart (free_nodes h R (fl(b := xs)))"
    using apart_mono[OF ap free_nodes_upd] .
  moreover have "\<forall>x\<in>free_nodes h R (fl(b := xs)). node_ok h x"
    using fl ok free_nodes_upd by (fastforce simp: free_lists_def)
  ultimately show "free_lists (h\<lparr>cells := m\<rparr>) R (fl(b := xs))"
    using fl r unfolding free_lists_def by (simp add: buddy_simps) (simp add: inf_commute)
qed

lemma free_push:
  assumes fl: "free_lists h R fl" and b: "b \<in> R" and e: "e \<notin> free_nodes h R fl"
    and ap: "apart (insert e (free_nodes h R fl))" and ok: "node_ok h e"
  shows "\<exists>m. blist_push (bucket_at b h) e h = Some (h\<lparr>cells := m\<rparr>) \<and>
    free_lists (h\<lparr>cells := m\<rparr>) R (fl(b := fl b @ [e])) \<and>
    (\<forall>a. a \<notin> words_of (insert e (free_nodes h R fl)) \<longrightarrow> m a = cells h a)"
proof -
  let ?l = "bucket_at b h"
  define p where "p = cells h ?l"
  define m where "m = (cells h)(e := p, e + 8 := ?l, p + 8 := e, ?l := e)"
  have ring: "ring (cells h) ?l (fl b)" and d: "distinct (?l # fl b)"
    using fl b by (auto simp: free_lists_def)
  have p: "p \<in> set (?l # fl b)"
    unfolding p_def using ring_last[OF ring] by (metis last_in_set list.distinct(1))
  have sub: "set (?l # fl b) \<subseteq> free_nodes h R fl" using free_nodesI[OF b] by blast
  have ok': "\<forall>x\<in>set (?l # fl b). node_ok h x" using fl sub by (auto simp: free_lists_def)
  have ap': "apart (set (e # ?l # fl b))" using sub by (intro apart_mono[OF ap]) auto
  have "?l \<noteq> e" "?l \<noteq> e + 8"
    using e sub apartD[OF ap', of e ?l] by auto
  then have push: "blist_push ?l e h = Some (h\<lparr>cells := m\<rparr>)"
    using ok ok' p by (auto simp: blist_push_def ld_def st_def buddy_simps node_ok_def p_def m_def)
  have "ring m ?l (fl b @ [e])"
    using ring_push[OF ring d _ ap' p_def] e sub unfolding m_def by blast
  moreover have "\<forall>a. m a \<noteq> cells h a \<longrightarrow> a \<in> words_of (set (fl b @ [e]) \<union> set (?l # fl b))"
    using p by (auto simp: words_of_def m_def)
  ultimately have "free_lists (h\<lparr>cells := m\<rparr>) R (fl(b := fl b @ [e]))"
    "\<forall>a. a \<notin> words_of (free_nodes h R fl \<union> set (fl b @ [e])) \<longrightarrow> m a = cells h a"
    using ok ok' e d sub ap
    by (intro free_lists_change[OF fl b _ _ refl]; auto simp: insert_absorb Un_absorb2)+
  moreover have "free_nodes h R fl \<union> set (fl b @ [e]) = insert e (free_nodes h R fl)"
    using sub by auto
  ultimately show ?thesis using push by metis
qed

lemma free_remove:
  assumes fl: "free_lists h R fl" and b: "b \<in> R" and x: "x \<in> set (fl b)"
  shows "\<exists>m. blist_remove x h = Some (h\<lparr>cells := m\<rparr>) \<and>
    free_lists (h\<lparr>cells := m\<rparr>) R (fl(b := remove1 x (fl b))) \<and>
    (\<forall>a. a \<notin> words_of (free_nodes h R fl) \<longrightarrow> m a = cells h a)"
proof -
  let ?l = "bucket_at b h"
  obtain us vs where xs: "fl b = us @ x # vs" using x by (meson split_list)
  define p where "p = cells h x"
  define n where "n = cells h (x + 8)"
  define m where "m = (cells h)(p + 8 := n, n := p)"
  have ring: "ring (cells h) ?l (us @ x # vs)" and d: "distinct (?l # us @ x # vs)"
    using fl b by (auto simp: free_lists_def simp flip: xs)
  have sub: "set (?l # us @ x # vs) \<subseteq> free_nodes h R fl" using free_nodesI[OF b] by (auto simp flip: xs)
  have apN: "apart (free_nodes h R fl)" and okN: "\<forall>y\<in>free_nodes h R fl. node_ok h y"
    using fl by (auto simp: free_lists_def)
  note ap = apart_mono[OF apN sub]
  have ok': "\<forall>y\<in>set (?l # us @ x # vs). node_ok h y" using okN sub by blast
  note r = ring_remove[OF ring d ap p_def n_def, folded m_def]
  have "x + 8 \<noteq> p + 8" "x \<noteq> p + 8" using apartD[OF ap, of p x] r(2) d by auto
  then have rem: "blist_remove x h = Some (h\<lparr>cells := m\<rparr>)"
    using ok' r(2,3) by (auto simp: blist_remove_def ld_def st_def buddy_simps node_ok_def p_def n_def m_def)
  have r1: "remove1 x (fl b) = us @ vs" using d by (simp add: xs remove1_append)
  have un: "free_nodes h R fl \<union> set (us @ vs) = free_nodes h R fl" using sub by auto
  have "\<forall>a. m a \<noteq> cells h a \<longrightarrow> a \<in> words_of (set (us @ vs) \<union> set (?l # fl b))"
    using r(2,3) by (auto simp: words_of_def xs m_def)
  then have "free_lists (h\<lparr>cells := m\<rparr>) R (fl(b := us @ vs))"
    "\<forall>a. a \<notin> words_of (free_nodes h R fl \<union> set (us @ vs)) \<longrightarrow> m a = cells h a"
    using ok' d r(1) un apN xs
    by (intro free_lists_change[OF fl b _ _ refl]; auto)+
  then show ?thesis using un rem r1 by metis
qed

lemma free_pop:
  assumes fl: "free_lists h R fl" and b: "b \<in> R"
  shows "if fl b = [] then blist_pop (bucket_at b h) h = Some (h, 0)
    else \<exists>m. blist_pop (bucket_at b h) h = Some (h\<lparr>cells := m\<rparr>, last (fl b)) \<and>
      free_lists (h\<lparr>cells := m\<rparr>) R (fl(b := butlast (fl b))) \<and>
      (\<forall>a. a \<notin> words_of (free_nodes h R fl) \<longrightarrow> m a = cells h a)"
proof -
  let ?l = "bucket_at b h"
  have ring: "ring (cells h) ?l (fl b)" and d: "distinct (?l # fl b)" and ok: "node_ok h ?l"
    using fl b by (auto simp: free_lists_def free_nodes_def)
  have l: "ld ?l h = Some (last (?l # fl b))"
    using ok ring_last[OF ring] by (simp add: ld_def node_ok_def)
  show ?thesis
  proof (cases "fl b = []")
    case True
    then show ?thesis using l by (simp add: blist_pop_def)
  next
    case False
    then have x: "last (fl b) \<in> set (fl b)" "last (fl b) \<noteq> ?l" using d by auto (metis last_in_set)
    moreover have "remove1 (last (fl b)) (fl b) = butlast (fl b)"
      using d False by (metis append_butlast_last_id distinct.simps(2) distinct_append not_distinct_conv_prefix
          remove1_append remove1.simps append_Nil2 distinct_butlast)
    ultimately show ?thesis
      using free_remove[OF fl b x(1)] l False by (auto simp: blist_pop_def)
  qed
qed

lemma free_clear:
  assumes fl: "free_lists h R fl" and b: "bucket_at b h \<notin> free_nodes h R fl"
    and ap: "apart (insert (bucket_at b h) (free_nodes h R fl))" and ok: "node_ok h (bucket_at b h)"
  shows "\<exists>m. blist_clear (bucket_at b h) h = Some (h\<lparr>cells := m\<rparr>) \<and>
    free_lists (h\<lparr>cells := m\<rparr>) (insert b R) (fl(b := [])) \<and>
    (\<forall>a. a \<notin> words_of {bucket_at b h} \<longrightarrow> m a = cells h a)"
proof -
  let ?l = "bucket_at b h"
  define m where "m = (cells h)(?l + 8 := ?l, ?l := ?l)"
  have bR: "b \<notin> R" using b by (auto simp: free_nodes_def)
  have nodes: "free_nodes h (insert b R) (fl(b := [])) = insert ?l (free_nodes h R fl)"
    using bR by (auto simp: free_nodes_def split: if_splits)
  have m_eq: "\<forall>a. m a \<noteq> cells h a \<longrightarrow> a \<in> words_of {?l}" by (auto simp: words_of_def m_def)
  have "ring m (bucket_at c h) (fl c)" if c: "c \<in> R" for c
    using c fl b free_nodesI[OF c]
    by (intro ring_frame[OF _ m_eq apart_mono[OF ap]]) (auto simp: free_lists_def)
  moreover have "ring m ?l []" by (simp add: ring_def m_def)
  ultimately have "free_lists (h\<lparr>cells := m\<rparr>) (insert b R) (fl(b := []))"
    using fl ap ok b bR unfolding free_lists_def buddy_simps nodes
    by (auto simp: free_nodes_def)
  moreover have "blist_clear ?l h = Some (h\<lparr>cells := m\<rparr>)"
    using ok by (simp add: blist_clear_def st_def buddy_simps node_ok_def m_def)
  ultimately show ?thesis using m_eq by blast
qed

end
