(* ===== verification/BuddyTree.thy ===== *)
theory BuddyTree
  imports BuddyLists
begin

text \<open>
  The tree of the buddy allocator: a node is a bucket (its level) and a position within the level.
  \<open>tree_wf\<close> says which trees there are, \<open>flags_ok\<close> that the array of split flags describes one, and
  the lemmas on addresses that the blocks of different leaves do not overlap.
\<close>

section \<open>Indices and addresses\<close>

definition last_bucket :: "buddy_config \<Rightarrow> nat" where
  "last_bucket c = max_log2 c - min_log2 c"

text \<open>The limits on the template parameters: a block holds a list item, and the flags fill whole bytes.\<close>

definition config_ok :: "buddy_config \<Rightarrow> bool" where
  "config_ok c \<longleftrightarrow> 4 \<le> min_log2 c \<and> min_log2 c + 3 \<le> max_log2 c \<and> max_log2 c < 63"

definition node_index :: "nat \<Rightarrow> nat \<Rightarrow> nat" where
  "node_index b k = 2 ^ b - 1 + k"

definition block_at :: "buddy_config \<Rightarrow> 'k buddy \<Rightarrow> nat \<Rightarrow> nat \<Rightarrow> nat" where
  "block_at c h b k = base_ptr h + k * 2 ^ (max_log2 c - b)"

lemma node_index_parent: "(node_index (Suc b) k - 1) div 2 = node_index b (k div 2)"
proof -
  have "(node_index (Suc b) k - 1) div 2 = (2 * (2 ^ b - 1) + k) div 2"
    by (simp add: node_index_def diff_mult_distrib2)
  then show ?thesis by (simp add: node_index_def)
qed

lemma node_index_child: "node_index b k * 2 + 1 = node_index (Suc b) (2 * k)"
proof -
  obtain p where "2 ^ b = Suc p" by (metis not0_implies_Suc power_not_zero zero_neq_numeral)
  then show ?thesis by (simp add: node_index_def)
qed

lemma node_index_Suc: "node_index b k + 1 = node_index b (k + 1)"
  by (simp add: node_index_def)

lemma node_index_sibling:
  "((node_index (Suc b) (2 * k) - 1) XOR 1) + 1 = node_index (Suc b) (2 * k + 1)"
  "((node_index (Suc b) (2 * k + 1) - 1) XOR 1) + 1 = node_index (Suc b) (2 * k)"
proof -
  obtain p where p: "2 ^ b = Suc p" by (metis not0_implies_Suc power_not_zero zero_neq_numeral)
  have "node_index (Suc b) (2 * k) - 1 = 2 * (p + k)" "node_index (Suc b) (2 * k + 1) - 1 = 2 * (p + k) + 1"
    by (simp_all add: node_index_def p)
  then show "((node_index (Suc b) (2 * k) - 1) XOR 1) + 1 = node_index (Suc b) (2 * k + 1)"
    "((node_index (Suc b) (2 * k + 1) - 1) XOR 1) + 1 = node_index (Suc b) (2 * k)"
    by (simp_all only: xor_one_eq) (simp_all add: node_index_def p)
qed

lemma node_index_0: "node_index b k = 0 \<longleftrightarrow> b = 0 \<and> k = 0"
proof -
  have "2 ^ b = (1::nat) \<longleftrightarrow> b = 0" by simp
  moreover have "(1::nat) \<le> 2 ^ b" by simp
  ultimately show ?thesis unfolding node_index_def by linarith
qed

lemma node_index_less: "k < 2 ^ b \<Longrightarrow> b < n \<Longrightarrow> node_index b k < 2 ^ n - 1"
proof -
  assume "k < 2 ^ b" "b < n"
  then have "(2::nat) ^ Suc b \<le> 2 ^ n" by (intro power_increasing) auto
  then show "node_index b k < 2 ^ n - 1" using \<open>k < 2 ^ b\<close> by (simp add: node_index_def)
qed

lemma node_index_inj:
  assumes "k < 2 ^ b" "k' < 2 ^ b'" "node_index b k = node_index b' k'"
  shows "b = b' \<and> k = k'"
proof -
  have less: "b \<le> b'" if "k' < 2 ^ b'" "node_index b k = node_index b' k'" for b b' k k' :: nat
  proof (rule ccontr)
    assume "\<not> b \<le> b'"
    then have "node_index b' k' < 2 ^ b - 1" using that(1) by (intro node_index_less) auto
    then show False using that(2) by (simp add: node_index_def)
  qed
  have "b = b'" using less[OF assms(2,3)] less[OF assms(1) assms(3)[symmetric]] by simp
  then show ?thesis using assms(3) unfolding node_index_def by (metis add_left_cancel)
qed

lemma ptr_for_node_index: "ptr_for_node c (node_index b k) b h = block_at c h b k"
  by (simp add: ptr_for_node_def node_index_def block_at_def push_bit_eq_mult)

lemma node_for_block: "node_for_ptr c (block_at c h b k) b h = node_index b k"
proof -
  have "(1::nat) \<le> 2 ^ b" by simp
  then show ?thesis
    by (simp add: node_for_ptr_def node_index_def block_at_def push_bit_eq_mult drop_bit_eq_div)
qed

lemma node_for_base: "node_for_ptr c (base_ptr h) b h = node_index b 0"
  using node_for_block[of c h b 0] by (simp add: block_at_def)

section \<open>Split flags\<close>

definition flag :: "'k buddy \<Rightarrow> nat \<Rightarrow> bool" where
  "flag h i = bit (node_is_split h ! (i div 8)) (i mod 8)"

lemma parent_is_split_eq:
  assumes "i div 8 < length (node_is_split h)" "index \<noteq> 0" "(index - 1) div 2 = i"
  shows "parent_is_split index h = Some (flag h i)"
proof -
  have "drop_bit n (w :: u8) AND 1 \<noteq> 0 \<longleftrightarrow> bit w n" for w n
    by (simp add: and_one_eq bit_iff_odd_drop_bit odd_iff_mod_2_eq_one)
  then show ?thesis using assms by (simp add: parent_is_split_def flag_def Let_def)
qed

lemma flip_parent_eq:
  assumes i: "i div 8 < length (node_is_split h)" "index \<noteq> 0" "(index - 1) div 2 = i"
  shows "\<exists>s. flip_parent_is_split index h = Some (h\<lparr>node_is_split := s\<rparr>) \<and>
    length s = length (node_is_split h) \<and>
    (\<forall>j. flag (h\<lparr>node_is_split := s\<rparr>) j = (flag h j \<noteq> (j = i)))"
proof -
  let ?s = "(node_is_split h)[i div 8 := node_is_split h ! (i div 8) XOR push_bit (i mod 8) 1]"
  have "flag (h\<lparr>node_is_split := ?s\<rparr>) j = (flag h j \<noteq> (j = i))" for j
  proof (cases "j div 8 = i div 8")
    case True
    have "j = i \<longleftrightarrow> j mod 8 = i mod 8" using True by (metis div_mult_mod_eq)
    moreover have "bit (push_bit (i mod 8) 1 :: u8) (j mod 8) \<longleftrightarrow> j mod 8 = i mod 8"
      by (auto simp: bit_exp_iff)
    ultimately show ?thesis using i True by (simp add: flag_def bit_xor_iff)
  next
    case False
    then show ?thesis using i by (auto simp: flag_def)
  qed
  then show ?thesis using assms by (auto simp: flip_parent_is_split_def Let_def)
qed

section \<open>Trees\<close>

text \<open>
  \<open>Held\<close> is a block that is on no list and not handed out, between two steps of an operation.
\<close>

datatype bnode = Absent | Unused | Held | Used nat | Divided

type_synonym btree = "nat \<Rightarrow> nat \<Rightarrow> bnode"

definition set_node :: "nat \<Rightarrow> nat \<Rightarrow> bnode \<Rightarrow> btree \<Rightarrow> btree" where
  "set_node b k x t = t(b := (t b)(k := x))"

lemma set_node_apply [simp]: "set_node b k x t b' k' = (if b = b' \<and> k = k' then x else t b' k')"
  by (auto simp: set_node_def)

definition leaf :: "bnode \<Rightarrow> bool" where
  "leaf x \<longleftrightarrow> x \<noteq> Absent \<and> x \<noteq> Divided"

definition tree_wf :: "nat \<Rightarrow> nat \<Rightarrow> btree \<Rightarrow> bool" where
  "tree_wf L n t \<longleftrightarrow> L \<le> n \<and> t L 0 \<noteq> Absent \<and>
     (\<forall>b k. b < L \<or> n < b \<longrightarrow> t b k = Absent) \<and> (\<forall>k. k \<noteq> 0 \<longrightarrow> t L k = Absent) \<and>
     (\<forall>b k. L \<le> b \<longrightarrow> t (Suc b) k \<noteq> Absent \<longleftrightarrow> t b (k div 2) = Divided)"

lemma tree_wfD:
  assumes "tree_wf L n t"
  shows "L \<le> n" and "t L 0 \<noteq> Absent" and "b < L \<or> n < b \<Longrightarrow> t b k = Absent"
    and "k \<noteq> 0 \<Longrightarrow> t L k = Absent" and "L \<le> b \<Longrightarrow> t (Suc b) k \<noteq> Absent \<longleftrightarrow> t b (k div 2) = Divided"
  using assms by (auto simp: tree_wf_def)

lemma tree_range: "tree_wf L n t \<Longrightarrow> t b k \<noteq> Absent \<Longrightarrow> L \<le> b \<and> b \<le> n"
  by (auto simp: tree_wf_def) (meson not_le)+

lemma tree_position:
  assumes wf: "tree_wf L n t"
  shows "t (L + d) k \<noteq> Absent \<Longrightarrow> k < 2 ^ d"
proof (induction d arbitrary: k)
  case 0
  then show ?case using tree_wfD(4)[OF wf, of k] by auto
next
  case (Suc d)
  then have "t (L + d) (k div 2) = Divided" using tree_wfD(5)[OF wf, of "L + d" k] by simp
  then show ?case using Suc.IH[of "k div 2"] by simp
qed

lemma tree_position_le:
  assumes "tree_wf L n t" and "t b k \<noteq> Absent"
  shows "k < 2 ^ b"
proof -
  have "k < 2 ^ (b - L)"
    using tree_position[OF assms(1), of "b - L" k] tree_range[OF assms] assms(2) by simp
  also have "\<dots> \<le> 2 ^ b" by (intro power_increasing) auto
  finally show ?thesis .
qed

lemma tree_ancestor:
  assumes wf: "tree_wf L n t" and b: "L \<le> b"
  shows "t (b + Suc d) k \<noteq> Absent \<Longrightarrow> t b (k div 2 ^ Suc d) = Divided"
proof (induction d arbitrary: k)
  case 0
  then show ?case using tree_wfD(5)[OF wf b, of k] by simp
next
  case (Suc d)
  then have "t (b + Suc d) (k div 2) = Divided" using tree_wfD(5)[OF wf, of "b + Suc d" k] b by simp
  then have "t b (k div 2 div 2 ^ Suc d) = Divided" using Suc.IH[of "k div 2"] by simp
  then show ?case by (simp flip: div_mult2_eq)
qed

text \<open>Two leaves are two separate intervals of the memory.\<close>

lemma leaves_apart_le:
  assumes wf: "tree_wf L n t" and n: "n \<le> max_log2 c"
    and x: "leaf (t b k)" and y: "leaf (t b' k')" and ne: "(b, k) \<noteq> (b', k')" and le: "b \<le> b'"
  shows "block_at c h b k + 2 ^ (max_log2 c - b) \<le> block_at c h b' k' \<or>
    block_at c h b' k' + 2 ^ (max_log2 c - b') \<le> block_at c h b k"
proof -
  define d where "d = b' - b"
  have b': "b' = b + d" "L \<le> b" "b' \<le> n"
    using le tree_range[OF wf, of b k] tree_range[OF wf, of b' k'] x y by (auto simp: leaf_def d_def)
  have k: "k' div 2 ^ d \<noteq> k"
  proof (cases d)
    case (Suc e)
    then show ?thesis using tree_ancestor[OF wf b'(2), of e k'] x y b'(1) by (auto simp: leaf_def)
  qed (use ne b' in auto)
  define w where "w = max_log2 c - b'"
  have w: "max_log2 c - b = d + w" using b' n by (simp add: w_def)
  have "k' < k * 2 ^ d \<or> (k + 1) * 2 ^ d \<le> k'"
    using k by (metis add.commute div_less_iff_less_mult less_Suc_eq_le linorder_neqE_nat nat_less_le
        not_less plus_1_eq_Suc zero_less_numeral zero_less_power)
  then have "k' + 1 \<le> k * 2 ^ d \<or> (k + 1) * 2 ^ d \<le> k'" by auto
  then have "(k' + 1) * 2 ^ w \<le> k * 2 ^ d * 2 ^ w \<or> (k + 1) * 2 ^ d * 2 ^ w \<le> k' * 2 ^ w"
    using mult_le_mono1 by blast
  then show ?thesis by (auto simp: block_at_def w w_def[symmetric] power_add algebra_simps)
qed

lemma leaves_apart:
  assumes "tree_wf L n t" and "n \<le> max_log2 c"
    and "leaf (t b k)" and "leaf (t b' k')" and "(b, k) \<noteq> (b', k')"
  shows "block_at c h b k + 2 ^ (max_log2 c - b) \<le> block_at c h b' k' \<or>
    block_at c h b' k' + 2 ^ (max_log2 c - b') \<le> block_at c h b k"
  using leaves_apart_le[OF assms, of h] leaves_apart_le[OF assms(1,2,4,3), of h] assms(5)
  by (metis nat_le_linear)

text \<open>The flag of a node: exactly one of its children is unused; above the root: the root is in use.\<close>

definition want_flag :: "nat \<Rightarrow> btree \<Rightarrow> nat \<Rightarrow> nat \<Rightarrow> bool" where
  "want_flag L t b k =
     (if b < L then Suc b = L \<and> k = 0 \<and> t L 0 \<noteq> Unused
      else (t (Suc b) (2 * k) = Unused) \<noteq> (t (Suc b) (2 * k + 1) = Unused))"

definition flags_ok :: "buddy_config \<Rightarrow> 'k buddy \<Rightarrow> btree \<Rightarrow> bool" where
  "flags_ok c h t \<longleftrightarrow> length (node_is_split h) = 2 ^ last_bucket c div 8 \<and>
     (\<forall>b k. b < last_bucket c \<longrightarrow> k < 2 ^ b \<longrightarrow> flag h (node_index b k) = want_flag (bucket_limit h) t b k)"

text \<open>Two buddies are never both unused.\<close>

definition merged :: "btree \<Rightarrow> bool" where
  "merged t \<longleftrightarrow> (\<forall>b k. \<not> (t b (2 * k) = Unused \<and> t b (2 * k + 1) = Unused))"

end
