(* ===== verification/BuddyCore.thy ===== *)
theory BuddyCore
  imports BuddyTree
begin

text \<open>
  The invariant of the buddy allocator without its flags, \<open>buddy_core\<close>, and the steps of its operations:
  taking a block off a list, putting one on, dividing a block and merging two.
\<close>

section \<open>Buckets for requests\<close>

lemma unat_u64_power: "s \<le> 63 \<Longrightarrow> unat (2 ^ s :: u64) = 2 ^ s"
proof -
  assume s: "s \<le> 63"
  then have "(2::nat) ^ s < 2 ^ 64" by (intro power_strict_increasing) auto
  with s have "unat (of_nat (2 ^ s) :: u64) = 2 ^ s"
    by (simp only: unsigned_of_nat) (simp add: take_bit_nat_eq_self_iff)
  then show ?thesis by simp
qed

lemma request_loop_ok:
  assumes "unat request \<le> 2 ^ (s + d)" and "s + d \<le> 63"
  shows "\<exists>e\<le>d. request_loop (2 ^ s) bucket request = Some (bucket - of_nat e) \<and> unat request \<le> 2 ^ (s + e)"
  using assms
proof (induction d arbitrary: s bucket)
  case 0
  then have "unat (2 ^ s :: u64) = 2 ^ s" by (intro unat_u64_power) simp
  then show ?case using 0 by (subst request_loop.simps) (simp add: word_less_nat_alt)
next
  case (Suc d)
  have u: "unat (2 ^ s :: u64) = 2 ^ s" using Suc.prems(2) by (intro unat_u64_power) simp
  show ?case
  proof (cases "2 ^ s < request")
    case True
    obtain e where "e \<le> d" "request_loop (2 ^ Suc s) (bucket - 1) request = Some (bucket - 1 - of_nat e)"
      "unat request \<le> 2 ^ (Suc s + e)"
      using Suc.IH[of "Suc s" "bucket - 1"] Suc.prems by auto
    then show ?thesis
      using True by (subst request_loop.simps, intro exI[of _ "Suc e"]) (simp add: mult.commute algebra_simps)
  next
    case False
    then show ?thesis
      using u by (subst request_loop.simps, intro exI[of _ 0]) (simp add: word_less_nat_alt)
  qed
qed

lemma request_loop_zero:
  assumes "request_loop sz bucket request = Some b" and "sz = 0"
  shows "request = 0"
proof -
  have "sz = 0 \<longrightarrow> request = 0"
  proof (rule request_loop.raw_induct
      [OF _ assms(1), where P = "\<lambda>sz bucket request b. sz = 0 \<longrightarrow> request = 0"], goal_cases)
    case (1 rec sz bucket request b)
    then show ?case by (metis mult_zero_left word_gt_0)
  qed
  then show ?thesis using assms(2) by simp
qed

text \<open>A request above \<open>2 ^ 63\<close> is never reached.\<close>

lemma request_loop_huge:
  assumes "2 ^ 63 < unat request" and "s + d = 64"
  shows "request_loop (2 ^ s) bucket request = None"
  using assms(2)
proof (induction d arbitrary: s bucket)
  case 0
  have "(2::u64) ^ s = 0" using 0 by simp
  then show ?case using request_loop_zero[of "2 ^ s" bucket request] assms(1) by fastforce
next
  case (Suc d)
  have "unat (2 ^ s :: u64) = 2 ^ s" using Suc.prems by (intro unat_u64_power) simp
  moreover have "(2::nat) ^ s \<le> 2 ^ 63" using Suc.prems by (intro power_increasing) auto
  ultimately have "2 ^ s < request" using assms(1) by (simp add: word_less_nat_alt)
  then show ?case
    using Suc.IH[of "Suc s" "bucket - 1"] Suc.prems by (subst request_loop.simps) (simp add: mult.commute)
qed

lemma bucket_for_huge: "2 ^ 63 < unat request \<Longrightarrow> min_log2 c \<le> 64 \<Longrightarrow> bucket_for_request c request = None"
  using request_loop_huge[of request "min_log2 c" "64 - min_log2 c"]
  by (simp add: bucket_for_request_def push_bit_eq_mult)

lemma bucket_for_request_ok:
  assumes "config_ok c" and "unat request \<le> 2 ^ max_log2 c"
  shows "\<exists>b\<le>last_bucket c. bucket_for_request c request = Some (of_nat b) \<and> unat request \<le> 2 ^ (max_log2 c - b)"
proof -
  have c: "min_log2 c + last_bucket c = max_log2 c" "max_log2 c < 63" "BUCKET_COUNT c = last_bucket c + 1"
    using assms(1) by (auto simp: config_ok_def last_bucket_def BUCKET_COUNT_def)
  then obtain e where e: "e \<le> last_bucket c" "unat request \<le> 2 ^ (min_log2 c + e)"
    "request_loop (2 ^ min_log2 c) (of_nat (last_bucket c)) request = Some (of_nat (last_bucket c) - of_nat e)"
    using request_loop_ok[of request "min_log2 c" "last_bucket c" "of_nat (last_bucket c)"] assms(2) by auto
  moreover have "max_log2 c - (last_bucket c - e) = min_log2 c + e" using c e(1) by simp
  ultimately show ?thesis
    using c by (intro exI[of _ "last_bucket c - e"]) (simp add: bucket_for_request_def push_bit_eq_mult of_nat_diff)
qed

section \<open>The invariant\<close>

definition buddy_core :: "buddy_config \<Rightarrow> 'k buddy \<Rightarrow> btree \<Rightarrow> (nat \<Rightarrow> nat list) \<Rightarrow> bool" where
  "buddy_core c h t fl \<longleftrightarrow>
     config_ok c \<and> buckets h \<noteq> 0 \<and> 16 dvd base_ptr h + 8 \<and> bucket_at (BUCKET_COUNT c) h \<le> base_ptr h \<and>
     8 dvd buckets h \<and> base_ptr h \<le> max_ptr h \<and> tree_wf (bucket_limit h) (last_bucket c) t \<and>
     free_lists h {bucket_limit h..last_bucket c} fl \<and>
     (\<forall>b\<in>{bucket_limit h..last_bucket c}. set (fl b) = block_at c h b ` {k. t b k = Unused}) \<and>
     (\<forall>b k. t b k = Held \<longrightarrow> node_ok h (block_at c h b k)) \<and>
     (\<forall>b k s. t b k = Used s \<longrightarrow> cells h (block_at c h b k) = s \<and> s < 2 ^ 64 \<and>
        bucket_for_request c (of_nat s + 8) = Some (of_nat b) \<and> block_at c h b k + 2 ^ (max_log2 c - b) \<le> max_ptr h)"

lemma buddy_coreD:
  assumes "buddy_core c h t fl"
  shows "config_ok c" and "buckets h \<noteq> 0" and "16 dvd base_ptr h + 8" and "bucket_at (BUCKET_COUNT c) h \<le> base_ptr h"
    and "tree_wf (bucket_limit h) (last_bucket c) t" and "free_lists h {bucket_limit h..last_bucket c} fl"
    and "bucket_limit h \<le> b \<Longrightarrow> b \<le> last_bucket c \<Longrightarrow> set (fl b) = block_at c h b ` {k. t b k = Unused}"
    and "t b k = Held \<Longrightarrow> node_ok h (block_at c h b k)"
    and "t b k = Used s \<Longrightarrow> cells h (block_at c h b k) = s \<and> s < 2 ^ 64 \<and>
        bucket_for_request c (of_nat s + 8) = Some (of_nat b) \<and> block_at c h b k + 2 ^ (max_log2 c - b) \<le> max_ptr h"
    and "8 dvd buckets h" and "base_ptr h \<le> max_ptr h"
  using assms by (auto simp: buddy_core_def)

lemma block_at_cells [buddy_simps]:
  "block_at c (h\<lparr>cells := m\<rparr>) b k = block_at c h b k"
  "block_at c (h\<lparr>node_is_split := s\<rparr>) b k = block_at c h b k"
  "block_at c (h\<lparr>bucket_limit := l\<rparr>) b k = block_at c h b k"
  "block_at c (h\<lparr>max_ptr := p, kernel := x\<rparr>) b k = block_at c h b k"
  "bucket_at b (h\<lparr>node_is_split := s\<rparr>) = bucket_at b h"
  "bucket_at b (h\<lparr>bucket_limit := l\<rparr>) = bucket_at b h"
  "bucket_at b (h\<lparr>max_ptr := p, kernel := x\<rparr>) = bucket_at b h"
  "node_ok (h\<lparr>node_is_split := s\<rparr>) a = node_ok h a"
  "node_ok (h\<lparr>bucket_limit := l\<rparr>) a = node_ok h a"
  "free_nodes (h\<lparr>node_is_split := s\<rparr>) R fl = free_nodes h R fl"
  "free_nodes (h\<lparr>bucket_limit := l\<rparr>) R fl = free_nodes h R fl"
  "free_nodes (h\<lparr>max_ptr := p, kernel := x\<rparr>) R fl = free_nodes h R fl"
  "free_lists (h\<lparr>node_is_split := s\<rparr>) R fl = free_lists h R fl"
  "free_lists (h\<lparr>bucket_limit := l\<rparr>) R fl = free_lists h R fl"
  "flag (h\<lparr>cells := m\<rparr>) = flag h"
  by (simp_all add: block_at_def bucket_at_def node_ok_def mem_ok_def free_nodes_def free_lists_def flag_def fun_eq_iff)

lemma block_large:
  assumes "config_ok c" and "b \<le> last_bucket c"
  shows "16 \<le> (2::nat) ^ (max_log2 c - b)" and "16 dvd (2::nat) ^ (max_log2 c - b)"
proof -
  have "4 \<le> max_log2 c - b" using assms by (auto simp: config_ok_def last_bucket_def)
  then have "(2::nat) ^ 4 dvd 2 ^ (max_log2 c - b)" by (rule le_imp_power_dvd)
  then show "16 dvd (2::nat) ^ (max_log2 c - b)" by simp
  then show "16 \<le> (2::nat) ^ (max_log2 c - b)" by (intro dvd_imp_le) auto
qed

lemma block_aligned:
  assumes "buddy_core c h t fl" and "b \<le> last_bucket c"
  shows "16 dvd block_at c h b k + 8" and "base_ptr h \<le> block_at c h b k" and "block_at c h b k \<noteq> 0"
proof -
  note D = buddy_coreD(1-4)[OF assms(1)]
  have "block_at c h b k + 8 = (base_ptr h + 8) + k * 2 ^ (max_log2 c - b)" by (simp add: block_at_def)
  then show "16 dvd block_at c h b k + 8"
    using D(3) dvd_mult[OF block_large(2)[OF D(1) assms(2)], of k] by (simp only: dvd_add)
  show "base_ptr h \<le> block_at c h b k" by (simp add: block_at_def)
  then show "block_at c h b k \<noteq> 0" using D(2,4) by (simp add: bucket_at_def)
qed

lemma leaf_simps [simp]: "leaf Unused" "leaf Held" "leaf (Used s)" "\<not> leaf Absent" "\<not> leaf Divided"
  by (simp_all add: leaf_def)

lemma tree_wf_leaf:
  assumes "tree_wf L n t" and "leaf x" and "leaf (t b k)"
  shows "tree_wf L n (set_node b k x t)"
  using assms by (fastforce simp: tree_wf_def leaf_def)

lemma leaf_blocks:
  assumes core: "buddy_core c h t fl" and l: "leaf (t b k)" "leaf (t b' k')" "(b, k) \<noteq> (b', k')"
  shows "block_at c h b k + 2 ^ (max_log2 c - b) \<le> block_at c h b' k' \<or>
    block_at c h b' k' + 2 ^ (max_log2 c - b') \<le> block_at c h b k"
proof (rule leaves_apart[OF buddy_coreD(5)[OF core] _ l])
  show "last_bucket c \<le> max_log2 c" by (simp add: last_bucket_def)
qed

lemma leaf_bucket:
  assumes core: "buddy_core c h t fl" and l: "leaf (t b k)"
  shows "bucket_limit h \<le> b" and "b \<le> last_bucket c" and "16 \<le> (2::nat) ^ (max_log2 c - b)"
  using tree_range[OF buddy_coreD(5)[OF core], of b k] l block_large[OF buddy_coreD(1)[OF core]]
  by (auto simp: leaf_def)

lemma block_inj:
  assumes core: "buddy_core c h t fl" and l: "leaf (t b k)" "leaf (t b' k')" and eq: "block_at c h b k = block_at c h b' k'"
  shows "b = b' \<and> k = k'"
  using leaf_blocks[OF core l] eq leaf_bucket[OF core l(1)] leaf_bucket[OF core l(2)] by fastforce

section \<open>Heads and free blocks\<close>

lemma free_node_cases:
  assumes core: "buddy_core c h t fl" and x: "x \<in> free_nodes h {bucket_limit h..last_bucket c} fl"
  obtains (head) b where "x = bucket_at b h" and "b \<le> last_bucket c" and "x + 16 \<le> base_ptr h"
  | (block) b k where "x = block_at c h b k" and "t b k = Unused"
proof -
  have "bucket_at b h + 16 \<le> base_ptr h" if "b \<le> last_bucket c" for b
  proof -
    have "Suc b \<le> BUCKET_COUNT c" using that by (simp add: BUCKET_COUNT_def last_bucket_def)
    then have "bucket_at (Suc b) h \<le> bucket_at (BUCKET_COUNT c) h" by (simp add: bucket_at_def LIST_SIZE_def)
    then show ?thesis using buddy_coreD(4)[OF core] by (simp add: bucket_at_def LIST_SIZE_def)
  qed
  then show ?thesis
    using x buddy_coreD(7)[OF core] head block unfolding free_nodes_def by fastforce
qed

text \<open>A block that is not on a list is apart from everything that is.\<close>

lemma held_apart:
  assumes core: "buddy_core c h t fl" and l: "leaf (t b k)" "t b k \<noteq> Unused"
    and x: "x \<in> free_nodes h {bucket_limit h..last_bucket c} fl"
  shows "x + 16 \<le> block_at c h b k \<or> block_at c h b k + 2 ^ (max_log2 c - b) \<le> x"
  using core x
proof (cases rule: free_node_cases)
  case (head b')
  then show ?thesis using block_aligned(2)[OF core leaf_bucket(2)[OF core l(1)], of k] by simp
next
  case (block b' k')
  then show ?thesis
    using leaf_blocks[OF core l(1), of b' k'] leaf_bucket(3)[OF core, of b' k'] l by fastforce
qed

lemma held_new:
  assumes core: "buddy_core c h t fl" and l: "leaf (t b k)" "t b k \<noteq> Unused"
  shows "block_at c h b k \<notin> free_nodes h {bucket_limit h..last_bucket c} fl"
    and "apart (insert (block_at c h b k) (free_nodes h {bucket_limit h..last_bucket c} fl))"
proof -
  note a = held_apart[OF core l] leaf_bucket(3)[OF core l(1)]
  show "block_at c h b k \<notin> free_nodes h {bucket_limit h..last_bucket c} fl"
    using a by force
  have "apart (free_nodes h {bucket_limit h..last_bucket c} fl)"
    using buddy_coreD(6)[OF core] by (simp add: free_lists_def)
  then show "apart (insert (block_at c h b k) (free_nodes h {bucket_limit h..last_bucket c} fl))"
    using a unfolding apart_def by fastforce
qed

text \<open>What a step may change: nothing within the blocks that are handed out.\<close>

definition kept :: "buddy_config \<Rightarrow> btree \<Rightarrow> 'k buddy \<Rightarrow> (nat \<Rightarrow> nat) \<Rightarrow> bool" where
  "kept c t h m \<longleftrightarrow> (\<forall>b k s a. t b k = Used s \<longrightarrow> block_at c h b k \<le> a \<longrightarrow>
     a < block_at c h b k + 2 ^ (max_log2 c - b) \<longrightarrow> m a = cells h a)"

lemma keptI:
  assumes core: "buddy_core c h t fl"
    and m: "\<forall>a. a \<notin> words_of (free_nodes h {bucket_limit h..last_bucket c} fl \<union> {block_at c h b k |b k. t b k = Held}) \<longrightarrow>
      m a = cells h a"
  shows "kept c t h m"
  unfolding kept_def
proof (intro allI impI)
  fix b k s a
  assume u: "t b k = Used s" and a: "block_at c h b k \<le> a" "a < block_at c h b k + 2 ^ (max_log2 c - b)"
  have "a \<noteq> x \<and> a \<noteq> x + 8"
    if "x \<in> free_nodes h {bucket_limit h..last_bucket c} fl \<union> {block_at c h b k |b k. t b k = Held}" for x
  proof -
    have "x + 16 \<le> block_at c h b k \<or> block_at c h b k + 2 ^ (max_log2 c - b) \<le> x"
      using that
    proof
      assume "x \<in> free_nodes h {bucket_limit h..last_bucket c} fl"
      then show ?thesis using held_apart[OF core _ _ , of b k x] u by simp
    next
      assume "x \<in> {block_at c h b k |b k. t b k = Held}"
      then obtain b' k' where "x = block_at c h b' k'" "t b' k' = Held" by blast
      then show ?thesis
        using leaf_blocks[OF core, of b' k' b k] leaf_bucket(3)[OF core, of b' k'] u by fastforce
    qed
    then show ?thesis using a by auto
  qed
  then show "m a = cells h a" using m unfolding words_of_def by blast
qed

section \<open>Steps\<close>

lemma core_step:
  assumes core: "buddy_core c h t fl" and k: "kept c t h m"
    and fl: "free_lists (h\<lparr>cells := m\<rparr>) {bucket_limit h..last_bucket c} fl'"
    and wf: "tree_wf (bucket_limit h) (last_bucket c) t'"
    and used: "\<And>b k s. t' b k = Used s \<Longrightarrow> t b k = Used s"
    and held: "\<And>b k. t' b k = Held \<Longrightarrow> node_ok h (block_at c h b k)"
    and sets: "\<And>b. b \<in> {bucket_limit h..last_bucket c} \<Longrightarrow> set (fl' b) = block_at c h b ` {k. t' b k = Unused}"
  shows "buddy_core c (h\<lparr>cells := m\<rparr>) t' fl'"
proof -
  have "m (block_at c h b k) = s" if "t' b k = Used s" for b k s
  proof -
    have "leaf (t b k)" "t b k = Used s" using used[OF that] by simp_all
    then show ?thesis
      using k leaf_bucket(3)[OF core, of b k] buddy_coreD(9)[OF core, of b k s] unfolding kept_def by force
  qed
  then show ?thesis
    using core fl wf held sets used unfolding buddy_core_def by (auto simp: buddy_simps dest!: used)
qed

lemma unused_listed:
  assumes core: "buddy_core c h t fl" and u: "t b k = Unused"
  shows "b \<in> {bucket_limit h..last_bucket c}" and "block_at c h b k \<in> set (fl b)"
    and "node_ok h (block_at c h b k)"
proof -
  show b: "b \<in> {bucket_limit h..last_bucket c}" using leaf_bucket[OF core, of b k] u by simp
  then show x: "block_at c h b k \<in> set (fl b)" using buddy_coreD(7)[OF core, of b] u by auto
  then have "block_at c h b k \<in> free_nodes h {bucket_limit h..last_bucket c} fl"
    using free_nodesI[OF b, of "block_at c h b k" h fl] by simp
  then show "node_ok h (block_at c h b k)" using buddy_coreD(6)[OF core] unfolding free_lists_def by blast
qed

lemma push_held:
  assumes core: "buddy_core c h t fl" and x: "t b k = Held"
  shows "\<exists>m fl'. blist_push (bucket_at b h) (block_at c h b k) h = Some (h\<lparr>cells := m\<rparr>) \<and>
    buddy_core c (h\<lparr>cells := m\<rparr>) (set_node b k Unused t) fl' \<and> kept c t h m"
proof -
  let ?R = "{bucket_limit h..last_bucket c}" and ?e = "block_at c h b k"
  have l: "leaf (t b k)" "t b k \<noteq> Unused" using x by auto
  have b: "b \<in> ?R" using leaf_bucket[OF core l(1)] by simp
  obtain m where m: "blist_push (bucket_at b h) ?e h = Some (h\<lparr>cells := m\<rparr>)"
    "free_lists (h\<lparr>cells := m\<rparr>) ?R (fl(b := fl b @ [?e]))"
    "\<forall>a. a \<notin> words_of (insert ?e (free_nodes h ?R fl)) \<longrightarrow> m a = cells h a"
    using free_push[OF buddy_coreD(6)[OF core] b held_new[OF core l] buddy_coreD(8)[OF core x]] by blast
  have kept: "kept c t h m"
  proof (rule keptI[OF core])
    have "insert ?e (free_nodes h ?R fl) \<subseteq> free_nodes h ?R fl \<union> {block_at c h b k |b k. t b k = Held}"
      using x by blast
    then show "\<forall>a. a \<notin> words_of (free_nodes h ?R fl \<union> {block_at c h b k |b k. t b k = Held}) \<longrightarrow> m a = cells h a"
      using m(3) words_of_mono by blast
  qed
  have "buddy_core c (h\<lparr>cells := m\<rparr>) (set_node b k Unused t) (fl(b := fl b @ [?e]))"
  proof (rule core_step[OF core kept m(2)])
    show "tree_wf (bucket_limit h) (last_bucket c) (set_node b k Unused t)"
      by (rule tree_wf_leaf[OF buddy_coreD(5)[OF core] _ l(1)]) simp
    show "set ((fl(b := fl b @ [?e])) b') = block_at c h b' ` {k'. set_node b k Unused t b' k' = Unused}"
      if "b' \<in> ?R" for b'
      using buddy_coreD(7)[OF core, of b'] that by (cases "b' = b") (auto simp: image_iff split: if_splits)
  qed (use buddy_coreD(8)[OF core] in \<open>auto split: if_splits\<close>)
  then show ?thesis using m(1) kept by blast
qed

lemma taken_core:
  assumes core: "buddy_core c h t fl" and x: "t b k = Unused"
    and fl: "free_lists (h\<lparr>cells := m\<rparr>) {bucket_limit h..last_bucket c} (fl(b := xs))"
    and m: "\<forall>a. a \<notin> words_of (free_nodes h {bucket_limit h..last_bucket c} fl) \<longrightarrow> m a = cells h a"
    and xs: "set xs = set (fl b) - {block_at c h b k}"
  shows "buddy_core c (h\<lparr>cells := m\<rparr>) (set_node b k Held t) (fl(b := xs))" and "kept c t h m"
proof -
  let ?R = "{bucket_limit h..last_bucket c}"
  show kept: "kept c t h m"
    by (rule keptI[OF core]) (use m words_of_mono[of "free_nodes h ?R fl"] in blast)
  have l: "leaf (t b k)" using x by simp
  show "buddy_core c (h\<lparr>cells := m\<rparr>) (set_node b k Held t) (fl(b := xs))"
  proof (rule core_step[OF core kept fl])
    show "tree_wf (bucket_limit h) (last_bucket c) (set_node b k Held t)"
      by (rule tree_wf_leaf[OF buddy_coreD(5)[OF core] _ l]) simp
    show "node_ok h (block_at c h b' k')" if "set_node b k Held t b' k' = Held" for b' k'
      using that unused_listed(3)[OF core x] buddy_coreD(8)[OF core] by (auto split: if_splits)
    show "set ((fl(b := xs)) b') = block_at c h b' ` {k'. set_node b k Held t b' k' = Unused}"
      if "b' \<in> ?R" for b'
    proof (cases "b' = b")
      case True
      have "k' = k" if "t b k' = Unused" "block_at c h b k' = block_at c h b k" for k'
        using block_inj[OF core _ l that(2)] that(1) by simp
      then show ?thesis using True xs buddy_coreD(7)[OF core, of b] \<open>b' \<in> ?R\<close> by auto
    next
      case False
      then show ?thesis using buddy_coreD(7)[OF core, of b'] \<open>b' \<in> ?R\<close> by auto
    qed
  qed (auto split: if_splits)
qed

lemma remove_unused:
  assumes core: "buddy_core c h t fl" and x: "t b k = Unused"
  shows "\<exists>m fl'. blist_remove (block_at c h b k) h = Some (h\<lparr>cells := m\<rparr>) \<and>
    buddy_core c (h\<lparr>cells := m\<rparr>) (set_node b k Held t) fl' \<and> kept c t h m"
proof -
  note u = unused_listed[OF core x]
  obtain m where m: "blist_remove (block_at c h b k) h = Some (h\<lparr>cells := m\<rparr>)"
    "free_lists (h\<lparr>cells := m\<rparr>) {bucket_limit h..last_bucket c} (fl(b := remove1 (block_at c h b k) (fl b)))"
    "\<forall>a. a \<notin> words_of (free_nodes h {bucket_limit h..last_bucket c} fl) \<longrightarrow> m a = cells h a"
    using free_remove[OF buddy_coreD(6)[OF core] u(1,2)] by blast
  have "distinct (fl b)" using buddy_coreD(6)[OF core] u(1) by (auto simp: free_lists_def)
  then have "set (remove1 (block_at c h b k) (fl b)) = set (fl b) - {block_at c h b k}" by simp
  from taken_core[OF core x m(2,3) this] show ?thesis using m(1) by blast
qed

lemma pop_unused:
  assumes core: "buddy_core c h t fl" and b: "bucket_limit h \<le> b" "b \<le> last_bucket c"
  shows "(if \<forall>k. t b k \<noteq> Unused then blist_pop (bucket_at b h) h = Some (h, 0)
    else \<exists>m k fl'. t b k = Unused \<and> blist_pop (bucket_at b h) h = Some (h\<lparr>cells := m\<rparr>, block_at c h b k) \<and>
      buddy_core c (h\<lparr>cells := m\<rparr>) (set_node b k Held t) fl' \<and> kept c t h m)"
proof -
  have R: "b \<in> {bucket_limit h..last_bucket c}" using b by simp
  have s: "set (fl b) = block_at c h b ` {k. t b k = Unused}" using buddy_coreD(7)[OF core b] .
  note pop = free_pop[OF buddy_coreD(6)[OF core] R]
  show ?thesis
  proof (cases "fl b = []")
    case True
    then show ?thesis using s pop by auto
  next
    case False
    then obtain ys k where ys: "fl b = ys @ [block_at c h b k]" and k: "t b k = Unused"
      using s by (cases "fl b" rule: rev_cases) auto
    then obtain m where m: "blist_pop (bucket_at b h) h = Some (h\<lparr>cells := m\<rparr>, block_at c h b k)"
      "free_lists (h\<lparr>cells := m\<rparr>) {bucket_limit h..last_bucket c} (fl(b := ys))"
      "\<forall>a. a \<notin> words_of (free_nodes h {bucket_limit h..last_bucket c} fl) \<longrightarrow> m a = cells h a"
      using pop by auto
    have "distinct (fl b)" using buddy_coreD(6)[OF core] R by (auto simp: free_lists_def)
    then have "set ys = set (fl b) - {block_at c h b k}" using ys by auto
    from taken_core[OF core k m(2,3) this] show ?thesis using m(1) k by auto
  qed
qed

text \<open>The fields that the tree does not speak about.\<close>

lemma core_flags: "buddy_core c h t fl \<Longrightarrow> buddy_core c (h\<lparr>node_is_split := s\<rparr>) t fl"
  by (simp add: buddy_core_def buddy_simps)

lemma core_max:
  assumes "buddy_core c h t fl" and "max_ptr h \<le> p"
  shows "buddy_core c (h\<lparr>max_ptr := p, kernel := x\<rparr>) t fl"
proof -
  have "node_ok (h\<lparr>max_ptr := p, kernel := x\<rparr>) a" if "node_ok h a" for a
    using that assms(2) by (auto simp: node_ok_def mem_ok_def)
  then show ?thesis
    using assms unfolding buddy_core_def free_lists_def by (fastforce simp: buddy_simps)
qed

end
