(* ===== verification/BuddyOps.thy ===== *)
theory BuddyOps
  imports BuddyCore
begin

text \<open>
  The operations of the buddy allocator on its invariant: dividing and merging blocks, growing the
  tree at its root, the split flags along, and the loops that are made of these steps.
\<close>

section \<open>Dividing and merging\<close>

definition divide_node :: "nat \<Rightarrow> nat \<Rightarrow> btree \<Rightarrow> btree" where
  "divide_node b k t = set_node b k Divided (set_node (Suc b) (2 * k) Held (set_node (Suc b) (2 * k + 1) Held t))"

definition merge_node :: "nat \<Rightarrow> nat \<Rightarrow> btree \<Rightarrow> btree" where
  "merge_node b k t = set_node b k Held (set_node (Suc b) (2 * k) Absent (set_node (Suc b) (2 * k + 1) Absent t))"

lemma half_cases: "k div 2 = j \<longleftrightarrow> k = 2 * j \<or> k = 2 * j + (1::nat)"
  by auto

lemma divide_node_apply:
  "divide_node b k t b' k' =
     (if b' = b \<and> k' = k then Divided else if b' = Suc b \<and> k' div 2 = k then Held else t b' k')"
  by (auto simp: divide_node_def half_cases)

lemma merge_node_apply:
  "merge_node b k t b' k' =
     (if b' = b \<and> k' = k then Held else if b' = Suc b \<and> k' div 2 = k then Absent else t b' k')"
  by (auto simp: merge_node_def half_cases)

lemma divide_wf:
  assumes wf: "tree_wf L n t" and l: "leaf (t b k)" and b: "b < n"
  shows "tree_wf L n (divide_node b k t)"
proof -
  have L: "L \<le> b" using tree_range[OF wf, of b k] l by (auto simp: leaf_def)
  have kids: "t (Suc b) k' = Absent" if "k' div 2 = k" for k'
    using tree_wfD(5)[OF wf L, of k'] l that by (auto simp: leaf_def)
  have "divide_node b k t (Suc b') k' \<noteq> Absent \<longleftrightarrow> divide_node b k t b' (k' div 2) = Divided"
    if b': "L \<le> b'" for b' k'
    using tree_wfD(5)[OF wf b', of k'] l kids unfolding divide_node_apply by (auto simp: leaf_def)
  then show ?thesis
    using wf L b l unfolding tree_wf_def by (auto simp: divide_node_apply leaf_def)
qed

lemma merge_wf:
  assumes wf: "tree_wf L n t" and l: "leaf (t (Suc b) (2 * k))" "leaf (t (Suc b) (2 * k + 1))" and L: "L \<le> b"
  shows "tree_wf L n (merge_node b k t)"
proof -
  have p: "t b k = Divided" using tree_wfD(5)[OF wf L, of "2 * k"] l by (auto simp: leaf_def)
  have kids: "t (Suc (Suc b)) k' = Absent" if "k' div 2 = 2 * k \<or> k' div 2 = 2 * k + 1" for k'
    using that tree_wfD(5)[OF wf, of "Suc b" k'] L l by (auto simp: leaf_def)
  have "merge_node b k t (Suc b') k' \<noteq> Absent \<longleftrightarrow> merge_node b k t b' (k' div 2) = Divided"
    if b': "L \<le> b'" for b' k'
    using tree_wfD(5)[OF wf b', of k'] kids[of k'] p half_cases[of "k' div 2" k]
    unfolding merge_node_apply by auto
  moreover have "b \<le> n" using tree_range[OF wf, of b k] p by auto
  ultimately show ?thesis
    using wf L p unfolding tree_wf_def by (auto simp: merge_node_apply)
qed

lemma block_children:
  assumes "b < max_log2 c"
  shows "block_at c h (Suc b) (2 * k) = block_at c h b k"
    and "block_at c h (Suc b) (2 * k + 1) = block_at c h b k + 2 ^ (max_log2 c - b) div 2"
proof -
  have "max_log2 c - b = Suc (max_log2 c - Suc b)" using assms by simp
  then have "(2::nat) ^ (max_log2 c - b) = 2 * 2 ^ (max_log2 c - Suc b)" by simp
  then show "block_at c h (Suc b) (2 * k) = block_at c h b k"
    "block_at c h (Suc b) (2 * k + 1) = block_at c h b k + 2 ^ (max_log2 c - b) div 2"
    by (simp_all add: block_at_def algebra_simps)
qed

text \<open>A tree with the same blocks on the lists needs no change of the memory.\<close>

lemma core_tree:
  assumes core: "buddy_core c h t fl" and wf: "tree_wf (bucket_limit h) (last_bucket c) t'"
    and "\<And>b k. t' b k = Unused \<longleftrightarrow> t b k = Unused" and "\<And>b k s. t' b k = Used s \<Longrightarrow> t b k = Used s"
    and "\<And>b k. t' b k = Held \<Longrightarrow> node_ok h (block_at c h b k)"
  shows "buddy_core c h t' fl"
  using assms unfolding buddy_core_def by (auto dest: assms(4))

lemma divide_held:
  assumes core: "buddy_core c h t fl" and x: "t b k = Held" and b: "b < last_bucket c"
    and ok: "node_ok h (block_at c h (Suc b) (2 * k + 1))"
  shows "buddy_core c h (divide_node b k t) fl"
proof -
  have m: "b < max_log2 c" using b by (simp add: last_bucket_def)
  have L: "bucket_limit h \<le> b" using leaf_bucket(1)[OF core, of b k] x by simp
  have kids: "t (Suc b) (2 * k) = Absent" "t (Suc b) (2 * k + 1) = Absent"
    using tree_wfD(5)[OF buddy_coreD(5)[OF core] L, of "2 * k"]
      tree_wfD(5)[OF buddy_coreD(5)[OF core] L, of "2 * k + 1"] x by auto
  show ?thesis
  proof (rule core_tree[OF core])
    show "tree_wf (bucket_limit h) (last_bucket c) (divide_node b k t)"
      using divide_wf[OF buddy_coreD(5)[OF core] _ b] x by simp
    show "node_ok h (block_at c h b' k')" if "divide_node b k t b' k' = Held" for b' k'
      using that ok buddy_coreD(8)[OF core] x block_children(1)[OF m, of h k]
      by (auto simp: divide_node_def split: if_splits)
  qed (use kids x in \<open>auto simp: divide_node_def split: if_splits\<close>)
qed

lemma merge_held:
  assumes core: "buddy_core c h t fl" and x: "t (Suc b) (2 * k) = Held" "t (Suc b) (2 * k + 1) = Held"
    and L: "bucket_limit h \<le> b"
  shows "buddy_core c h (merge_node b k t) fl"
proof -
  have m: "b < max_log2 c" using leaf_bucket(2)[OF core, of "Suc b" "2 * k"] x by (simp add: last_bucket_def)
  have p: "t b k = Divided" using tree_wfD(5)[OF buddy_coreD(5)[OF core] L, of "2 * k"] x by auto
  show ?thesis
  proof (rule core_tree[OF core])
    show "tree_wf (bucket_limit h) (last_bucket c) (merge_node b k t)"
      using merge_wf[OF buddy_coreD(5)[OF core] _ _ L] x by simp
    show "node_ok h (block_at c h b' k')" if "merge_node b k t b' k' = Held" for b' k'
      using that buddy_coreD(8)[OF core] x(1) block_children(1)[OF m, of h k]
      by (auto simp: merge_node_def split: if_splits) metis
  qed (use p x in \<open>auto simp: merge_node_def split: if_splits\<close>)
qed

lemma retrieve_used:
  assumes core: "buddy_core c h t fl" and x: "t b k = Used s"
  shows "buddy_core c h (set_node b k Held t) fl"
proof (rule core_tree[OF core])
  show "tree_wf (bucket_limit h) (last_bucket c) (set_node b k Held t)"
    using tree_wf_leaf[OF buddy_coreD(5)[OF core]] x by simp
  have "8 dvd block_at c h b k" "buckets h \<le> block_at c h b k"
    using block_aligned[OF core leaf_bucket(2)[OF core, of b k], of k] x buddy_coreD(4)[OF core]
    by (simp_all add: bucket_at_def) presburger
  then have "node_ok h (block_at c h b k)"
    using buddy_coreD(9)[OF core x] leaf_bucket(3)[OF core, of b k] x by (simp add: node_ok_def mem_ok_def)
  then show "node_ok h (block_at c h b' k')" if "set_node b k Held t b' k' = Held" for b' k'
    using that buddy_coreD(8)[OF core] by (auto split: if_splits)
qed (use x in \<open>auto split: if_splits\<close>)

lemma hand_out:
  assumes core: "buddy_core c h t fl" and x: "t b k = Held" and s: "s < 2 ^ 64"
    and bucket: "bucket_for_request c (of_nat s + 8) = Some (of_nat b)"
    and max: "block_at c h b k + 2 ^ (max_log2 c - b) \<le> max_ptr h"
  shows "\<exists>m. st (block_at c h b k) s h = Some (h\<lparr>cells := m\<rparr>) \<and>
    buddy_core c (h\<lparr>cells := m\<rparr>) (set_node b k (Used s) t) fl \<and> kept c t h m"
proof -
  let ?a = "block_at c h b k" and ?R = "{bucket_limit h..last_bucket c}"
  define m where "m = (cells h)(?a := s)"
  have l: "leaf (t b k)" "t b k \<noteq> Unused" using x by simp_all
  have kept: "kept c t h m"
    by (rule keptI[OF core]) (use x in \<open>auto simp: words_of_def m_def\<close>)
  have free: "free_lists (h\<lparr>cells := m\<rparr>) ?R fl"
  proof -
    have eq: "\<forall>a. m a \<noteq> cells h a \<longrightarrow> a \<in> words_of {?a}" by (auto simp: m_def words_of_def)
    have "ring m (bucket_at b' h) (fl b')" if b': "b' \<in> ?R" for b'
    proof (rule ring_frame[OF _ eq])
      have sub: "set (bucket_at b' h # fl b') \<subseteq> free_nodes h ?R fl" using free_nodesI[OF b'] by blast
      then show "apart ({?a} \<union> set (bucket_at b' h # fl b'))" "{?a} \<inter> set (bucket_at b' h # fl b') = {}"
        using held_new[OF core l] by (auto intro: apart_mono)
      show "ring (cells h) (bucket_at b' h) (fl b')" using buddy_coreD(6)[OF core] b' by (simp add: free_lists_def)
    qed
    then show ?thesis using buddy_coreD(6)[OF core] by (simp add: free_lists_def buddy_simps)
  qed
  have core': "buddy_core c (h\<lparr>cells := m\<rparr>) t fl"
    by (rule core_step[OF core kept free buddy_coreD(5)[OF core]])
      (use buddy_coreD(7,8)[OF core] in \<open>auto\<close>)
  have "tree_wf (bucket_limit h) (last_bucket c) (set_node b k (Used s) t)"
    using tree_wf_leaf[OF buddy_coreD(5)[OF core] _ l(1), of "Used s"] by simp
  then have "buddy_core c (h\<lparr>cells := m\<rparr>) (set_node b k (Used s) t) fl"
    using core' x s bucket max unfolding buddy_core_def by (auto simp: buddy_simps m_def)
  moreover have "st ?a s h = Some (h\<lparr>cells := m\<rparr>)"
    using buddy_coreD(8)[OF core x] by (simp add: st_def node_ok_def m_def)
  ultimately show ?thesis using kept by blast
qed

section \<open>Growing at the root\<close>

lemma root_leaf:
  assumes wf: "tree_wf L n t" and l: "leaf (t L 0)" and x: "t b k \<noteq> Absent"
  shows "b = L \<and> k = 0"
proof (cases "b = L")
  case True
  then show ?thesis using tree_wfD(4)[OF wf] x by auto
next
  case False
  then obtain d where d: "b = L + Suc d"
    using tree_range[OF wf x] by (metis le_eq_less_or_eq less_imp_Suc_add add_Suc_right)
  then have a: "t L (k div 2 ^ Suc d) = Divided" using tree_ancestor[OF wf order_refl, of d k] x by simp
  then have "k div 2 ^ Suc d = 0" using tree_wfD(4)[OF wf] by fastforce
  then show ?thesis using a l by (simp add: leaf_def)
qed

text \<open>All blocks lie below the right sibling of the root.\<close>

lemma block_below:
  assumes core: "buddy_core c h t fl" and l: "leaf (t b k)"
  shows "block_at c h b k + 2 ^ (max_log2 c - b) \<le> block_at c h (bucket_limit h) 1"
proof -
  define d where "d = b - bucket_limit h"
  note b = leaf_bucket[OF core l]
  have "b = bucket_limit h + d" using b(1) by (simp add: d_def)
  then have "k < 2 ^ d" using tree_position[OF buddy_coreD(5)[OF core], of d k] l by (auto simp: leaf_def)
  then have "(k + 1) * 2 ^ (max_log2 c - b) \<le> 2 ^ d * 2 ^ (max_log2 c - b)" by (intro mult_le_mono1) simp
  moreover have "max_log2 c - bucket_limit h = d + (max_log2 c - b)"
    using b by (simp add: d_def last_bucket_def)
  ultimately show ?thesis by (simp add: block_at_def power_add)
qed

lemma apart_insert:
  assumes "free_lists h R fl" and "\<And>x. x \<in> free_nodes h R fl \<Longrightarrow> e + 16 \<le> x \<or> x + 16 \<le> e"
  shows "e \<notin> free_nodes h R fl" and "apart (insert e (free_nodes h R fl))"
proof -
  have a: "apart (free_nodes h R fl)" using assms(1) by (simp add: free_lists_def)
  show "e \<notin> free_nodes h R fl" using assms(2)[of e] by auto
  have "e + 8 \<noteq> x \<and> x + 8 \<noteq> e" if "x \<in> free_nodes h R fl" for x using assms(2)[OF that] by auto
  then show "apart (insert e (free_nodes h R fl))" using a by (simp add: apart_def)
qed

lemma clear_bucket:
  assumes geo: "8 dvd buckets h" "bucket_at (BUCKET_COUNT c) h \<le> base_ptr h" "base_ptr h \<le> max_ptr h"
    and l: "l < last_bucket c" and fl: "free_lists h {Suc l..last_bucket c} fl"
    and base: "\<And>b x. b \<in> {Suc l..last_bucket c} \<Longrightarrow> x \<in> set (fl b) \<Longrightarrow> base_ptr h \<le> x"
  shows "\<exists>m. blist_clear (bucket_at l h) h = Some (h\<lparr>cells := m\<rparr>) \<and>
    free_lists (h\<lparr>cells := m\<rparr>) {l..last_bucket c} (fl(l := [])) \<and>
    (\<forall>a. a \<notin> words_of {bucket_at l h} \<longrightarrow> m a = cells h a)"
proof -
  let ?l = "bucket_at l h" and ?N = "free_nodes h {Suc l..last_bucket c} fl"
  have "Suc l \<le> BUCKET_COUNT c" using l by (simp add: BUCKET_COUNT_def last_bucket_def)
  then have "bucket_at (Suc l) h \<le> bucket_at (BUCKET_COUNT c) h" by (simp add: bucket_at_def LIST_SIZE_def)
  then have head: "?l + 16 \<le> base_ptr h" using geo(2) by (simp add: bucket_at_def LIST_SIZE_def)
  have N: "?l + 16 \<le> x" if "x \<in> ?N" for x
    using that head base unfolding free_nodes_def by (fastforce simp: bucket_at_def LIST_SIZE_def)
  have ok: "node_ok h ?l"
    using head geo(1,3) by (simp add: node_ok_def mem_ok_def) (simp add: bucket_at_def LIST_SIZE_def dvd_add)
  have "insert l {Suc l..last_bucket c} = {l..last_bucket c}" using l by auto
  then show ?thesis using free_clear[OF fl apart_insert[OF fl disjI1[OF N]] ok] by simp
qed

lemma grow_unused:
  assumes core: "buddy_core c h t fl" and L: "bucket_limit h = Suc l" and x: "t (Suc l) 0 = Held"
  shows "\<exists>m fl'. blist_clear (bucket_at l (h\<lparr>bucket_limit := l\<rparr>)) (h\<lparr>bucket_limit := l\<rparr>) =
      Some (h\<lparr>bucket_limit := l, cells := m\<rparr>) \<and> kept c t h m \<and>
    buddy_core c (h\<lparr>bucket_limit := l, cells := m\<rparr>) (set_node l 0 Held (set_node (Suc l) 0 Absent t)) fl'"
proof -
  let ?h = "h\<lparr>bucket_limit := l\<rparr>" and ?t = "set_node l 0 Held (set_node (Suc l) 0 Absent t)"
  note D = buddy_coreD[OF core]
  have only: "b = Suc l \<and> k = 0" if "t b k \<noteq> Absent" for b k
    using root_leaf[OF D(5), of b k] that x L by simp
  have l: "l < last_bucket c" using tree_wfD(1)[OF D(5)] L by simp
  have "t b k \<noteq> Unused" for b k using only[of b k] x by auto
  then have none: "fl b = []" if "b \<in> {Suc l..last_bucket c}" for b
    using D(7)[of b] that L by simp
  have "free_lists ?h {Suc l..last_bucket c} fl" using D(6) L by (simp add: buddy_simps)
  then obtain m where m: "blist_clear (bucket_at l ?h) ?h = Some (?h\<lparr>cells := m\<rparr>)"
    "free_lists (?h\<lparr>cells := m\<rparr>) {l..last_bucket c} (fl(l := []))"
    "\<forall>a. a \<notin> words_of {bucket_at l ?h} \<longrightarrow> m a = cells ?h a"
    using clear_bucket[of ?h c l fl] D(4,10,11) l none by (auto simp: buddy_simps)
  have t_eq: "t b k = (if b = Suc l \<and> k = 0 then Held else Absent)" for b k
    using only[of b k] x by (cases "b = Suc l \<and> k = 0") auto
  have "t b k \<noteq> Used s" for b k s by (simp add: t_eq)
  then have "kept c t h m" by (simp add: kept_def)
  moreover have "tree_wf l (last_bucket c) ?t"
    using l by (auto simp: tree_wf_def t_eq)
  then have "buddy_core c (?h\<lparr>cells := m\<rparr>) ?t (fl(l := []))"
    using D(1-4,10,11) D(8)[OF x] m(2) none unfolding buddy_core_def
    by (auto simp: buddy_simps block_at_def t_eq)
  ultimately show ?thesis using m(1) by auto
qed

lemma grow_used:
  assumes core: "buddy_core c h t fl" and L: "bucket_limit h = Suc l" and x: "t (Suc l) 0 \<noteq> Unused"
    and ok: "node_ok h (block_at c h (Suc l) 1)"
  shows "\<exists>m m' fl'. blist_push (bucket_at (Suc l) h) (block_at c h (Suc l) 1) h = Some (h\<lparr>cells := m\<rparr>) \<and>
    blist_clear (bucket_at l (h\<lparr>cells := m, bucket_limit := l\<rparr>)) (h\<lparr>cells := m, bucket_limit := l\<rparr>) =
      Some (h\<lparr>bucket_limit := l, cells := m'\<rparr>) \<and> kept c t h m' \<and>
    buddy_core c (h\<lparr>bucket_limit := l, cells := m'\<rparr>) (set_node l 0 Divided (set_node (Suc l) 1 Unused t)) fl'"
proof -
  let ?R = "{Suc l..last_bucket c}" and ?e = "block_at c h (Suc l) 1"
  let ?t = "set_node l 0 Divided (set_node (Suc l) 1 Unused t)"
  note D = buddy_coreD[OF core]
  have l: "l < last_bucket c" using tree_wfD(1)[OF D(5)] L by simp
  have fl: "free_lists h ?R fl" using D(6) L by simp
  have below: "y + 16 \<le> ?e" if y: "y \<in> free_nodes h ?R fl" for y
    using core y[folded L]
  proof (cases rule: free_node_cases)
    case (head b)
    then show ?thesis by (simp add: block_at_def)
  next
    case (block b k)
    then show ?thesis using block_below[OF core, of b k] leaf_bucket(3)[OF core, of b k] L by simp
  qed
  obtain m where m: "blist_push (bucket_at (Suc l) h) ?e h = Some (h\<lparr>cells := m\<rparr>)"
    "free_lists (h\<lparr>cells := m\<rparr>) ?R (fl(Suc l := fl (Suc l) @ [?e]))"
    "\<forall>a. a \<notin> words_of (insert ?e (free_nodes h ?R fl)) \<longrightarrow> m a = cells h a"
    using free_push[OF fl _ apart_insert[OF fl disjI2[OF below]] ok, of "Suc l"] l by auto
  let ?h = "h\<lparr>cells := m, bucket_limit := l\<rparr>" and ?fl = "fl(Suc l := fl (Suc l) @ [?e])"
  have sets: "set (fl b) = block_at c h b ` {k. t b k = Unused}" if "b \<in> ?R" for b
    using D(7)[of b] that L by simp
  have "base_ptr h \<le> y" if "b \<in> ?R" "y \<in> set (?fl b)" for b y
    using that sets by (auto simp: block_at_def split: if_splits)
  then obtain m' where m': "blist_clear (bucket_at l ?h) ?h = Some (?h\<lparr>cells := m'\<rparr>)"
    "free_lists (?h\<lparr>cells := m'\<rparr>) {l..last_bucket c} (?fl(l := []))"
    "\<forall>a. a \<notin> words_of {bucket_at l ?h} \<longrightarrow> m' a = cells ?h a"
    using clear_bucket[of ?h c l ?fl] D(4,10,11) l m(2) by (auto simp: buddy_simps)
  have kept: "kept c t h m'"
    unfolding kept_def
  proof (intro allI impI)
    fix b k s a
    assume u: "t b k = Used s" and a: "block_at c h b k \<le> a" "a < block_at c h b k + 2 ^ (max_log2 c - b)"
    have "a < ?e" using a block_below[OF core, of b k] u L by simp
    have "m a = cells h a"
    proof -
      have "a \<notin> words_of (free_nodes h ?R fl)"
        using held_apart[OF core, of b k] u a L unfolding words_of_def by fastforce
      then show ?thesis using m(3) \<open>a < ?e\<close> by (auto simp: words_of_def)
    qed
    moreover have "bucket_at l h + 16 \<le> base_ptr h"
    proof -
      have "bucket_at (Suc l) h \<le> bucket_at (BUCKET_COUNT c) h"
        using l by (simp add: bucket_at_def LIST_SIZE_def BUCKET_COUNT_def last_bucket_def)
      then show ?thesis using D(4) by (simp add: bucket_at_def LIST_SIZE_def)
    qed
    then have "a \<notin> words_of {bucket_at l h}" using a(1) by (auto simp: words_of_def block_at_def)
    ultimately show "m' a = cells h a" using m'(3) by (simp add: buddy_simps)
  qed
  have new: "t l k = Absent" "t (Suc l) (Suc k) = Absent" for k
    using tree_wfD(3,4)[OF D(5)] L by auto
  have kids: "t (Suc (Suc l)) k = Absent" if "k div 2 = Suc 0" for k
    using tree_wfD(5)[OF D(5), of "Suc l" k] that L new(2)[of 0] by auto
  have wf: "tree_wf l (last_bucket c) ?t"
  proof -
    have "?t (Suc b) k \<noteq> Absent \<longleftrightarrow> ?t b (k div 2) = Divided" if "l \<le> b" for b k
    proof (cases "b = l")
      case True
      then show ?thesis using half_cases[of k 0] new tree_wfD(2)[OF D(5)] L by (cases k) (auto split: if_splits)
    next
      case False
      then show ?thesis using tree_wfD(5)[OF D(5), of b k] kids that L new by auto
    qed
    moreover have "?t l k = Absent" if "k \<noteq> 0" for k using new that by auto
    ultimately show ?thesis using l tree_wfD(3)[OF D(5)] L unfolding tree_wf_def by auto
  qed
  have "buddy_core c (?h\<lparr>cells := m'\<rparr>) ?t (?fl(l := []))"
    unfolding buddy_core_def
  proof (intro conjI ballI allI impI)
    fix b assume b: "b \<in> {bucket_limit (?h\<lparr>cells := m'\<rparr>)..last_bucket c}"
    show "set ((?fl(l := [])) b) = block_at c (?h\<lparr>cells := m'\<rparr>) b ` {k. ?t b k = Unused}"
      using sets[of b] new b by (auto simp: buddy_simps image_iff split: if_splits)
  next
    fix b k assume "?t b k = Held"
    then show "node_ok (?h\<lparr>cells := m'\<rparr>) (block_at c (?h\<lparr>cells := m'\<rparr>) b k)"
      using D(8) by (auto simp: buddy_simps split: if_splits)
  next
    fix b k s assume "?t b k = Used s"
    then have u: "t b k = Used s" by (auto split: if_splits)
    have "m' (block_at c h b k) = cells h (block_at c h b k)"
      using kept u leaf_bucket(3)[OF core, of b k] unfolding kept_def by fastforce
    then show "cells (?h\<lparr>cells := m'\<rparr>) (block_at c (?h\<lparr>cells := m'\<rparr>) b k) = s" "s < 2 ^ 64"
      "bucket_for_request c (of_nat s + 8) = Some (of_nat b)"
      "block_at c (?h\<lparr>cells := m'\<rparr>) b k + 2 ^ (max_log2 c - b) \<le> max_ptr (?h\<lparr>cells := m'\<rparr>)"
      using D(9)[OF u] by (simp_all add: buddy_simps)
  qed (use D(1-4,10,11) wf m'(2) in \<open>simp_all add: buddy_simps\<close>)
  then show ?thesis using m(1) m'(1) kept by auto
qed

end
