(* ===== verification/BuddyFlags.thy ===== *)
theory BuddyFlags
  imports BuddyOps
begin

text \<open>
  The split flags of the buddy allocator: what reading and flipping a flag means for the tree, and how
  a step of the tree changes the flags that describe it.
\<close>

lemma last_bucket_ok:
  assumes "config_ok c"
  shows "3 \<le> last_bucket c" and "8 dvd (2::nat) ^ last_bucket c"
proof -
  show "3 \<le> last_bucket c" using assms unfolding config_ok_def last_bucket_def by linarith
  then have "(2::nat) ^ 3 dvd 2 ^ last_bucket c" by (rule le_imp_power_dvd)
  then show "8 dvd (2::nat) ^ last_bucket c" by simp
qed

lemma node_in_flags:
  assumes "config_ok c" and "b < last_bucket c" and "k < 2 ^ b"
  shows "node_index b k div 8 < 2 ^ last_bucket c div 8"
proof -
  have "node_index b k < 2 ^ last_bucket c" using node_index_less[OF assms(3,2)] by simp
  then show ?thesis using last_bucket_ok(2)[OF assms(1)] by (simp add: less_mult_imp_div_less)
qed

text \<open>Flipping the flag of the parent of a node.\<close>

lemma flip_flags:
  assumes c: "config_ok c" and len: "length (node_is_split h) = 2 ^ last_bucket c div 8"
    and b: "b < last_bucket c" "k < 2 ^ Suc b"
    and old: "\<And>b' k'. b' < last_bucket c \<Longrightarrow> k' < 2 ^ b' \<Longrightarrow> flag h (node_index b' k') = f b' k'"
    and new: "\<And>b' k'. b' < last_bucket c \<Longrightarrow> k' < 2 ^ b' \<Longrightarrow>
      want_flag (bucket_limit h) t b' k' = (f b' k' \<noteq> (b' = b \<and> k' = k div 2))"
  shows "\<exists>s. flip_parent_is_split (node_index (Suc b) k) h = Some (h\<lparr>node_is_split := s\<rparr>) \<and>
    flags_ok c (h\<lparr>node_is_split := s\<rparr>) t"
proof -
  have p: "node_index b (k div 2) div 8 < length (node_is_split h)"
    using node_in_flags[OF c b(1), of "k div 2"] b(2) len by simp
  obtain s where s: "flip_parent_is_split (node_index (Suc b) k) h = Some (h\<lparr>node_is_split := s\<rparr>)"
    "length s = length (node_is_split h)"
    "\<forall>j. flag (h\<lparr>node_is_split := s\<rparr>) j = (flag h j \<noteq> (j = node_index b (k div 2)))"
    using flip_parent_eq[OF p, of "node_index (Suc b) k"] node_index_parent[of b k] node_index_0 by auto
  have "flag (h\<lparr>node_is_split := s\<rparr>) (node_index b' k') = want_flag (bucket_limit h) t b' k'"
    if b': "b' < last_bucket c" "k' < 2 ^ b'" for b' k'
  proof -
    have "node_index b' k' = node_index b (k div 2) \<longleftrightarrow> b' = b \<and> k' = k div 2"
      using node_index_inj[of k' b' "k div 2" b] b' b(2) by auto
    then show ?thesis using s(3) old[OF b'] new[OF b'] by simp
  qed
  then show ?thesis using s len by (auto simp: flags_ok_def)
qed

lemma flags_okD:
  assumes "flags_ok c h t"
  shows "length (node_is_split h) = 2 ^ last_bucket c div 8"
    and "b < last_bucket c \<Longrightarrow> k < 2 ^ b \<Longrightarrow> flag h (node_index b k) = want_flag (bucket_limit h) t b k"
  using assms by (auto simp: flags_ok_def)

lemma want_flag_cong:
  "(\<And>b k. t' b k = Unused \<longleftrightarrow> t b k = Unused) \<Longrightarrow> want_flag L t' b k = want_flag L t b k"
  by (simp add: want_flag_def)

lemma flags_cong:
  assumes "flags_ok c h t" and "\<And>b k. t' b k = Unused \<longleftrightarrow> t b k = Unused"
  shows "flags_ok c h t'"
  using assms want_flag_cong[of t' t] by (simp add: flags_ok_def)

lemma flags_cells [buddy_simps]:
  "flags_ok c (h\<lparr>cells := m\<rparr>) t = flags_ok c h t"
  "flags_ok c (h\<lparr>max_ptr := p, kernel := x\<rparr>) t = flags_ok c h t"
  by (simp_all add: flags_ok_def flag_def)

lemma want_toggle:
  assumes wf: "tree_wf L n t" and x: "t (Suc b) k \<noteq> Absent" and u: "(t (Suc b) k = Unused) \<noteq> (x = Unused)"
  shows "want_flag L (set_node (Suc b) k x t) b' k' = (want_flag L t b' k' \<noteq> (b' = b \<and> k' = k div 2))"
proof (cases "Suc b = L")
  case True
  then have "k = 0" using tree_wfD(4)[OF wf] x by auto
  then show ?thesis using True u by (auto simp: want_flag_def)
next
  case False
  then have "L \<le> b" using tree_range[OF wf x] by simp
  then show ?thesis using u half_cases[of k k'] False by (auto simp: want_flag_def)
qed

text \<open>The flag of a node's parent, read and flipped as the code does it.\<close>

lemma parent_flag:
  assumes core: "buddy_core c h t fl" and f: "flags_ok c h t'" and x: "t b k \<noteq> Absent" and i: "node_index b k \<noteq> 0"
  obtains b0 where "b = Suc b0" and "parent_is_split (node_index b k) h = Some (want_flag (bucket_limit h) t' b0 (k div 2))"
proof -
  note wf = buddy_coreD(5)[OF core]
  have k: "k < 2 ^ b" using tree_position_le[OF wf x] .
  then obtain b0 where b0: "b = Suc b0" using i by (cases b) (auto simp: node_index_0)
  have n: "b0 < last_bucket c" using tree_range[OF wf x] b0 by simp
  have k2: "k div 2 < 2 ^ b0" using k b0 by simp
  have "parent_is_split (node_index b k) h = Some (flag h (node_index b0 (k div 2)))"
    using node_in_flags[OF buddy_coreD(1)[OF core] n k2] flags_okD(1)[OF f] i b0 node_index_parent[of b0 k]
    by (intro parent_is_split_eq) simp_all
  then show ?thesis using that[OF b0] flags_okD(2)[OF f n k2] by simp
qed

lemma toggle_flags:
  assumes core: "buddy_core c h t fl" and f: "flags_ok c h t'" and wf: "tree_wf (bucket_limit h) (last_bucket c) t'"
    and x: "t' b k \<noteq> Absent" and u: "(t' b k = Unused) \<noteq> (x = Unused)"
  shows "\<exists>s. (if node_index b k \<noteq> 0 then flip_parent_is_split (node_index b k) h else Some h) =
      Some (h\<lparr>node_is_split := s\<rparr>) \<and> flags_ok c (h\<lparr>node_is_split := s\<rparr>) (set_node b k x t')"
proof (cases "node_index b k = 0")
  case True
  then have "b = 0" "k = 0" by (auto simp: node_index_0)
  then have "want_flag (bucket_limit h) (set_node b k x t') b' k' = want_flag (bucket_limit h) t' b' k'" for b' k'
    using tree_range[OF wf x] by (auto simp: want_flag_def)
  then have "flags_ok c h (set_node b k x t')" using f by (simp add: flags_ok_def)
  then show ?thesis using True by (intro exI[of _ "node_is_split h"]) simp
next
  case False
  have k: "k < 2 ^ b" using tree_position_le[OF wf x] .
  then obtain b0 where b0: "b = Suc b0" using False by (cases b) (auto simp: node_index_0)
  have n: "b0 < last_bucket c" using tree_range[OF wf x] b0 by simp
  show ?thesis
    using flip_flags[OF buddy_coreD(1)[OF core] flags_okD(1)[OF f] n, of k "want_flag (bucket_limit h) t'" "set_node b k x t'"]
      flags_okD(2)[OF f] want_toggle[OF wf, of b0 k x] k x u b0 False by auto
qed

text \<open>Growing the tree.\<close>

lemma grow_unused_flags:
  assumes f: "flags_ok c h t" and L: "bucket_limit h = Suc l" and t: "\<And>b k. t b k = (if b = Suc l \<and> k = 0 then Unused else Absent)"
  shows "flags_ok c (h\<lparr>bucket_limit := l\<rparr>) (set_node l 0 Unused (set_node (Suc l) 0 Absent t))"
proof -
  have "want_flag l (set_node l 0 Unused (set_node (Suc l) 0 Absent t)) b k = want_flag (Suc l) t b k" for b k
    by (auto simp: want_flag_def t)
  then show ?thesis using f L by (simp add: flags_ok_def flag_def)
qed

lemma grow_used_flags:
  assumes core: "buddy_core c h t fl" and f: "flags_ok c h t" and L: "bucket_limit h = Suc l" and x: "t (Suc l) 0 \<noteq> Unused"
  shows "\<exists>s. (if node_index l 0 \<noteq> 0 then flip_parent_is_split (node_index l 0) (h\<lparr>bucket_limit := l\<rparr>)
        else Some (h\<lparr>bucket_limit := l\<rparr>)) = Some (h\<lparr>bucket_limit := l, node_is_split := s\<rparr>) \<and>
    flags_ok c (h\<lparr>bucket_limit := l, node_is_split := s\<rparr>) (set_node l 0 Divided (set_node (Suc l) 1 Unused t))"
proof -
  let ?t = "set_node l 0 Divided (set_node (Suc l) 1 Unused t)" and ?h = "h\<lparr>bucket_limit := l\<rparr>"
  note wf = buddy_coreD(5)[OF core]
  have absent: "t (Suc l) (Suc k) = Absent" for k using tree_wfD(4)[OF wf] L by simp
  have want: "want_flag l ?t b k = (want_flag (Suc l) t b k \<noteq> (Suc b = l \<and> k = 0))" for b k
  proof (cases "b = l")
    case True
    then show ?thesis using x absent by (cases k) (auto simp: want_flag_def)
  qed (auto simp: want_flag_def)
  have old: "flag ?h (node_index b k) = want_flag (Suc l) t b k" if "b < last_bucket c" "k < 2 ^ b" for b k
    using flags_okD(2)[OF f that] L by (simp add: flag_def)
  show ?thesis
  proof (cases l)
    case 0
    then have "flags_ok c ?h ?t" using want old flags_okD(1)[OF f] by (simp add: flags_ok_def)
    then show ?thesis using 0 by (intro exI[of _ "node_is_split h"]) (simp add: node_index_0)
  next
    case (Suc l')
    have "l' < last_bucket c" using tree_wfD(1)[OF wf] L Suc by simp
    from flip_flags[OF buddy_coreD(1)[OF core] _ this _ old, of 0 ?t] show ?thesis
      using Suc want flags_okD(1)[OF f] by (auto simp: node_index_0)
  qed
qed

end
