(* ===== verification/BuddyLoops.thy ===== *)
theory BuddyLoops
  imports BuddyFlags
begin

text \<open>
  The loops of the buddy allocator, and the contract of the function that reserves memory for it
  as the locale \<open>memory_reserve\<close>.
\<close>

section \<open>States of the allocator\<close>

definition buddy_state :: "buddy_config \<Rightarrow> 'k buddy \<Rightarrow> btree \<Rightarrow> (nat \<Rightarrow> nat list) \<Rightarrow> bool" where
  "buddy_state c h t fl \<longleftrightarrow> buddy_core c h t fl \<and> flags_ok c h t \<and> merged t \<and> (\<forall>b k. t b k \<noteq> Held)"

text \<open>In the middle of an operation: one block is held, and \<open>u\<close> is the tree that the flags describe.\<close>

definition buddy_holding :: "buddy_config \<Rightarrow> 'k buddy \<Rightarrow> btree \<Rightarrow> (nat \<Rightarrow> nat list) \<Rightarrow> btree \<Rightarrow> nat \<Rightarrow> nat \<Rightarrow> bool" where
  "buddy_holding c h t fl u b k \<longleftrightarrow> buddy_core c h t fl \<and> flags_ok c h u \<and> merged u \<and>
     (\<forall>b' k'. t b' k' = Held \<longleftrightarrow> b' = b \<and> k' = k)"

text \<open>A part of an operation that hands out nothing: the used blocks are the same, with their contents.\<close>

definition unchanged :: "buddy_config \<Rightarrow> btree \<Rightarrow> 'k buddy \<Rightarrow> btree \<Rightarrow> 'k buddy \<Rightarrow> bool" where
  "unchanged c t h t' h' \<longleftrightarrow> base_ptr h' = base_ptr h \<and> buckets h' = buckets h \<and> max_ptr h \<le> max_ptr h' \<and>
     kept c t h (cells h') \<and> (\<forall>b k s. t' b k = Used s \<longleftrightarrow> t b k = Used s)"

lemma unchanged_refl: "unchanged c t h t h"
  by (simp add: unchanged_def kept_def)

lemma unchanged_trans:
  assumes "unchanged c t h t1 h1" and "unchanged c t1 h1 t2 h2"
  shows "unchanged c t h t2 h2"
  using assms unfolding unchanged_def kept_def block_at_def by auto

lemma unchanged_cells:
  "kept c t h m \<Longrightarrow> (\<And>b k s. t' b k = Used s \<longleftrightarrow> t b k = Used s) \<Longrightarrow> unchanged c t h t' (h\<lparr>cells := m\<rparr>)"
  by (simp add: unchanged_def)

lemma unchanged_other [buddy_simps]:
  "unchanged c t h t' (h'\<lparr>node_is_split := s\<rparr>) = unchanged c t h t' h'"
  "unchanged c t h t' (h'\<lparr>bucket_limit := l\<rparr>) = unchanged c t h t' h'"
  "unchanged c t (h\<lparr>node_is_split := s\<rparr>) t' h' = unchanged c t h t' h'"
  by (simp_all add: unchanged_def kept_def block_at_def)

section \<open>Splitting\<close>

lemma merged_set:
  assumes "merged t" and "\<And>j. k = 2 * j \<Longrightarrow> t b (2 * j + 1) \<noteq> Unused" and "\<And>j. k = 2 * j + 1 \<Longrightarrow> t b (2 * j) \<noteq> Unused"
  shows "merged (set_node b k x t)"
  unfolding merged_def
proof (intro allI notI)
  fix b' j
  assume u: "set_node b k x t b' (2 * j) = Unused \<and> set_node b k x t b' (2 * j + 1) = Unused"
  consider "b' = b \<and> k = 2 * j" | "b' = b \<and> k = 2 * j + 1" | "\<not> (b' = b \<and> (k = 2 * j \<or> k = 2 * j + 1))" by blast
  then show False
  proof cases
    case 3
    then have "t b' (2 * j) = Unused \<and> t b' (2 * j + 1) = Unused" using u by (auto split: if_splits)
    then show False using assms(1) unfolding merged_def by blast
  qed (use u assms(2,3)[of j] in \<open>auto split: if_splits\<close>)
qed

lemma merged_cong: "merged t \<Longrightarrow> (\<And>b k. t' b k = Unused \<Longrightarrow> t b k = Unused) \<Longrightarrow> merged t'"
  unfolding merged_def by blast

lemma split_loop_ok:
  assumes "buddy_holding c h t fl t b k" and "b + d = original" and "original \<le> last_bucket c"
    and "block_at c h b k + (if b < original then 2 ^ (max_log2 c - b) div 2 + LIST_SIZE else 2 ^ (max_log2 c - b)) \<le> max_ptr h"
  shows "\<exists>h' t' fl' k'. split_loop c original b (node_index b k) h = Some h' \<and> buddy_holding c h' t' fl' t' original k' \<and>
    block_at c h' original k' = block_at c h b k \<and> unchanged c t h t' h' \<and>
    max_ptr h' = max_ptr h \<and> kernel h' = kernel h \<and> block_at c h b k + 2 ^ (max_log2 c - original) \<le> max_ptr h"
  using assms
proof (induction d arbitrary: h t fl b k)
  case 0
  then show ?case by (subst split_loop.simps) (auto intro!: exI unchanged_refl)
next
  case (Suc d)
  note hold = Suc.prems(1)
  have core: "buddy_core c h t fl" and f: "flags_ok c h t" and mg: "merged t" and x: "t b k = Held"
    and only: "\<And>b' k'. t b' k' = Held \<Longrightarrow> b' = b \<and> k' = k"
    using hold by (auto simp: buddy_holding_def)
  note wf = buddy_coreD(5)[OF core]
  have b: "b < original" "b < last_bucket c" "b < max_log2 c"
    using Suc.prems(2,3) by (auto simp: last_bucket_def)
  note kids = block_children[OF b(3), of h k]
  let ?r = "block_at c h (Suc b) (2 * k + 1)"
  have r: "?r + 16 \<le> max_ptr h" using Suc.prems(4) b(1) kids(2) by (simp add: LIST_SIZE_def)
  have "8 dvd ?r" "buckets h \<le> ?r"
  proof -
    have "Suc b \<le> last_bucket c" using b by simp
    note a = block_aligned[OF core this, of "2 * k + 1"]
    show "8 dvd ?r" using a(1) by presburger
    show "buckets h \<le> ?r" using a(2) buddy_coreD(4)[OF core] by (simp add: bucket_at_def)
  qed
  then have ok: "node_ok h ?r" using r by (simp add: node_ok_def mem_ok_def)
  let ?d = "divide_node b k t" and ?t = "set_node (Suc b) (2 * k + 1) Unused (divide_node b k t)"
  have div: "buddy_core c h ?d fl" by (rule divide_held[OF core x b(2) ok])
  have kids0: "t (Suc b) (2 * k) = Absent" "t (Suc b) (2 * k + 1) = Absent"
    using tree_wfD(5)[OF wf, of b "2 * k"] tree_wfD(5)[OF wf, of b "2 * k + 1"] x leaf_bucket(1)[OF core, of b k] by auto
  have same: "?d b' k' = Unused \<longleftrightarrow> t b' k' = Unused" for b' k'
    using x kids0 half_cases[of k' k] by (auto simp: divide_node_apply)
  have fd: "flags_ok c h ?d" by (rule flags_cong[OF f same])
  obtain s where s: "flip_parent_is_split (node_index (Suc b) (2 * k)) h = Some (h\<lparr>node_is_split := s\<rparr>)"
    "flags_ok c (h\<lparr>node_is_split := s\<rparr>) ?t"
    using flip_flags[OF buddy_coreD(1)[OF core] flags_okD(1)[OF f] b(2), of "2 * k"
        "want_flag (bucket_limit h) ?d" ?t] flags_okD(2)[OF fd] tree_position_le[OF wf, of b k] x
      want_toggle[OF buddy_coreD(5)[OF div], of b "2 * k + 1" Unused]
    by (auto simp: divide_node_apply)
  let ?h = "h\<lparr>node_is_split := s\<rparr>"
  have "buddy_core c ?h ?d fl" by (rule core_flags[OF div])
  then obtain m fl' where m: "blist_push (bucket_at (Suc b) ?h) ?r ?h = Some (?h\<lparr>cells := m\<rparr>)"
    "buddy_core c (?h\<lparr>cells := m\<rparr>) ?t fl'" "kept c ?d ?h m"
    using push_held[of c ?h ?d fl "Suc b" "2 * k + 1"] by (auto simp: divide_node_apply buddy_simps)
  let ?h' = "?h\<lparr>cells := m\<rparr>"
  have used: "?t b' k' = Used z \<longleftrightarrow> t b' k' = Used z" "?d b' k' = Used z \<longleftrightarrow> t b' k' = Used z" for b' k' z
    using x kids0 half_cases[of k' k] by (auto simp: divide_node_apply)
  have un: "unchanged c t h ?t ?h'"
    using m(3) used unfolding unchanged_def kept_def by (simp add: buddy_simps)
  have "merged ?d" by (rule merged_cong[OF mg]) (simp add: same)
  then have "merged ?t" by (rule merged_set) (simp_all add: divide_node_apply)
  moreover have "?t b' k' = Held \<longleftrightarrow> b' = Suc b \<and> k' = 2 * k" for b' k'
  proof (cases "b' = Suc b \<and> k' div 2 = k")
    case True
    then show ?thesis using half_cases[of k' k] by (auto simp: divide_node_apply)
  next
    case False
    then have "\<not> (b' = Suc b \<and> k' = 2 * k + 1)" by (metis half_cases)
    then have eq: "?t b' k' = (if b' = b \<and> k' = k then Divided else t b' k')"
      using False by (auto simp: divide_node_apply)
    have "?t b' k' \<noteq> Held"
    proof (cases "b' = b \<and> k' = k")
      case True
      then show ?thesis unfolding eq by simp
    next
      case False
      then have "t b' k' \<noteq> Held" using only by blast
      then show ?thesis using False unfolding eq by auto
    qed
    then show ?thesis using False by auto
  qed
  ultimately have hold1: "buddy_holding c ?h' ?t fl' ?t (Suc b) (2 * k)"
    using m(2) s(2) by (simp add: buddy_holding_def buddy_simps)
  have max1: "block_at c ?h' (Suc b) (2 * k) +
      (if Suc b < original then 2 ^ (max_log2 c - Suc b) div 2 + LIST_SIZE else 2 ^ (max_log2 c - Suc b)) \<le> max_ptr ?h'"
  proof -
    have "max_log2 c - b = Suc (max_log2 c - Suc b)" using b by simp
    then have half: "(2::nat) ^ (max_log2 c - b) div 2 = 2 ^ (max_log2 c - Suc b)" by simp
    show ?thesis using Suc.prems(4) b(1) half kids(1) by (auto simp: buddy_simps LIST_SIZE_def)
  qed
  have "Suc b + d = original" using Suc.prems(2) by simp
  then obtain h2 t2 fl2 k2 where h2: "split_loop c original (Suc b) (node_index (Suc b) (2 * k)) ?h' = Some h2"
    "buddy_holding c h2 t2 fl2 t2 original k2" "block_at c h2 original k2 = block_at c ?h' (Suc b) (2 * k)"
    "unchanged c ?t ?h' t2 h2" "max_ptr h2 = max_ptr ?h'" "kernel h2 = kernel ?h'"
    "block_at c ?h' (Suc b) (2 * k) + 2 ^ (max_log2 c - original) \<le> max_ptr ?h'"
    using Suc.IH[OF hold1 _ Suc.prems(3) max1] by blast
  have "node_index b k * 2 + 1 + 1 = node_index (Suc b) (2 * k + 1)"
    using node_index_child[of b k] node_index_Suc[of "Suc b" "2 * k"] by simp
  then have "split_loop c original b (node_index b k) h = Some h2"
    using b(1) s(1) m(1) h2(1) node_index_child[of b k]
    by (subst split_loop.simps) (simp add: ptr_for_node_index buddy_simps)
  then show ?case
    using h2 unchanged_trans[OF un h2(4)] kids(1) by (auto simp: buddy_simps)
qed

section \<open>Merging\<close>

lemma free_loop_ok:
  assumes "buddy_holding c h t fl t b k"
  shows "\<exists>h' t' fl' b' k'. free_loop c b (node_index b k) h = Some (h', b', node_index b' k') \<and>
    buddy_holding c h' t' fl' (set_node b' k' Unused t') b' k' \<and> unchanged c t h t' h' \<and>
    max_ptr h' = max_ptr h \<and> kernel h' = kernel h \<and> bucket_limit h' = bucket_limit h"
  using assms
proof (induction b arbitrary: h t fl k)
  case (0 h t fl k)
  then have core: "buddy_core c h t fl" and f: "flags_ok c h t" and mg: "merged t" and x: "t 0 k = Held"
    and only: "\<And>b' k'. t b' k' = Held \<longleftrightarrow> b' = 0 \<and> k' = k"
    by (auto simp: buddy_holding_def)
  have k: "k = 0" using tree_position_le[OF buddy_coreD(5)[OF core], of 0 k] x by simp
  obtain s where "(if node_index 0 0 \<noteq> 0 then flip_parent_is_split (node_index 0 0) h else Some h) =
      Some (h\<lparr>node_is_split := s\<rparr>)" "flags_ok c (h\<lparr>node_is_split := s\<rparr>) (set_node 0 0 Unused t)"
    using toggle_flags[OF core f buddy_coreD(5)[OF core], of 0 0 Unused] x k by auto
  then have "flags_ok c h (set_node 0 0 Unused t)" by (simp add: node_index_0)
  moreover have "merged (set_node 0 0 Unused t)"
  proof -
    have "t 0 (2 * j + 1) = Absent" for j
      using tree_position_le[OF buddy_coreD(5)[OF core], of 0 "2 * j + 1"] by auto
    from this[of 0] show ?thesis using mg by (auto simp: merged_def)
  qed
  ultimately show ?case
    using core only k by (subst free_loop.simps)
      (auto simp: node_index_0 buddy_holding_def intro!: exI unchanged_refl)
next
  case (Suc b h t fl k)
  then have core: "buddy_core c h t fl" and f: "flags_ok c h t" and mg: "merged t" and x: "t (Suc b) k = Held"
    and only: "\<And>b' k'. t b' k' = Held \<longleftrightarrow> b' = Suc b \<and> k' = k"
    by (auto simp: buddy_holding_def)
  note wf = buddy_coreD(5)[OF core]
  define j where "j = k div 2"
  define k' where "k' = (if k = 2 * j then 2 * j + 1 else 2 * j)"
  have kj: "k = 2 * j \<or> k = 2 * j + 1" using half_cases[of k j] by (simp add: j_def)
  have i: "node_index (Suc b) k \<noteq> 0" by (simp add: node_index_0)
  have tree': "tree_wf (bucket_limit h) (last_bucket c) (set_node (Suc b) k Unused t)"
    by (rule tree_wf_leaf[OF wf]) (use x in auto)
  obtain s where s: "flip_parent_is_split (node_index (Suc b) k) h = Some (h\<lparr>node_is_split := s\<rparr>)"
    "flags_ok c (h\<lparr>node_is_split := s\<rparr>) (set_node (Suc b) k Unused t)"
    using toggle_flags[OF core f wf, of "Suc b" k Unused] x i by auto
  let ?h = "h\<lparr>node_is_split := s\<rparr>" and ?u = "set_node (Suc b) k Unused t"
  have core1: "buddy_core c ?h t fl" by (rule core_flags[OF core])
  have p: "parent_is_split (node_index (Suc b) k) ?h = Some (want_flag (bucket_limit h) ?u b j)"
    using parent_flag[OF core1 s(2), of "Suc b" k] x i by (auto simp: j_def elim!: meta_mp)
  have L: "bucket_limit h \<le> Suc b" using leaf_bucket(1)[OF core, of "Suc b" k] x by simp
  show ?case
  proof (cases "want_flag (bucket_limit h) ?u b j \<or> Suc b = bucket_limit h")
    case True
    have "t (Suc b) k' \<noteq> Unused"
    proof (cases "Suc b = bucket_limit h")
      case True
      then have "k = 0" using tree_wfD(4)[OF wf, of k] x by auto
      then have "k' = 1" by (simp add: k'_def j_def)
      then show ?thesis using tree_wfD(4)[OF wf, of k'] True by simp
    next
      case False
      then show ?thesis using True L kj by (auto simp: want_flag_def k'_def split: if_splits)
    qed
    then have "merged ?u" by (intro merged_set[OF mg]) (auto simp: k'_def j_def)
    then have "buddy_holding c ?h t fl ?u (Suc b) k"
      using core1 s(2) only by (simp add: buddy_holding_def)
    moreover have "free_loop c (Suc b) (node_index (Suc b) k) h = Some (?h, Suc b, node_index (Suc b) k)"
      using s(1) p True i by (subst free_loop.simps) simp
    ultimately show ?thesis using unchanged_refl[of c t h]
      by - (rule exI[of _ ?h], rule exI[of _ t], rule exI[of _ fl], rule exI[of _ "Suc b"], rule exI[of _ k],
        simp add: buddy_simps del: set_node_apply)
  next
    case False
    then have Lb: "bucket_limit h \<le> b" using L by simp
    have buddy: "t (Suc b) k' = Unused"
      using False Lb kj by (auto simp: want_flag_def k'_def split: if_splits)
    obtain m fl' where m: "blist_remove (block_at c ?h (Suc b) k') ?h = Some (?h\<lparr>cells := m\<rparr>)"
      "buddy_core c (?h\<lparr>cells := m\<rparr>) (set_node (Suc b) k' Held t) fl'" "kept c t ?h m"
      using remove_unused[OF core1 buddy] by blast
    let ?h' = "?h\<lparr>cells := m\<rparr>" and ?v = "set_node (Suc b) k' Held t"
    let ?t = "merge_node b j ?v"
    have kids: "?v (Suc b) (2 * j) = Held" "?v (Suc b) (2 * j + 1) = Held"
      using kj x by (auto simp: k'_def)
    have core2: "buddy_core c ?h' ?t fl'" by (rule merge_held[OF m(2) kids]) (use Lb in simp)
    have div: "t b j = Divided" using tree_wfD(5)[OF wf Lb, of k] x by (simp add: j_def)
    have same: "?t a z = Unused \<longleftrightarrow> (t a z = Unused \<and> \<not> (a = Suc b \<and> z div 2 = j))" for a z
      using div kj x half_cases[of z j] by (auto simp: merge_node_apply k'_def split: if_splits)
    have eq: "want_flag (bucket_limit h) ?t a z = want_flag (bucket_limit h) ?u a z" for a z
    proof (cases "a = b \<and> z = j")
      case True
      then show ?thesis using False Lb same by (auto simp: want_flag_def)
    next
      case False
      have "t b j \<noteq> Unused" using div by simp
      have "?t a' z' = Unused \<longleftrightarrow> ?u a' z' = Unused" if "\<not> (a' = Suc b \<and> z' div 2 = j)" for a' z'
        using same[of a' z'] that by (auto simp: j_def)
      then show ?thesis using False Lb by (auto simp: want_flag_def)
    qed
    have "flags_ok c ?h' ?t" using s(2) eq by (simp add: buddy_simps) (simp add: flags_ok_def)
    moreover have "merged ?t" by (rule merged_cong[OF mg]) (use same in blast)
    moreover have "?t a z = Held \<longleftrightarrow> a = b \<and> z = j" for a z
      using only[of a z] kj half_cases[of z j] by (auto simp: merge_node_apply k'_def split: if_splits)
    ultimately have hold: "buddy_holding c ?h' ?t fl' ?t b j" using core2 by (simp add: buddy_holding_def)
    have used: "?t a z = Used y \<longleftrightarrow> t a z = Used y" for a z y
      using div buddy x kj half_cases[of z j] by (auto simp: merge_node_apply k'_def split: if_splits)
    have un: "unchanged c t h ?t ?h'"
      using m(3) used unfolding unchanged_def kept_def by (simp add: buddy_simps)
    obtain h2 t2 fl2 b2 k2 where h2: "free_loop c b (node_index b j) ?h' = Some (h2, b2, node_index b2 k2)"
      "buddy_holding c h2 t2 fl2 (set_node b2 k2 Unused t2) b2 k2" "unchanged c ?t ?h' t2 h2"
      "max_ptr h2 = max_ptr ?h'" "kernel h2 = kernel ?h'" "bucket_limit h2 = bucket_limit ?h'"
      using Suc.IH[OF hold] by blast
    have "((node_index (Suc b) k - 1) XOR 1) + 1 = node_index (Suc b) k'"
      using node_index_sibling[of b j] kj by (auto simp: k'_def)
    then have "free_loop c (Suc b) (node_index (Suc b) k) h = Some (h2, b2, node_index b2 k2)"
      using s(1) p False i m(1) h2(1) node_index_parent[of b k]
      by (subst free_loop.simps) (simp add: ptr_for_node_index j_def)
    then show ?thesis using h2(2,4-6) unchanged_trans[OF un h2(3)]
      by - (rule exI[of _ h2], rule exI[of _ t2], rule exI[of _ fl2], rule exI[of _ b2], rule exI[of _ k2],
        simp del: set_node_apply)
  qed
qed

end
