(* ===== verification/BuddyMalloc.thy ===== *)
theory BuddyMalloc
  imports BuddyLoops
begin

text \<open>
  Allocation in the buddy allocator: growing the tree, taking a block, and the search through the
  buckets, against any function that reserves memory as the locale \<open>memory_reserve\<close> demands.
\<close>

text \<open>
  The contract of the callback: the first call returns the start of the memory, a further one extends
  it; a call that fails changes nothing.  \<open>good\<close> is what the provider keeps about its own state and
  the end of the memory.
\<close>

locale memory_reserve =
  fixes reserve :: "'k reserve" and good :: "'k \<Rightarrow> nat \<Rightarrow> bool"
  assumes reserve_first: "good k 0 \<Longrightarrow> \<exists>p m k'. reserve k n 0 = Some (p, m, k') \<and> good k' m \<and>
      (p = 0 \<longrightarrow> m = 0) \<and> (p \<noteq> 0 \<longrightarrow> 8 dvd p \<and> p + n \<le> m)"
    and reserve_more: "good k m \<Longrightarrow> m \<noteq> 0 \<Longrightarrow> \<exists>p m' k'. reserve k n m = Some (p, m', k') \<and> good k' m' \<and>
      (p = 0 \<longrightarrow> m' = m) \<and> (p \<noteq> 0 \<longrightarrow> m + n \<le> m')"

text \<open>A provider that never fails.\<close>

definition always_gives :: "'k reserve \<Rightarrow> ('k \<Rightarrow> nat \<Rightarrow> bool) \<Rightarrow> bool" where
  "always_gives reserve good \<longleftrightarrow>
     (\<forall>k n m p m' k'. good k m \<longrightarrow> reserve k n m = Some (p, m', k') \<longrightarrow> p \<noteq> 0)"

text \<open>A block is handed out: the other used blocks are the same.\<close>

definition handed :: "buddy_config \<Rightarrow> btree \<Rightarrow> 'k buddy \<Rightarrow> btree \<Rightarrow> 'k buddy \<Rightarrow> nat \<Rightarrow> nat \<Rightarrow> nat \<Rightarrow> bool" where
  "handed c t h t' h' b k s \<longleftrightarrow> base_ptr h' = base_ptr h \<and> buckets h' = buckets h \<and> max_ptr h \<le> max_ptr h' \<and>
     kept c t h (cells h') \<and> (\<forall>z. t b k \<noteq> Used z) \<and>
     (\<forall>b' k' z. t' b' k' = Used z \<longleftrightarrow> (if b' = b \<and> k' = k then z = s else t b' k' = Used z))"

lemma unchanged_handed:
  assumes "unchanged c t h t1 h1" and "handed c t1 h1 t2 h2 b k s"
  shows "handed c t h t2 h2 b k s"
  using assms unfolding unchanged_def handed_def kept_def block_at_def by auto

text \<open>What an allocation leaves behind.\<close>

definition malloc_result :: "buddy_config \<Rightarrow> btree \<Rightarrow> 'k buddy \<Rightarrow> btree \<Rightarrow> 'k buddy \<Rightarrow> nat \<Rightarrow> nat \<Rightarrow> bool" where
  "malloc_result c t h t' h' s p \<longleftrightarrow> (p = 0 \<and> unchanged c t h t' h') \<or>
     (\<exists>b k. p = block_at c h' b k + HEADER_SIZE \<and> handed c t h t' h' b k s)"

lemma unchanged_result:
  "unchanged c t h t1 h1 \<Longrightarrow> malloc_result c t1 h1 t2 h2 s p \<Longrightarrow> malloc_result c t h t2 h2 s p"
  unfolding malloc_result_def using unchanged_handed unchanged_trans by blast

lemma buddy_stateD:
  assumes "buddy_state c h t fl"
  shows "buddy_core c h t fl" and "flags_ok c h t" and "merged t" and "t b k \<noteq> Held"
  using assms by (auto simp: buddy_state_def)

lemma max_ptr_pos: "buddy_core c h t fl \<Longrightarrow> max_ptr h \<noteq> 0 \<and> base_ptr h \<noteq> 0"
  using buddy_coreD(2,4,11)[of c h t fl] by (auto simp: bucket_at_def)

section \<open>Lowering the limit\<close>

lemma lower_unused:
  assumes state: "buddy_state c h t fl" and L: "bucket_limit h = Suc l" and b: "bucket \<le> l" and x: "t (Suc l) 0 = Unused"
  shows "\<exists>h1 t1 fl1. lower_bucket_limit c reserve bucket h = lower_bucket_limit c reserve bucket h1 \<and>
    buddy_state c h1 t1 fl1 \<and> bucket_limit h1 = l \<and> unchanged c t h t1 h1 \<and> max_ptr h1 = max_ptr h \<and> kernel h1 = kernel h"
proof -
  note core = buddy_stateD(1)[OF state] and f = buddy_stateD(2)[OF state] and mg = buddy_stateD(3)[OF state]
  note wf = buddy_coreD(5)[OF core]
  have only: "b = Suc l \<and> k = 0" if "t b k \<noteq> Absent" for b k
    using root_leaf[OF wf, of b k] that x L by simp
  have t_eq: "t b k = (if b = Suc l \<and> k = 0 then Unused else Absent)" for b k
    using only[of b k] x by (cases "b = Suc l \<and> k = 0") auto
  have split: "parent_is_split (node_index (Suc l) 0) h = Some False"
    using parent_flag[OF core f, of "Suc l" 0] x L by (auto simp: want_flag_def node_index_0)
  obtain m1 fl1 where m1: "blist_remove (base_ptr h) h = Some (h\<lparr>cells := m1\<rparr>)"
    "buddy_core c (h\<lparr>cells := m1\<rparr>) (set_node (Suc l) 0 Held t) fl1"
    using remove_unused[OF core x] by (auto simp: block_at_def)
  let ?h1 = "h\<lparr>cells := m1\<rparr>"
  obtain m2 fl2 where m2: "blist_clear (bucket_at l (?h1\<lparr>bucket_limit := l\<rparr>)) (?h1\<lparr>bucket_limit := l\<rparr>) =
      Some (?h1\<lparr>bucket_limit := l, cells := m2\<rparr>)"
    "buddy_core c (?h1\<lparr>bucket_limit := l, cells := m2\<rparr>) (set_node l 0 Held (set_node (Suc l) 0 Absent (set_node (Suc l) 0 Held t))) fl2"
    using grow_unused[OF m1(2), of l] L by auto
  let ?h2 = "?h1\<lparr>bucket_limit := l, cells := m2\<rparr>"
  let ?t = "set_node l 0 Unused (set_node (Suc l) 0 Absent t)"
  have t_eq2: "set_node l 0 Unused (set_node l 0 Held (set_node (Suc l) 0 Absent (set_node (Suc l) 0 Held t))) = ?t"
    by (auto simp: fun_eq_iff)
  obtain m3 fl3 where m3: "blist_push (bucket_at l ?h2) (block_at c ?h2 l 0) ?h2 = Some (?h2\<lparr>cells := m3\<rparr>)"
    "buddy_core c (?h2\<lparr>cells := m3\<rparr>) ?t fl3"
    using push_held[OF m2(2), of l 0] unfolding t_eq2 by auto
  let ?h3 = "?h2\<lparr>cells := m3\<rparr>"
  have "block_at c ?h2 l 0 = base_ptr h" by (simp add: block_at_def)
  moreover have "node_for_ptr c (base_ptr h) (Suc l) h = node_index (Suc l) 0" by (rule node_for_base)
  ultimately have "lower_bucket_limit c reserve bucket h = lower_bucket_limit c reserve bucket ?h3"
    using L b split m1(1) m2(1) m3(1) by (subst lower_bucket_limit.simps) (simp add: Let_def)
  moreover have "flags_ok c ?h3 ?t"
    using grow_unused_flags[OF f L t_eq] by (simp add: flags_ok_def flag_def)
  moreover have "merged ?t" "?t b k \<noteq> Held" for b k
    by (auto simp: merged_def t_eq)
  moreover have "unchanged c t h ?t ?h3"
    by (auto simp: unchanged_def kept_def t_eq)
  ultimately show ?thesis
    using m3(2) by (intro exI[of _ ?h3] exI[of _ ?t] exI[of _ fl3]) (simp add: buddy_state_def)
qed

lemma flip_cells:
  "flip_parent_is_split i (h\<lparr>cells := m\<rparr>) = map_option (\<lambda>x. x\<lparr>cells := m\<rparr>) (flip_parent_is_split i h)"
  by (simp add: flip_parent_is_split_def Let_def)

context memory_reserve
begin

lemma update_max_ok:
  assumes "good (kernel h) (max_ptr h)" and "max_ptr h \<noteq> 0"
  shows "\<exists>m k ok. update_max_ptr c reserve v h = Some (h\<lparr>max_ptr := m, kernel := k\<rparr>, ok) \<and> max_ptr h \<le> m \<and>
    good k m \<and> (ok \<longrightarrow> v \<le> m) \<and> (always_gives reserve good \<and> v < base_ptr h + MAX_ALLOC c \<longrightarrow> ok)"
proof (cases "v \<le> max_ptr h")
  case True
  then show ?thesis using assms by (auto simp: update_max_ptr_def intro!: exI[of _ "max_ptr h"] exI[of _ "kernel h"])
next
  case False
  show ?thesis
  proof (cases "v - base_ptr h < MAX_ALLOC c")
    case True
    obtain p m k where "reserve (kernel h) (v - max_ptr h) (max_ptr h) = Some (p, m, k)" "good k m"
      "p = 0 \<longrightarrow> m = max_ptr h" "p \<noteq> 0 \<longrightarrow> max_ptr h + (v - max_ptr h) \<le> m"
      using reserve_more[OF assms, of "v - max_ptr h"] by blast
    moreover have "always_gives reserve good \<longrightarrow> p \<noteq> 0"
      unfolding always_gives_def using assms(1) calculation(1) by blast
    ultimately show ?thesis
      using True False by (intro exI[of _ m] exI[of _ k] exI[of _ "p \<noteq> 0"]) (auto simp: update_max_ptr_def)
  next
    case False
    then have "\<not> v < base_ptr h + MAX_ALLOC c" using MAX_ALLOC_def[of c] by (cases "base_ptr h \<le> v") auto
    then show ?thesis
      using False \<open>\<not> v \<le> max_ptr h\<close> assms
      by (auto simp: update_max_ptr_def intro!: exI[of _ "max_ptr h"] exI[of _ "kernel h"])
  qed
qed

lemma lower_used:
  assumes state: "buddy_state c h t fl" and g: "good (kernel h) (max_ptr h)"
    and L: "bucket_limit h = Suc l" and b: "bucket \<le> l" and x: "t (Suc l) 0 \<noteq> Unused"
  shows "\<exists>h1 t1 fl1. buddy_state c h1 t1 fl1 \<and> unchanged c t h t1 h1 \<and> good (kernel h1) (max_ptr h1) \<and>
    (lower_bucket_limit c reserve bucket h = Some (h1, False) \<and> \<not> always_gives reserve good \<or>
     lower_bucket_limit c reserve bucket h = lower_bucket_limit c reserve bucket h1 \<and>
       bucket_limit h1 = l \<and> t1 (Suc l) 1 = Unused)"
proof -
  note core = buddy_stateD(1)[OF state] and f = buddy_stateD(2)[OF state] and mg = buddy_stateD(3)[OF state]
  note wf = buddy_coreD(5)[OF core]
  have root: "t (Suc l) 0 \<noteq> Absent" using tree_wfD(2)[OF wf] L by simp
  have split: "parent_is_split (node_index (Suc l) 0) h = Some True"
    using parent_flag[OF core f root] x L by (auto simp: want_flag_def node_index_0)
  let ?e = "block_at c h (Suc l) 1"
  obtain m k ok where u: "update_max_ptr c reserve (?e + LIST_SIZE) h = Some (h\<lparr>max_ptr := m, kernel := k\<rparr>, ok)"
    "max_ptr h \<le> m" "good k m" "ok \<longrightarrow> ?e + LIST_SIZE \<le> m"
    "always_gives reserve good \<and> ?e + LIST_SIZE < base_ptr h + MAX_ALLOC c \<longrightarrow> ok"
    using update_max_ok[OF g, of c "?e + LIST_SIZE"] max_ptr_pos[OF core] by blast
  let ?h0 = "h\<lparr>max_ptr := m, kernel := k\<rparr>"
  have core0: "buddy_core c ?h0 t fl" by (rule core_max[OF core u(2)])
  have f0: "flags_ok c ?h0 t" using f by (simp add: buddy_simps)
  have un0: "unchanged c t h t ?h0" using u(2) by (simp add: unchanged_def kept_def)
  have node: "node_for_ptr c (base_ptr h) (Suc l) h = node_index (Suc l) 0" by (rule node_for_base)
  have room: "?e + LIST_SIZE < base_ptr h + MAX_ALLOC c"
  proof -
    obtain e where e: "max_log2 c = Suc e" "6 \<le> e"
      using buddy_coreD(1)[OF core] by (cases "max_log2 c") (auto simp: config_ok_def)
    then have "(2::nat) ^ (e - l) \<le> 2 ^ e" by (intro power_increasing) auto
    moreover have "(64::nat) \<le> 2 ^ e" using power_increasing[of 6 e "2::nat"] e(2) by simp
    ultimately have "2 ^ (e - l) + 16 < 2 * (2::nat) ^ e" by linarith
    then show ?thesis using e(1) by (simp add: block_at_def MAX_ALLOC_def LIST_SIZE_def)
  qed
  have right: "ptr_for_node c (node_index (Suc l) 0 + 1) (Suc l) h = ?e"
    using ptr_for_node_index[of c "Suc l" 1 h] by (simp add: node_index_def)
  show ?thesis
  proof (cases ok)
    case False
    then have "lower_bucket_limit c reserve bucket h = Some (?h0, False)"
      using L b split u(1) node right by (subst lower_bucket_limit.simps) (simp add: Let_def)
    then show ?thesis
      using core0 f0 mg un0 u(3,5) room False buddy_stateD(4)[OF state]
      by (intro exI[of _ ?h0] exI[of _ t] exI[of _ fl]) (simp add: buddy_state_def)
  next
    case True
    have "Suc l \<le> last_bucket c" using tree_wfD(1)[OF wf] L by simp
    note al = block_aligned[OF core0 this, of 1]
    have "8 dvd block_at c ?h0 (Suc l) 1" using al(1) by presburger
    moreover have "buckets ?h0 \<le> block_at c ?h0 (Suc l) 1"
      using al(2) buddy_coreD(4)[OF core0] by (simp add: bucket_at_def)
    moreover have "?e + 16 \<le> m" using True u(4) by (simp add: LIST_SIZE_def)
    ultimately have ok': "node_ok ?h0 (block_at c ?h0 (Suc l) 1)"
      by (simp add: node_ok_def mem_ok_def buddy_simps)
    let ?t = "set_node l 0 Divided (set_node (Suc l) 1 Unused t)"
    obtain m1 m2 fl2 where m1: "blist_push (bucket_at (Suc l) ?h0) (block_at c ?h0 (Suc l) 1) ?h0 = Some (?h0\<lparr>cells := m1\<rparr>)"
      and m2: "blist_clear (bucket_at l (?h0\<lparr>cells := m1, bucket_limit := l\<rparr>)) (?h0\<lparr>cells := m1, bucket_limit := l\<rparr>) =
        Some (?h0\<lparr>bucket_limit := l, cells := m2\<rparr>)" and k2: "kept c t ?h0 m2"
      and core2: "buddy_core c (?h0\<lparr>bucket_limit := l, cells := m2\<rparr>) ?t fl2"
      using grow_used[OF core0 _ x ok'] L by auto
    obtain s where s: "(if node_index l 0 \<noteq> 0 then flip_parent_is_split (node_index l 0) (?h0\<lparr>bucket_limit := l\<rparr>)
        else Some (?h0\<lparr>bucket_limit := l\<rparr>)) = Some (?h0\<lparr>bucket_limit := l, node_is_split := s\<rparr>)"
      "flags_ok c (?h0\<lparr>bucket_limit := l, node_is_split := s\<rparr>) ?t"
      using grow_used_flags[OF core0 f0 _ x] L by auto
    let ?h3 = "?h0\<lparr>bucket_limit := l, cells := m2, node_is_split := s\<rparr>"
    have "(if node_index l 0 \<noteq> 0 then flip_parent_is_split (node_index l 0) (?h0\<lparr>bucket_limit := l, cells := m2\<rparr>)
        else Some (?h0\<lparr>bucket_limit := l, cells := m2\<rparr>)) =
      map_option (\<lambda>x. x\<lparr>cells := m2\<rparr>) (if node_index l 0 \<noteq> 0
        then flip_parent_is_split (node_index l 0) (?h0\<lparr>bucket_limit := l\<rparr>) else Some (?h0\<lparr>bucket_limit := l\<rparr>))"
      by (simp add: flip_cells)
    also have "\<dots> = Some ?h3" by (simp only: s(1) option.map) simp
    finally have flip: "(if node_index l 0 \<noteq> 0
        then flip_parent_is_split (node_index l 0) (?h0\<lparr>bucket_limit := l, cells := m2\<rparr>)
        else Some (?h0\<lparr>bucket_limit := l, cells := m2\<rparr>)) = Some ?h3" .
    have par: "(node_index (Suc l) 0 - Suc 0) div 2 = node_index l 0" using node_index_parent[of l 0] by simp
    have "lower_bucket_limit c reserve bucket h = lower_bucket_limit c reserve bucket ?h3"
      using L b split u(1) node right True m1 m2 flip
      by (subst lower_bucket_limit.simps) (simp add: Let_def par buddy_simps split del: if_split)
    moreover have "buddy_core c ?h3 ?t fl2"
      using core_flags[OF core2, of s] by simp
    moreover have "flags_ok c ?h3 ?t"
      using s(2) by (simp add: flags_ok_def flag_def)
    moreover have "merged ?t"
      by (rule merged_set, rule merged_set[OF mg]) (use x tree_wfD(3)[OF wf] L in auto)
    moreover have "?t b' k' \<noteq> Held" for b' k' using buddy_stateD(4)[OF state] by auto
    moreover have "unchanged c t h ?t ?h3"
    proof -
      have "t l 0 = Absent" "t (Suc l) (Suc 0) = Absent" using tree_wfD(3,4)[OF wf] L by auto
      then have "?t b' k' = Used z \<longleftrightarrow> t b' k' = Used z" for b' k' z by auto
      then show ?thesis using k2 u(2) by (simp add: unchanged_def kept_def buddy_simps)
    qed
    moreover have "?t (Suc l) 1 = Unused" by simp
    ultimately show ?thesis
      using u(3) by - (rule exI[of _ ?h3], rule exI[of _ ?t], rule exI[of _ fl2], simp add: buddy_state_def)
  qed
qed

lemma lower_ok:
  assumes "buddy_state c h t fl" and "good (kernel h) (max_ptr h)"
  shows "\<exists>h1 t1 fl1 ok. lower_bucket_limit c reserve bucket h = Some (h1, ok) \<and> buddy_state c h1 t1 fl1 \<and>
    unchanged c t h t1 h1 \<and> good (kernel h1) (max_ptr h1) \<and> (ok \<longrightarrow> bucket_limit h1 = min bucket (bucket_limit h)) \<and>
    (always_gives reserve good \<longrightarrow> ok)"
  using assms
proof (induction "bucket_limit h" arbitrary: h t fl)
  case 0
  then show ?case
    by (subst lower_bucket_limit.simps) (auto intro!: exI unchanged_refl)
next
  case (Suc l)
  show ?case
  proof (cases "bucket \<le> l")
    case True
    then obtain h1 t1 fl1 where h1: "buddy_state c h1 t1 fl1" "unchanged c t h t1 h1" "good (kernel h1) (max_ptr h1)"
      "lower_bucket_limit c reserve bucket h = Some (h1, False) \<and> \<not> always_gives reserve good \<or>
       lower_bucket_limit c reserve bucket h = lower_bucket_limit c reserve bucket h1 \<and> bucket_limit h1 = l"
    proof (cases "t (Suc l) 0 = Unused")
      case True
      then show ?thesis
        using lower_unused[OF Suc.prems(1) Suc.hyps(2)[symmetric] \<open>bucket \<le> l\<close>, of reserve] Suc.prems(2) that by metis
    next
      case False
      then show ?thesis
        using lower_used[OF Suc.prems Suc.hyps(2)[symmetric] \<open>bucket \<le> l\<close>] that by metis
    qed
    from h1(4) show ?thesis
    proof
      assume a: "lower_bucket_limit c reserve bucket h = lower_bucket_limit c reserve bucket h1 \<and> bucket_limit h1 = l"
      then obtain h2 t2 fl2 ok where "lower_bucket_limit c reserve bucket h1 = Some (h2, ok)" "buddy_state c h2 t2 fl2"
        "unchanged c t1 h1 t2 h2" "good (kernel h2) (max_ptr h2)" "ok \<longrightarrow> bucket_limit h2 = min bucket l"
        "always_gives reserve good \<longrightarrow> ok"
        using Suc.hyps(1)[of h1 t1 fl1] h1(1,3) by metis
      moreover have "min bucket l = min bucket (bucket_limit h)" using True Suc.hyps(2) by simp
      ultimately show ?thesis using a unchanged_trans[OF h1(2)] by metis
    qed (use h1 in blast)
  next
    case False
    then have "lower_bucket_limit c reserve bucket h = Some (h, True)"
      using Suc.hyps(2) by (subst lower_bucket_limit.simps) simp
    then show ?thesis using Suc.hyps(2) Suc.prems False unchanged_refl by fastforce
  qed
qed

lemma take_block_ok:
  assumes hold: "buddy_holding c h t fl (set_node b k Unused t) b k" and g: "good (kernel h) (max_ptr h)"
    and b: "b \<le> original" "original \<le> last_bucket c"
    and bucket: "bucket_for_request c (request + 8) = Some (of_nat original)"
  shows "\<exists>h' p t' fl'. take_block c reserve request original b (block_at c h b k) h = Some (h', p) \<and>
    buddy_state c h' t' fl' \<and> good (kernel h') (max_ptr h') \<and> malloc_result c t h t' h' (unat request) p \<and>
    (always_gives reserve good \<and> block_at c h b k + 2 ^ (max_log2 c - b) < base_ptr h + MAX_ALLOC c \<longrightarrow> p \<noteq> 0)"
proof -
  let ?u = "set_node b k Unused t" and ?a = "block_at c h b k"
  let ?bytes = "if b < original then 2 ^ (max_log2 c - b) div 2 + LIST_SIZE else 2 ^ (max_log2 c - b)"
  have core: "buddy_core c h t fl" and f: "flags_ok c h ?u" and mg: "merged ?u"
    and only: "\<And>b' k'. t b' k' = Held \<longleftrightarrow> b' = b \<and> k' = k"
    using hold by (auto simp: buddy_holding_def)
  have x: "t b k = Held" using only by blast
  obtain m z ok where u: "update_max_ptr c reserve (?a + ?bytes) h = Some (h\<lparr>max_ptr := m, kernel := z\<rparr>, ok)"
    "max_ptr h \<le> m" "good z m" "ok \<longrightarrow> ?a + ?bytes \<le> m"
    "always_gives reserve good \<and> ?a + ?bytes < base_ptr h + MAX_ALLOC c \<longrightarrow> ok"
    using update_max_ok[OF g, of c "?a + ?bytes"] max_ptr_pos[OF core] by blast
  let ?h0 = "h\<lparr>max_ptr := m, kernel := z\<rparr>"
  have core0: "buddy_core c ?h0 t fl" by (rule core_max[OF core u(2)])
  have f0: "flags_ok c ?h0 ?u" using f by (simp add: buddy_simps)
  have un0: "unchanged c t h t ?h0" using u(2) by (simp add: unchanged_def kept_def)
  have "?bytes \<le> 2 ^ (max_log2 c - b)"
  proof (cases "b < original")
    case True
    have c: "config_ok c" using buddy_coreD(1)[OF core] .
    obtain e where e: "max_log2 c - b = Suc e" "4 \<le> e"
      using True b c by (cases "max_log2 c - b") (auto simp: last_bucket_def config_ok_def)
    then have "(2::nat) ^ 4 \<le> 2 ^ e" by (intro power_increasing) auto
    then show ?thesis using e True by (simp add: LIST_SIZE_def)
  qed simp
  then have gives: "ok" if "always_gives reserve good" "?a + 2 ^ (max_log2 c - b) < base_ptr h + MAX_ALLOC c"
    using u(5) that by linarith
  show ?thesis
  proof (cases ok)
    case False
    obtain m' fl' where p: "blist_push (bucket_at b ?h0) (block_at c ?h0 b k) ?h0 = Some (?h0\<lparr>cells := m'\<rparr>)"
      "buddy_core c (?h0\<lparr>cells := m'\<rparr>) ?u fl'" "kept c t ?h0 m'"
      using push_held[OF core0 x] by blast
    have "?u b' k' = Used s \<longleftrightarrow> t b' k' = Used s" for b' k' s using x by auto
    then have "unchanged c t h ?u (?h0\<lparr>cells := m'\<rparr>)"
      using unchanged_trans[OF un0 unchanged_cells[OF p(3)]] by blast
    moreover have "?u b' k' \<noteq> Held" for b' k' using only by auto
    ultimately have "buddy_state c (?h0\<lparr>cells := m'\<rparr>) ?u fl'" "malloc_result c t h ?u (?h0\<lparr>cells := m'\<rparr>) (unat request) 0"
      using p(2) f0 mg by (simp_all add: buddy_state_def malloc_result_def buddy_simps)
    moreover have "take_block c reserve request original b ?a h = Some (?h0\<lparr>cells := m'\<rparr>, 0)"
      using u(1) p(1) False by (simp add: take_block_def Let_def buddy_simps)
    ultimately show ?thesis
      using u(3) gives False
      by - (rule exI[of _ "?h0\<lparr>cells := m'\<rparr>"], rule exI[of _ 0], rule exI[of _ ?u], rule exI[of _ fl'], simp, blast)
  next
    case True
    have wfu: "tree_wf (bucket_limit ?h0) (last_bucket c) ?u"
      using tree_wf_leaf[OF buddy_coreD(5)[OF core0]] x by simp
    have undo: "set_node b k Held ?u = t" using x by (auto simp: fun_eq_iff)
    obtain s where s: "(if node_index b k \<noteq> 0 then flip_parent_is_split (node_index b k) ?h0 else Some ?h0) =
        Some (?h0\<lparr>node_is_split := s\<rparr>)" "flags_ok c (?h0\<lparr>node_is_split := s\<rparr>) t"
      using toggle_flags[OF core0 f0 wfu, of b k Held] unfolding undo by auto
    let ?h1 = "?h0\<lparr>node_is_split := s\<rparr>"
    have "merged t" by (rule merged_cong[OF mg]) (use x in auto)
    then have hold1: "buddy_holding c ?h1 t fl t b k"
      using core_flags[OF core0, of s] s(2) only by (simp add: buddy_holding_def)
    obtain d where d: "b + d = original" using b(1) le_Suc_ex by blast
    have "block_at c ?h1 b k + ?bytes \<le> max_ptr ?h1" using True u(4) by (simp add: buddy_simps)
    from split_loop_ok[OF hold1 d b(2) this] obtain h2 t2 fl2 k2 where
      h2: "split_loop c original b (node_index b k) ?h1 = Some h2" "buddy_holding c h2 t2 fl2 t2 original k2"
      "block_at c h2 original k2 = ?a" "unchanged c t ?h1 t2 h2" "max_ptr h2 = m" "kernel h2 = z"
      "?a + 2 ^ (max_log2 c - original) \<le> m"
      by (auto simp: buddy_simps)
    have core2: "buddy_core c h2 t2 fl2" and f2: "flags_ok c h2 t2" and mg2: "merged t2"
      and only2: "\<And>b' k'. t2 b' k' = Held \<longleftrightarrow> b' = original \<and> k' = k2"
      using h2(2) by (auto simp: buddy_holding_def)
    have x2: "t2 original k2 = Held" using only2 by blast
    let ?t = "set_node original k2 (Used (unat request)) t2"
    have "unat request < 2 ^ 64" using unsigned_less[of request] by simp
    then obtain m' where m': "st (block_at c h2 original k2) (unat request) h2 = Some (h2\<lparr>cells := m'\<rparr>)"
      "buddy_core c (h2\<lparr>cells := m'\<rparr>) ?t fl2" "kept c t2 h2 m'"
      using hand_out[OF core2 x2, of "unat request"] bucket h2(3,5,7) by auto
    let ?h3 = "h2\<lparr>cells := m'\<rparr>"
    have "flags_ok c h2 ?t" by (rule flags_cong[OF f2]) (use x2 in auto)
    moreover have "merged ?t" by (rule merged_cong[OF mg2]) (auto split: if_splits)
    moreover have "?t b' k' \<noteq> Held" for b' k' using only2 by auto
    ultimately have state: "buddy_state c ?h3 ?t fl2" using m'(2) by (simp add: buddy_state_def buddy_simps)
    have "unchanged c t h t ?h1" using un0 by (simp add: buddy_simps)
    moreover have "handed c t2 h2 ?t ?h3 original k2 (unat request)"
      using m'(3) x2 unfolding handed_def by auto
    ultimately have "handed c t h ?t ?h3 original k2 (unat request)"
      using unchanged_handed unchanged_trans h2(4) by blast
    then have "malloc_result c t h ?t ?h3 (unat request) (?a + HEADER_SIZE)"
      using h2(3) unfolding malloc_result_def by (metis buddy_simps(5))
    moreover have "node_for_ptr c ?a b ?h0 = node_index b k"
      using node_for_block[of c ?h0 b k] by (simp add: buddy_simps)
    then have "take_block c reserve request original b ?a h = Some (?h3, ?a + HEADER_SIZE)"
      using u(1) True s(1) h2(1,3) m'(1) by (simp add: take_block_def Let_def split del: if_split)
    ultimately show ?thesis
      using u(3) h2(5,6) state
      by - (rule exI[of _ ?h3], rule exI[of _ "?a + HEADER_SIZE"], rule exI[of _ ?t], rule exI[of _ fl2],
        simp add: HEADER_SIZE_def del: set_node_apply)
  qed
qed

lemma taken_holding:
  assumes state: "buddy_state c h t fl" and x: "t b k = Unused"
    and core: "buddy_core c (h\<lparr>cells := m\<rparr>) (set_node b k Held t) fl'"
  shows "buddy_holding c (h\<lparr>cells := m\<rparr>) (set_node b k Held t) fl' (set_node b k Unused (set_node b k Held t)) b k"
proof -
  have "set_node b k Unused (set_node b k Held t) = t" using x by (auto simp: fun_eq_iff)
  then show ?thesis
    using core buddy_stateD[OF state] by (auto simp: buddy_holding_def buddy_simps)
qed

text \<open>Below a root that is not the one of the whole memory all blocks end before its end.\<close>

lemma leaf_end:
  assumes core: "buddy_core c h t fl" and x: "t b k \<noteq> Absent" and L: "1 \<le> bucket_limit h"
  shows "block_at c h b k + 2 ^ (max_log2 c - b) < base_ptr h + MAX_ALLOC c"
proof -
  note wf = buddy_coreD(5)[OF core]
  have b: "bucket_limit h \<le> b" "b \<le> last_bucket c" using tree_range[OF wf x] by auto
  have n: "last_bucket c \<le> max_log2 c" by (simp add: last_bucket_def)
  have "k < 2 ^ (b - bucket_limit h)" using tree_position[OF wf, of "b - bucket_limit h" k] x b by simp
  then have "(k + 1) * 2 ^ (max_log2 c - b) \<le> 2 ^ (b - bucket_limit h) * 2 ^ (max_log2 c - b)"
    by (intro mult_right_mono) auto
  also have "\<dots> = 2 ^ (max_log2 c - bucket_limit h)" using b n by (simp flip: power_add)
  also have "\<dots> < 2 ^ max_log2 c" using L b n by (intro power_strict_increasing) auto
  finally show ?thesis by (simp add: block_at_def MAX_ALLOC_def algebra_simps)
qed

text \<open>Taking a block from a bucket, if it has one.\<close>

lemma pop_take:
  assumes state: "buddy_state c h t fl" and g: "good (kernel h) (max_ptr h)"
    and b: "bucket_limit h \<le> b" "b \<le> original" "original \<le> last_bucket c"
    and bucket: "bucket_for_request c (request + 8) = Some (of_nat original)"
  shows "(if \<forall>k. t b k \<noteq> Unused then blist_pop (bucket_at b h) h = Some (h, 0)
    else \<exists>h1 p h' q t' fl'. blist_pop (bucket_at b h) h = Some (h1, p) \<and> p \<noteq> 0 \<and>
      take_block c reserve request original b p h1 = Some (h', q) \<and>
      buddy_state c h' t' fl' \<and> good (kernel h') (max_ptr h') \<and> malloc_result c t h t' h' (unat request) q \<and>
      (always_gives reserve good \<and> 1 \<le> bucket_limit h \<longrightarrow> q \<noteq> 0))"
proof (cases "\<forall>k. t b k \<noteq> Unused")
  case True
  then show ?thesis using pop_unused[OF buddy_stateD(1)[OF state] b(1)] b(2,3) by simp
next
  case False
  note core = buddy_stateD(1)[OF state]
  have n: "b \<le> last_bucket c" using b by simp
  obtain m k fl' where p: "t b k = Unused" "blist_pop (bucket_at b h) h = Some (h\<lparr>cells := m\<rparr>, block_at c h b k)"
    "buddy_core c (h\<lparr>cells := m\<rparr>) (set_node b k Held t) fl'" "kept c t h m"
    using pop_unused[OF core b(1) n] False by (auto split: if_splits)
  let ?h = "h\<lparr>cells := m\<rparr>" and ?t = "set_node b k Held t"
  have "?t b' k' = Used s \<longleftrightarrow> t b' k' = Used s" for b' k' s using p(1) by auto
  then have un: "unchanged c t h ?t ?h" by (rule unchanged_cells[OF p(4)])
  have g': "good (kernel ?h) (max_ptr ?h)" using g by simp
  obtain h' q t' fl2 where "take_block c reserve request original b (block_at c ?h b k) ?h = Some (h', q)"
    "buddy_state c h' t' fl2" "good (kernel h') (max_ptr h')" "malloc_result c ?t ?h t' h' (unat request) q"
    "always_gives reserve good \<and> block_at c ?h b k + 2 ^ (max_log2 c - b) < base_ptr ?h + MAX_ALLOC c \<longrightarrow> q \<noteq> 0"
    using take_block_ok[OF taken_holding[OF state p(1,3)] g' b(2,3) bucket] by blast
  moreover have "block_at c ?h b k + 2 ^ (max_log2 c - b) < base_ptr ?h + MAX_ALLOC c" if "1 \<le> bucket_limit h"
    using leaf_end[OF core _ that, of b k] p(1) by (simp add: buddy_simps)
  ultimately show ?thesis
    using p(2) unchanged_result[OF un] block_aligned(3)[OF core n, of k] False by (auto simp: buddy_simps)
qed

lemma malloc_loop_ok:
  assumes "buddy_state c h t fl" and "good (kernel h) (max_ptr h)" and "bucket \<le> original" and "original \<le> last_bucket c"
    and "bucket_for_request c (request + 8) = Some (of_nat original)"
  shows "\<exists>h' p t' fl'. malloc_loop c reserve request original bucket h = Some (h', p) \<and>
    buddy_state c h' t' fl' \<and> good (kernel h') (max_ptr h') \<and> malloc_result c t h t' h' (unat request) p \<and>
    (always_gives reserve good \<and> 2 \<le> bucket_limit h \<and> 2 \<le> bucket \<longrightarrow> p \<noteq> 0)"
  using assms
proof (induction bucket arbitrary: h t fl rule: less_induct)
  case (less bucket)
  note bucket = less.prems(5)
  have zero: "malloc_result c t h t1 h1 (unat request) 0" if "unchanged c t h t1 h1" for h1 t1
    using that by (simp add: malloc_result_def)
  obtain h1 t1 fl1 ok where h1: "lower_bucket_limit c reserve bucket h = Some (h1, ok)" "buddy_state c h1 t1 fl1"
    "unchanged c t h t1 h1" "good (kernel h1) (max_ptr h1)" "ok \<longrightarrow> bucket_limit h1 = min bucket (bucket_limit h)"
    "always_gives reserve good \<longrightarrow> ok"
    using lower_ok[OF less.prems(1,2)] by blast
  show ?case
  proof (cases ok)
    case False
    then have "malloc_loop c reserve request original bucket h = Some (h1, 0)"
      using h1(1) by (subst malloc_loop.simps) simp
    moreover have "\<not> always_gives reserve good" using h1(6) False by blast
    ultimately show ?thesis using h1 zero by blast
  next
    case True
    then have L: "bucket_limit h1 \<le> bucket" and min: "bucket_limit h1 = min bucket (bucket_limit h)"
      using h1(5) by simp_all
    note pop = pop_take[OF h1(2,4) L less.prems(3,4) bucket]
    show ?thesis
    proof (cases "\<forall>k. t1 bucket k \<noteq> Unused")
      case False
      then obtain h2 p h' q t' fl' where "blist_pop (bucket_at bucket h1) h1 = Some (h2, p)" "p \<noteq> 0"
        "take_block c reserve request original bucket p h2 = Some (h', q)" "buddy_state c h' t' fl'"
        "good (kernel h') (max_ptr h')" "malloc_result c t1 h1 t' h' (unat request) q"
        "always_gives reserve good \<and> 1 \<le> bucket_limit h1 \<longrightarrow> q \<noteq> 0"
        using pop unfolding if_not_P[OF False] by blast
      moreover from this have "malloc_loop c reserve request original bucket h = Some (h', q)"
        using h1(1) True by (subst malloc_loop.simps) simp
      moreover have "1 \<le> bucket_limit h1" if "2 \<le> bucket_limit h" "2 \<le> bucket" using min that by simp
      ultimately show ?thesis using unchanged_result[OF h1(3)] by blast
    next
      case none: True
      then have p: "blist_pop (bucket_at bucket h1) h1 = Some (h1, 0)" using pop by simp
      consider (down) "bucket \<noteq> bucket_limit h1" "bucket \<noteq> 0" | (first) "bucket = 0"
        | (grow) l where "bucket_limit h1 = Suc l" "bucket = Suc l"
        by (cases bucket; cases "bucket = bucket_limit h1") auto
      then show ?thesis
      proof cases
        case down
        then have "malloc_loop c reserve request original bucket h = malloc_loop c reserve request original (bucket - 1) h1"
          using h1(1) True p by (subst malloc_loop.simps) simp
        moreover have "bucket - 1 < bucket" "bucket - 1 \<le> original" using down less.prems(3) by simp_all
        moreover have "2 \<le> bucket_limit h1 \<and> 2 \<le> bucket - 1" if "2 \<le> bucket_limit h" "2 \<le> bucket"
          using min down that by linarith
        ultimately show ?thesis
          using less.IH[of "bucket - 1" h1 t1 fl1] h1(2,4) less.prems(4) bucket unchanged_result[OF h1(3)]
          by (smt (verit, best))
      next
        case first
        then have "malloc_loop c reserve request original bucket h = Some (h1, 0)"
          using h1(1) True p by (subst malloc_loop.simps) simp
        then show ?thesis using h1 zero first by (metis not_numeral_le_zero)
      next
        case grow
        then have "t1 (Suc l) 0 \<noteq> Unused" using none by simp
        from lower_used[OF h1(2,4) grow(1) order_refl this] obtain h2 t2 fl2 where
          h2: "buddy_state c h2 t2 fl2" "unchanged c t1 h1 t2 h2" "good (kernel h2) (max_ptr h2)"
          "lower_bucket_limit c reserve l h1 = Some (h2, False) \<and> \<not> always_gives reserve good \<or>
           lower_bucket_limit c reserve l h1 = lower_bucket_limit c reserve l h2 \<and> bucket_limit h2 = l \<and> t2 (Suc l) 1 = Unused"
          by blast
        note un2 = unchanged_trans[OF h1(3) h2(2)]
        from h2(4) show ?thesis
        proof
          assume a: "lower_bucket_limit c reserve l h1 = Some (h2, False) \<and> \<not> always_gives reserve good"
          then have "malloc_loop c reserve request original bucket h = Some (h2, 0)"
            using h1(1) True p grow by (subst malloc_loop.simps) simp
          then show ?thesis using h2 zero[OF un2] a by blast
        next
          assume a: "lower_bucket_limit c reserve l h1 = lower_bucket_limit c reserve l h2 \<and> bucket_limit h2 = l \<and> t2 (Suc l) 1 = Unused"
          then have l: "lower_bucket_limit c reserve l h1 = Some (h2, True)"
            by (subst (asm) lower_bucket_limit.simps[of c reserve l h2]) simp
          have "bucket_limit h2 \<le> bucket" using a grow by simp
          note pop2 = pop_take[OF h2(1,3) this less.prems(3,4) bucket]
          have some: "\<not> (\<forall>k. t2 bucket k \<noteq> Unused)" using a grow by auto
          from pop2[unfolded if_not_P[OF some]] obtain h3 q h' r t' fl' where
            "blist_pop (bucket_at bucket h2) h2 = Some (h3, q)" "q \<noteq> 0"
            "take_block c reserve request original bucket q h3 = Some (h', r)" "buddy_state c h' t' fl'"
            "good (kernel h') (max_ptr h')" "malloc_result c t2 h2 t' h' (unat request) r"
            "always_gives reserve good \<and> 1 \<le> bucket_limit h2 \<longrightarrow> r \<noteq> 0"
            by blast
          moreover from this have "malloc_loop c reserve request original bucket h = Some (h', r)"
            using h1(1) True p grow l by (subst malloc_loop.simps) simp
          moreover have "1 \<le> bucket_limit h2" if "2 \<le> bucket" using a grow that by simp
          ultimately show ?thesis using unchanged_result[OF un2] by blast
        qed
      qed
    qed
  qed
qed

end

end
