(* ===== verification/BuddyProps.thy ===== *)
theory BuddyProps
  imports BuddyMalloc
begin

text \<open>
  The buddy allocator for its clients: \<open>buddy_repr\<close> relates it to the map of the addresses that are
  allocated to the sizes that were requested, and every operation is one on that map.
\<close>

section \<open>The abstraction\<close>

text \<open>The size of the block of an allocation, with its header.\<close>

definition block_bytes :: "buddy_config \<Rightarrow> nat \<Rightarrow> nat" where
  "block_bytes c s = (case bucket_for_request c (of_nat s + 8) of None \<Rightarrow> 0 | Some b \<Rightarrow> 2 ^ (max_log2 c - unat b))"

definition alloc_map :: "buddy_config \<Rightarrow> 'k buddy \<Rightarrow> btree \<Rightarrow> (nat \<rightharpoonup> nat) \<Rightarrow> bool" where
  "alloc_map c h t A \<longleftrightarrow> (\<forall>p s. A p = Some s \<longleftrightarrow> (\<exists>b k. t b k = Used s \<and> p = block_at c h b k + 8))"

definition buddy_repr :: "buddy_config \<Rightarrow> ('k \<Rightarrow> nat \<Rightarrow> bool) \<Rightarrow> 'k buddy \<Rightarrow> (nat \<rightharpoonup> nat) \<Rightarrow> bool" where
  "buddy_repr c good h A \<longleftrightarrow> config_ok c \<and> good (kernel h) (max_ptr h) \<and>
     (base_ptr h = 0 \<and> max_ptr h = 0 \<and> node_is_split h = replicate (2 ^ last_bucket c div 8) 0 \<and> A = Map.empty \<or>
      (\<exists>t fl. buddy_state c h t fl \<and> alloc_map c h t A))"

text \<open>What the clients wrote is still there.\<close>

definition contents_kept :: "buddy_config \<Rightarrow> (nat \<rightharpoonup> nat) \<Rightarrow> 'k buddy \<Rightarrow> 'k buddy \<Rightarrow> bool" where
  "contents_kept c A h h' \<longleftrightarrow>
     (\<forall>p s a. A p = Some s \<longrightarrow> p \<le> a \<longrightarrow> a + 8 < p + block_bytes c s \<longrightarrow> cells h' a = cells h a)"

lemma contents_kept_refl: "contents_kept c A h h"
  by (simp add: contents_kept_def)

lemma bucket_small: "config_ok c \<Longrightarrow> b \<le> last_bucket c \<Longrightarrow> unat (of_nat b :: u64) = b"
proof -
  assume "config_ok c" "b \<le> last_bucket c"
  then have "b < 64" unfolding config_ok_def last_bucket_def by linarith
  then have "b < 2 ^ 64" by simp
  then show "unat (of_nat b :: u64) = b" by (simp add: unsigned_of_nat take_bit_nat_eq_self_iff)
qed

lemma bucket_at_least:
  assumes c: "config_ok c" and b: "b \<le> last_bucket c" "bucket_for_request c request = Some (of_nat b)"
    and d: "d \<le> last_bucket c" "unat request \<le> 2 ^ (max_log2 c - d)"
  shows "d \<le> b"
proof -
  let ?n = "last_bucket c"
  have n: "min_log2 c + (?n - d) = max_log2 c - d" "max_log2 c - d \<le> 63" "BUCKET_COUNT c = Suc ?n"
    using c d(1) unfolding config_ok_def last_bucket_def BUCKET_COUNT_def by linarith+
  have "unat request \<le> 2 ^ (min_log2 c + (?n - d))" using d(2) n(1) by (simp only:)
  moreover have "min_log2 c + (?n - d) \<le> 63" using n(1,2) by (simp only:)
  ultimately obtain e where e: "e \<le> ?n - d"
    "request_loop (2 ^ min_log2 c) (of_nat ?n) request = Some (of_nat ?n - of_nat e)"
    using request_loop_ok[of request "min_log2 c" "?n - d" "of_nat ?n"] by blast
  have "bucket_for_request c request = request_loop (2 ^ min_log2 c) (of_nat ?n) request"
    by (simp add: bucket_for_request_def push_bit_eq_mult n(3))
  then have "(of_nat b :: u64) = of_nat ?n - of_nat e" using b(2) e(2) by (metis option.inject)
  moreover have "e \<le> ?n" using e(1) by simp
  ultimately have "(of_nat b :: u64) = of_nat (?n - e)" by (metis of_nat_diff)
  moreover have "?n - e \<le> ?n" by simp
  ultimately have "b = ?n - e" using bucket_small[OF c b(1)] bucket_small[OF c, of "?n - e"] by metis
  then show ?thesis using e(1) d(1) by simp
qed

lemma used_bytes:
  assumes core: "buddy_core c h t fl" and u: "t b k = Used s"
  shows "block_bytes c s = 2 ^ (max_log2 c - b)"
proof -
  have "unat (of_nat b :: u64) = b"
    using leaf_bucket(2)[OF core, of b k] u by (intro bucket_small[OF buddy_coreD(1)[OF core]]) simp
  then show ?thesis using buddy_coreD(9)[OF core u] by (simp add: block_bytes_def)
qed

lemma kept_contents:
  assumes core: "buddy_core c h t fl" and A: "alloc_map c h t A" and k: "kept c t h (cells h')"
    and sub: "\<And>p s. B p = Some s \<Longrightarrow> A p = Some s"
  shows "contents_kept c B h h'"
  unfolding contents_kept_def
proof (intro allI impI)
  fix p s a assume a: "B p = Some s" "p \<le> a" "a + 8 < p + block_bytes c s"
  then obtain b k where u: "t b k = Used s" "p = block_at c h b k + 8"
    using sub[OF a(1)] A by (auto simp: alloc_map_def)
  then show "cells h' a = cells h a"
    using k[unfolded kept_def, rule_format, OF u(1), of a] a(2,3) used_bytes[OF core u(1)] by simp
qed

section \<open>The first call\<close>

lemma align_up_bounds:
  assumes "1 < b"
  shows "v \<le> align_up v b" and "align_up v b \<le> v + b - 1" and "b dvd align_up v b"
proof -
  define r where "r = (v + b - 1) mod b"
  have "align_up v b = v + b - 1 - r" using assms by (simp add: align_up_def r_def minus_mod_eq_div_mult)
  moreover have "r < b" using assms by (simp add: r_def)
  ultimately show "v \<le> align_up v b" "align_up v b \<le> v + b - 1" by linarith+
  show "b dvd align_up v b" using assms by (simp add: align_up_def)
qed

text \<open>For powers of two this is the bit operation of the code.\<close>

lemma align_up_bits: "0 < n \<Longrightarrow> (int v + 2 ^ n - 1) AND (- (2 ^ n)) = int (align_up v (2 ^ n))"
proof -
  assume "0 < n"
  then have n: "1 < (2::nat) ^ n" by (intro one_less_power) simp_all
  have "x AND - (2 ^ n) = (x div 2 ^ n) * 2 ^ n" for x :: int
  proof -
    have "- (2 ^ n) = NOT (mask n :: int)" by (simp add: mask_eq_exp_minus_1 not_int_def)
    moreover have "x AND NOT (mask n) = push_bit n (drop_bit n x)"
      by (rule bit_eqI) (auto simp: bit_simps)
    ultimately show ?thesis by (simp add: push_bit_eq_mult drop_bit_eq_div)
  qed
  moreover have "int ((v + 2 ^ n - 1) div 2 ^ n * 2 ^ n) = (int v + 2 ^ n - 1) div 2 ^ n * 2 ^ n"
    using n by (simp add: zdiv_int of_nat_diff)
  ultimately show ?thesis using n by (simp add: align_up_def)
qed

context memory_reserve
begin

lemma setup_ok:
  assumes c: "config_ok c" and g: "good (kernel h) (max_ptr h)" and h: "base_ptr h = 0" "max_ptr h = 0"
    and flags: "node_is_split h = replicate (2 ^ last_bucket c div 8) 0"
  shows "\<exists>h' ready. buddy_setup c reserve h = Some (h', ready) \<and> good (kernel h') (max_ptr h') \<and>
    (if ready then bucket_limit h' = last_bucket c \<and> (\<exists>t fl. buddy_state c h' t fl \<and> (\<forall>b k s. t b k \<noteq> Used s))
     else base_ptr h' = 0 \<and> max_ptr h' = 0 \<and> node_is_split h' = replicate (2 ^ last_bucket c div 8) 0 \<and>
       \<not> always_gives reserve good)"
proof -
  let ?n = "last_bucket c" and ?need = "(BUCKET_COUNT c + 1) * LIST_SIZE + 2 * align_size"
  have bc: "BUCKET_COUNT c = Suc ?n" by (simp add: BUCKET_COUNT_def last_bucket_def)
  obtain p m k where r: "reserve (kernel h) ?need 0 = Some (p, m, k)" "good k m"
    "p = 0 \<longrightarrow> m = 0" "p \<noteq> 0 \<longrightarrow> 8 dvd p \<and> p + ?need \<le> m"
    using reserve_first[of "kernel h" ?need] g h(2) by auto
  show ?thesis
  proof (cases "p = 0")
    case True
    then have "\<not> always_gives reserve good" using r(1) g h(2) unfolding always_gives_def by metis
    then show ?thesis using True r h flags by (auto simp: buddy_setup_def Let_def)
  next
    case False
    let ?x = "p + LIST_SIZE * BUCKET_COUNT c"
    let ?base = "align_up ?x align_size + align_size - HEADER_SIZE"
    let ?h = "h\<lparr>buckets := p, max_ptr := m, kernel := k, base_ptr := ?base, bucket_limit := ?n\<rparr>"
    let ?t = "(\<lambda>b k. if b = ?n \<and> k = 0 then Held else Absent) :: btree"
    have al: "?x \<le> align_up ?x 16" "align_up ?x 16 \<le> ?x + 16 - 1" "16 dvd align_up ?x 16"
      by (rule align_up_bounds; simp)+
    have m: "8 dvd p" "?x + 48 \<le> m" using False r(4) by (auto simp: align_size_def LIST_SIZE_def)
    have "?base + 8 = align_up ?x 16 + 16" by (simp add: align_size_def HEADER_SIZE_def)
    then have base: "?x \<le> ?base" "16 dvd ?base + 8" "?base + 16 \<le> m"
      using al m(2) by (simp_all add: align_size_def HEADER_SIZE_def)
    then have "8 dvd ?base" by presburger
    then have ok: "node_ok ?h ?base" using base(1,3) by (simp add: node_ok_def mem_ok_def)
    have "free_lists ?h {} (\<lambda>_. [])" by (simp add: free_lists_def free_nodes_def apart_def)
    moreover have "node_ok ?h (bucket_at ?n ?h)"
      using False r(4) base(1,3) bc by (auto simp: node_ok_def mem_ok_def bucket_at_def LIST_SIZE_def)
    ultimately obtain m1 where m1: "blist_clear (bucket_at ?n ?h) ?h = Some (?h\<lparr>cells := m1\<rparr>)"
      "free_lists (?h\<lparr>cells := m1\<rparr>) {?n} ((\<lambda>_. [])(?n := []))"
      using free_clear[of ?h "{}" "\<lambda>_. []" ?n] by (auto simp: free_nodes_def apart_def)
    let ?h1 = "?h\<lparr>cells := m1\<rparr>"
    have none: "(\<lambda>_. [])(?n := []) = (\<lambda>_ :: nat. [] :: nat list)" by auto
    have "tree_wf ?n ?n ?t" by (auto simp: tree_wf_def)
    moreover have "block_at c ?h1 ?n 0 = ?base" by (simp add: block_at_def)
    ultimately have core1: "buddy_core c ?h1 ?t (\<lambda>_. [])"
      using c base False r(4) ok m1(2)[unfolded none] bc unfolding buddy_core_def
      by (auto simp: bucket_at_def buddy_simps)
    obtain m2 fl where m2: "blist_push (bucket_at ?n ?h1) ?base ?h1 = Some (?h1\<lparr>cells := m2\<rparr>)"
      "buddy_core c (?h1\<lparr>cells := m2\<rparr>) (set_node ?n 0 Unused ?t) fl"
      using push_held[OF core1, of ?n 0] by (auto simp: block_at_def)
    let ?h2 = "?h1\<lparr>cells := m2\<rparr>"
    have "flags_ok c ?h2 (set_node ?n 0 Unused ?t)"
    proof -
      have "flag ?h2 (node_index b j) = False" if "b < ?n" "j < 2 ^ b" for b j
        using flags node_in_flags[OF c that] by (simp add: flag_def)
      then show ?thesis using flags by (auto simp: flags_ok_def want_flag_def)
    qed
    moreover have "merged (set_node ?n 0 Unused ?t)" by (auto simp: merged_def)
    ultimately have "buddy_state c ?h2 (set_node ?n 0 Unused ?t) fl" using m2(2) by (simp add: buddy_state_def)
    moreover have "set_node ?n 0 Unused ?t b j \<noteq> Used s" for b j s by simp
    ultimately have "\<exists>t fl. buddy_state c ?h2 t fl \<and> (\<forall>b k s. t b k \<noteq> Used s)" by blast
    moreover have "buddy_setup c reserve h = Some (?h2, True)"
      using h r(1) False m1(1) m2(1) bc by (simp add: buddy_setup_def Let_def bucket_at_def)
    ultimately show ?thesis using r(2) by (intro exI[of _ ?h2] exI[of _ True]) auto
  qed
qed

lemma malloc_ok:
  assumes "buddy_repr c good h A"
  shows "\<exists>h' p. buddy_malloc c reserve request h = Some (h', p) \<and> contents_kept c A h h' \<and>
    (if p = 0 then buddy_repr c good h' A
     else A p = None \<and> buddy_repr c good h' (A(p \<mapsto> unat request))) \<and>
    (always_gives reserve good \<and> (base_ptr h = 0 \<or> 2 \<le> bucket_limit h) \<and> unat (request + 8) \<le> 2 ^ (max_log2 c - 2) \<longrightarrow>
      p \<noteq> 0)"
proof (cases "request + of_nat HEADER_SIZE > push_bit (max_log2 c) 1")
  case True
  have "max_log2 c \<le> 63" using assms unfolding buddy_repr_def config_ok_def by linarith
  then have "2 ^ max_log2 c < unat (request + 8)"
    using True unat_u64_power[of "max_log2 c"]
    by (simp add: HEADER_SIZE_def push_bit_eq_mult word_less_nat_alt)
  moreover have "(2::nat) ^ (max_log2 c - 2) \<le> 2 ^ max_log2 c" by (intro power_increasing) auto
  ultimately have "\<not> unat (request + 8) \<le> 2 ^ (max_log2 c - 2)" by linarith
  then show ?thesis using True assms by (simp add: buddy_malloc_def contents_kept_refl)
next
  case False
  have c: "config_ok c" and g: "good (kernel h) (max_ptr h)" using assms by (simp_all add: buddy_repr_def)
  have "unat (request + 8) \<le> 2 ^ max_log2 c"
    using False unat_u64_power[of "max_log2 c"] c
    by (simp add: HEADER_SIZE_def push_bit_eq_mult word_less_nat_alt config_ok_def)
  then obtain b where b: "b \<le> last_bucket c" "bucket_for_request c (request + 8) = Some (of_nat b)"
    using bucket_for_request_ok[OF c] by blast
  note ub = bucket_small[OF c b(1)]
  have two: "2 \<le> b" if "unat (request + 8) \<le> 2 ^ (max_log2 c - 2)"
    using bucket_at_least[OF c b _ that] last_bucket_ok(1)[OF c] by simp
  have main: "\<exists>h' p. malloc_loop c reserve request b b h1 = Some (h', p) \<and> contents_kept c A h1 h' \<and>
      (if p = 0 then buddy_repr c good h' A else A p = None \<and> buddy_repr c good h' (A(p \<mapsto> unat request))) \<and>
      (always_gives reserve good \<and> 2 \<le> bucket_limit h1 \<and> 2 \<le> b \<longrightarrow> p \<noteq> 0)"
    if state: "buddy_state c h1 t fl" and A: "alloc_map c h1 t A" and g1: "good (kernel h1) (max_ptr h1)" for h1 t fl
  proof -
    obtain h' p t' fl' where h': "malloc_loop c reserve request b b h1 = Some (h', p)" "buddy_state c h' t' fl'"
      "good (kernel h') (max_ptr h')" "malloc_result c t h1 t' h' (unat request) p"
      "always_gives reserve good \<and> 2 \<le> bucket_limit h1 \<and> 2 \<le> b \<longrightarrow> p \<noteq> 0"
      using malloc_loop_ok[OF state g1 order_refl b] by blast
    from h'(4) consider (fail) "p = 0" "unchanged c t h1 t' h'"
      | (new) b' k' where "p = block_at c h' b' k' + HEADER_SIZE" "handed c t h1 t' h' b' k' (unat request)"
      unfolding malloc_result_def by blast
    then show ?thesis
    proof cases
      case fail
      have "alloc_map c h' t' A" using A fail(2) by (auto simp: alloc_map_def unchanged_def block_at_def)
      moreover have "contents_kept c A h1 h'"
        using kept_contents[OF buddy_stateD(1)[OF state] A] fail(2) by (simp add: unchanged_def)
      ultimately show ?thesis using h' fail(1) c by (auto simp: buddy_repr_def)
    next
      case new
      note H = new(2)[unfolded handed_def]
      have same: "block_at c h' x y = block_at c h1 x y" for x y using H by (simp add: block_at_def)
      have used: "t' b' k' = Used (unat request)" using H by simp
      have other: "p \<noteq> block_at c h' x y + 8" if "t' x y = Used z" "\<not> (x = b' \<and> y = k')" for x y z
        using block_inj[OF buddy_stateD(1)[OF h'(2)], of b' k' x y] used that new(1) by (auto simp: HEADER_SIZE_def)
      have none: "A p = None"
      proof (rule ccontr)
        assume "A p \<noteq> None"
        then obtain s x y where s: "t x y = Used s" "p = block_at c h1 x y + 8" using A by (auto simp: alloc_map_def)
        then have "\<not> (x = b' \<and> y = k')" using H by auto
        moreover have "t' x y = Used s" using H s(1) calculation by auto
        ultimately show False using other s(2) same by auto
      qed
      have "alloc_map c h' t' (A(p \<mapsto> unat request))"
        unfolding alloc_map_def
      proof (intro allI)
        fix q s
        show "(A(p \<mapsto> unat request)) q = Some s \<longleftrightarrow> (\<exists>x y. t' x y = Used s \<and> q = block_at c h' x y + 8)"
        proof (cases "q = p")
          case True
          then show ?thesis using used new(1) other by (auto simp: HEADER_SIZE_def) (metis bnode.inject)
        next
          case False
          then have "\<not> (x = b' \<and> y = k')" if "q = block_at c h' x y + 8" for x y
            using that new(1) by (auto simp: HEADER_SIZE_def)
          then have "(\<exists>x y. t' x y = Used s \<and> q = block_at c h' x y + 8) \<longleftrightarrow>
              (\<exists>x y. t x y = Used s \<and> q = block_at c h1 x y + 8)"
            using H same by (metis (no_types, lifting))
          then show ?thesis using A False by (simp add: alloc_map_def)
        qed
      qed
      moreover have "contents_kept c A h1 h'"
        using kept_contents[OF buddy_stateD(1)[OF state] A] H by simp
      moreover have "p \<noteq> 0" using new(1) by (simp add: HEADER_SIZE_def)
      ultimately show ?thesis using h' none c by (auto simp: buddy_repr_def)
    qed
  qed
  have malloc: "buddy_malloc c reserve request h = malloc_loop c reserve request b b h1"
    if "buddy_setup c reserve h = Some (h1, True)" for h1
    using that False b(2) ub by (simp add: buddy_malloc_def HEADER_SIZE_def)
  show ?thesis
  proof (cases "\<exists>t fl. buddy_state c h t fl \<and> alloc_map c h t A")
    case True
    then obtain t fl where t: "buddy_state c h t fl" "alloc_map c h t A" by blast
    then have "buddy_setup c reserve h = Some (h, True)"
      using max_ptr_pos[OF buddy_stateD(1)[OF t(1)]] by (simp add: buddy_setup_def)
    moreover have "base_ptr h \<noteq> 0" using max_ptr_pos[OF buddy_stateD(1)[OF t(1)]] by simp
    ultimately show ?thesis using main[OF t g] malloc two by metis
  next
    case init: False
    then have i: "base_ptr h = 0" "max_ptr h = 0" "node_is_split h = replicate (2 ^ last_bucket c div 8) 0" "A = Map.empty"
      using assms by (auto simp: buddy_repr_def)
    obtain h1 ready where h1: "buddy_setup c reserve h = Some (h1, ready)" "good (kernel h1) (max_ptr h1)"
      "if ready then bucket_limit h1 = last_bucket c \<and> (\<exists>t fl. buddy_state c h1 t fl \<and> (\<forall>b k s. t b k \<noteq> Used s))
       else base_ptr h1 = 0 \<and> max_ptr h1 = 0 \<and> node_is_split h1 = replicate (2 ^ last_bucket c div 8) 0 \<and>
         \<not> always_gives reserve good"
      using setup_ok[OF c g i(1-3)] by blast
    show ?thesis
    proof (cases ready)
      case True
      then obtain t fl where t: "buddy_state c h1 t fl" "\<forall>b k s. t b k \<noteq> Used s" using h1(3) by auto
      then have "alloc_map c h1 t A" by (simp add: alloc_map_def i(4))
      moreover have "2 \<le> bucket_limit h1" using h1(3) True last_bucket_ok(1)[OF c] by simp
      moreover have "contents_kept c A h h'" for h' :: "'k buddy" by (simp add: contents_kept_def i(4))
      ultimately show ?thesis using main[OF t(1) _ h1(2)] malloc[of h1] h1(1) True two by metis
    next
      case False
      then have "buddy_malloc c reserve request h = Some (h1, 0)"
        using h1(1) \<open>\<not> request + of_nat HEADER_SIZE > push_bit (max_log2 c) 1\<close> by (simp add: buddy_malloc_def)
      then show ?thesis
        using False h1 i(4) c by (auto simp: buddy_repr_def contents_kept_def)
    qed
  qed
qed

end

lemma buddy_init_repr: "config_ok c \<Longrightarrow> good k 0 \<Longrightarrow> buddy_repr c good (buddy_init c k) Map.empty"
  by (simp add: buddy_repr_def buddy_init_def BUCKET_COUNT_def last_bucket_def)

text \<open>An allocated block, seen in the tree.\<close>

lemma repr_used:
  assumes "buddy_repr c good h A" and "A p = Some s"
  obtains t fl b k where "buddy_state c h t fl" and "alloc_map c h t A" and "t b k = Used s"
    and "p = block_at c h b k + 8" and "config_ok c" and "good (kernel h) (max_ptr h)"
  using assms unfolding buddy_repr_def alloc_map_def by fastforce

lemma repr_ptr:
  assumes "buddy_repr c good h A" and "A p = Some s"
  shows "p \<noteq> 0" and "base_ptr h \<le> p" and "p \<le> max_ptr h" and "ld (p - HEADER_SIZE) h = Some s"
    and "unat (of_nat s :: u64) = s"
proof -
  obtain t fl b k where t: "buddy_state c h t fl" "t b k = Used s" "p = block_at c h b k + 8"
    using repr_used[OF assms] by metis
  note core = buddy_stateD(1)[OF t(1)]
  have n: "b \<le> last_bucket c" "16 \<le> (2::nat) ^ (max_log2 c - b)" using leaf_bucket[OF core, of b k] t(2) by simp_all
  note al = block_aligned[OF core n(1), of k] and u = buddy_coreD(9)[OF core t(2)]
  have "8 dvd block_at c h b k" using al(1) by presburger
  moreover have "buckets h \<le> block_at c h b k" using al(2) buddy_coreD(4)[OF core] by (simp add: bucket_at_def)
  ultimately show "p \<noteq> 0" "base_ptr h \<le> p" "p \<le> max_ptr h" "ld (p - HEADER_SIZE) h = Some s"
    using t(3) u n(2) al(2) by (simp_all add: ld_def mem_ok_def HEADER_SIZE_def)
  show "unat (of_nat s :: u64) = s" using u by (simp add: unsigned_of_nat take_bit_nat_eq_self_iff)
qed

section \<open>Freeing\<close>

lemma buddy_free_ok:
  assumes r: "buddy_repr c good h A" and A: "A p = Some s"
  shows "\<exists>h'. buddy_free c p h = Some h' \<and> buddy_repr c good h' (A(p := None)) \<and>
    contents_kept c (A(p := None)) h h' \<and> base_ptr h' = base_ptr h"
proof -
  obtain t fl b k where t: "buddy_state c h t fl" "alloc_map c h t A" "t b k = Used s" "p = block_at c h b k + 8"
    and c: "config_ok c" and g: "good (kernel h) (max_ptr h)"
    using repr_used[OF assms] by metis
  note core = buddy_stateD(1)[OF t(1)] and u = buddy_coreD(9)[OF buddy_stateD(1)[OF t(1)] t(3)]
  let ?t = "set_node b k Held t"
  have n: "b \<le> last_bucket c" using leaf_bucket[OF core, of b k] t(3) by simp
  have same: "?t b' k' = Unused \<longleftrightarrow> t b' k' = Unused" for b' k' using t(3) by auto
  have "flags_ok c h ?t" by (rule flags_cong[OF buddy_stateD(2)[OF t(1)] same])
  moreover have "merged ?t" by (rule merged_cong[OF buddy_stateD(3)[OF t(1)]]) (simp only: same)
  ultimately have "buddy_holding c h ?t fl ?t b k"
    using retrieve_used[OF core t(3)] buddy_stateD(4)[OF t(1)] by (auto simp: buddy_holding_def)
  from free_loop_ok[OF this] obtain h1 t1 fl1 b1 k1 where
    h1: "free_loop c b (node_index b k) h = Some (h1, b1, node_index b1 k1)"
    "buddy_holding c h1 t1 fl1 (set_node b1 k1 Unused t1) b1 k1" "unchanged c ?t h t1 h1"
    "max_ptr h1 = max_ptr h" "kernel h1 = kernel h" by blast
  have core1: "buddy_core c h1 t1 fl1" and x1: "t1 b1 k1 = Held" and only: "\<And>b' k'. t1 b' k' = Held \<longleftrightarrow> b' = b1 \<and> k' = k1"
    using h1(2) by (auto simp: buddy_holding_def)
  obtain m fl2 where m: "blist_push (bucket_at b1 h1) (block_at c h1 b1 k1) h1 = Some (h1\<lparr>cells := m\<rparr>)"
    "buddy_core c (h1\<lparr>cells := m\<rparr>) (set_node b1 k1 Unused t1) fl2" "kept c t1 h1 m"
    using push_held[OF core1 x1] by blast
  let ?h = "h1\<lparr>cells := m\<rparr>" and ?u = "set_node b1 k1 Unused t1"
  have "?u b' k' \<noteq> Held" for b' k' using only by auto
  then have state: "buddy_state c ?h ?u fl2"
    using m(2) h1(2) by (simp add: buddy_state_def buddy_holding_def buddy_simps)
  have "?u b' k' = Used z \<longleftrightarrow> t1 b' k' = Used z" for b' k' z using x1 by auto
  then have un: "unchanged c ?t h ?u ?h" using unchanged_trans[OF h1(3) unchanged_cells[OF m(3)]] by blast
  have used: "?u x y = Used z \<longleftrightarrow> t x y = Used z \<and> \<not> (x = b \<and> y = k)" for x y z
    using un t(3) unfolding unchanged_def by (auto split: if_splits)
  have same_at: "block_at c ?h x y = block_at c h x y" for x y using un by (simp add: unchanged_def block_at_def)
  have A': "alloc_map c ?h ?u (A(p := None))"
    unfolding alloc_map_def
  proof (intro allI)
    fix q z
    have p: "q \<noteq> p" if "t x y = Used z" "q = block_at c h x y + 8" "\<not> (x = b \<and> y = k)" for x y
      using block_inj[OF core, of b k x y] that t(3,4) by auto
    have A: "A q = Some z \<longleftrightarrow> (\<exists>x y. t x y = Used z \<and> q = block_at c h x y + 8)"
      using t(2) by (simp add: alloc_map_def)
    show "(A(p := None)) q = Some z \<longleftrightarrow> (\<exists>x y. ?u x y = Used z \<and> q = block_at c ?h x y + 8)"
    proof (cases "q = p")
      case True
      then show ?thesis using p unfolding used same_at by auto
    next
      case False
      then have "\<not> (x = b \<and> y = k)" if "q = block_at c h x y + 8" for x y using that t(4) by auto
      then show ?thesis using False A unfolding used same_at by (simp del: set_node_apply) blast
    qed
  qed
  have "contents_kept c (A(p := None)) h ?h"
  proof -
    have t': "buddy_core c h ?t fl" by (rule retrieve_used[OF core t(3)])
    have "alloc_map c h ?t (A(p := None))"
      using A' un unfolding alloc_map_def unchanged_def block_at_def by simp
    then show ?thesis using kept_contents[OF t' _ _ _, of "A(p := None)" ?h "A(p := None)"] un by (simp add: unchanged_def)
  qed
  moreover have "base_ptr ?h = base_ptr h" using un by (simp add: unchanged_def)
  moreover have "buddy_repr c good ?h (A(p := None))"
    using state A' c g h1(4,5) unfolding buddy_repr_def by auto
  moreover have "buddy_free c p h = Some ?h"
  proof -
    have "node_for_ptr c (p - HEADER_SIZE) b h = node_index b k" using node_for_block t(4) by (simp add: HEADER_SIZE_def)
    then show ?thesis
      using repr_ptr[OF r A] u h1(1) m(1) bucket_small[OF c n]
      by (simp add: buddy_free_def HEADER_SIZE_def ptr_for_node_index)
  qed
  ultimately show ?thesis by blast
qed

text \<open>With nothing allocated, all memory is one free block: merging is complete.\<close>

lemma nothing_used:
  assumes state: "buddy_state c h t fl" and none: "\<And>b k s. t b k \<noteq> Used s" and x: "t b k \<noteq> Absent"
  shows "t b k = Unused"
  using x
proof (induction "last_bucket c - b" arbitrary: b k rule: less_induct)
  case less
  note wf = buddy_coreD(5)[OF buddy_stateD(1)[OF state]]
  have b: "bucket_limit h \<le> b" "b \<le> last_bucket c" using tree_range[OF wf less.prems] by simp_all
  show ?case
  proof (cases "t b k")
    case Divided
    have kids: "t (Suc b) j \<noteq> Absent" if "j div 2 = k" for j
      using tree_wfD(5)[OF wf b(1), of j] Divided that by simp
    then have "Suc b \<le> last_bucket c" using tree_range[OF wf, of "Suc b" "2 * k"] by simp
    then have "t (Suc b) j = Unused" if "j div 2 = k" for j
      using less.hyps[of "Suc b" j] kids[OF that] by simp
    then have "t (Suc b) (2 * k) = Unused" "t (Suc b) (2 * k + 1) = Unused" by simp_all
    then show ?thesis using buddy_stateD(3)[OF state] unfolding merged_def by blast
  qed (use less.prems none buddy_stateD(4)[OF state] in auto)
qed

lemma all_free:
  assumes r: "buddy_repr c good h Map.empty" and b: "base_ptr h \<noteq> 0"
  shows "ld (bucket_at (bucket_limit h) h) h = Some (base_ptr h)"
    and "\<And>b. bucket_limit h < b \<Longrightarrow> b \<le> last_bucket c \<Longrightarrow> ld (bucket_at b h) h = Some (bucket_at b h)"
proof -
  obtain t fl where t: "buddy_state c h t fl" "alloc_map c h t Map.empty"
    using r b by (auto simp: buddy_repr_def)
  note core = buddy_stateD(1)[OF t(1)]
  note wf = buddy_coreD(5)[OF core]
  have none: "t b k \<noteq> Used s" for b k s using t(2) by (auto simp: alloc_map_def)
  have root: "t (bucket_limit h) 0 = Unused"
    by (rule nothing_used[OF t(1) none tree_wfD(2)[OF wf]])
  have only: "b = bucket_limit h \<and> k = 0" if "t b k = Unused" for b k
    using root_leaf[OF wf, of b k] root that by simp
  have head: "ld (bucket_at b h) h = Some (last (bucket_at b h # fl b))"
    if "bucket_limit h \<le> b" "b \<le> last_bucket c" for b
    using buddy_coreD(6)[OF core] that ring_last
    unfolding free_lists_def free_nodes_def node_ok_def ld_def by auto
  have L: "bucket_limit h \<le> last_bucket c" using tree_wfD(1)[OF wf] .
  have "set (fl (bucket_limit h)) = {base_ptr h}"
  proof -
    have "{k. t (bucket_limit h) k = Unused} = {0}" using root only by blast
    then show ?thesis using buddy_coreD(7)[OF core order_refl L] by (simp add: block_at_def)
  qed
  moreover have "distinct (fl (bucket_limit h))" using buddy_coreD(6)[OF core] L by (auto simp: free_lists_def)
  ultimately have "fl (bucket_limit h) = [base_ptr h]"
    by (metis distinct_card card_1_singleton_iff One_nat_def length_0_conv length_Suc_conv list.set_intros(1) singletonD)
  then show "ld (bucket_at (bucket_limit h) h) h = Some (base_ptr h)" using head[OF order_refl L] by simp
  show "ld (bucket_at b h) h = Some (bucket_at b h)" if "bucket_limit h < b" "b \<le> last_bucket c" for b
  proof -
    have "{k. t b k = Unused} = {}" using that(1) only[of b] by auto
    then have "set (fl b) = {}" using buddy_coreD(7)[OF core, of b] that by simp
    then show ?thesis using head[of b] that by simp
  qed
qed

end
