(* ===== verification/BuddyTheorems.thy ===== *)
theory BuddyTheorems
  imports BuddyProps
begin

text \<open>
  The buddy allocator on \<open>reserve_mmap\<close>: the states that a program can bring it into, and what holds in
  them, whatever the kernel answers and whatever the program writes into its blocks.
\<close>

section \<open>Layout of the memory\<close>

lemma bucket_fits:
  assumes c: "config_ok c" and b: "b \<le> last_bucket c" and r: "bucket_for_request c r = Some (of_nat b)"
  shows "unat r \<le> 2 ^ (max_log2 c - b)"
proof -
  have mn: "min_log2 c \<le> 63" "max_log2 c = min_log2 c + last_bucket c" "last_bucket c < 63"
    using c unfolding config_ok_def last_bucket_def by linarith+
  have "unat r \<le> 2 ^ 63"
  proof (rule ccontr)
    assume "\<not> unat r \<le> 2 ^ 63"
    then have "bucket_for_request c r = None" using mn(1) by (intro bucket_for_huge) auto
    then show False using r by simp
  qed
  then have "unat r \<le> 2 ^ (min_log2 c + (63 - min_log2 c))" using mn(1) by simp
  then obtain e where e: "e \<le> 63 - min_log2 c" "unat r \<le> 2 ^ (min_log2 c + e)"
    "request_loop (2 ^ min_log2 c) (of_nat (last_bucket c)) r = Some (of_nat (last_bucket c) - of_nat e)"
    using request_loop_ok[of r "min_log2 c" "63 - min_log2 c" "of_nat (last_bucket c)"] mn(1) by auto
  have "BUCKET_COUNT c = Suc (last_bucket c)" by (simp add: BUCKET_COUNT_def last_bucket_def)
  then have "(of_nat b :: u64) = of_nat (last_bucket c) - of_nat e"
    using e(3) r by (simp add: bucket_for_request_def push_bit_eq_mult)
  then have "(of_nat (b + e) :: u64) = of_nat (last_bucket c)" by (simp add: algebra_simps)
  then have "unat (of_nat (b + e) :: u64) = unat (of_nat (last_bucket c) :: u64)" by (rule arg_cong)
  moreover have "b + e < 2 ^ 64" "last_bucket c < 2 ^ 64" using b e(1) mn by simp_all
  ultimately have "b + e = last_bucket c"
    by (simp only: unsigned_of_nat) (simp add: take_bit_nat_eq_self)
  then have "min_log2 c + e = max_log2 c - b" using mn(2) by simp
  then show ?thesis using e(2) by simp
qed

lemma repr_layout:
  assumes r: "buddy_repr c good h A" and A: "A p = Some s"
  shows "16 dvd p" and "base_ptr h + 8 \<le> p" and "p + block_bytes c s \<le> max_ptr h + 8"
    and "s + 8 < 2 ^ 64 \<Longrightarrow> s + 8 \<le> block_bytes c s"
    and "A q = Some z \<Longrightarrow> q \<noteq> p \<Longrightarrow> p + block_bytes c s \<le> q \<or> q + block_bytes c z \<le> p"
proof -
  obtain t fl b k where t: "buddy_state c h t fl" "alloc_map c h t A" "t b k = Used s" "p = block_at c h b k + 8"
    and c: "config_ok c" using repr_used[OF r A] by metis
  note core = buddy_stateD(1)[OF t(1)]
  have n: "b \<le> last_bucket c" using leaf_bucket[OF core, of b k] t(3) by simp
  note bytes = used_bytes[OF core t(3)] and u = buddy_coreD(9)[OF core t(3)]
  show "16 dvd p" "base_ptr h + 8 \<le> p" "p + block_bytes c s \<le> max_ptr h + 8"
    using block_aligned[OF core n, of k] t(4) u bytes by simp_all
  show "s + 8 \<le> block_bytes c s" if "s + 8 < 2 ^ 64"
  proof -
    have "(of_nat s + 8 :: u64) = of_nat (s + 8)" by simp
    then have "unat (of_nat s + 8 :: u64) = s + 8"
      using that by (simp only: unsigned_of_nat) (simp add: take_bit_nat_eq_self_iff)
    then show ?thesis using bucket_fits[OF c n] u bytes by metis
  qed
  show "p + block_bytes c s \<le> q \<or> q + block_bytes c z \<le> p" if q: "A q = Some z" "q \<noteq> p"
  proof -
    obtain x y where xy: "t x y = Used z" "q = block_at c h x y + 8"
      using q t(2) by (auto simp: alloc_map_def)
    then show ?thesis
      using leaf_blocks[OF core, of b k x y] t(3,4) q(2) bytes used_bytes[OF core xy(1)] by auto
  qed
qed

lemma unat_plus8: "unat (r + 8 :: u64) = (if unat r + 8 < 2 ^ 64 then unat r + 8 else unat r + 8 - 2 ^ 64)"
  using unat_plus_if'[of r 8] by simp

text \<open>For the last eight sizes the size with the header wraps around, and the smallest block is taken.\<close>

lemma block_bytes_wrap:
  assumes c: "config_ok c" and w: "2 ^ 64 \<le> unat (request :: u64) + 8"
  shows "block_bytes c (unat request) = 2 ^ min_log2 c"
proof -
  have mn: "min_log2 c \<le> max_log2 c" "3 \<le> min_log2 c" "last_bucket c \<le> last_bucket c"
    "max_log2 c - last_bucket c = min_log2 c" "BUCKET_COUNT c = Suc (last_bucket c)" "min_log2 c \<le> 63"
    using c unfolding config_ok_def last_bucket_def BUCKET_COUNT_def by linarith+
  have "unat request < 2 ^ 64" using unsigned_less[of request] by simp
  then have "unat (request + 8) \<le> 8" using w unfolding unat_plus8 by (simp only: not_less if_not_P)
  moreover have "(8::nat) \<le> 2 ^ min_log2 c" using power_increasing[OF mn(2), of "2::nat"] by simp
  moreover have "unat (2 ^ min_log2 c :: u64) = 2 ^ min_log2 c" by (rule unat_u64_power[OF mn(6)])
  ultimately have "\<not> 2 ^ min_log2 c < request + 8" by (simp add: word_less_nat_alt)
  then have "bucket_for_request c (request + 8) = Some (of_nat (last_bucket c))"
    by (simp add: bucket_for_request_def push_bit_eq_mult request_loop.simps[of _ _ "request + 8"] mn(5))
  then show ?thesis using bucket_small[OF c mn(3)] mn(4) by (simp add: block_bytes_def)
qed

section \<open>Writing into a block, and resizing it\<close>

lemma links_same: "links m xs \<Longrightarrow> (\<And>a. a \<in> words_of (set xs) \<Longrightarrow> m' a = m a) \<Longrightarrow> links m' xs"
  by (subst links_cong[of xs m' m]) (cases xs; auto simp: words_of_def dest: in_set_butlastD)+

lemma core_write:
  assumes core: "buddy_core c h t fl" and u: "t b k = Used s"
    and a: "block_at c h b k + 8 \<le> a" "a < block_at c h b k + 2 ^ (max_log2 c - b)"
  shows "buddy_core c (h\<lparr>cells := (cells h)(a := v)\<rparr>) t fl"
proof -
  let ?R = "{bucket_limit h..last_bucket c}" and ?m = "(cells h)(a := v)"
  note D = buddy_coreD[OF core]
  have out: "a \<notin> words_of (free_nodes h ?R fl)"
    using held_apart[OF core, of b k] u a unfolding words_of_def by fastforce
  have "ring ?m (bucket_at c' h) (fl c')" if c': "c' \<in> ?R" for c'
  proof -
    have sub: "set (bucket_at c' h # fl c' @ [bucket_at c' h]) \<subseteq> free_nodes h ?R fl"
      using free_nodesI[OF c', of _ h fl] by auto
    have "ring (cells h) (bucket_at c' h) (fl c')" using D(6) c' by (simp add: free_lists_def)
    then show ?thesis
      unfolding ring_def using out words_of_mono[OF sub] by (elim links_same) auto
  qed
  then have fl: "free_lists (h\<lparr>cells := ?m\<rparr>) ?R fl" using D(6) by (simp add: free_lists_def buddy_simps)
  have "?m (block_at c h x y) = z" if "t x y = Used z" for x y z
  proof -
    have "block_at c h x y \<noteq> a"
    proof (cases "x = b \<and> y = k")
      case False
      then show ?thesis
        using leaf_blocks[OF core, of b k x y] leaf_bucket(3)[OF core, of x y] u that a by force
    qed (use a in auto)
    then show ?thesis using D(9)[OF that] by simp
  qed
  then show ?thesis using core fl unfolding buddy_core_def by (auto simp: buddy_simps)
qed

lemma repr_write:
  assumes r: "buddy_repr c good h A" and A: "A p = Some s" and a: "p \<le> a" "a + 8 < p + block_bytes c s"
  shows "buddy_repr c good (h\<lparr>cells := (cells h)(a := v)\<rparr>) A"
proof -
  obtain t fl b k where t: "buddy_state c h t fl" "alloc_map c h t A" "t b k = Used s" "p = block_at c h b k + 8"
    and c: "config_ok c" "good (kernel h) (max_ptr h)" using repr_used[OF r A] by metis
  note core = buddy_stateD(1)[OF t(1)]
  have "buddy_core c (h\<lparr>cells := (cells h)(a := v)\<rparr>) t fl"
    using core_write[OF core t(3)] a t(4) used_bytes[OF core t(3)] by simp
  then have "buddy_state c (h\<lparr>cells := (cells h)(a := v)\<rparr>) t fl"
    using t(1) by (simp add: buddy_state_def buddy_simps)
  moreover have "alloc_map c (h\<lparr>cells := (cells h)(a := v)\<rparr>) t A"
    using t(2) by (simp add: alloc_map_def buddy_simps)
  ultimately show ?thesis using c unfolding buddy_repr_def by auto
qed

lemma bucket_for_moderate:
  assumes c: "config_ok c" and r: "unat r \<le> 2 ^ 63"
  shows "bucket_for_request c r \<noteq> None"
proof -
  have mn: "min_log2 c \<le> 63" using c unfolding config_ok_def by linarith
  then show ?thesis
    using request_loop_ok[of r "min_log2 c" "63 - min_log2 c"] r
    by (fastforce simp: bucket_for_request_def push_bit_eq_mult)
qed

lemma buddy_resize_ok:
  assumes r: "buddy_repr c good h A" and A: "A p = Some s"
  shows "if 2 ^ 63 < unat (request + 8) then buddy_resize c p request h = None
    else \<exists>h'. buddy_resize c p request h = Some (h', block_bytes c (unat request) = block_bytes c s) \<and>
      contents_kept c A h h' \<and>
      buddy_repr c good h' (if block_bytes c (unat request) = block_bytes c s then A(p \<mapsto> unat request) else A)"
proof (cases "2 ^ 63 < unat (request + 8)")
  case True
  have mn: "min_log2 c \<le> 64" using r unfolding buddy_repr_def config_ok_def by linarith
  obtain b where "bucket_for_request c (of_nat s + 8) = Some b"
    using repr_used[OF r A] buddy_coreD(9)[OF buddy_stateD(1)] by metis
  then show ?thesis
    using True repr_ptr[OF r A] bucket_for_huge[OF True mn] by (simp add: buddy_resize_def HEADER_SIZE_def)
next
  case False
  obtain t fl b k where t: "buddy_state c h t fl" "alloc_map c h t A" "t b k = Used s" "p = block_at c h b k + 8"
    and c: "config_ok c" and g: "good (kernel h) (max_ptr h)" using repr_used[OF r A] by metis
  note core = buddy_stateD(1)[OF t(1)] and u = buddy_coreD(9)[OF buddy_stateD(1)[OF t(1)] t(3)]
  have n: "b \<le> last_bucket c" using leaf_bucket[OF core, of b k] t(3) by simp
  obtain b' where b': "bucket_for_request c (request + 8) = Some b'"
    using bucket_for_moderate[OF c, of "request + 8"] False by auto
  have small: "unat (of_nat b :: u64) = b" by (rule bucket_small[OF c n])
  have eq: "block_bytes c (unat request) = block_bytes c s \<longleftrightarrow> b' = of_nat b"
  proof
    assume "block_bytes c (unat request) = block_bytes c s"
    then have "(2::nat) ^ (max_log2 c - unat b') = 2 ^ (max_log2 c - b)"
      using b' used_bytes[OF core t(3)] by (simp add: block_bytes_def)
    then have "max_log2 c - unat b' = max_log2 c - b" by simp
    moreover have "b < max_log2 c" using n c unfolding config_ok_def last_bucket_def by linarith
    ultimately have "unat b' = b" by linarith
    then show "b' = of_nat b" by auto
  next
    assume "b' = of_nat b"
    then show "block_bytes c (unat request) = block_bytes c s" using b' u by (simp add: block_bytes_def)
  qed
  show ?thesis
  proof (cases "b' = of_nat b")
    case differ: False
    then have "buddy_resize c p request h = Some (h, False)"
      using repr_ptr[OF r A] u b' by (auto simp: buddy_resize_def HEADER_SIZE_def)
    then show ?thesis using False eq differ r contents_kept_refl by auto
  next
    case same: True
    have core': "buddy_core c h (set_node b k Held t) fl" by (rule retrieve_used[OF core t(3)])
    have "unat request < 2 ^ 64" using unsigned_less[of request] by simp
    then obtain m where m: "st (block_at c h b k) (unat request) h = Some (h\<lparr>cells := m\<rparr>)"
      "buddy_core c (h\<lparr>cells := m\<rparr>) (set_node b k (Used (unat request)) (set_node b k Held t)) fl"
      using hand_out[OF core', of b k "unat request"] b' same u by auto
    let ?h = "h\<lparr>cells := m\<rparr>" and ?t = "set_node b k (Used (unat request)) t"
    have "set_node b k (Used (unat request)) (set_node b k Held t) = ?t" by (auto simp: fun_eq_iff)
    then have core2: "buddy_core c ?h ?t fl" using m(2) by simp
    have m_eq: "m = (cells h)(block_at c h b k := unat request)"
      using m(1) by (auto simp: st_def split: if_splits dest: arg_cong[of _ _ cells])
    have "flags_ok c h ?t" by (rule flags_cong[OF buddy_stateD(2)[OF t(1)]]) (use t(3) in auto)
    moreover have "merged ?t" by (rule merged_cong[OF buddy_stateD(3)[OF t(1)]]) (auto split: if_splits)
    moreover have "?t x y \<noteq> Held" for x y using buddy_stateD(4)[OF t(1)] by auto
    ultimately have state: "buddy_state c ?h ?t fl" using core2 by (simp add: buddy_state_def buddy_simps)
    have other: "\<not> (x = b \<and> y = k)" if "q \<noteq> p" "q = block_at c h x y + 8" for q x y using that t(4) by auto
    have mine: "x = b \<and> y = k" if "t x y = Used z" "p = block_at c h x y + 8" for x y z
      using block_inj[OF core, of x y b k] that t(3,4) by simp
    have "alloc_map c ?h ?t (A(p \<mapsto> unat request))"
      unfolding alloc_map_def
    proof (intro allI)
      fix q z
      show "(A(p \<mapsto> unat request)) q = Some z \<longleftrightarrow> (\<exists>x y. ?t x y = Used z \<and> q = block_at c ?h x y + 8)"
      proof (cases "q = p")
        case True
        then show ?thesis using mine t(4) by (auto simp: buddy_simps split: if_splits)
      next
        case False
        have "(\<exists>x y. ?t x y = Used z \<and> q = block_at c h x y + 8) \<longleftrightarrow> (\<exists>x y. t x y = Used z \<and> q = block_at c h x y + 8)"
          using other[OF False] by (metis set_node_apply)
        then show ?thesis using False t(2) by (simp add: alloc_map_def buddy_simps del: set_node_apply)
      qed
    qed
    moreover have "contents_kept c A h ?h"
      unfolding contents_kept_def
    proof (intro allI impI)
      fix q z a assume a: "A q = Some z" "q \<le> a" "a + 8 < q + block_bytes c z"
      have "p + block_bytes c s \<le> q \<or> q + block_bytes c z \<le> p \<or> q = p" using repr_layout(5)[OF r A a(1)] by blast
      moreover have "16 \<le> block_bytes c s"
        using leaf_bucket(3)[OF core, of b k] t(3) used_bytes[OF core t(3)] by simp
      ultimately have "a \<noteq> block_at c h b k" using a t(4) by auto
      then show "cells ?h a = cells h a" by (simp add: m_eq)
    qed
    moreover have "buddy_resize c p request h = Some (?h, True)"
      using repr_ptr[OF r A] u b' same m(1) t(4) by (simp add: buddy_resize_def HEADER_SIZE_def)
    ultimately show ?thesis
      using False eq same state c g unfolding buddy_repr_def by auto
  qed
qed

section \<open>The mapping as a provider of memory\<close>

definition mapping_good :: "'o mapping \<Rightarrow> nat \<Rightarrow> bool" where
  "mapping_good k m \<longleftrightarrow> m = 0 \<or> mmap_addr k \<le> m \<and> (m - mmap_addr k) mod block_size = 0"

lemma align_block: "n \<le> align_up n block_size" "align_up n block_size mod block_size = 0"
proof -
  have "1 < block_size" by (simp add: block_size_def PAGE_SIZE_def)
  then show "n \<le> align_up n block_size" "align_up n block_size mod block_size = 0"
    using align_up_bounds(1,3) by (auto simp: dvd_eq_mod_eq_0)
qed

interpretation mapping: memory_reserve "reserve_mmap mmap mremap" mapping_good for mmap mremap
proof
  fix k :: "'a mapping" and n
  show "\<exists>p m k'. reserve_mmap mmap mremap k n 0 = Some (p, m, k') \<and> mapping_good k' m \<and>
      (p = 0 \<longrightarrow> m = 0) \<and> (p \<noteq> 0 \<longrightarrow> 8 dvd p \<and> p + n \<le> m)"
    using align_block[of n]
    by (cases "mmap (os k) (mmap_addr k) (align_up n block_size)")
      (auto simp: reserve_mmap_def mapping_good_def Let_def PAGE_SIZE_def split: option.splits)
next
  fix k :: "'a mapping" and m n :: nat
  assume g: "mapping_good k m" "m \<noteq> 0"
  then have "(m + align_up n block_size - mmap_addr k) mod block_size = 0"
    using align_block[of n] by (metis mapping_good_def Nat.add_diff_assoc2 add.right_neutral mod_add_eq mod_0)
  then show "\<exists>p m' k'. reserve_mmap mmap mremap k n m = Some (p, m', k') \<and> mapping_good k' m' \<and>
      (p = 0 \<longrightarrow> m' = m) \<and> (p \<noteq> 0 \<longrightarrow> m + n \<le> m')"
    using g align_block[of n]
    by (cases "mremap (os k) (mmap_addr k) (m - mmap_addr k) (m - mmap_addr k + align_up n block_size)")
      (auto simp: reserve_mmap_def mapping_good_def Let_def)
qed

lemma mapping_gives:
  assumes "\<And>s a n. fst (mmap s a n) \<noteq> None" and "\<And>s a n n'. fst (mremap s a n n')"
  shows "always_gives (reserve_mmap mmap mremap) mapping_good"
  unfolding always_gives_def
proof (intro allI impI)
  fix k n m p m' and k' :: "'a mapping"
  assume "reserve_mmap mmap mremap k n m = Some (p, m', k')"
  then show "p \<noteq> 0"
    using assms(1)[of "os k" "mmap_addr k" "align_up n block_size"]
      assms(2)[of "os k" "mmap_addr k" "m - mmap_addr k" "m - mmap_addr k + align_up n block_size"]
    by (cases "mmap (os k) (mmap_addr k) (align_up n block_size)";
        cases "mremap (os k) (mmap_addr k) (m - mmap_addr k) (m - mmap_addr k + align_up n block_size)")
      (auto simp: reserve_mmap_def Let_def PAGE_SIZE_def assert_that_def split: if_splits option.splits)
qed

section \<open>What a program can do\<close>

text \<open>
  The states that calls of the allocator lead to from the start, with what is allocated in them.  The
  program may write anything into its blocks in between.
\<close>

inductive heap_reach ::
  "buddy_config \<Rightarrow> ('o \<Rightarrow> nat \<Rightarrow> nat \<Rightarrow> nat option \<times> 'o) \<Rightarrow> ('o \<Rightarrow> nat \<Rightarrow> nat \<Rightarrow> nat \<Rightarrow> bool \<times> 'o) \<Rightarrow>
   'o mapping buddy \<Rightarrow> (nat \<rightharpoonup> nat) \<Rightarrow> bool" for c mmap mremap where
  start: "config_ok c \<Longrightarrow> heap_reach c mmap mremap (buddy_init c (mapping_init k)) Map.empty"
| malloc: "heap_reach c mmap mremap h A \<Longrightarrow> buddy_malloc c (reserve_mmap mmap mremap) request h = Some (h', p) \<Longrightarrow>
    heap_reach c mmap mremap h' (if p = 0 then A else A(p \<mapsto> unat request))"
| free: "heap_reach c mmap mremap h A \<Longrightarrow> A p = Some s \<Longrightarrow> buddy_free c p h = Some h' \<Longrightarrow>
    heap_reach c mmap mremap h' (A(p := None))"
| resize: "heap_reach c mmap mremap h A \<Longrightarrow> A p = Some s \<Longrightarrow> buddy_resize c p request h = Some (h', done) \<Longrightarrow>
    heap_reach c mmap mremap h' (if done then A(p \<mapsto> unat request) else A)"
| user: "heap_reach c mmap mremap h A \<Longrightarrow> A p = Some s \<Longrightarrow> p \<le> a \<Longrightarrow> a + 8 < p + block_bytes c s \<Longrightarrow>
    heap_reach c mmap mremap (h\<lparr>cells := (cells h)(a := v)\<rparr>) A"

lemma heap_reach_repr: "heap_reach c mmap mremap h A \<Longrightarrow> buddy_repr c mapping_good h A"
proof (induction rule: heap_reach.induct)
  case (start k)
  then show ?case by (intro buddy_init_repr) (simp_all add: mapping_good_def)
next
  case (malloc h A request h' p)
  then show ?case using mapping.malloc_ok[OF malloc.IH, of mmap mremap request] by auto
next
  case (free h A p s h')
  then show ?case using buddy_free_ok[OF free.IH, of p s] by (auto simp del: fun_upd_apply)
next
  case (resize h A p s request h' r)
  then show ?case using buddy_resize_ok[OF resize.IH, of p s request] by (auto split: if_splits)
next
  case (user h A p s a v)
  then show ?case using repr_write by blast
qed

section \<open>An allocator in use\<close>

text \<open>Blocks of 16 to 1024 bytes, and a kernel that maps the second page and always extends the mapping.\<close>

definition example_config :: buddy_config where
  "example_config = \<lparr>min_log2 = 4, max_log2 = 10\<rparr>"

definition example_mmap :: "unit \<Rightarrow> nat \<Rightarrow> nat \<Rightarrow> nat option \<times> unit" where
  "example_mmap s a n = (Some 0, s)"

definition example_mremap :: "unit \<Rightarrow> nat \<Rightarrow> nat \<Rightarrow> nat \<Rightarrow> bool \<times> unit" where
  "example_mremap s a n n' = (True, s)"

definition example_heap :: "unit mapping buddy" where
  "example_heap = buddy_init example_config (mapping_init ())"

lemma example_start: "heap_reach example_config example_mmap example_mremap example_heap Map.empty"
  unfolding example_heap_def by (rule heap_reach.start) (simp add: config_ok_def example_config_def)

lemma example_bucket: "bucket_for_request example_config 13 = Some 6"
  by (simp add: bucket_for_request_def example_config_def BUCKET_COUNT_def push_bit_eq_mult request_loop.simps)

lemma example_malloc:
  "\<exists>h. buddy_malloc example_config (reserve_mmap example_mmap example_mremap) 5 example_heap = Some (h, 4224)"
  apply (simp add: buddy_malloc_def HEADER_SIZE_def example_bucket)
  apply (simp add: example_bucket [unfolded example_config_def] buddy_setup_def example_heap_def buddy_init_def
    BUCKET_COUNT_def example_config_def reserve_mmap_def mapping_init_def example_mmap_def PAGE_SIZE_def align_up_def
    block_size_def Let_def LIST_SIZE_def align_size_def HEADER_SIZE_def bucket_at_def blist_clear_def blist_push_def
    ld_def st_def mem_ok_def)
  apply (subst malloc_loop.simps)
  apply (subst lower_bucket_limit.simps)
  apply (simp add: blist_pop_def blist_remove_def LIST_SIZE_def HEADER_SIZE_def bucket_at_def ld_def st_def mem_ok_def)
  apply (simp add: take_block_def update_max_ptr_def node_for_ptr_def flip_parent_is_split_def Let_def st_def mem_ok_def
    HEADER_SIZE_def)
  apply (subst split_loop.simps)
  apply simp
  done

lemma example_used: "\<exists>h. heap_reach example_config example_mmap example_mremap h [4224 \<mapsto> 5]"
proof -
  obtain h where "buddy_malloc example_config (reserve_mmap example_mmap example_mremap) 5 example_heap = Some (h, 4224)"
    using example_malloc by blast
  from heap_reach.malloc[OF example_start this] show ?thesis by auto
qed

section \<open>The properties\<close>

text \<open>
  C2.  The allocator on \<open>reserve_mmap\<close>, in every state that a program reaches with calls of \<open>malloc\<close>,
  \<open>free\<close> and \<open>resize\<close> and with writes into its own blocks, whatever the kernel answers: \<open>malloc\<close> returns
  (no loop is endless, no access leaves the reserved memory), all blocks keep their contents, and a
  pointer other than 0 is new, aligned to 16 bytes, and its block lies within the reserved memory
  and apart from all others.  The block is large enough for the request and its header unless the
  request is one of the last eight values of \<open>size_t\<close>: then the sum with the size of the header wraps
  around, and the smallest block is taken for it.  If the sum, as it is computed, exceeds the size of
  the whole memory, the result is 0.  It is not 0 if the kernel never fails, the sum is at most a
  quarter of the whole memory, and the tree covers at most a quarter yet (or this is the first call).
\<close>

theorem heap_malloc_correct:
  assumes "heap_reach c mmap mremap h A"
  shows "\<exists>h' p. buddy_malloc c (reserve_mmap mmap mremap) request h = Some (h', p) \<and> contents_kept c A h h' \<and>
    (2 ^ max_log2 c < unat (request + 8) \<longrightarrow> p = 0) \<and>
    (p \<noteq> 0 \<longrightarrow> A p = None \<and> 16 dvd p \<and> base_ptr h' + 8 \<le> p \<and> p + block_bytes c (unat request) \<le> max_ptr h' + 8 \<and>
      (unat request + 8 < 2 ^ 64 \<longrightarrow> unat request + 8 \<le> block_bytes c (unat request)) \<and>
      (2 ^ 64 \<le> unat request + 8 \<longrightarrow> block_bytes c (unat request) = 2 ^ min_log2 c) \<and>
      (\<forall>q s. A q = Some s \<longrightarrow> p + block_bytes c (unat request) \<le> q \<or> q + block_bytes c s \<le> p)) \<and>
    ((\<forall>s a n. fst (mmap s a n) \<noteq> None) \<and> (\<forall>s a n n'. fst (mremap s a n n')) \<and>
      unat (request + 8) \<le> 2 ^ (max_log2 c - 2) \<and> (base_ptr h = 0 \<or> 2 \<le> bucket_limit h) \<longrightarrow> p \<noteq> 0)"
proof -
  note r = heap_reach_repr[OF assms]
  obtain h' p where m: "buddy_malloc c (reserve_mmap mmap mremap) request h = Some (h', p)" "contents_kept c A h h'"
    "p \<noteq> 0 \<Longrightarrow> A p = None \<and> buddy_repr c mapping_good h' (A(p \<mapsto> unat request))"
    "always_gives (reserve_mmap mmap mremap) mapping_good \<Longrightarrow> base_ptr h = 0 \<or> 2 \<le> bucket_limit h \<Longrightarrow>
      unat (request + 8) \<le> 2 ^ (max_log2 c - 2) \<Longrightarrow> p \<noteq> 0"
    using mapping.malloc_ok[OF r, of mmap mremap request] by (auto split: if_splits)
  have c: "config_ok c" using r by (simp add: buddy_repr_def)
  have "p = 0" if "2 ^ max_log2 c < unat (request + 8)"
  proof -
    have "max_log2 c \<le> 63" using r unfolding buddy_repr_def config_ok_def by linarith
    then have "push_bit (max_log2 c) 1 < request + of_nat HEADER_SIZE"
      using that unat_u64_power[of "max_log2 c"]
      by (simp add: HEADER_SIZE_def push_bit_eq_mult word_less_nat_alt)
    then show ?thesis using m(1) by (simp add: buddy_malloc_def)
  qed
  moreover have "p + block_bytes c (unat request) \<le> q \<or> q + block_bytes c s \<le> p"
    if "p \<noteq> 0" "A q = Some s" for q s
    using repr_layout(5)[of c mapping_good h' "A(p \<mapsto> unat request)" p "unat request" q s] m(3) that
    by (cases "q = p") auto
  moreover have "p \<noteq> 0" if "\<forall>s a n. fst (mmap s a n) \<noteq> None" "\<forall>s a n n'. fst (mremap s a n n')"
    "unat (request + 8) \<le> 2 ^ (max_log2 c - 2)" "base_ptr h = 0 \<or> 2 \<le> bucket_limit h"
    using m(4) mapping_gives[of mmap mremap] that by blast
  ultimately show ?thesis
    using m(1-3) repr_layout(1-4)[of c mapping_good h' "A(p \<mapsto> unat request)" p "unat request"]
      block_bytes_wrap[OF c, of request]
    by (intro exI[of _ h'] exI[of _ p]) auto
qed

theorem heap_malloc_correct_witness:
  "\<exists>h p. buddy_malloc example_config (reserve_mmap example_mmap example_mremap) 5 example_heap = Some (h, p) \<and>
    p \<noteq> 0 \<and> 16 dvd p \<and> 13 \<le> block_bytes example_config 5"
proof -
  have "unat (5 + 8 :: u64) \<le> 2 ^ (max_log2 example_config - 2)" "base_ptr example_heap = 0"
    by (simp_all add: example_config_def example_heap_def buddy_init_def)
  then show ?thesis
    using heap_malloc_correct[OF example_start, of 5] by (force simp: example_mmap_def example_mremap_def)
qed

text \<open>
  C4.  In every reachable state the memory is well formed: each allocated block is aligned, lies within
  the reserved memory, \<open>size\<close> returns what was requested for it, and no two blocks overlap.
\<close>

theorem heap_well_formed:
  assumes "heap_reach c mmap mremap h A" and "A p = Some s"
  shows "16 dvd p \<and> base_ptr h + 8 \<le> p \<and> p + block_bytes c s \<le> max_ptr h + 8 \<and> buddy_size p h = Some s \<and>
    (\<forall>q z. A q = Some z \<and> q \<noteq> p \<longrightarrow> p + block_bytes c s \<le> q \<or> q + block_bytes c z \<le> p)"
  using repr_layout[OF heap_reach_repr[OF assms(1)] assms(2)] repr_ptr[OF heap_reach_repr[OF assms(1)] assms(2)]
  by (auto simp: buddy_size_def)

theorem heap_well_formed_witness:
  "\<exists>h. heap_reach example_config example_mmap example_mremap h [4224 \<mapsto> 5] \<and> buddy_size 4224 h = Some 5"
proof -
  obtain h where h: "heap_reach example_config example_mmap example_mremap h [4224 \<mapsto> 5]" using example_used by blast
  then show ?thesis using heap_well_formed[OF h, of 4224 5] by auto
qed

text \<open>
  C11.  Freeing a block in a reachable state returns, and the other blocks keep their contents.  Buddies
  that are both free are always merged: when the last block has been freed, the list of the root
  has the whole memory as its one block and all lists of smaller blocks are empty.
\<close>

theorem heap_free_correct:
  assumes "heap_reach c mmap mremap h A" and "A p = Some s"
  shows "\<exists>h'. buddy_free c p h = Some h' \<and> contents_kept c (A(p := None)) h h' \<and>
    (A(p := None) = Map.empty \<longrightarrow> ld (bucket_at (bucket_limit h') h') h' = Some (base_ptr h') \<and>
      (\<forall>b. bucket_limit h' < b \<and> b \<le> last_bucket c \<longrightarrow> ld (bucket_at b h') h' = Some (bucket_at b h')))"
proof -
  note r = heap_reach_repr[OF assms(1)]
  obtain h' where h': "buddy_free c p h = Some h'" "buddy_repr c mapping_good h' (A(p := None))"
    "contents_kept c (A(p := None)) h h'" "base_ptr h' = base_ptr h"
    using buddy_free_ok[OF r assms(2)] by blast
  have "base_ptr h \<noteq> 0" using max_ptr_pos repr_used[OF r assms(2)] buddy_stateD(1) by metis
  then show ?thesis using h' all_free[of c mapping_good h'] by (intro exI[of _ h']) auto
qed

theorem heap_free_correct_witness:
  "\<exists>h h'. heap_reach example_config example_mmap example_mremap h [4224 \<mapsto> 5] \<and>
    buddy_free example_config 4224 h = Some h' \<and> ld (bucket_at (bucket_limit h') h') h' = Some (base_ptr h')"
proof -
  obtain h where h: "heap_reach example_config example_mmap example_mremap h [4224 \<mapsto> 5]" using example_used by blast
  then show ?thesis using heap_free_correct[OF h, of 4224 5] by auto
qed

text \<open>
  C20.  \<open>resize\<close> keeps the block exactly if the new size belongs to a block of the same size, and then only
  its header changes.  A request above \<open>2 ^ 63 - 8\<close> and below \<open>2 ^ 64 - 8\<close> never returns, because the size
  that is doubled to reach it wraps around to 0.  For the last eight requests the sum with the size of
  the header wraps around instead, and the request counts as one for the smallest block, which then
  has it in its header.
\<close>

theorem heap_resize_correct:
  assumes "heap_reach c mmap mremap h A" and "A p = Some s"
  shows "(if 2 ^ 63 < unat (request + 8) then buddy_resize c p request h = None
    else \<exists>h'. buddy_resize c p request h = Some (h', block_bytes c (unat request) = block_bytes c s) \<and>
      contents_kept c A h h' \<and>
      buddy_size p h' = Some (if block_bytes c (unat request) = block_bytes c s then unat request else s)) \<and>
    (2 ^ 63 < unat (request + 8) \<longleftrightarrow> 2 ^ 63 < unat request + 8 \<and> unat request + 8 < 2 ^ 64) \<and>
    (2 ^ 64 \<le> unat request + 8 \<longrightarrow> block_bytes c (unat request) = 2 ^ min_log2 c)"
proof -
  have sz: "buddy_size p h' = Some z" if "buddy_repr c mapping_good h' B" "B p = Some z" for h' :: "'a mapping buddy" and B z
    using repr_ptr[OF that] by (simp add: buddy_size_def)
  have c: "config_ok c" using heap_reach_repr[OF assms(1)] by (simp add: buddy_repr_def)
  have "unat request < 2 ^ 64" using unsigned_less[of request] by simp
  then have "2 ^ 63 < unat (request + 8) \<longleftrightarrow> 2 ^ 63 < unat request + 8 \<and> unat request + 8 < 2 ^ 64"
    unfolding unat_plus8 by (simp split: if_split) linarith
  then show ?thesis
    using buddy_resize_ok[OF heap_reach_repr[OF assms(1)] assms(2), of request] sz assms(2)
      block_bytes_wrap[OF c, of request]
    by (auto split: if_splits)
qed

theorem heap_resize_correct_witness:
  "\<exists>h. heap_reach example_config example_mmap example_mremap h [4224 \<mapsto> 5] \<and>
    buddy_resize example_config 4224 (2 ^ 63) h = None"
proof -
  obtain h where h: "heap_reach example_config example_mmap example_mremap h [4224 \<mapsto> 5]" using example_used by blast
  have "(2::nat) ^ 63 < unat (2 ^ 63 + 8 :: u64)" by simp
  then show ?thesis using h heap_resize_correct[OF h, of 4224 5 "2 ^ 63"] by auto
qed

end
