(* ===== verification/RandomNumbers.thy ===== *)
theory RandomNumbers
  imports Prelude
begin

text \<open>
  include/dlh/random.hpp: the Mersenne Twister \<open>Random\<close>.

  The state is an array of 624 words that is rewritten in place when its end is reached.  Its
  specification is the linear recurrence over one endless sequence of words; the numbers are the
  tempered words of it.
\<close>

definition MT_N :: nat where "MT_N = 624"
definition MT_M :: nat where "MT_M = 397"
definition MT_A :: u32 where "MT_A = 0x9908B0DF"
definition MT_F :: u32 where "MT_F = 1812433253"
definition MASK_LOWER :: u32 where "MASK_LOWER = push_bit 31 1 - 1"
definition MASK_UPPER :: u32 where "MASK_UPPER = push_bit 31 1"

record random =
  mt :: "u32 list"
  index :: u16

section \<open>The generator\<close>

fun seed_loop :: "nat \<Rightarrow> nat \<Rightarrow> u32 list \<Rightarrow> u32 list" where
  "seed_loop 0 i xs = xs"
| "seed_loop (Suc n) i xs = seed_loop n (i + 1)
     (xs[i := MT_F * (xs ! (i - 1) XOR drop_bit 30 (xs ! (i - 1))) + of_nat i])"

definition random_set :: "u32 \<Rightarrow> random \<Rightarrow> random" where
  "random_set seed r = \<lparr>mt = seed_loop (MT_N - 1) 1 ((mt r)[0 := seed]), index = of_nat MT_N\<rparr>"

text \<open>The constructor; the array it starts from is not initialized.\<close>

definition random_new :: "u32 \<Rightarrow> u32 list \<Rightarrow> random" where
  "random_new seed garbage = random_set seed \<lparr>mt = garbage, index = 0\<rparr>"

fun twist_loop :: "nat \<Rightarrow> nat \<Rightarrow> u32 list \<Rightarrow> u32 list" where
  "twist_loop 0 i xs = xs"
| "twist_loop (Suc n) i xs = (
     let x = (xs ! i AND MASK_UPPER) + (xs ! ((i + 1) mod MT_N) AND MASK_LOWER);
         xA = drop_bit 1 x;
         xA = (if x AND 0x1 \<noteq> 0 then xA XOR MT_A else xA)
     in twist_loop n (i + 1) (xs[i := xs ! ((i + MT_M) mod MT_N) XOR xA]))"

definition temper :: "u32 \<Rightarrow> u32" where
  "temper y = (
     let y = y XOR drop_bit 11 y;
         y = y XOR (push_bit 7 y AND 0x9D2C5680);
         y = y XOR (push_bit 15 y AND 0xEFC60000)
     in y XOR drop_bit 18 y)"

text \<open>\<open>number\<close>; an index outside of the array would be \<open>None\<close>.\<close>

definition random_number :: "random \<Rightarrow> (random \<times> u32) option" where
  "random_number r = (
     let (v, r) = (if unat (index r) \<ge> MT_N then (0, r\<lparr>mt := twist_loop MT_N 0 (mt r), index := 0\<rparr>) else (index r, r))
     in do {
       assert_that (unat v < length (mt r));
       Some (r\<lparr>index := v + 1\<rparr>, temper (mt r ! unat v))
     })"

fun random_numbers :: "nat \<Rightarrow> random \<Rightarrow> (random \<times> u32 list) option" where
  "random_numbers 0 r = Some (r, [])"
| "random_numbers (Suc n) r = do {
     (r, x) \<leftarrow> random_number r;
     (r, xs) \<leftarrow> random_numbers n r;
     Some (r, x # xs)
   }"

section \<open>The recurrence\<close>

primrec mt_seed :: "u32 \<Rightarrow> nat \<Rightarrow> u32" where
  "mt_seed seed 0 = seed"
| "mt_seed seed (Suc i) = 1812433253 * (mt_seed seed i XOR drop_bit 30 (mt_seed seed i)) + of_nat (Suc i)"

definition mt_mix :: "u32 \<Rightarrow> u32 \<Rightarrow> u32" where
  "mt_mix u v = (let x = (u AND 0x80000000) + (v AND 0x7FFFFFFF)
     in if odd x then drop_bit 1 x XOR 0x9908B0DF else drop_bit 1 x)"

function mt_seq :: "u32 \<Rightarrow> nat \<Rightarrow> u32" where
  "mt_seq seed n = (if n < 624 then mt_seed seed n
     else mt_seq seed (n - 227) XOR mt_mix (mt_seq seed (n - 624)) (mt_seq seed (n - 623)))"
  by auto
termination
  by (relation "measure snd") auto

declare mt_seq.simps [simp del]

lemma mt_seq_start: "n < 624 \<Longrightarrow> mt_seq seed n = mt_seed seed n"
  by (subst mt_seq.simps) simp

lemma mt_seq_step: "mt_seq seed (k + 624) = mt_seq seed (k + 397) XOR mt_mix (mt_seq seed k) (mt_seq seed (k + 1))"
  by (subst mt_seq.simps) (simp add: add.commute)

lemma seed_loop_ok:
  assumes "\<forall>j<i. xs ! j = mt_seed seed j" and "0 < i" and "i + n \<le> length xs"
  shows "length (seed_loop n i xs) = length xs \<and> (\<forall>j<i + n. seed_loop n i xs ! j = mt_seed seed j)"
  using assms
proof (induction n arbitrary: i xs)
  case (Suc n)
  let ?x = "MT_F * (xs ! (i - 1) XOR drop_bit 30 (xs ! (i - 1))) + of_nat i"
  obtain i' where i': "i = Suc i'" using Suc.prems(2) by (cases i) auto
  then have "?x = mt_seed seed i" using Suc.prems(1) by (simp add: MT_F_def)
  then have "\<forall>j<i + 1. xs[i := ?x] ! j = mt_seed seed j"
    using Suc.prems by (auto simp: nth_list_update less_Suc_eq)
  from Suc.IH[OF this] show ?case using Suc.prems by simp
qed simp

text \<open>In round \<open>r\<close> the loop has replaced the words below \<open>i\<close> by those of the next round.\<close>

definition twisting :: "u32 \<Rightarrow> nat \<Rightarrow> nat \<Rightarrow> u32 list \<Rightarrow> bool" where
  "twisting seed r i xs \<longleftrightarrow> length xs = 624 \<and>
     (\<forall>j<624. xs ! j = mt_seq seed (624 * (if j < i then r + 1 else r) + j))"

lemma twist_mix: "(let x = (u AND MASK_UPPER) + (v AND MASK_LOWER); xA = drop_bit 1 x
    in if x AND 0x1 \<noteq> 0 then xA XOR MT_A else xA) = mt_mix u v"
  by (simp add: mt_mix_def Let_def MASK_UPPER_def MASK_LOWER_def MT_A_def and_one_eq odd_iff_mod_2_eq_one)

lemma twist_loop_ok: "twisting seed r i xs \<Longrightarrow> i + n = 624 \<Longrightarrow> twisting seed r 624 (twist_loop n i xs)"
proof (induction n arbitrary: i xs)
  case (Suc n)
  let ?u = "xs ! i" and ?v = "xs ! ((i + 1) mod MT_N)" and ?w = "xs ! ((i + MT_M) mod MT_N)"
  note t = Suc.prems(1)[unfolded twisting_def]
  have i: "i < 624" using Suc.prems(2) by simp
  have u: "?u = mt_seq seed (624 * r + i)" using t i by simp
  have v: "?v = mt_seq seed (624 * r + i + 1)"
  proof (cases "i = 623")
    case True
    then show ?thesis using t by (simp add: MT_N_def algebra_simps)
  next
    case False
    then show ?thesis using t i by (simp add: MT_N_def)
  qed
  have w: "?w = mt_seq seed (624 * r + i + 397)"
  proof (cases "i < 227")
    case True
    then show ?thesis using t by (simp add: MT_N_def MT_M_def add.assoc)
  next
    case False
    then have "(i + 397) mod 624 = i - 227" using i by (simp add: le_mod_geq)
    moreover have "624 * (r + 1) + (i - 227) = 624 * r + i + 397" using False by simp
    ultimately show ?thesis using t i False by (simp add: MT_N_def MT_M_def add_ac)
  qed
  have "?w XOR mt_mix ?u ?v = mt_seq seed (624 * (r + 1) + i)"
    using mt_seq_step[of seed "624 * r + i"] u v w by (simp add: algebra_simps)
  then have "twisting seed r (i + 1) (xs[i := ?w XOR mt_mix ?u ?v])"
    using t i unfolding twisting_def by (auto simp: nth_list_update)
  from Suc.IH[OF this] show ?case using Suc.prems(2) twist_mix[of ?u ?v] by (simp add: Let_def)
qed simp

text \<open>The state after \<open>k\<close> numbers.\<close>

definition random_at :: "u32 \<Rightarrow> nat \<Rightarrow> random \<Rightarrow> bool" where
  "random_at seed k r \<longleftrightarrow> (\<exists>q. twisting seed q 0 (mt r) \<and> unat (index r) \<le> 624 \<and> 624 * q + unat (index r) = 624 + k)"

lemma random_number_ok:
  assumes "random_at seed k r"
  shows "\<exists>r'. random_number r = Some (r', temper (mt_seq seed (624 + k))) \<and> random_at seed (k + 1) r'"
proof -
  obtain q where q: "twisting seed q 0 (mt r)" "unat (index r) \<le> 624" "624 * q + unat (index r) = 624 + k"
    using assms by (auto simp: random_at_def)
  have inc: "unat (v + 1) = unat v + 1" if "unat v < 624" for v :: u16
    using that by (intro unat_plus_simple[THEN iffD1, THEN trans] ) (auto simp: no_olen_add_nat)
  show ?thesis
  proof (cases "unat (index r) = 624")
    case True
    have "twisting seed q 624 (twist_loop 624 0 (mt r))" using twist_loop_ok[OF q(1), of 624] by simp
    then have t: "twisting seed (q + 1) 0 (twist_loop 624 0 (mt r))" unfolding twisting_def by auto
    moreover from t have "twist_loop 624 0 (mt r) \<noteq> []" by (auto simp: twisting_def)
    ultimately show ?thesis
      using True q(3) inc[of 0]
      by (auto simp: random_number_def MT_N_def random_at_def twisting_def intro!: exI[of _ "q + 1"])
  next
    case False
    then have i: "unat (index r) < 624" using q(2) by simp
    then have "mt r ! unat (index r) = mt_seq seed (624 + k)" "length (mt r) = 624"
      using q(1,3) unfolding twisting_def by auto
    then show ?thesis
      using i q inc[OF i] by (auto simp: random_number_def MT_N_def random_at_def intro!: exI[of _ q])
  qed
qed

lemma random_set_at:
  assumes "length (mt r) = 624"
  shows "random_at seed 0 (random_set seed r)"
proof -
  have "length (seed_loop 623 1 ((mt r)[0 := seed])) = 624 \<and>
      (\<forall>j<624. seed_loop 623 1 ((mt r)[0 := seed]) ! j = mt_seed seed j)"
    using seed_loop_ok[of 1 "(mt r)[0 := seed]" seed 623] assms by simp
  then have "twisting seed 0 0 (mt (random_set seed r))"
    by (simp add: random_set_def MT_N_def twisting_def mt_seq_start)
  then show ?thesis by (auto simp: random_at_def random_set_def MT_N_def intro!: exI[of _ 0])
qed

lemma random_numbers_ok:
  assumes "random_at seed k r"
  shows "\<exists>r'. random_numbers n r = Some (r', map (\<lambda>i. temper (mt_seq seed (624 + i))) [k..<k + n]) \<and> random_at seed (k + n) r'"
  using assms
proof (induction n arbitrary: k r)
  case (Suc n)
  obtain r1 where r1: "random_number r = Some (r1, temper (mt_seq seed (624 + k)))" "random_at seed (k + 1) r1"
    using random_number_ok[OF Suc.prems] by blast
  then show ?case using Suc.IH[OF r1(2)] by (auto simp: upt_conv_Cons simp del: upt_Suc)
qed simp

text \<open>
  C23.  Whatever is in the array before, seeding it makes the generator return the tempered words of the
  recurrence of the Mersenne Twister in order, for any number of calls: rewriting the array in place
  is the same as the recurrence on one endless sequence.
\<close>

theorem random_numbers_correct:
  assumes "length garbage = 624"
  shows "map_option snd (random_numbers n (random_new seed garbage)) =
    Some (map (\<lambda>i. temper (mt_seq seed (624 + i))) [0..<n])"
proof -
  have "random_at seed 0 (random_new seed garbage)"
    unfolding random_new_def by (rule random_set_at) (simp add: assms)
  from random_numbers_ok[OF this, of n] show ?thesis by auto
qed

theorem random_numbers_correct_witness:
  "map_option snd (random_numbers 1 (random_new 5489 (replicate 624 0))) = Some [temper (mt_seq 5489 624)]"
  using random_numbers_correct[of "replicate 624 0" 1 5489] by simp

end
