(* ===== verification/MemoryBytes.thy ===== *)
theory MemoryBytes
  imports Prelude
begin

text \<open>
  include/dlh/mem.hpp: copying, moving, filling and comparing memory byte by byte.  The memory is a
  function from addresses to bytes; the loops are those of the code, with the number of rounds left.
\<close>

type_synonym bytes = "nat \<Rightarrow> u8"

fun copy_up :: "nat \<Rightarrow> nat \<Rightarrow> nat \<Rightarrow> nat \<Rightarrow> bytes \<Rightarrow> bytes" where
  "copy_up dest src i 0 m = m"
| "copy_up dest src i (Suc n) m = copy_up dest src (i + 1) n (m(dest + i := m (src + i)))"

fun copy_down :: "nat \<Rightarrow> nat \<Rightarrow> nat \<Rightarrow> bytes \<Rightarrow> bytes" where
  "copy_down dest src 0 m = m"
| "copy_down dest src (Suc i) m = copy_down dest src i (m(dest + i := m (src + i)))"

definition mem_copy :: "nat \<Rightarrow> nat \<Rightarrow> nat \<Rightarrow> bytes \<Rightarrow> bytes" where
  "mem_copy dest src n m = copy_up dest src 0 n m"

definition mem_move :: "nat \<Rightarrow> nat \<Rightarrow> nat \<Rightarrow> bytes \<Rightarrow> bytes" where
  "mem_move dest src n m = (if src > dest then copy_up dest src 0 n m else copy_down dest src n m)"

fun set_up :: "nat \<Rightarrow> u8 \<Rightarrow> nat \<Rightarrow> nat \<Rightarrow> bytes \<Rightarrow> bytes" where
  "set_up dest c i 0 m = m"
| "set_up dest c i (Suc n) m = set_up dest c (i + 1) n (m(dest + i := c))"

text \<open>The pattern is an \<open>int\<close> of which the low byte is used.\<close>

definition mem_set :: "nat \<Rightarrow> 32 word \<Rightarrow> nat \<Rightarrow> bytes \<Rightarrow> bytes" where
  "mem_set dest pattern n m = set_up dest (ucast pattern) 0 n m"

fun compare_up :: "nat \<Rightarrow> nat \<Rightarrow> nat \<Rightarrow> nat \<Rightarrow> bytes \<Rightarrow> int" where
  "compare_up s1 s2 i 0 m = 0"
| "compare_up s1 s2 i (Suc n) m =
     (if m (s1 + i) \<noteq> m (s2 + i) then uint (m (s1 + i)) - uint (m (s2 + i)) else compare_up s1 s2 (i + 1) n m)"

definition mem_compare :: "nat \<Rightarrow> nat \<Rightarrow> nat \<Rightarrow> bytes \<Rightarrow> int" where
  "mem_compare s1 s2 n m = compare_up s1 s2 0 n m"

text \<open>Two objects of the given sizes; the difference of the sizes is a \<open>size_t\<close> that is cut to an \<open>int\<close>.\<close>

definition mem_compare_objects :: "nat \<Rightarrow> nat \<Rightarrow> nat \<Rightarrow> nat \<Rightarrow> bytes \<Rightarrow> int" where
  "mem_compare_objects s1 n1 s2 n2 m = (let r = mem_compare s1 s2 (min n1 n2) m
     in if r = 0 then sint (ucast (of_nat n2 - of_nat n1 :: u64) :: 32 word) else r)"

section \<open>What they do\<close>

text \<open>Memory with the bytes from \<open>src\<close> also at \<open>dest\<close>.\<close>

definition copied :: "nat \<Rightarrow> nat \<Rightarrow> nat \<Rightarrow> bytes \<Rightarrow> bytes" where
  "copied dest src n m = (\<lambda>a. if dest \<le> a \<and> a < dest + n then m (src + (a - dest)) else m a)"

lemma copied_none [simp]: "copied dest src 0 m = m"
  by (auto simp: copied_def fun_eq_iff)

lemma copy_up_ok: "dest < src \<or> src + i + n \<le> dest \<Longrightarrow> copy_up dest src i n m = copied (dest + i) (src + i) n m"
proof (induction n arbitrary: i m)
  case (Suc n)
  have "copied (dest + (i + 1)) (src + (i + 1)) n (m(dest + i := m (src + i))) = copied (dest + i) (src + i) (Suc n) m"
    using Suc.prems by (auto simp: copied_def fun_eq_iff intro!: arg_cong[of _ _ m])
  then show ?case using Suc.IH[of "i + 1" "m(dest + i := m (src + i))"] Suc.prems
    by (simp add: add.assoc del: fun_upd_apply)
qed simp

lemma copy_down_ok: "src \<le> dest \<Longrightarrow> copy_down dest src i m = copied dest src i m"
proof (induction i arbitrary: m)
  case (Suc i)
  have "copied dest src i (m(dest + i := m (src + i))) = copied dest src (Suc i) m"
    using Suc.prems by (auto simp: copied_def fun_eq_iff less_Suc_eq)
  then show ?case using Suc by (simp del: fun_upd_apply)
qed simp

text \<open>\<open>move\<close> is right however the areas overlap, \<open>copy\<close> if the end of the source does not reach the destination.\<close>

theorem mem_move_correct: "mem_move dest src n m = copied dest src n m"
  using copy_up_ok[of dest src 0 n m] copy_down_ok[of src dest n m] by (simp add: mem_move_def)

theorem mem_copy_correct:
  assumes "dest \<le> src \<or> src + n \<le> dest"
  shows "mem_copy dest src n m = copied dest src n m"
proof (cases "dest = src")
  case True
  have "copy_up src src i n m = m" for i by (induction n arbitrary: i) simp_all
  then show ?thesis using True by (auto simp: mem_copy_def copied_def)
next
  case False
  then show ?thesis using copy_up_ok[of dest src 0 n m] assms by (auto simp: mem_copy_def)
qed

lemma set_up_ok: "set_up dest c i n m = (\<lambda>a. if dest + i \<le> a \<and> a < dest + i + n then c else m a)"
  by (induction n arbitrary: i m) (auto simp: fun_eq_iff)

theorem mem_set_correct:
  "mem_set dest pattern n m = (\<lambda>a. if dest \<le> a \<and> a < dest + n then ucast pattern else m a)"
  by (simp add: mem_set_def set_up_ok)

text \<open>The sign of a comparison is that of the first difference.\<close>

lemma compare_up_ok:
  "(compare_up s1 s2 i n m = 0 \<and> (\<forall>j<n. m (s1 + i + j) = m (s2 + i + j))) \<or>
   (\<exists>k<n. (\<forall>j<k. m (s1 + i + j) = m (s2 + i + j)) \<and> m (s1 + i + k) \<noteq> m (s2 + i + k) \<and>
      compare_up s1 s2 i n m = uint (m (s1 + i + k)) - uint (m (s2 + i + k)))"
proof (induction n arbitrary: i)
  case (Suc n)
  show ?case
  proof (cases "m (s1 + i) = m (s2 + i)")
    case False
    then show ?thesis by (intro disjI2 exI[of _ 0]) simp
  next
    case True
    have all: "(\<forall>j<Suc k. m (s1 + i + j) = m (s2 + i + j)) \<longleftrightarrow> (\<forall>j<k. m (s1 + (i + 1) + j) = m (s2 + (i + 1) + j))" for k
      using True by (simp add: All_less_Suc2)
    from Suc.IH[of "i + 1"] show ?thesis
    proof
      assume "compare_up s1 s2 (i + 1) n m = 0 \<and> (\<forall>j<n. m (s1 + (i + 1) + j) = m (s2 + (i + 1) + j))"
      then show ?thesis using True all[of n] by auto
    next
      assume "\<exists>k<n. (\<forall>j<k. m (s1 + (i + 1) + j) = m (s2 + (i + 1) + j)) \<and> m (s1 + (i + 1) + k) \<noteq> m (s2 + (i + 1) + k) \<and>
        compare_up s1 s2 (i + 1) n m = uint (m (s1 + (i + 1) + k)) - uint (m (s2 + (i + 1) + k))"
      then obtain k where "k < n" "\<forall>j<k. m (s1 + (i + 1) + j) = m (s2 + (i + 1) + j)"
        "m (s1 + (i + 1) + k) \<noteq> m (s2 + (i + 1) + k)"
        "compare_up s1 s2 (i + 1) n m = uint (m (s1 + (i + 1) + k)) - uint (m (s2 + (i + 1) + k))"
        by blast
      then show ?thesis using True all[of k] by (intro disjI2 exI[of _ "Suc k"]) auto
    qed
  qed
qed simp

lemma byte_difference:
  fixes x y :: u8
  shows "uint x - uint y = 0 \<longleftrightarrow> x = y" "uint x - uint y < 0 \<longleftrightarrow> x < y"
  by (auto simp: word_less_alt word_uint_eq_iff)

text \<open>There is at most one first difference.\<close>

lemma first_difference_unique:
  fixes f g :: "nat \<Rightarrow> 'a"
  assumes "\<forall>i<j. f i = g i" "f j \<noteq> g j" "\<forall>i<k. f i = g i" "f k \<noteq> g k"
  shows "j = k"
  using assms by (cases j k rule: linorder_cases) blast+

theorem mem_compare_correct:
  "mem_compare s1 s2 n m = 0 \<longleftrightarrow> (\<forall>j<n. m (s1 + j) = m (s2 + j))"
proof -
  from compare_up_ok[of s1 s2 0 n m] show ?thesis
  proof
    assume "compare_up s1 s2 0 n m = 0 \<and> (\<forall>j<n. m (s1 + 0 + j) = m (s2 + 0 + j))"
    then show ?thesis by (simp add: mem_compare_def)
  next
    assume "\<exists>k<n. (\<forall>j<k. m (s1 + 0 + j) = m (s2 + 0 + j)) \<and> m (s1 + 0 + k) \<noteq> m (s2 + 0 + k) \<and>
      compare_up s1 s2 0 n m = uint (m (s1 + 0 + k)) - uint (m (s2 + 0 + k))"
    then obtain k where "k < n" "m (s1 + k) \<noteq> m (s2 + k)"
      "mem_compare s1 s2 n m = uint (m (s1 + k)) - uint (m (s2 + k))" by (auto simp: mem_compare_def)
    then show ?thesis using byte_difference(1)[of "m (s1 + k)" "m (s2 + k)"] by auto
  qed
qed

theorem mem_compare_less:
  "mem_compare s1 s2 n m < 0 \<longleftrightarrow> (\<exists>k<n. (\<forall>j<k. m (s1 + j) = m (s2 + j)) \<and> m (s1 + k) < m (s2 + k))"
proof -
  from compare_up_ok[of s1 s2 0 n m] show ?thesis
  proof
    assume "compare_up s1 s2 0 n m = 0 \<and> (\<forall>j<n. m (s1 + 0 + j) = m (s2 + 0 + j))"
    then show ?thesis by (auto simp: mem_compare_def)
  next
    assume "\<exists>k<n. (\<forall>j<k. m (s1 + 0 + j) = m (s2 + 0 + j)) \<and> m (s1 + 0 + k) \<noteq> m (s2 + 0 + k) \<and>
      compare_up s1 s2 0 n m = uint (m (s1 + 0 + k)) - uint (m (s2 + 0 + k))"
    then obtain k where k: "k < n" "\<forall>j<k. m (s1 + j) = m (s2 + j)" "m (s1 + k) \<noteq> m (s2 + k)"
      "mem_compare s1 s2 n m = uint (m (s1 + k)) - uint (m (s2 + k))" by (auto simp: mem_compare_def)
    have iff: "mem_compare s1 s2 n m < 0 \<longleftrightarrow> m (s1 + k) < m (s2 + k)"
      using k(4) byte_difference(2)[of "m (s1 + k)" "m (s2 + k)"] by simp
    have unique: "j = k" if "\<forall>i<j. m (s1 + i) = m (s2 + i)" "m (s1 + j) < m (s2 + j)" for j
      using first_difference_unique[OF that(1) _ k(2) k(3)] that(2) by (simp add: less_imp_neq)
    show ?thesis unfolding iff using k(1,2) unique by blast
  qed
qed

end
