(* ===== verification/Spec2Isabelle.thy ===== *)
theory Spec2Isabelle
  imports TreeTheorems HashTheorems Sequences StringTheorems StringEditTheorems ParseTheorems XXHashTheorems Endianness
    Locks ReadersWriter DateTheorems FormatText BuddyTheorems RandomNumbers MemoryBytes
begin

text \<open>
  DLH (Dirty Little Helper) is a support library for freestanding C++ programs: containers, strings,
  number parsing, hashing, locks, dates and system calls without the C library.  This development
  models the parts of it that compute, each from its source file, and proves what they do.

  \<^bold>\<open>Conventions.\<close>  A C++ object is a record, an enumeration a datatype, an array a function from
  indices (or a list of bytes, where pointers into it are offsets).  A method is a function from the
  old object to the new one.  \<open>None\<close> of the option type is what the source leaves undefined or stops
  at: a failed \<open>assert\<close>, a read or write outside of an array, a division by zero, a null pointer that
  is followed, or a loop that does not end (\<open>partial_function\<close>).  So \<open>f x = Some y\<close> always says that the
  code returns and that it stays within its memory.  Integers that can overflow are words of their
  width; sizes that cannot are natural numbers, with the limit as a hypothesis (the capacity of a
  container, the precision of a number, the bucket of a block and the like never come near their
  width in a state that fits into memory).  Memory that an allocation returns is a parameter, and so
  is whether it succeeds.

  \<^bold>\<open>Foundations.\<close>  Prelude: failing asserts and lemmas on options, lists and intervals.  Words: facts on
  32 bit sizes.  Comparison (include/dlh/comparison.hpp): the three way comparison with the locale for
  the order that it must be.  Hashing (the same file): hashes and equality, with the locale for the two
  fitting together.

  \<^bold>\<open>Element slots and balanced tree\<close> (include/dlh/container/internal/elements.hpp and tree.hpp).
  Elements: the array of slots with the number of used slots.  TreeSet: \<open>TreeSet\<close>, an AVL tree whose
  links are indices into the slots.  TreeShape and TreeSpec: the abstract tree that the links form and
  the invariant \<open>tree_repr\<close>; TreeSearch, TreeRotate, TreeInsert, TreeErase, TreeOps and TreeProps: each
  operation follows the abstract tree; TreeTheorems: the set as a sorted list, its height bound, the
  check function of the code, iteration, and compaction; its inductive \<open>tree_reach\<close> are the states that
  the operations lead to.

  \<^bold>\<open>Hash set\<close> (hash.hpp).  HashSet: \<open>HashSet\<close>, buckets of chains of slots.  HashShape, HashSpec and
  HashProps: the chains and the invariant \<open>hash_repr\<close> with the multiset of values; HashTheorems.  Maps:
  \<open>TreeMap\<close> and \<open>HashMap\<close> on both sets through one locale for a set of keys, as finite maps.

  \<^bold>\<open>Sequences\<close> (vector.hpp and list.hpp).  Vector and VectorProps: a vector whose cells are alive or not.
  LinkedList and LinkedListProps: the list whose nodes are addresses in a store.  Sequences: the theorems,
  and the locale for a sequence that is emptied from its ends.

  \<^bold>\<open>Strings\<close> (src/string.cpp, include/dlh/string.hpp).  Strings: blocks of characters, length, comparison and
  search.  StringEdit: copying, concatenating, replacing and splitting.  StringProps, StringTheorems,
  StringEditProps and StringEditTheorems: the first terminating zero bounds every access; searching,
  replacing and splitting as functions on lists.

  \<^bold>\<open>Numbers\<close> (src/parser/string.cpp, include/dlh/endian.hpp, include/dlh/xxhash.hpp).  ParseNumber and
  ParseTheorems: text to integers of each width.  Endianness: byte swaps.  XXHash and XXHashTheorems: the
  streaming hash, which gives the value of the whole data however it is cut into pieces.

  \<^bold>\<open>Locks\<close> (src/mutex.cpp, include/dlh/rwlock.hpp).  Locks: the futex mutex, ReadersWriter: the readers-writer
  lock on two mutexes; step relations with one program counter per thread, any number of threads, and
  invariants by rule induction.  Memory is sequentially consistent in them.  A mutex may be given back by
  another thread than the one that took it, as the readers-writer lock does; its counter of readers has
  32 bits, so its theorem is for fewer than \<open>2 ^ 32\<close> threads.

  \<^bold>\<open>Dates\<close> (src/datetime.cpp, include/dlh/datetime.hpp).  Dates and DateTheorems: seconds to dates and back,
  compared with the Gregorian calendar.

  \<^bold>\<open>Output streams\<close> (src/stream/buffer.cpp, include/dlh/stream/buffer.hpp and output.hpp).  BufferStream: the
  buffer with its options, the printing of numbers, characters and strings, and \<open>format\<close> as the state
  machine of the source, whose variable arguments are a list of tagged values.  StreamProps has the
  locale \<open>stream_sink\<close> for what printing needs of a \<open>flush\<close>, and StreamNumbers the digits; StreamSinks
  interprets the locale for the buffer that drops what does not fit and for the file descriptor, whose
  system call \<open>write\<close> is a parameter.  StreamTheorems: what is printed, and that ParseNumber reads it
  back.  FormatTheorems: a format string is a sequence of parts, and the state machine treats them one
  by one.  FormatText: the text that a part prints with its arguments, as a function that does not use
  the code.  WordFacts: facts on words and digits.

  \<^bold>\<open>Memory\<close> (src/alloc_buddy.hpp, reserve_mmap of src/mem.cpp, include/dlh/mem.hpp).  Buddy: the buddy allocator
  on a memory of 8 byte words, and its callback that extends a mapping, with the answers of the kernel
  as parameters.  BuddyLists: the circular free lists; BuddyTree: the tree of blocks that the split flags
  describe; BuddyCore, BuddyFlags and BuddyOps: the invariant and single steps on it; BuddyLoops and BuddyMalloc:
  the loops, with the locale \<open>memory_reserve\<close> for the callback; BuddyProps: the allocator as a map from
  addresses to sizes; BuddyTheorems: its states under a program that calls it and writes into its blocks,
  for templates with \<open>4 \<le> MIN\<close>, \<open>MIN + 3 \<le> MAX\<close> and \<open>MAX < 63\<close>.  MemoryBytes: copying, moving, setting and
  comparing bytes.

  \<^bold>\<open>Random numbers\<close> (include/dlh/random.hpp).  RandomNumbers: the Mersenne Twister, whose array rewritten in place
  gives the words of one recurrence.

  \<^bold>\<open>Not modelled.\<close>  System calls and what only wraps them (files, directories, sockets, threads, start of
  the process, log): their effect is the kernel's.  The interface of the allocator in mem.cpp (\<open>alloc\<close>,
  \<open>free\<close> and \<open>realloc\<close>, which use mappings of their own for large blocks) and the callback on program
  breaks of the legacy build; the parsers for arguments, archives and configuration files; and the
  forwarding C interface.  Move constructors and the iterator wrappers of the containers are modelled
  where they do more than copy fields.
\<close>

end
